(* ===== verification/Prelude.thy ===== *)
theory Prelude
  imports Main
    "HOL-Library.Word"
    "HOL-Library.Multiset"
    "HOL-Library.Char_ord"
    "HOL-Library.List_Lexorder"
    "HOL-Library.Product_Lexorder"
begin

text \<open>
  Shared vocabulary of the development: the named collections of facts, the result type of
  fallible code (\<open>Inl\<close> the error, \<open>Inr\<close> the value), the association lists that
  stand for the \<open>HashMap\<close>s whose iteration order the code exposes, and generic facts on
  lists, sums and 32-bit versions. Product and list orders come from the library: they are
  the derived \<open>Ord\<close> of Rust tuples and the byte order of ASCII strings.
\<close>

named_theorems result_simps \<open>unfolding of the result combinators\<close>
named_theorems hashmap_simps \<open>lookups after updates of association lists\<close>

section \<open>Fallible code\<close>

definition rbind :: "'e + 'a \<Rightarrow> ('a \<Rightarrow> 'e + 'b) \<Rightarrow> 'e + 'b" where
  "rbind r f = (case r of Inl e \<Rightarrow> Inl e | Inr a \<Rightarrow> f a)"

definition rmap :: "('a \<Rightarrow> 'b) \<Rightarrow> 'e + 'a \<Rightarrow> 'e + 'b" where
  "rmap f r = (case r of Inl e \<Rightarrow> Inl e | Inr a \<Rightarrow> Inr (f a))"

definition map_err :: "('e \<Rightarrow> 'f) \<Rightarrow> 'e + 'a \<Rightarrow> 'f + 'a" where
  "map_err f r = (case r of Inl e \<Rightarrow> Inl (f e) | Inr a \<Rightarrow> Inr a)"

definition ok_or :: "'e \<Rightarrow> 'a option \<Rightarrow> 'e + 'a" where
  "ok_or e x = (case x of None \<Rightarrow> Inl e | Some a \<Rightarrow> Inr a)"

text \<open>\<open>opt.map(f).transpose()\<close>: an absent value is fine, a present one may fail.\<close>

definition transpose_opt :: "('e + 'a) option \<Rightarrow> 'e + 'a option" where
  "transpose_opt x = (case x of None \<Rightarrow> Inr None | Some r \<Rightarrow> rmap Some r)"

fun rmap_list :: "('a \<Rightarrow> 'e + 'b) \<Rightarrow> 'a list \<Rightarrow> 'e + 'b list" where
  "rmap_list f [] = Inr []"
| "rmap_list f (x # xs) = rbind (f x) (\<lambda>y. rbind (rmap_list f xs) (\<lambda>ys. Inr (y # ys)))"

fun rfold :: "('s \<Rightarrow> 'a \<Rightarrow> 'e + 's) \<Rightarrow> 's \<Rightarrow> 'a list \<Rightarrow> 'e + 's" where
  "rfold f s [] = Inr s"
| "rfold f s (x # xs) = rbind (f s x) (\<lambda>s'. rfold f s' xs)"

lemma rbind_simps [simp, result_simps]:
  "rbind (Inl e) f = Inl e"
  "rbind (Inr a) f = f a"
  by (simp_all add: rbind_def)

lemma rmap_simps [simp, result_simps]:
  "rmap f (Inl e) = Inl e"
  "rmap f (Inr a) = Inr (f a)"
  by (simp_all add: rmap_def)

lemma map_err_simps [simp, result_simps]:
  "map_err f (Inl e) = Inl (f e)"
  "map_err f (Inr a) = Inr a"
  by (simp_all add: map_err_def)

lemma ok_or_simps [simp, result_simps]:
  "ok_or e None = Inl e"
  "ok_or e (Some a) = Inr a"
  by (simp_all add: ok_or_def)

lemma rbind_Inr_iff: "rbind r f = Inr b \<longleftrightarrow> (\<exists>a. r = Inr a \<and> f a = Inr b)"
  by (cases r) auto

lemma rbind_Inl_iff: "rbind r f = Inl e \<longleftrightarrow> r = Inl e \<or> (\<exists>a. r = Inr a \<and> f a = Inl e)"
  by (cases r) auto

lemma rmap_Inr_iff: "rmap f r = Inr b \<longleftrightarrow> (\<exists>a. r = Inr a \<and> b = f a)"
  by (cases r) auto

lemma map_err_Inr_iff: "map_err f r = Inr b \<longleftrightarrow> r = Inr b"
  by (cases r) auto

lemma map_err_Inl_iff: "map_err f r = Inl e' \<longleftrightarrow> (\<exists>e. r = Inl e \<and> e' = f e)"
  by (cases r) auto

lemma ok_or_Inr_iff: "ok_or e x = Inr a \<longleftrightarrow> x = Some a"
  by (cases x) auto

lemma rbind_cong [fundef_cong]:
  "r = r' \<Longrightarrow> (\<And>a. r' = Inr a \<Longrightarrow> f a = g a) \<Longrightarrow> rbind r f = rbind r' g"
  by (cases r') auto

lemma rmap_list_Inr_iff:
  "rmap_list f xs = Inr ys \<longleftrightarrow> list_all2 (\<lambda>x y. f x = Inr y) xs ys"
  by (induction xs arbitrary: ys) (auto simp: rbind_Inr_iff list_all2_Cons1)

lemma rmap_list_length: "rmap_list f xs = Inr ys \<Longrightarrow> length ys = length xs"
  by (auto simp: rmap_list_Inr_iff list_all2_lengthD)

lemma rfold_append: "rfold f s (xs @ ys) = rbind (rfold f s xs) (\<lambda>s'. rfold f s' ys)"
  by (induction xs arbitrary: s) (auto simp: rbind_def split: sum.splits)

lemma rfold_invariant:
  assumes "rfold f s xs = Inr t" and "P s"
    and "\<And>s x s'. x \<in> set xs \<Longrightarrow> P s \<Longrightarrow> f s x = Inr s' \<Longrightarrow> P s'"
  shows "P t"
  using assms
proof (induction xs arbitrary: s)
  case (Cons x xs)
  from Cons.prems(1) obtain s' where s': "f s x = Inr s'" "rfold f s' xs = Inr t"
    by (auto simp: rbind_Inr_iff)
  from Cons.prems(2,3) s'(1) have "P s'" by auto
  with Cons.IH[OF s'(2)] Cons.prems(3) show ?case by auto
qed simp

text \<open>
  Code that may also panic: \<open>None\<close> is the panic, \<open>Some (Inl e)\<close> the error, \<open>Some (Inr a)\<close> the value.
\<close>

definition pbind :: "('e + 'a) option \<Rightarrow> ('a \<Rightarrow> ('e + 'b) option) \<Rightarrow> ('e + 'b) option" where
  "pbind r f = (case r of None \<Rightarrow> None | Some (Inl e) \<Rightarrow> Some (Inl e) | Some (Inr a) \<Rightarrow> f a)"

fun pfold :: "('s \<Rightarrow> 'a \<Rightarrow> ('e + 's) option) \<Rightarrow> 's \<Rightarrow> 'a list \<Rightarrow> ('e + 's) option" where
  "pfold f s [] = Some (Inr s)"
| "pfold f s (x # xs) = pbind (f s x) (\<lambda>s'. pfold f s' xs)"

text \<open>\<open>expect\<close>: an absent value is a panic.\<close>

definition expect :: "'a option \<Rightarrow> ('e + 'a) option" where
  "expect x = map_option Inr x"

lemma pbind_simps [simp, result_simps]:
  "pbind None f = None"
  "pbind (Some (Inl e)) f = Some (Inl e)"
  "pbind (Some (Inr a)) f = f a"
  by (simp_all add: pbind_def)

lemma expect_simps [simp, result_simps]:
  "expect None = None"
  "expect (Some a) = Some (Inr a)"
  by (simp_all add: expect_def)

lemma pbind_Inr_iff: "pbind r f = Some (Inr b) \<longleftrightarrow> (\<exists>a. r = Some (Inr a) \<and> f a = Some (Inr b))"
  by (auto simp: pbind_def split: option.split sum.split)

lemma pbind_assoc: "pbind (pbind r f) g = pbind r (\<lambda>a. pbind (f a) g)"
  by (simp add: pbind_def split: option.split sum.split)

lemma pfold_append: "pfold f s (xs @ ys) = pbind (pfold f s xs) (\<lambda>s'. pfold f s' ys)"
  by (induction xs arbitrary: s) (simp_all add: pbind_assoc)

lemma pfold_cong [fundef_cong]:
  "s = s' \<Longrightarrow> xs = ys \<Longrightarrow> (\<And>s x. x \<in> set ys \<Longrightarrow> f s x = g s x) \<Longrightarrow> pfold f s xs = pfold g s' ys"
proof -
  assume "s = s'" "xs = ys" and fg: "\<And>s x. x \<in> set ys \<Longrightarrow> f s x = g s x"
  have "pfold f s' ys = pfold g s' ys" using fg
  proof (induction ys arbitrary: s')
    case (Cons y ys)
    then show ?case by (simp add: pbind_def split: option.split sum.split)
  qed simp
  with \<open>s = s'\<close> \<open>xs = ys\<close> show ?thesis by simp
qed

section \<open>Association lists for hash maps\<close>

text \<open>
  \<open>upsert k f m\<close> is \<open>*m.entry(k).or_insert(..) = f(old)\<close>: the value of an existing key
  is replaced in place, a new key goes to the end.
\<close>

fun upsert :: "'k \<Rightarrow> ('v option \<Rightarrow> 'v) \<Rightarrow> ('k \<times> 'v) list \<Rightarrow> ('k \<times> 'v) list" where
  "upsert k f [] = [(k, f None)]"
| "upsert k f ((k', v) # m) = (if k = k' then (k', f (Some v)) # m else (k', v) # upsert k f m)"

text \<open>\<open>m.entry(k).or_default().push(v)\<close> on a map to vectors.\<close>

definition push_to :: "'k \<Rightarrow> 'v \<Rightarrow> ('k \<times> 'v list) list \<Rightarrow> ('k \<times> 'v list) list" where
  "push_to k v = upsert k (\<lambda>old. case old of None \<Rightarrow> [v] | Some vs \<Rightarrow> vs @ [v])"

definition remove_key :: "'k \<Rightarrow> ('k \<times> 'v) list \<Rightarrow> ('k \<times> 'v) list" where
  "remove_key k m = filter (\<lambda>kv. fst kv \<noteq> k) m"

text \<open>\<open>m.get(k).into_iter().flatten()\<close>: the empty list for an absent key.\<close>

definition get_list :: "('k \<rightharpoonup> 'v list) \<Rightarrow> 'k \<Rightarrow> 'v list" where
  "get_list m k = (case m k of None \<Rightarrow> [] | Some vs \<Rightarrow> vs)"

lemma map_of_upsert [simp, hashmap_simps]:
  "map_of (upsert k f m) = (map_of m)(k \<mapsto> f (map_of m k))"
  by (induction m) (auto simp: fun_eq_iff)

lemma set_keys_upsert [simp, hashmap_simps]:
  "fst ` set (upsert k f m) = insert k (fst ` set m)"
  by (induction k f m rule: upsert.induct) (simp_all add: insert_commute)

lemma distinct_keys_upsert [simp, intro]:
  "distinct (map fst m) \<Longrightarrow> distinct (map fst (upsert k f m))"
proof (induction m)
  case (Cons kv m)
  then show ?case
    using set_keys_upsert[of k f m] by (cases kv) (auto simp: image_iff)
qed simp

lemma map_of_remove_key [simp, hashmap_simps]:
  "map_of (remove_key k m) = (map_of m)(k := None)"
  by (induction m) (auto simp: remove_key_def fun_eq_iff)

lemma distinct_keys_remove_key [simp, intro]:
  "distinct (map fst m) \<Longrightarrow> distinct (map fst (remove_key k m))"
  by (simp add: remove_key_def distinct_map_filter)

lemma map_of_push_to [hashmap_simps]:
  "map_of (push_to k v m) = (map_of m)(k \<mapsto> get_list (map_of m) k @ [v])"
  by (auto simp: push_to_def get_list_def fun_eq_iff split: option.splits)

lemma get_list_push_to [simp, hashmap_simps]:
  "get_list (map_of (push_to k v m)) k' =
     (if k' = k then get_list (map_of m) k @ [v] else get_list (map_of m) k')"
  by (auto simp: map_of_push_to get_list_def)

lemma get_list_empty [simp]: "get_list Map.empty k = []"
  by (simp add: get_list_def)

text \<open>
  Pushing a whole list of pairs groups the values by key and keeps their order.
\<close>

definition group_pairs :: "('k \<times> 'v) list \<Rightarrow> ('k \<times> 'v list) list" where
  "group_pairs kvs = foldl (\<lambda>m (k, v). push_to k v m) [] kvs"

lemma get_list_foldl_push:
  "get_list (map_of (foldl (\<lambda>m (k, v). push_to k v m) m kvs)) k =
     get_list (map_of m) k @ map snd (filter (\<lambda>kv. fst kv = k) kvs)"
  by (induction kvs arbitrary: m) auto

lemma get_list_group_pairs [simp, hashmap_simps]:
  "get_list (map_of (group_pairs kvs)) k = map snd (filter (\<lambda>kv. fst kv = k) kvs)"
  by (simp add: group_pairs_def get_list_foldl_push)

lemma keys_foldl_push:
  "fst ` set (foldl (\<lambda>m (k, v). push_to k v m) m kvs) = fst ` set m \<union> fst ` set kvs"
proof (induction kvs arbitrary: m)
  case (Cons kv kvs)
  then show ?case by (cases kv) (simp add: push_to_def)
qed simp

lemma distinct_keys_foldl_push:
  "distinct (map fst m) \<Longrightarrow> distinct (map fst (foldl (\<lambda>m (k, v). push_to k v m) m kvs))"
  by (induction kvs arbitrary: m) (auto simp: push_to_def)

lemma keys_group_pairs [simp]: "fst ` set (group_pairs kvs) = fst ` set kvs"
  by (simp add: group_pairs_def keys_foldl_push)

lemma distinct_keys_group_pairs [simp]: "distinct (map fst (group_pairs kvs))"
  by (simp add: group_pairs_def distinct_keys_foldl_push)

section \<open>Sorted vectors without duplicates\<close>

text \<open>\<open>v.sort_unstable(); v.dedup();\<close>\<close>

definition sort_dedup :: "'a::linorder list \<Rightarrow> 'a list" where
  "sort_dedup xs = remdups_adj (sort xs)"

lemma set_sort_dedup [simp]: "set (sort_dedup xs) = set xs"
  by (simp add: sort_dedup_def)

lemma sorted_sort_dedup [simp]: "sorted (sort_dedup xs)"
  by (simp add: sort_dedup_def sorted_remdups_adj)

lemma distinct_remdups_adj_sorted: "sorted xs \<Longrightarrow> distinct (remdups_adj xs)"
proof (induction xs rule: remdups_adj.induct)
  case (3 x y xs)
  then show ?case by (cases "x = y") (auto simp: less_le)
qed auto

lemma distinct_sort_dedup [simp]: "distinct (sort_dedup xs)"
  by (simp add: sort_dedup_def distinct_remdups_adj_sorted)

lemma length_sort_dedup: "length (sort_dedup xs) \<le> length xs"
  using remdups_adj_length[of "sort xs"] by (simp add: sort_dedup_def)

lemma sort_dedup_cong: "set xs = set ys \<Longrightarrow> sort_dedup xs = sort_dedup ys"
  by (metis distinct_sort_dedup set_sort_dedup sorted_distinct_set_unique sorted_sort_dedup)

lemma sort_key_map: "sort_key f (map g xs) = map g (sort_key (f \<circ> g) xs)"
proof -
  have "insort_key f (g x) (map g ys) = map g (insort_key (f \<circ> g) x ys)" for x ys
    by (induction ys) auto
  then show ?thesis by (induction xs) (auto simp: sort_key_def)
qed

lemma sorted_by_distinct_key:
  assumes "mset xs = mset ys" and "distinct (map f ys)"
  shows "sort_key f xs = sort_key f ys"
proof (rule sort_key_inj_key_eq)
  show "mset xs = mset (sort_key f ys)" using assms(1) by simp
  show "inj_on f (set xs)" using assms by (metis distinct_map mset_eq_setD)
  show "sorted (map f (sort_key f ys))" by simp
qed

section \<open>32-bit versions\<close>

type_synonym u32 = "32 word"

lemma unat_u32_add_of_nat:
  "unat (v :: u32) + n < 2 ^ 32 \<Longrightarrow> unat (v + of_nat n) = unat v + n"
  by (simp add: unat_word_ariths unat_of_nat take_bit_eq_mod)

lemma u32_add_of_nat_less:
  assumes "unat (v :: u32) + n < 2 ^ 32" and "m < n"
  shows "v + of_nat m < v + of_nat n"
  using assms by (simp add: word_less_nat_alt unat_u32_add_of_nat)

end
