(* ===== verification/Primitives.thy ===== *)
theory Primitives imports Prelude begin

text \<open>
  The value types of \<open>cala-ledger-core-types\<close>: identifiers (\<open>primitives.rs\<close>), the two-sided
  enums, currencies, entries (\<open>entry.rs\<close>) and balances (\<open>balance.rs\<close>).

  Identifiers are UUIDs, compared and ordered by their 128 bits. Amounts have type
  \<open>'d\<close>, an ordered commutative group: the arithmetic of \<open>rust_decimal\<close> inside its range,
  where it is exact. Its overflow panic and its rounding past 28 digits are outside the model.
  Instants and calendar days are \<open>int\<close>s: the code only compares and copies them.
\<close>

type_synonym uuid = "128 word"
type_synonym date_time = int
type_synonym naive_date = int

section \<open>Identifiers\<close>

datatype account_id = AccountId (account_uuid: uuid)
datatype account_set_id = AccountSetId (account_set_uuid: uuid)
datatype journal_id = JournalId (journal_uuid: uuid)
datatype tx_template_id = TxTemplateId (tx_template_uuid: uuid)
datatype transaction_id = TransactionId (transaction_uuid: uuid)
datatype entry_id = EntryId (entry_uuid: uuid)
datatype velocity_limit_id = VelocityLimitId (velocity_limit_uuid: uuid)
datatype velocity_control_id = VelocityControlId (velocity_control_uuid: uuid)

text \<open>An account set owns balances through the account that carries its UUID.\<close>

definition account_of_set :: "account_set_id \<Rightarrow> account_id" where
  "account_of_set sid = AccountId (account_set_uuid sid)"

lemma account_of_set_inject [simp]: "account_of_set a = account_of_set b \<longleftrightarrow> a = b"
  by (cases a; cases b) (simp add: account_of_set_def)

instantiation account_id :: linorder
begin
definition less_eq_account_id :: "account_id \<Rightarrow> account_id \<Rightarrow> bool" where
  "less_eq_account_id a b \<longleftrightarrow> account_uuid a \<le> account_uuid b"
definition less_account_id :: "account_id \<Rightarrow> account_id \<Rightarrow> bool" where
  "less_account_id a b \<longleftrightarrow> account_uuid a < account_uuid b"
instance
  by standard (auto simp: less_eq_account_id_def less_account_id_def account_id.expand)
end

instantiation account_set_id :: linorder
begin
definition less_eq_account_set_id :: "account_set_id \<Rightarrow> account_set_id \<Rightarrow> bool" where
  "less_eq_account_set_id a b \<longleftrightarrow> account_set_uuid a \<le> account_set_uuid b"
definition less_account_set_id :: "account_set_id \<Rightarrow> account_set_id \<Rightarrow> bool" where
  "less_account_set_id a b \<longleftrightarrow> account_set_uuid a < account_set_uuid b"
instance
  by standard (auto simp: less_eq_account_set_id_def less_account_set_id_def account_set_id.expand)
end

instantiation journal_id :: linorder
begin
definition less_eq_journal_id :: "journal_id \<Rightarrow> journal_id \<Rightarrow> bool" where
  "less_eq_journal_id a b \<longleftrightarrow> journal_uuid a \<le> journal_uuid b"
definition less_journal_id :: "journal_id \<Rightarrow> journal_id \<Rightarrow> bool" where
  "less_journal_id a b \<longleftrightarrow> journal_uuid a < journal_uuid b"
instance
  by standard (auto simp: less_eq_journal_id_def less_journal_id_def journal_id.expand)
end

instantiation entry_id :: linorder
begin
definition less_eq_entry_id :: "entry_id \<Rightarrow> entry_id \<Rightarrow> bool" where
  "less_eq_entry_id a b \<longleftrightarrow> entry_uuid a \<le> entry_uuid b"
definition less_entry_id :: "entry_id \<Rightarrow> entry_id \<Rightarrow> bool" where
  "less_entry_id a b \<longleftrightarrow> entry_uuid a < entry_uuid b"
instance
  by standard (auto simp: less_eq_entry_id_def less_entry_id_def entry_id.expand)
end

instantiation transaction_id :: linorder
begin
definition less_eq_transaction_id :: "transaction_id \<Rightarrow> transaction_id \<Rightarrow> bool" where
  "less_eq_transaction_id a b \<longleftrightarrow> transaction_uuid a \<le> transaction_uuid b"
definition less_transaction_id :: "transaction_id \<Rightarrow> transaction_id \<Rightarrow> bool" where
  "less_transaction_id a b \<longleftrightarrow> transaction_uuid a < transaction_uuid b"
instance
  by standard (auto simp: less_eq_transaction_id_def less_transaction_id_def transaction_id.expand)
end

instantiation velocity_limit_id :: linorder
begin
definition less_eq_velocity_limit_id :: "velocity_limit_id \<Rightarrow> velocity_limit_id \<Rightarrow> bool" where
  "less_eq_velocity_limit_id a b \<longleftrightarrow> velocity_limit_uuid a \<le> velocity_limit_uuid b"
definition less_velocity_limit_id :: "velocity_limit_id \<Rightarrow> velocity_limit_id \<Rightarrow> bool" where
  "less_velocity_limit_id a b \<longleftrightarrow> velocity_limit_uuid a < velocity_limit_uuid b"
instance
  by standard (auto simp: less_eq_velocity_limit_id_def less_velocity_limit_id_def velocity_limit_id.expand)
end

instantiation velocity_control_id :: linorder
begin
definition less_eq_velocity_control_id :: "velocity_control_id \<Rightarrow> velocity_control_id \<Rightarrow> bool" where
  "less_eq_velocity_control_id a b \<longleftrightarrow> velocity_control_uuid a \<le> velocity_control_uuid b"
definition less_velocity_control_id :: "velocity_control_id \<Rightarrow> velocity_control_id \<Rightarrow> bool" where
  "less_velocity_control_id a b \<longleftrightarrow> velocity_control_uuid a < velocity_control_uuid b"
instance
  by standard (auto simp: less_eq_velocity_control_id_def less_velocity_control_id_def velocity_control_id.expand)
end

section \<open>Enums\<close>

datatype debit_or_credit = Debit | Credit
datatype balance_rollup = Synchronous | EventuallyConsistent
datatype status = Active | Locked
datatype layer = Settled | Pending | Encumbrance

lemma UNIV_layer: "UNIV = {Settled, Pending, Encumbrance}"
  by (auto intro: layer.exhaust)

lemma all_layer [simp]: "(\<forall>l. P l) \<longleftrightarrow> P Settled \<and> P Pending \<and> P Encumbrance"
  by (metis layer.exhaust)

section \<open>Currencies\<close>

text \<open>
  \<open>PartialEq\<close>, \<open>Ord\<close>, \<open>Hash\<close>, \<open>Display\<close> and the serde form of a \<open>Currency\<close> all go through
  \<open>code()\<close>, so a currency is its code here. The tables of \<open>rusty_money\<close> are the parameters
  \<open>iso_find\<close> and \<open>crypto_find\<close>, which return the code of the entry found.
\<close>

datatype currency = Currency (code: string)

instantiation currency :: linorder
begin
definition less_eq_currency :: "currency \<Rightarrow> currency \<Rightarrow> bool" where
  "less_eq_currency a b \<longleftrightarrow> code a \<le> code b"
definition less_currency :: "currency \<Rightarrow> currency \<Rightarrow> bool" where
  "less_currency a b \<longleftrightarrow> code a < code b"
instance
  by standard (auto simp: less_eq_currency_def less_currency_def currency.expand)
end

datatype parse_currency_error = UnknownCurrency string

definition currency_from_str ::
  "(string \<Rightarrow> string option) \<Rightarrow> (string \<Rightarrow> string option) \<Rightarrow> string
     \<Rightarrow> parse_currency_error + currency" where
  "currency_from_str iso_find crypto_find s =
     (case iso_find s of
        Some c \<Rightarrow> Inr (Currency c)
      | None \<Rightarrow> (case crypto_find s of
            Some c \<Rightarrow> Inr (Currency c)
          | None \<Rightarrow> Inl (UnknownCurrency s)))"

section \<open>JSON documents\<close>

text \<open>
  \<open>serde_json::Value\<close>. A number is unsigned, negative or a float, as in \<open>serde_json::Number\<close>;
  floats are their 64 bits. An object is its sorted association list.
\<close>

datatype json_number = PosInt "64 word" | NegInt "64 word" | Float "64 word"

datatype json =
    JNull
  | JBool bool
  | JNumber json_number
  | JString string
  | JArray "json list"
  | JObject "(string \<times> json) list"

section \<open>Entries\<close>

record 'd entry_values =
  e_id :: entry_id
  e_version :: u32
  e_transaction_id :: transaction_id
  e_journal_id :: journal_id
  e_account_id :: account_id
  e_entry_type :: string
  e_sequence :: u32
  e_layer :: layer
  e_units :: 'd
  e_currency :: currency
  e_direction :: debit_or_credit
  e_description :: "string option"
  e_metadata :: "json option"

text \<open>Entries for the concrete examples of the development.\<close>

definition USD :: currency where "USD = Currency ''USD''"
definition BTC :: currency where "BTC = Currency ''BTC''"

definition sample_entry ::
  "uuid \<Rightarrow> uuid \<Rightarrow> debit_or_credit \<Rightarrow> int \<Rightarrow> int entry_values" where
  "sample_entry eid acc dir units =
     \<lparr> e_id = EntryId eid, e_version = 1, e_transaction_id = TransactionId 1,
       e_journal_id = JournalId 1, e_account_id = AccountId acc, e_entry_type = ''SAMPLE'',
       e_sequence = ucast eid, e_layer = Settled, e_units = units, e_currency = USD,
       e_direction = dir, e_description = None, e_metadata = None \<rparr>"

lemma sample_entry_sel [simp]:
  "e_id (sample_entry i a d u) = EntryId i"
  "e_account_id (sample_entry i a d u) = AccountId a"
  "e_journal_id (sample_entry i a d u) = JournalId 1"
  "e_transaction_id (sample_entry i a d u) = TransactionId 1"
  "e_sequence (sample_entry i a d u) = ucast i"
  "e_layer (sample_entry i a d u) = Settled"
  "e_units (sample_entry i a d u) = u"
  "e_currency (sample_entry i a d u) = USD"
  "e_direction (sample_entry i a d u) = d"
  by (simp_all add: sample_entry_def)

section \<open>Balances\<close>

record 'd balance_amount =
  ba_dr :: 'd
  ba_cr :: 'd
  ba_entry_id :: entry_id
  ba_modified_at :: date_time

record 'd balance_snapshot =
  bs_journal_id :: journal_id
  bs_account_id :: account_id
  bs_currency :: currency
  bs_version :: u32
  bs_created_at :: date_time
  bs_modified_at :: date_time
  bs_entry_id :: entry_id
  bs_settled :: "'d balance_amount"
  bs_pending :: "'d balance_amount"
  bs_encumbrance :: "'d balance_amount"

type_synonym balance_id = "journal_id \<times> account_id \<times> currency"

definition rollup ::
  "'d::linordered_ab_group_add balance_amount \<Rightarrow> 'd balance_amount \<Rightarrow> 'd balance_amount" where
  "rollup self other =
     (let (modified_at, entry_id) =
            (if ba_modified_at self \<ge> ba_modified_at other
             then (ba_modified_at self, ba_entry_id self)
             else (ba_modified_at other, ba_entry_id other))
      in \<lparr> ba_dr = ba_dr self + ba_dr other,
           ba_cr = ba_cr self + ba_cr other,
           ba_entry_id = entry_id,
           ba_modified_at = modified_at \<rparr>)"

fun available ::
  "'d::linordered_ab_group_add balance_snapshot \<Rightarrow> layer \<Rightarrow> 'd balance_amount" where
  "available s Settled = bs_settled s"
| "available s Pending = rollup (bs_settled s) (bs_pending s)"
| "available s Encumbrance = rollup (rollup (bs_settled s) (bs_pending s)) (bs_encumbrance s)"

text \<open>The amount a snapshot holds on one layer, for stating what updates do.\<close>

fun layer_amount :: "'d balance_snapshot \<Rightarrow> layer \<Rightarrow> 'd balance_amount" where
  "layer_amount s Settled = bs_settled s"
| "layer_amount s Pending = bs_pending s"
| "layer_amount s Encumbrance = bs_encumbrance s"

fun layers_upto :: "layer \<Rightarrow> layer list" where
  "layers_upto Settled = [Settled]"
| "layers_upto Pending = [Settled, Pending]"
| "layers_upto Encumbrance = [Settled, Pending, Encumbrance]"

lemma rollup_sel [simp]:
  "ba_dr (rollup a b) = ba_dr a + ba_dr b"
  "ba_cr (rollup a b) = ba_cr a + ba_cr b"
  "ba_modified_at (rollup a b) = max (ba_modified_at a) (ba_modified_at b)"
  by (simp_all add: rollup_def max_def)

lemma rollup_entry_id:
  "ba_entry_id (rollup a b) =
     (if ba_modified_at a \<ge> ba_modified_at b then ba_entry_id a else ba_entry_id b)"
  by (simp add: rollup_def)

lemma rollup_assoc: "rollup (rollup a b) c = rollup a (rollup b c)"
  by (auto simp: rollup_def Let_def ac_simps)

lemma available_dr: "ba_dr (available s l) = (\<Sum>k\<leftarrow>layers_upto l. ba_dr (layer_amount s k))"
  by (cases l) (simp_all add: add.assoc)

lemma available_cr: "ba_cr (available s l) = (\<Sum>k\<leftarrow>layers_upto l. ba_cr (layer_amount s k))"
  by (cases l) (simp_all add: add.assoc)

end
