(* ===== verification/Snapshots.thy ===== *)
theory Snapshots imports Primitives begin

text \<open>
  The balance arithmetic of a posting: one entry folded into a snapshot, a batch of entries
  folded into versioned chains of snapshots (\<open>balance/snapshot.rs\<close>), and the read side that
  subtracts snapshots (\<open>balance/account_balance.rs\<close>).

  The \<open>latest\<close> map of \<open>SnapshotFold\<close> is an association list: \<open>into_values\<close> exposes an order,
  on which no lemma here depends. Versions are 32-bit words and wrap.
\<close>

section \<open>One entry into one snapshot\<close>

definition UNASSIGNED_ENTRY_ID :: entry_id where
  "UNASSIGNED_ENTRY_ID = EntryId 0"

definition update_snapshot ::
  "date_time \<Rightarrow> 'd::linordered_ab_group_add balance_snapshot \<Rightarrow> 'd entry_values
     \<Rightarrow> 'd balance_snapshot" where
  "update_snapshot time snapshot entry =
     (let s = snapshot \<lparr> bs_version := bs_version snapshot + 1,
                         bs_modified_at := time,
                         bs_entry_id := e_id entry \<rparr>;
          touch = (\<lambda>amount. let amount = amount \<lparr> ba_entry_id := e_id entry, ba_modified_at := time \<rparr>
                            in case e_direction entry of
                                 Debit \<Rightarrow> amount \<lparr> ba_dr := ba_dr amount + e_units entry \<rparr>
                               | Credit \<Rightarrow> amount \<lparr> ba_cr := ba_cr amount + e_units entry \<rparr>)
      in case e_layer entry of
           Settled \<Rightarrow> s \<lparr> bs_settled := touch (bs_settled s) \<rparr>
         | Pending \<Rightarrow> s \<lparr> bs_pending := touch (bs_pending s) \<rparr>
         | Encumbrance \<Rightarrow> s \<lparr> bs_encumbrance := touch (bs_encumbrance s) \<rparr>)"

definition zero_amount :: "entry_id \<Rightarrow> date_time \<Rightarrow> 'd::linordered_ab_group_add balance_amount" where
  "zero_amount eid time = \<lparr> ba_dr = 0, ba_cr = 0, ba_entry_id = eid, ba_modified_at = time \<rparr>"

definition new_snapshot ::
  "date_time \<Rightarrow> account_id \<Rightarrow> 'd::linordered_ab_group_add entry_values \<Rightarrow> 'd balance_snapshot" where
  "new_snapshot time account_id entry =
     (let entry_id = UNASSIGNED_ENTRY_ID
      in update_snapshot time
           \<lparr> bs_journal_id = e_journal_id entry,
             bs_account_id = account_id,
             bs_currency = e_currency entry,
             bs_version = 0,
             bs_created_at = time,
             bs_modified_at = time,
             bs_entry_id = entry_id,
             bs_settled = zero_amount entry_id time,
             bs_pending = zero_amount entry_id time,
             bs_encumbrance = zero_amount entry_id time \<rparr>
           entry)"

text \<open>The \<open>match base\<close> of \<open>SnapshotFold::apply\<close>.\<close>

definition next_snapshot ::
  "date_time \<Rightarrow> account_id \<Rightarrow> 'd::linordered_ab_group_add balance_snapshot option
     \<Rightarrow> 'd entry_values \<Rightarrow> 'd balance_snapshot" where
  "next_snapshot time account_id base entry =
     (case base of
        Some balance \<Rightarrow> update_snapshot time balance entry
      | None \<Rightarrow> new_snapshot time account_id entry)"

definition snapshot_key :: "'d balance_snapshot \<Rightarrow> account_id \<times> currency" where
  "snapshot_key s = (bs_account_id s, bs_currency s)"

named_theorems snapshot_simps \<open>selectors of updated snapshots\<close>

lemma update_snapshot_sel [simp, snapshot_simps]:
  "bs_journal_id (update_snapshot t s e) = bs_journal_id s"
  "bs_account_id (update_snapshot t s e) = bs_account_id s"
  "bs_currency (update_snapshot t s e) = bs_currency s"
  "bs_created_at (update_snapshot t s e) = bs_created_at s"
  "bs_version (update_snapshot t s e) = bs_version s + 1"
  "bs_modified_at (update_snapshot t s e) = t"
  "bs_entry_id (update_snapshot t s e) = e_id e"
  by (simp_all add: update_snapshot_def Let_def split: layer.split)

lemma update_snapshot_amount [snapshot_simps]:
  "layer_amount (update_snapshot t s e) l =
     (if e_layer e = l
      then \<lparr> ba_dr = ba_dr (layer_amount s l) + (if e_direction e = Debit then e_units e else 0),
             ba_cr = ba_cr (layer_amount s l) + (if e_direction e = Credit then e_units e else 0),
             ba_entry_id = e_id e, ba_modified_at = t \<rparr>
      else layer_amount s l)"
  by (cases l; cases "e_layer e"; cases "e_direction e")
    (simp_all add: update_snapshot_def Let_def)

lemma new_snapshot_sel [simp, snapshot_simps]:
  "bs_journal_id (new_snapshot t a e) = e_journal_id e"
  "bs_account_id (new_snapshot t a e) = a"
  "bs_currency (new_snapshot t a e) = e_currency e"
  "bs_created_at (new_snapshot t a e) = t"
  "bs_version (new_snapshot t a e) = 1"
  "bs_modified_at (new_snapshot t a e) = t"
  "bs_entry_id (new_snapshot t a e) = e_id e"
  by (simp_all add: new_snapshot_def Let_def)

lemma new_snapshot_amount [snapshot_simps]:
  "layer_amount (new_snapshot t a e) l =
     (if e_layer e = l
      then \<lparr> ba_dr = (if e_direction e = Debit then e_units e else 0),
             ba_cr = (if e_direction e = Credit then e_units e else 0),
             ba_entry_id = e_id e, ba_modified_at = t \<rparr>
      else zero_amount UNASSIGNED_ENTRY_ID t)"
  unfolding new_snapshot_def Let_def update_snapshot_amount
  by (cases l; simp add: zero_amount_def)

lemma snapshot_key_update [simp]: "snapshot_key (update_snapshot t s e) = snapshot_key s"
  by (simp add: snapshot_key_def)

lemma snapshot_key_new [simp]: "snapshot_key (new_snapshot t a e) = (a, e_currency e)"
  by (simp add: snapshot_key_def)

section \<open>Chains of versions\<close>

text \<open>
  Folding events into an optional base, keeping every intermediate state: what a batch writes
  for one key. \<open>versioned_step\<close> is the contract of the folded step; balances and velocity
  balances provide it.
\<close>

fun chain :: "('s option \<Rightarrow> 'e \<Rightarrow> 's) \<Rightarrow> 's option \<Rightarrow> 'e list \<Rightarrow> 's list" where
  "chain step base [] = []"
| "chain step base (e # es) = step base e # chain step (Some (step base e)) es"

definition chain_end :: "('s option \<Rightarrow> 'e \<Rightarrow> 's) \<Rightarrow> 's option \<Rightarrow> 'e list \<Rightarrow> 's option" where
  "chain_end step base es = foldl (\<lambda>b e. Some (step b e)) base es"

lemma chain_end_simps [simp]:
  "chain_end step base [] = base"
  "chain_end step base (e # es) = chain_end step (Some (step base e)) es"
  "chain_end step base (es @ [e]) = Some (step (chain_end step base es) e)"
  by (simp_all add: chain_end_def)

lemma chain_length [simp]: "length (chain step base es) = length es"
  by (induction es arbitrary: base) auto

lemma chain_empty_iff [simp]: "chain step base es = [] \<longleftrightarrow> es = []"
  by (cases es) auto

lemma chain_append:
  "chain step base (es @ fs) = chain step base es @ chain step (chain_end step base es) fs"
  by (induction es arbitrary: base) auto

lemma chain_nth:
  "i < length es \<Longrightarrow> Some (chain step base es ! i) = chain_end step base (take (Suc i) es)"
proof (induction es arbitrary: base i)
  case (Cons e es)
  then show ?case by (cases i) auto
qed simp

lemma chain_last: "es \<noteq> [] \<Longrightarrow> Some (last (chain step base es)) = chain_end step base es"
proof (induction es arbitrary: base)
  case (Cons e es)
  then show ?case by (cases es) auto
qed simp

definition base_version :: "('s \<Rightarrow> u32) \<Rightarrow> 's option \<Rightarrow> u32" where
  "base_version ver base = (case base of None \<Rightarrow> 0 | Some s \<Rightarrow> ver s)"

locale versioned_step =
  fixes step :: "'s option \<Rightarrow> 'e \<Rightarrow> 's"
    and ver :: "'s \<Rightarrow> u32"
    and ident :: "'s \<Rightarrow> 'i"
  assumes step_version: "ver (step base e) = base_version ver base + 1"
    and step_ident: "ident (step (Some s) e) = ident s"
begin

lemma chain_end_version:
  "base_version ver (chain_end step base es) = base_version ver base + of_nat (length es)"
  by (induction es arbitrary: base) (auto simp: step_version base_version_def add_ac)

lemma chain_version:
  assumes "i < length es"
  shows "ver (chain step base es ! i) = base_version ver base + of_nat (Suc i)"
proof -
  have "base_version ver (Some (chain step base es ! i)) =
      base_version ver base + of_nat (length (take (Suc i) es))"
    unfolding chain_nth[OF assms] by (rule chain_end_version)
  then show ?thesis using assms by (simp add: base_version_def)
qed

lemma chain_versions_sorted:
  assumes "unat (base_version ver base) + length es < 2 ^ 32"
  shows "sorted_wrt (\<lambda>x y. ver x < ver y) (chain step base es)"
  unfolding sorted_wrt_iff_nth_less
proof (intro allI impI)
  fix i j assume ij: "i < j" "j < length (chain step base es)"
  have bound: "unat (base_version ver base) + Suc j < 2 ^ 32" using assms ij by simp
  show "ver (chain step base es ! i) < ver (chain step base es ! j)"
    using u32_add_of_nat_less[OF bound, of "Suc i"] ij
    by (simp add: chain_version del: of_nat_Suc)
qed

lemma chain_ident:
  "base = Some s \<Longrightarrow> x \<in> set (chain step base es) \<Longrightarrow> ident x = ident s"
  by (induction es arbitrary: base s) (auto simp: step_ident)

end

interpretation balance_step: versioned_step "next_snapshot time account" bs_version
    "\<lambda>s. (bs_journal_id s, snapshot_key s, bs_created_at s)" for time account
  by unfold_locales (simp_all add: next_snapshot_def base_version_def split: option.split)

section \<open>The fold over a batch\<close>

record 'd snapshot_fold =
  sf_time :: date_time
  sf_current :: "account_id \<times> currency \<rightharpoonup> 'd balance_snapshot option"
  sf_latest :: "((account_id \<times> currency) \<times> 'd balance_snapshot) list"
  sf_completed :: "'d balance_snapshot list"

definition fold_new ::
  "date_time \<Rightarrow> (account_id \<times> currency \<rightharpoonup> 'd balance_snapshot option) \<Rightarrow> 'd snapshot_fold" where
  "fold_new time current =
     \<lparr> sf_time = time, sf_current = current, sf_latest = [], sf_completed = [] \<rparr>"

definition fold_apply ::
  "'d::linordered_ab_group_add snapshot_fold \<Rightarrow> account_id \<Rightarrow> 'd entry_values \<Rightarrow> 'd snapshot_fold" where
  "fold_apply self account_id entry =
     (let key = (account_id, e_currency entry);
          store = (\<lambda>self base. self \<lparr> sf_latest :=
            sf_latest self @ [(key, next_snapshot (sf_time self) account_id base entry)] \<rparr>)
      in case map_of (sf_latest self) key of
           Some prev \<Rightarrow>
             store (self \<lparr> sf_latest := remove_key key (sf_latest self),
                           sf_completed := sf_completed self @ [prev] \<rparr>) (Some prev)
         | None \<Rightarrow>
             (case sf_current self key of
                Some loaded \<Rightarrow>
                  store (self \<lparr> sf_current := (sf_current self)(key := None) \<rparr>) loaded
              | None \<Rightarrow> self))"

definition into_snapshots :: "'d snapshot_fold \<Rightarrow> 'd balance_snapshot list" where
  "into_snapshots self = sf_completed self @ map snd (sf_latest self)"

definition from_entries ::
  "date_time \<Rightarrow> (account_id \<times> currency \<rightharpoonup> 'd::linordered_ab_group_add balance_snapshot option)
     \<Rightarrow> 'd entry_values list \<Rightarrow> (account_id \<rightharpoonup> account_set_id list) \<Rightarrow> 'd balance_snapshot list" where
  "from_entries time current_balances entries account_set_mappings =
     into_snapshots
       (foldl (\<lambda>fold entry.
                 let fold = foldl (\<lambda>fold set. fold_apply fold set entry) fold
                              (map account_of_set (get_list account_set_mappings (e_account_id entry)))
                 in fold_apply fold (e_account_id entry) entry)
          (fold_new time current_balances) entries)"

definition from_ec_entries ::
  "date_time \<Rightarrow> (account_id \<times> currency \<rightharpoonup> 'd::linordered_ab_group_add balance_snapshot option)
     \<Rightarrow> 'd entry_values list \<Rightarrow> (account_id \<rightharpoonup> account_set_id list) \<Rightarrow> account_id set
     \<Rightarrow> 'd balance_snapshot list" where
  "from_ec_entries time current_balances entries ec_mappings ec_leaves =
     into_snapshots
       (foldl (\<lambda>fold entry.
                 let fold = foldl (\<lambda>fold set. fold_apply fold set entry) fold
                              (map account_of_set (get_list ec_mappings (e_account_id entry)))
                 in if e_account_id entry \<in> ec_leaves
                    then fold_apply fold (e_account_id entry) entry else fold)
          (fold_new time current_balances) entries)"

text \<open>
  Both functions apply a stream of (target account, entry) posts. The posts that touch one key
  decide what is written for it.
\<close>

definition leaf_posts ::
  "(account_id \<rightharpoonup> account_set_id list) \<Rightarrow> 'd entry_values list \<Rightarrow> (account_id \<times> 'd entry_values) list" where
  "leaf_posts mappings entries = concat (map (\<lambda>e.
     map (\<lambda>s. (account_of_set s, e)) (get_list mappings (e_account_id e)) @ [(e_account_id e, e)]) entries)"

definition ec_posts ::
  "(account_id \<rightharpoonup> account_set_id list) \<Rightarrow> account_id set \<Rightarrow> 'd entry_values list
     \<Rightarrow> (account_id \<times> 'd entry_values) list" where
  "ec_posts mappings leaves entries = concat (map (\<lambda>e.
     map (\<lambda>s. (account_of_set s, e)) (get_list mappings (e_account_id e)) @
     (if e_account_id e \<in> leaves then [(e_account_id e, e)] else [])) entries)"

definition posts_on ::
  "account_id \<times> currency \<Rightarrow> (account_id \<times> 'd entry_values) list \<Rightarrow> 'd entry_values list" where
  "posts_on key posts = map snd (filter (\<lambda>(a, e). (a, e_currency e) = key) posts)"

definition fold_posts ::
  "'d::linordered_ab_group_add snapshot_fold \<Rightarrow> (account_id \<times> 'd entry_values) list \<Rightarrow> 'd snapshot_fold" where
  "fold_posts start posts = foldl (\<lambda>f (a, e). fold_apply f a e) start posts"

lemma fold_posts_simps [simp]:
  "fold_posts f [] = f"
  "fold_posts f ((a, e) # ps) = fold_posts (fold_apply f a e) ps"
  "fold_posts f (ps @ qs) = fold_posts (fold_posts f ps) qs"
  by (simp_all add: fold_posts_def)

lemma fold_posts_targets [simp]:
  "fold_posts f (map (\<lambda>s. (g s, e)) ss) = foldl (\<lambda>f s. fold_apply f s e) f (map g ss)"
  by (induction ss arbitrary: f) simp_all

lemma from_entries_posts:
  "from_entries time current es m = into_snapshots (fold_posts (fold_new time current) (leaf_posts m es))"
proof -
  have "foldl (\<lambda>fold entry.
          let fold = foldl (\<lambda>fold set. fold_apply fold set entry) fold
                       (map account_of_set (get_list m (e_account_id entry)))
          in fold_apply fold (e_account_id entry) entry) f es = fold_posts f (leaf_posts m es)" for f
    by (induction es arbitrary: f) (simp_all add: leaf_posts_def Let_def)
  then show ?thesis by (simp add: from_entries_def)
qed

lemma from_ec_entries_posts:
  "from_ec_entries time current es m l = into_snapshots (fold_posts (fold_new time current) (ec_posts m l es))"
proof -
  have "foldl (\<lambda>fold entry.
          let fold = foldl (\<lambda>fold set. fold_apply fold set entry) fold
                       (map account_of_set (get_list m (e_account_id entry)))
          in if e_account_id entry \<in> l
             then fold_apply fold (e_account_id entry) entry else fold) f es = fold_posts f (ec_posts m l es)" for f
    by (induction es arbitrary: f) (simp_all add: ec_posts_def Let_def)
  then show ?thesis by (simp add: from_ec_entries_def)
qed

text \<open>
  The state of the fold, key by key: \<open>loaded\<close> are the balances the batch started from and
  \<open>posts\<close> what has been applied so far.
\<close>

definition keyed :: "(account_id \<times> currency \<rightharpoonup> 'd balance_snapshot option) \<Rightarrow> bool" where
  "keyed loaded \<longleftrightarrow> (\<forall>k s. loaded k = Some (Some s) \<longrightarrow> snapshot_key s = k)"

definition key_written ::
  "date_time \<Rightarrow> (account_id \<times> currency \<rightharpoonup> 'd::linordered_ab_group_add balance_snapshot option)
     \<Rightarrow> (account_id \<times> 'd entry_values) list \<Rightarrow> account_id \<times> currency \<Rightarrow> 'd balance_snapshot list" where
  "key_written time loaded posts key =
     (case loaded key of
        None \<Rightarrow> []
      | Some base \<Rightarrow> chain (next_snapshot time (fst key)) base (posts_on key posts))"

lemma posts_on_simps [simp]:
  "posts_on k [] = []"
  "posts_on k (ps @ qs) = posts_on k ps @ posts_on k qs"
  "posts_on k ((a, e) # ps) = (if (a, e_currency e) = k then e # posts_on k ps else posts_on k ps)"
  by (auto simp: posts_on_def)

lemma key_written_snoc:
  "key_written time loaded (posts @ [(a, e)]) key =
     (if key = (a, e_currency e) then
        (case loaded key of
           None \<Rightarrow> []
         | Some base \<Rightarrow> key_written time loaded posts key @
             [next_snapshot time a (chain_end (next_snapshot time a) base (posts_on key posts)) e])
      else key_written time loaded posts key)"
  by (auto simp: key_written_def chain_append split: option.split)

definition fold_state ::
  "date_time \<Rightarrow> (account_id \<times> currency \<rightharpoonup> 'd::linordered_ab_group_add balance_snapshot option)
     \<Rightarrow> (account_id \<times> 'd entry_values) list \<Rightarrow> 'd snapshot_fold \<Rightarrow> bool" where
  "fold_state time loaded posts f \<longleftrightarrow>
     sf_time f = time \<and> distinct (map fst (sf_latest f)) \<and>
     (\<forall>(k, s) \<in> set (sf_latest f). snapshot_key s = k) \<and>
     (\<forall>k. let w = key_written time loaded posts k in
        sf_current f k = (if w = [] then loaded k else None) \<and>
        map_of (sf_latest f) k = (if w = [] then None else Some (last w)) \<and>
        filter (\<lambda>s. snapshot_key s = k) (sf_completed f) = butlast w)"

lemma fold_stateD:
  assumes "fold_state time loaded posts f"
  shows "sf_time f = time" and "distinct (map fst (sf_latest f))"
    and "\<And>k s. (k, s) \<in> set (sf_latest f) \<Longrightarrow> snapshot_key s = k"
    and "\<And>k. sf_current f k = (if key_written time loaded posts k = [] then loaded k else None)"
    and "\<And>k. map_of (sf_latest f) k =
          (if key_written time loaded posts k = [] then None else Some (last (key_written time loaded posts k)))"
    and "\<And>k. filter (\<lambda>s. snapshot_key s = k) (sf_completed f) = butlast (key_written time loaded posts k)"
  using assms unfolding fold_state_def Let_def by blast+

lemma fold_state_init: "fold_state time loaded [] (fold_new time loaded)"
  by (simp add: fold_state_def fold_new_def key_written_def split: option.split)

lemma map_of_snoc: "map_of (m @ [(k, v)]) = (if map_of m k = None then (map_of m)(k \<mapsto> v) else map_of m)"
  by (auto simp: map_add_def fun_eq_iff split: option.split)

lemma key_written_last:
  assumes "key_written time loaded posts (a, c) \<noteq> []"
  shows "\<exists>base. loaded (a, c) = Some base \<and>
    chain_end (next_snapshot time a) base (posts_on (a, c) posts) =
      Some (last (key_written time loaded posts (a, c)))"
  using assms by (auto simp: key_written_def chain_last split: option.splits)

lemma key_written_empty:
  "key_written time loaded posts key = [] \<longleftrightarrow> loaded key = None \<or> posts_on key posts = []"
  by (auto simp: key_written_def split: option.split)

lemma snapshot_key_next:
  "(\<forall>s. base = Some s \<longrightarrow> snapshot_key s = (a, e_currency e)) \<Longrightarrow>
     snapshot_key (next_snapshot t a base e) = (a, e_currency e)"
  by (auto simp: next_snapshot_def split: option.split)

lemma fold_apply_cases:
  "fold_apply f a e =
     (let key = (a, e_currency e) in
      case map_of (sf_latest f) key of
        Some prev \<Rightarrow> f \<lparr> sf_latest := remove_key key (sf_latest f) @
                               [(key, next_snapshot (sf_time f) a (Some prev) e)],
                        sf_completed := sf_completed f @ [prev] \<rparr>
      | None \<Rightarrow> (case sf_current f key of
            Some loaded \<Rightarrow> f \<lparr> sf_current := (sf_current f)(key := None),
                              sf_latest := sf_latest f @
                                [(key, next_snapshot (sf_time f) a loaded e)] \<rparr>
          | None \<Rightarrow> f))"
  by (simp add: fold_apply_def Let_def split: option.split)

lemma fold_state_apply:
  assumes st: "fold_state time loaded posts f" and keyed: "keyed loaded"
  shows "fold_state time loaded (posts @ [(a, e)]) (fold_apply f a e)"
proof -
  define key where "key = (a, e_currency e)"
  define w where "w = key_written time loaded posts"
  have time: "sf_time f = time" and dist: "distinct (map fst (sf_latest f))"
    and lat: "\<And>k s. (k, s) \<in> set (sf_latest f) \<Longrightarrow> snapshot_key s = k"
    and cur: "\<And>k. sf_current f k = (if w k = [] then loaded k else None)"
    and look: "\<And>k. map_of (sf_latest f) k = (if w k = [] then None else Some (last (w k)))"
    and comp: "\<And>k. filter (\<lambda>s. snapshot_key s = k) (sf_completed f) = butlast (w k)"
    using fold_stateD[OF st] by (simp_all add: w_def)
  have snoc: "key_written time loaded (posts @ [(a, e)]) k = (if k = key then
      (case loaded k of None \<Rightarrow> [] | Some base \<Rightarrow> w k @
         [next_snapshot time a (chain_end (next_snapshot time a) base (posts_on k posts)) e]) else w k)" for k
    by (simp add: key_written_snoc key_def w_def split: option.split)
  show ?thesis
  proof (cases "w key = []")
    case False
    then have prev: "map_of (sf_latest f) key = Some (last (w key))" by (simp add: look)
    then have pk: "snapshot_key (last (w key)) = key" using lat by (meson map_of_SomeD)
    obtain base where b: "loaded key = Some base"
      "chain_end (next_snapshot time a) base (posts_on key posts) = Some (last (w key))"
      using key_written_last[of time loaded posts a "e_currency e"] False by (auto simp: w_def key_def)
    let ?n = "next_snapshot time a (Some (last (w key))) e"
    have nk: "snapshot_key ?n = key" using snapshot_key_next[of "Some (last (w key))" a e time] pk
      by (simp add: key_def)
    have f': "fold_apply f a e = f \<lparr> sf_latest := remove_key key (sf_latest f) @ [(key, ?n)],
        sf_completed := sf_completed f @ [last (w key)] \<rparr>"
      using prev by (simp add: fold_apply_cases Let_def time flip: key_def)
    have "distinct (map fst (remove_key key (sf_latest f) @ [(key, ?n)]))"
      using dist by (auto simp: remove_key_def distinct_map_filter)
    moreover have "\<forall>(k, s) \<in> set (remove_key key (sf_latest f) @ [(key, ?n)]). snapshot_key s = k"
      using lat nk by (auto simp: remove_key_def)
    ultimately show ?thesis
      using False b pk nk
      by (auto simp: fold_state_def f' time snoc Let_def cur look comp map_of_snoc
          append_butlast_last_id simp del: map_of_append)
  next
    case True
    show ?thesis
    proof (cases "loaded key")
      case None
      then have "fold_apply f a e = f" using True by (simp add: fold_apply_cases Let_def cur look flip: key_def)
      then show ?thesis using st True None by (auto simp: fold_state_def snoc w_def Let_def)
    next
      case (Some base)
      then have np: "posts_on key posts = []" using True by (simp add: w_def key_written_empty)
      let ?n = "next_snapshot time a base e"
      have nk: "snapshot_key ?n = key" using snapshot_key_next[of base a e time] keyed Some
        by (auto simp: key_def keyed_def)
      have f': "fold_apply f a e = f \<lparr> sf_current := (sf_current f)(key := None),
          sf_latest := sf_latest f @ [(key, ?n)] \<rparr>"
        using True Some by (simp add: fold_apply_cases Let_def cur look time flip: key_def)
      have fresh: "key \<notin> fst ` set (sf_latest f)"
        using look[of key] True by (simp add: map_of_eq_None_iff)
      show ?thesis
        using True Some np nk dist lat fresh
        by (auto simp: fold_state_def f' time snoc Let_def cur look comp map_of_snoc simp del: map_of_append)
    qed
  qed
qed

lemma fold_state_posts:
  "keyed loaded \<Longrightarrow> fold_state time loaded posts (fold_posts (fold_new time loaded) posts)"
  by (induction posts rule: rev_induct) (auto simp: fold_state_init fold_state_apply)

lemma filter_values_by_key:
  assumes "distinct (map fst m)" and "\<And>k s. (k, s) \<in> set m \<Longrightarrow> g s = k"
  shows "filter (\<lambda>s. g s = k) (map snd m) = (case map_of m k of None \<Rightarrow> [] | Some s \<Rightarrow> [s])"
  using assms
proof (induction m)
  case (Cons kv m)
  obtain k' v where kv: "kv = (k', v)" by fastforce
  have "g v = k'" using Cons.prems(2) kv by simp
  moreover have "filter (\<lambda>s. g s = k) (map snd m) = (case map_of m k of None \<Rightarrow> [] | Some s \<Rightarrow> [s])"
    using Cons.prems by (intro Cons.IH) auto
  moreover have "map_of m k' = None" using Cons.prems(1) kv by (simp add: map_of_eq_None_iff)
  ultimately show ?case using kv by (cases "k' = k") auto
qed simp

lemma into_snapshots_by_key:
  assumes "keyed loaded"
  shows "filter (\<lambda>s. snapshot_key s = k) (into_snapshots (fold_posts (fold_new time loaded) posts)) =
    key_written time loaded posts k"
proof -
  let ?f = "fold_posts (fold_new time loaded) posts"
  note st = fold_stateD[OF fold_state_posts[OF assms, of time posts]]
  have "filter (\<lambda>s. snapshot_key s = k) (map snd (sf_latest ?f)) =
      (case map_of (sf_latest ?f) k of None \<Rightarrow> [] | Some s \<Rightarrow> [s])"
    by (intro filter_values_by_key st(2,3))
  then show ?thesis by (simp add: into_snapshots_def st(5,6))
qed

text \<open>What one batch of entries adds to the two sides of a layer.\<close>

definition side_total :: "debit_or_credit \<Rightarrow> layer \<Rightarrow> 'd::linordered_ab_group_add entry_values list \<Rightarrow> 'd" where
  "side_total d l es = (\<Sum>e\<leftarrow>es. if e_direction e = d \<and> e_layer e = l then e_units e else 0)"

lemma side_total_simps [simp]:
  "side_total d l [] = 0"
  "side_total d l (e # es) = (if e_direction e = d \<and> e_layer e = l then e_units e else 0) + side_total d l es"
  "side_total d l (es @ fs) = side_total d l es + side_total d l fs"
  by (simp_all add: side_total_def)

definition base_amount ::
  "debit_or_credit \<Rightarrow> layer \<Rightarrow> 'd::linordered_ab_group_add balance_snapshot option \<Rightarrow> 'd" where
  "base_amount d l base = (case base of None \<Rightarrow> 0 | Some s \<Rightarrow>
     (case d of Debit \<Rightarrow> ba_dr (layer_amount s l) | Credit \<Rightarrow> ba_cr (layer_amount s l)))"

lemma base_amount_next:
  "base_amount d l (Some (next_snapshot t a base e)) =
     base_amount d l base + (if e_direction e = d \<and> e_layer e = l then e_units e else 0)"
  by (cases d) (auto simp: next_snapshot_def base_amount_def snapshot_simps zero_amount_def split: option.split)

lemma chain_end_amount:
  "base_amount d l (chain_end (next_snapshot t a) base es) = base_amount d l base + side_total d l es"
  by (induction es arbitrary: base) (auto simp: base_amount_next add.assoc)

lemma key_written_versions:
  assumes "loaded k = Some base"
    and "unat (base_version bs_version base) + length (posts_on k posts) < 2 ^ 32"
  shows "sorted_wrt (\<lambda>x y. bs_version x < bs_version y) (key_written time loaded posts k)"
    and "i < length (posts_on k posts) \<Longrightarrow>
      bs_version (key_written time loaded posts k ! i) = base_version bs_version base + of_nat (Suc i)"
  using balance_step.chain_versions_sorted[OF assms(2)] balance_step.chain_version[of i "posts_on k posts"]
    assms(1) by (simp_all add: key_written_def del: of_nat_Suc)

lemma key_written_amounts:
  assumes "loaded k = Some base" and "i < length (posts_on k posts)"
  shows "base_amount d l (Some (key_written time loaded posts k ! i)) =
    base_amount d l base + side_total d l (take (Suc i) (posts_on k posts))"
  using assms chain_nth[of i "posts_on k posts" "next_snapshot time (fst k)" base]
  by (simp add: key_written_def chain_end_amount)

lemma key_written_nonempty:
  "key_written time loaded posts k \<noteq> [] \<longleftrightarrow> loaded k \<noteq> None \<and> posts_on k posts \<noteq> []"
  by (simp add: key_written_empty)

lemma into_snapshots_keys:
  assumes "keyed loaded"
  shows "snapshot_key ` set (into_snapshots (fold_posts (fold_new time loaded) posts)) =
    {k. loaded k \<noteq> None \<and> posts_on k posts \<noteq> []}"
proof -
  have mem: "k \<in> snapshot_key ` set ss \<longleftrightarrow> filter (\<lambda>s. snapshot_key s = k) ss \<noteq> []" for k
    and ss :: "'a balance_snapshot list"
    by (auto simp: filter_empty_conv)
  show ?thesis
    by (rule set_eqI) (simp only: mem into_snapshots_by_key[OF assms] key_written_nonempty mem_Collect_eq)
qed

lemma set_posts_on: "set (posts_on (a, c) ps) = {e. (a, e) \<in> set ps \<and> e_currency e = c}"
  by (force simp: posts_on_def)

lemma posts_on_leaf_posts:
  "posts_on (a, c) (leaf_posts m es) = concat (map (\<lambda>e.
     if e_currency e = c then
       replicate (length (filter (\<lambda>s. account_of_set s = a) (get_list m (e_account_id e)))
          + (if e_account_id e = a then 1 else 0)) e
     else []) es)"
proof -
  have sets: "posts_on (a, c) (map (\<lambda>s. (account_of_set s, e)) ss) =
      (if e_currency e = c then replicate (length (filter (\<lambda>s. account_of_set s = a) ss)) e else [])"
    for e :: "'a entry_values" and ss
    by (induction ss) auto
  have "replicate n e @ [e] = replicate (Suc n) e" for n and e :: "'a entry_values"
    by (simp add: replicate_append_same)
  then show ?thesis
    by (induction es) (auto simp: leaf_posts_def sets)
qed

text \<open>A batch for the examples: three entries on two accounts, the first a member of a set.\<close>

definition sample_loaded :: "account_id \<times> currency \<rightharpoonup> int balance_snapshot option" where
  "sample_loaded = [(AccountId 1, USD) \<mapsto> None, (AccountId 2, USD) \<mapsto> None, (AccountId 9, USD) \<mapsto> None]"

definition sample_mappings :: "account_id \<rightharpoonup> account_set_id list" where
  "sample_mappings = [AccountId 1 \<mapsto> [AccountSetId 9]]"

definition sample_entries :: "int entry_values list" where
  "sample_entries = [sample_entry 1 1 Debit 100, sample_entry 2 2 Credit 100, sample_entry 3 1 Debit 5]"

lemma keyed_sample [simp]: "keyed sample_loaded"
  by (simp add: keyed_def sample_loaded_def)

lemma sample_loaded_set [simp]: "sample_loaded (AccountId 9, USD) = Some None"
  by (simp add: sample_loaded_def)

lemma sample_posts:
  "posts_on (AccountId 9, USD) (leaf_posts sample_mappings sample_entries) =
     [sample_entry 1 1 Debit 100, sample_entry 3 1 Debit 5]"
  by (simp add: leaf_posts_def sample_mappings_def sample_entries_def get_list_def account_of_set_def)

section \<open>Properties\<close>

text \<open>
  C27: A batch never loses an update. For every key whose balance was loaded, \<open>from_entries\<close>
  writes one snapshot per post to it, the versions count on from the loaded version without gap
  or repetition, and the i-th snapshot carries, on each side of each layer, the loaded amount
  plus exactly the units of the first i posts.
\<close>

theorem from_entries_chain:
  assumes "keyed loaded" and "loaded key = Some base"
    and "unat (base_version bs_version base) + length (posts_on key (leaf_posts mappings entries)) < 2 ^ 32"
  shows "let rows = filter (\<lambda>s. snapshot_key s = key) (from_entries time loaded entries mappings);
             posts = posts_on key (leaf_posts mappings entries)
         in length rows = length posts \<and>
            sorted_wrt (\<lambda>x y. bs_version x < bs_version y) rows \<and>
            (\<forall>i < length posts.
               bs_version (rows ! i) = base_version bs_version base + of_nat (Suc i) \<and>
               (\<forall>d l. base_amount d l (Some (rows ! i)) =
                  base_amount d l base + side_total d l (take (Suc i) posts)))"
  using key_written_versions[of loaded key base "leaf_posts mappings entries", OF assms(2,3)]
    key_written_amounts[of loaded key base _ "leaf_posts mappings entries", OF assms(2)] assms(2)
  by (auto simp: Let_def from_entries_posts into_snapshots_by_key[OF assms(1)] key_written_def
      simp del: of_nat_Suc all_layer)

lemma from_entries_chain_witness:
  "let rows = filter (\<lambda>s. snapshot_key s = (AccountId 9, USD))
                (from_entries 7 sample_loaded sample_entries sample_mappings)
   in length rows = 2 \<and> bs_version (rows ! 1) = 2 \<and> base_amount Debit Settled (Some (rows ! 1)) = 105"
proof -
  have "unat (base_version bs_version (None :: int balance_snapshot option)) +
      length (posts_on (AccountId 9, USD) (leaf_posts sample_mappings sample_entries)) < 2 ^ 32"
    by (simp add: sample_posts base_version_def)
  note spec = from_entries_chain[OF keyed_sample sample_loaded_set this, of 7,
      unfolded sample_posts Let_def]
  from spec have "length (filter (\<lambda>s. snapshot_key s = (AccountId 9, USD))
      (from_entries 7 sample_loaded sample_entries sample_mappings)) = 2" by simp
  moreover from spec have "bs_version (filter (\<lambda>s. snapshot_key s = (AccountId 9, USD))
      (from_entries 7 sample_loaded sample_entries sample_mappings) ! 1) =
      base_version bs_version (None :: int balance_snapshot option) + of_nat (Suc 1)" by simp
  moreover from spec have "base_amount Debit Settled (Some (filter (\<lambda>s. snapshot_key s = (AccountId 9, USD))
      (from_entries 7 sample_loaded sample_entries sample_mappings) ! 1)) =
      base_amount Debit Settled None +
      side_total Debit Settled (take (Suc 1) [sample_entry 1 1 Debit 100, sample_entry 3 1 Debit 5])"
    by (simp del: side_total_simps take_Suc_Cons)
  ultimately show ?thesis by (simp add: Let_def base_version_def base_amount_def)
qed

text \<open>
  The snapshots a batch writes are exactly those of the keys that were loaded and that an
  entry reaches, directly or through an ancestor set. A key that was not loaded is skipped.
\<close>

theorem from_entries_keys:
  assumes "keyed loaded"
  shows "snapshot_key ` set (from_entries time loaded entries mappings) =
    {(a, c). loaded (a, c) \<noteq> None \<and>
       (\<exists>e \<in> set entries. e_currency e = c \<and>
          (e_account_id e = a \<or> a \<in> account_of_set ` set (get_list mappings (e_account_id e))))}"
proof -
  have "posts_on (a, c) (leaf_posts mappings entries) \<noteq> [] \<longleftrightarrow> (\<exists>e \<in> set entries. e_currency e = c \<and>
      (e_account_id e = a \<or> a \<in> account_of_set ` set (get_list mappings (e_account_id e))))" for a c
    by (simp only: set_posts_on flip: set_empty2) (auto simp: leaf_posts_def)
  then show ?thesis
    by (auto simp: from_entries_posts into_snapshots_keys[OF assms])
qed

lemma from_entries_keys_witness:
  "(AccountId 9, USD) \<in> snapshot_key ` set (from_entries 7 sample_loaded sample_entries sample_mappings)"
  unfolding from_entries_keys[OF keyed_sample]
  by (simp add: sample_loaded_def sample_entries_def sample_mappings_def get_list_def account_of_set_def)

end
