(* ===== verification/Account_Balance.thy ===== *)
theory Account_Balance imports Snapshots begin

text \<open>
  The read side of a balance (\<open>balance/account_balance.rs\<close>): a snapshot seen from the normal
  side of its account, the difference of two snapshots, and the range built from the balances
  at the two bounds of a period.
\<close>

record 'd account_balance =
  ab_balance_type :: debit_or_credit
  ab_details :: "'d balance_snapshot"

definition account_balance_new ::
  "debit_or_credit \<Rightarrow> 'd balance_snapshot \<Rightarrow> 'd account_balance" where
  "account_balance_new balance_type details =
     \<lparr> ab_balance_type = balance_type, ab_details = details \<rparr>"

definition amount_diff ::
  "'d::linordered_ab_group_add balance_amount \<Rightarrow> 'd balance_amount \<Rightarrow> 'd balance_amount" where
  "amount_diff a b = a \<lparr> ba_dr := ba_dr a - ba_dr b, ba_cr := ba_cr a - ba_cr b \<rparr>"

definition derive_diff ::
  "'d::linordered_ab_group_add account_balance \<Rightarrow> 'd account_balance \<Rightarrow> 'd account_balance" where
  "derive_diff self since =
     (let d = ab_details self; e = ab_details since
      in self \<lparr> ab_details := d \<lparr>
            bs_settled := amount_diff (bs_settled d) (bs_settled e),
            bs_pending := amount_diff (bs_pending d) (bs_pending e),
            bs_encumbrance := amount_diff (bs_encumbrance d) (bs_encumbrance e) \<rparr> \<rparr>)"

text \<open>\<open>BalanceWithDirection\<close>: the signed balance of a layer, and the available amount.\<close>

definition pending :: "debit_or_credit \<Rightarrow> 'd::linordered_ab_group_add balance_snapshot \<Rightarrow> 'd" where
  "pending direction details =
     (if direction = Credit then ba_cr (bs_pending details) - ba_dr (bs_pending details)
      else ba_dr (bs_pending details) - ba_cr (bs_pending details))"

definition settled :: "debit_or_credit \<Rightarrow> 'd::linordered_ab_group_add balance_snapshot \<Rightarrow> 'd" where
  "settled direction details =
     (if direction = Credit then ba_cr (bs_settled details) - ba_dr (bs_settled details)
      else ba_dr (bs_settled details) - ba_cr (bs_settled details))"

definition encumbrance :: "debit_or_credit \<Rightarrow> 'd::linordered_ab_group_add balance_snapshot \<Rightarrow> 'd" where
  "encumbrance direction details =
     (if direction = Credit then ba_cr (bs_encumbrance details) - ba_dr (bs_encumbrance details)
      else ba_dr (bs_encumbrance details) - ba_cr (bs_encumbrance details))"

fun directed_available ::
  "debit_or_credit \<Rightarrow> 'd::linordered_ab_group_add balance_snapshot \<Rightarrow> layer \<Rightarrow> 'd" where
  "directed_available dir s Settled = settled dir s"
| "directed_available dir s Pending = pending dir s + settled dir s"
| "directed_available dir s Encumbrance = encumbrance dir s + pending dir s + settled dir s"

record 'd balance_range =
  br_open :: "'d account_balance"
  br_period :: "'d account_balance"
  br_close :: "'d account_balance"

definition balance_range_new ::
  "'d::linordered_ab_group_add account_balance option \<Rightarrow> 'd account_balance \<Rightarrow> u32
     \<Rightarrow> 'd balance_range" where
  "balance_range_new start close version_diff =
     (case start of
        Some start \<Rightarrow>
          (let period = derive_diff close start
           in \<lparr> br_open = start,
                br_period = period \<lparr> ab_details := (ab_details period) \<lparr> bs_version := version_diff \<rparr> \<rparr>,
                br_close = close \<rparr>)
      | None \<Rightarrow>
          (let zero_time = 0;
               zero_entry = UNASSIGNED_ENTRY_ID;
               zero = zero_amount zero_entry zero_time
           in \<lparr> br_open = \<lparr> ab_balance_type = ab_balance_type close,
                            ab_details = (ab_details close) \<lparr>
                              bs_version := 0, bs_created_at := zero_time,
                              bs_modified_at := zero_time, bs_entry_id := zero_entry,
                              bs_settled := zero, bs_pending := zero, bs_encumbrance := zero \<rparr> \<rparr>,
                br_period = close \<lparr> ab_details := (ab_details close) \<lparr> bs_version := version_diff \<rparr> \<rparr>,
                br_close = close \<rparr>))"

definition from_bounds ::
  "'d::linordered_ab_group_add account_balance option \<Rightarrow> u32 \<Rightarrow> 'd account_balance option \<Rightarrow> u32
     \<Rightarrow> 'd balance_range option" where
  "from_bounds start start_version close end_version =
     map_option (\<lambda>e. balance_range_new start e (end_version - start_version)) close"

lemma directed_available_amount:
  "directed_available d s l =
     (case d of Credit \<Rightarrow> ba_cr (available s l) - ba_dr (available s l)
              | Debit \<Rightarrow> ba_dr (available s l) - ba_cr (available s l))"
  by (cases d; cases l)
    (simp_all add: settled_def pending_def encumbrance_def algebra_simps)

lemma range_new_amounts:
  "ba_dr (layer_amount (ab_details (br_open r)) l) + ba_dr (layer_amount (ab_details (br_period r)) l)
     = ba_dr (layer_amount (ab_details (br_close r)) l)"
  "ba_cr (layer_amount (ab_details (br_open r)) l) + ba_cr (layer_amount (ab_details (br_period r)) l)
     = ba_cr (layer_amount (ab_details (br_close r)) l)"
  if "r = balance_range_new start e v"
  using that by (cases l; cases start;
    simp add: balance_range_new_def derive_diff_def amount_diff_def zero_amount_def Let_def)+

lemma range_new_available:
  "directed_available d (ab_details (br_open (balance_range_new start e v))) l +
   directed_available d (ab_details (br_period (balance_range_new start e v))) l =
   directed_available d (ab_details (br_close (balance_range_new start e v))) l"
proof -
  let ?r = "balance_range_new start e v"
  have "ba_dr (available (ab_details (br_open ?r)) l) + ba_dr (available (ab_details (br_period ?r)) l)
      = ba_dr (available (ab_details (br_close ?r)) l)"
    "ba_cr (available (ab_details (br_open ?r)) l) + ba_cr (available (ab_details (br_period ?r)) l)
      = ba_cr (available (ab_details (br_close ?r)) l)"
    using range_new_amounts[OF refl, of start e v]
    by (simp_all add: available_dr available_cr flip: sum_list_addf)
  then show ?thesis by (cases d) (simp_all add: directed_available_amount algebra_simps)
qed

section \<open>Properties\<close>

text \<open>
  C29: A range adds up. A range exists exactly when there is a closing balance; its period
  version is the difference of the bounds; and for either normal side and every layer, the
  available amount at the opening plus that of the period is that of the closing. Without an
  opening balance, the opening amounts are zero.
\<close>

theorem range_open_plus_period:
  "case from_bounds start start_version close close_version of
     None \<Rightarrow> close = None
   | Some r \<Rightarrow>
       close = Some (br_close r) \<and>
       bs_version (ab_details (br_period r)) = close_version - start_version \<and>
       (\<forall>d l. directed_available d (ab_details (br_open r)) l +
              directed_available d (ab_details (br_period r)) l =
              directed_available d (ab_details (br_close r)) l) \<and>
       (case start of
          Some s \<Rightarrow> br_open r = s
        | None \<Rightarrow> (\<forall>d l. directed_available d (ab_details (br_open r)) l = 0))"
proof (cases close)
  case (Some c)
  have zero: "directed_available d (ab_details (br_open (balance_range_new None c v))) l = 0" for d l v
    by (cases d; cases l) (simp_all add: balance_range_new_def zero_amount_def Let_def
        settled_def pending_def encumbrance_def)
  have sel: "br_close (balance_range_new st c v) = c"
    "bs_version (ab_details (br_period (balance_range_new st c v))) = v"
    "br_open (balance_range_new (Some s) c v) = s" for v s st
    by (auto simp: balance_range_new_def Let_def split: option.split)
  have add: "directed_available d (ab_details (br_open (balance_range_new start c v))) l +
      directed_available d (ab_details (br_period (balance_range_new start c v))) l =
      directed_available d (ab_details c) l" for d l v
    using range_new_available[of d start c v l] by (simp only: sel)
  show ?thesis
    using Some zero add
    by (cases start) (simp_all add: from_bounds_def sel del: all_layer)
qed (simp add: from_bounds_def)

end
