(* ===== verification/Membership.thy ===== *)
theory Membership imports Primitives begin

text \<open>
  The tables the membership graph lives in: \<open>cala_accounts\<close>, \<open>cala_account_sets\<close>,
  \<open>cala_account_set_member_accounts\<close>, \<open>cala_account_set_member_account_sets\<close> and
  \<open>cala_account_set_graph_epoch\<close>, and the upward \<open>WITH RECURSIVE .. UNION\<close> walk every query
  over them shares. A table with a primary key is a map, a link table is the list of its rows.
\<close>

section \<open>Tables\<close>

record account_row =
  ac_normal_balance_type :: debit_or_credit
  ac_eventually_consistent :: bool
  ac_is_account_set :: bool
  ac_status :: status

record membership_tables =
  mt_accounts :: "account_id \<rightharpoonup> account_row"
  mt_account_sets :: "account_set_id \<rightharpoonup> journal_id"
  mt_member_accounts :: "(account_set_id \<times> account_id) list"
  mt_member_sets :: "(account_set_id \<times> account_set_id) list"
  mt_graph_epoch :: int

section \<open>The recursive walk\<close>

text \<open>
  Postgres evaluates \<open>seed UNION step\<close> on a working table: each round joins the rows of the
  last round with the edges, drops the rows already in the result, and stops when nothing is
  left. An edge is (row, row it leads to).
\<close>

definition step_rows :: "('a \<times> 'a) list \<Rightarrow> 'a list \<Rightarrow> 'a list" where
  "step_rows edges work = concat (map (\<lambda>x. map snd (filter (\<lambda>e. fst e = x) edges)) work)"

lemma set_step_rows [simp]: "set (step_rows edges work) = set edges `` set work"
  by (force simp: step_rows_def Image_def)

function walk :: "('a \<times> 'a) list \<Rightarrow> 'a list \<Rightarrow> 'a list \<Rightarrow> 'a list" where
  "walk edges result work =
     (let new = remdups (filter (\<lambda>y. y \<notin> set result) (step_rows edges work))
      in if new = [] then result else walk edges (result @ new) new)"
  by pat_completeness auto
termination
proof (relation "measure (\<lambda>(edges, result, _). card (snd ` set edges - set result))")
  fix edges :: "('a \<times> 'a) list" and result work new
  assume new: "new = remdups (filter (\<lambda>y. y \<notin> set result) (step_rows edges work))" "new \<noteq> []"
  from new(2) obtain y where y: "y \<in> set new" by (meson last_in_set)
  have "y \<in> snd ` set edges - set result" using y new(1) by force
  moreover have "snd ` set edges - set (result @ new) \<subseteq> snd ` set edges - set result - {y}"
    using y by auto
  ultimately have "snd ` set edges - set (result @ new) \<subset> snd ` set edges - set result" by blast
  then show "((edges, result @ new, new), edges, result, work) \<in>
      measure (\<lambda>(edges, result, _). card (snd ` set edges - set result))"
    by (simp add: psubset_card_mono)
qed simp

declare walk.simps [simp del]

definition union_walk :: "('a \<times> 'a) list \<Rightarrow> 'a list \<Rightarrow> 'a list" where
  "union_walk edges seed = (let seed = remdups seed in walk edges seed seed)"

lemma walk_closed:
  assumes "set edges `` (set result - set work) \<subseteq> set result" and "set work \<subseteq> set result"
  shows "set (walk edges result work) = (set edges)\<^sup>* `` set result"
  using assms
proof (induction edges result work rule: walk.induct)
  case (1 edges result work)
  let ?new = "remdups (filter (\<lambda>y. y \<notin> set result) (step_rows edges work))"
  have new: "set ?new = set edges `` set work - set result" by auto
  have step: "set edges `` set result \<subseteq> set result \<union> set ?new"
    using 1(2) unfolding new by blast
  show ?case
  proof (cases "?new = []")
    case True
    then have "set edges `` set result \<subseteq> set result" using step by simp
    then have "(set edges)\<^sup>* `` set result = set result" by (rule Image_closed_trancl)
    then show ?thesis using True by (simp add: walk.simps[of edges])
  next
    case False
    have "set edges `` (set (result @ ?new) - set ?new) \<subseteq> set (result @ ?new)"
      using step new by auto
    with 1(1)[OF refl False] have "set (walk edges (result @ ?new) ?new) =
        (set edges)\<^sup>* `` (set result \<union> set ?new)" by simp
    also have "\<dots> = (set edges)\<^sup>* `` set result"
    proof -
      have "set ?new \<subseteq> (set edges)\<^sup>* `` set result" using new 1(3) by blast
      then have "(set edges)\<^sup>* `` set ?new \<subseteq> (set edges)\<^sup>* `` set result"
        by (metis Image_mono order_refl relcomp_Image rtrancl_idemp_self_comp)
      then show ?thesis by blast
    qed
    finally show ?thesis using False by (simp add: walk.simps[of edges result] Let_def)
  qed
qed

lemma walk_distinct: "distinct result \<Longrightarrow> distinct (walk edges result work)"
proof (induction edges result work rule: walk.induct)
  case (1 edges result work)
  then show ?case by (subst walk.simps) (auto simp: Let_def)
qed

lemma set_union_walk [simp]: "set (union_walk edges seed) = (set edges)\<^sup>* `` set seed"
  by (simp add: union_walk_def Let_def walk_closed)

lemma distinct_union_walk [simp]: "distinct (union_walk edges seed)"
  by (simp add: union_walk_def Let_def walk_distinct)

end
