(* ===== verification/Versioned_Store.thy ===== *)
theory Versioned_Store imports Prelude begin

text \<open>
  What the three snapshot tables of the ledger share: an append-only history of
  (key, version, value) rows and a table with one current row per key. A version is the
  \<open>int4\<close> the code stores (\<open>version as i32\<close>). The locale \<open>versioned_store\<close> is the contract of
  one \<open>INSERT\<close> statement; the balance, posting and velocity statements provide it.
\<close>

definition as_i32 :: "u32 \<Rightarrow> int" where
  "as_i32 v = sint v"

lemma as_i32_uint:
  assumes "unat (v :: u32) < 2 ^ 31"
  shows "as_i32 v = uint v"
proof -
  have "int (unat v) < int (2 ^ 31)" using assms by (simp only: of_nat_less_iff)
  then have "uint v < 2 ^ 31" by simp
  moreover have "- (2 ^ 31) \<le> uint v" by (rule order_trans[of _ 0]) simp_all
  ultimately have "signed_take_bit 31 (uint v) = uint v" by (intro signed_take_bit_int_eq_self)
  then show ?thesis by (simp add: as_i32_def sint_uint)
qed

lemma as_i32_mono:
  "unat (v :: u32) < 2 ^ 31 \<Longrightarrow> unat w < 2 ^ 31 \<Longrightarrow> as_i32 v < as_i32 w \<longleftrightarrow> v < w"
  by (simp only: as_i32_uint word_less_def)

section \<open>Chunks\<close>

text \<open>\<open>xs.chunks(n)\<close>; the code's chunk sizes are positive constants.\<close>

function chunks :: "nat \<Rightarrow> 'a list \<Rightarrow> 'a list list" where
  "chunks n xs = (if n = 0 \<or> xs = [] then [] else take n xs # chunks n (drop n xs))"
  by pat_completeness auto
termination by (relation "measure (length \<circ> snd)") auto

declare chunks.simps [simp del]

lemma chunks_Nil [simp]: "chunks n [] = []"
  by (simp add: chunks.simps)

lemma concat_chunks [simp]: "0 < n \<Longrightarrow> concat (chunks n xs) = xs"
proof (induction n xs rule: chunks.induct)
  case (1 n xs)
  then show ?case by (subst chunks.simps) auto
qed

lemma chunks_small: "xs \<noteq> [] \<Longrightarrow> length xs \<le> n \<Longrightarrow> chunks n xs = [xs]"
  by (cases xs) (auto simp: chunks.simps)

lemma length_chunk: "0 < n \<Longrightarrow> c \<in> set (chunks n xs) \<Longrightarrow> c \<noteq> [] \<and> length c \<le> n"
proof (induction n xs rule: chunks.induct)
  case (1 n xs)
  from 1(3) have "xs \<noteq> []" by (subst (asm) chunks.simps) (auto split: if_splits)
  with 1 show ?case by (subst (asm) chunks.simps) auto
qed

section \<open>Latest row of a history\<close>

type_synonym ('k, 'v) version_row = "'k \<times> int \<times> 'v"

text \<open>\<open>GREATEST\<close> with \<open>CASE WHEN c.latest_version < EXCLUDED.latest_version\<close>: the later of two.\<close>

definition later :: "(int \<times> 'v) option \<Rightarrow> (int \<times> 'v) option \<Rightarrow> (int \<times> 'v) option" where
  "later c n = (case c of None \<Rightarrow> n | Some (cv, cs) \<Rightarrow>
     (case n of None \<Rightarrow> c | Some (v, s) \<Rightarrow> Some (max cv v, if cv < v then s else cs)))"

text \<open>\<open>MAX(version)\<close> with \<open>(array_agg(values ORDER BY version DESC))[1]\<close>.\<close>

fun latest :: "(int \<times> 'v) list \<Rightarrow> (int \<times> 'v) option" where
  "latest [] = None"
| "latest (r # rs) = later (Some r) (latest rs)"

definition rows_of :: "'k \<Rightarrow> ('k, 'v) version_row list \<Rightarrow> (int \<times> 'v) list" where
  "rows_of k rows = map snd (filter (\<lambda>r. fst r = k) rows)"

lemma rows_of_append [simp]: "rows_of k (xs @ ys) = rows_of k xs @ rows_of k ys"
  by (simp add: rows_of_def)

lemma set_rows_of [simp]: "(v, x) \<in> set (rows_of k rows) \<longleftrightarrow> (k, v, x) \<in> set rows"
  by (force simp: rows_of_def)

lemma later_None [simp]: "later None n = n" "later c None = c"
  by (auto simp: later_def split: option.split)

lemma later_assoc: "later (later a b) c = later a (later b c)"
  by (auto simp: later_def split: option.splits)

lemma latest_append: "latest (xs @ ys) = later (latest xs) (latest ys)"
  by (induction xs) (simp_all add: later_assoc)

lemma latest_None_iff [simp]: "latest rows = None \<longleftrightarrow> rows = []"
  by (cases rows) (auto simp: later_def split: option.split prod.split)

lemma latest_Some: "latest rows = Some (v, s) \<Longrightarrow> (v, s) \<in> set rows \<and> (\<forall>(w, _) \<in> set rows. w \<le> v)"
proof (induction rows arbitrary: v s)
  case (Cons r rows)
  show ?case
  proof (cases "latest rows")
    case None
    then show ?thesis using Cons.prems by auto
  next
    case (Some p)
    obtain w t where p: "p = (w, t)" by fastforce
    have IH: "(w, t) \<in> set rows \<and> (\<forall>(u, _) \<in> set rows. u \<le> w)"
      using Cons.IH Some p by blast
    then show ?thesis using Cons.prems Some p
      by (cases r) (fastforce simp: later_def max_def split: if_splits)
  qed
qed simp

lemma latest_eqI:
  assumes "(v, s) \<in> set rows" and "\<And>w t. (w, t) \<in> set rows \<Longrightarrow> w \<le> v"
    and "\<And>t. (v, t) \<in> set rows \<Longrightarrow> t = s"
  shows "latest rows = Some (v, s)"
proof -
  from assms(1) obtain w t where l: "latest rows = Some (w, t)"
    by (cases "latest rows") auto
  with latest_Some[OF l] assms(2)[of w t] assms(1) have "w = v" by fastforce
  with latest_Some[OF l] assms(3) l show ?thesis by blast
qed

section \<open>The contract of a store\<close>

locale versioned_store =
  fixes ins :: "'s \<Rightarrow> 'r list \<Rightarrow> 'e + 's"
    and hist :: "'s \<Rightarrow> ('k, 'v) version_row list"
    and cur :: "'s \<Rightarrow> 'k \<Rightarrow> (int \<times> 'v) option"
    and row :: "'r \<Rightarrow> ('k, 'v) version_row"
    and fits :: "'s \<Rightarrow> 'r list \<Rightarrow> bool"
  assumes ins_hist: "ins s rs = Inr s' \<Longrightarrow> hist s' = hist s @ map row rs"
    and ins_cur: "ins s rs = Inr s' \<Longrightarrow> fits s rs \<Longrightarrow> cur s k = latest (rows_of k (hist s)) \<Longrightarrow>
      cur s' k = later (cur s k) (latest (rows_of k (map row rs)))"
begin

definition consistent :: "'s \<Rightarrow> bool" where
  "consistent s \<longleftrightarrow> (\<forall>k. cur s k = latest (rows_of k (hist s)))"

lemma ins_consistent: "ins s rs = Inr s' \<Longrightarrow> fits s rs \<Longrightarrow> consistent s \<Longrightarrow> consistent s'"
  by (simp add: consistent_def ins_hist ins_cur latest_append)

lemma current_is_max:
  assumes "consistent s" and "cur s k = Some (v, x)"
  shows "(k, v, x) \<in> set (hist s) \<and> (\<forall>w y. (k, w, y) \<in> set (hist s) \<longrightarrow> w \<le> v)"
proof -
  have "latest (rows_of k (hist s)) = Some (v, x)" using assms by (simp add: consistent_def)
  from latest_Some[OF this] show ?thesis by fastforce
qed

lemma batches_hist:
  "rfold ins s rss = Inr s' \<Longrightarrow> hist s' = hist s @ map row (concat rss)"
  by (induction rss arbitrary: s) (auto simp: rbind_Inr_iff ins_hist)

lemma batches_consistent:
  assumes "rfold ins s rss = Inr s'" and "consistent s" and "\<And>s rs. fits s rs"
  shows "consistent s'"
  by (rule rfold_invariant[where P = consistent, OF assms(1,2)]) (rule ins_consistent[OF _ assms(3)])

lemma batches_cur:
  assumes "rfold ins s rss = Inr s'" and "consistent s" and "\<And>s rs. fits s rs"
  shows "cur s' k = later (cur s k) (latest (rows_of k (map row (concat rss))))"
  using batches_consistent[OF assms] batches_hist[OF assms(1)] assms(2)
  by (simp add: consistent_def latest_append)

end

end
