(* ===== verification/Pagination.thy ===== *)
theory Pagination imports Prelude begin

text \<open>
  Keyset pagination, as every listing of the ledger does it: fetch \<open>first + 1\<close> rows past the
  cursor in key order, report whether the extra row came back, keep \<open>first\<close> and hand out the
  key of the last one kept. \<open>PaginatedQueryArgs\<close> and \<open>PaginatedQueryRet\<close> come from
  \<open>es_entity\<close>. The locale proves once that following the cursors enumerates a listing.
\<close>

record ('a, 'c) page =
  pg_entities :: "'a list"
  pg_has_next_page :: bool
  pg_end_cursor :: "'c option"

definition past :: "('a \<Rightarrow> 'c::linorder) \<Rightarrow> 'c option \<Rightarrow> 'a list \<Rightarrow> 'a list" where
  "past key after rows =
     filter (\<lambda>r. case after of None \<Rightarrow> True | Some c \<Rightarrow> c < key r) rows"

text \<open>\<open>matching\<close> are the rows past the cursor, in order; \<open>LIMIT first + 1\<close> cuts them.\<close>

definition page_of :: "nat \<Rightarrow> ('a \<Rightarrow> 'c) \<Rightarrow> 'a list \<Rightarrow> ('a, 'c) page" where
  "page_of first cursor matching =
     (let rows = take (first + 1) matching;
          has_next_page = first < length rows;
          entities = take first rows
      in \<lparr> pg_entities = entities,
           pg_has_next_page = has_next_page,
           pg_end_cursor = (if entities = [] then None else Some (cursor (last entities))) \<rparr>)"

text \<open>A caller that follows the cursors: at most \<open>n\<close> requests.\<close>

fun follow :: "('c option \<Rightarrow> ('a, 'c) page) \<Rightarrow> nat \<Rightarrow> 'c option \<Rightarrow> 'a list" where
  "follow req 0 after = []"
| "follow req (Suc n) after =
     (let p = req after
      in pg_entities p @ (if pg_has_next_page p then follow req n (pg_end_cursor p) else []))"

lemma past_None [simp]: "past key None rows = rows"
  by (simp add: past_def)

lemma past_sorted_split:
  assumes "sorted_wrt (\<lambda>x y. key x < key y) (xs @ [x] @ ys)"
  shows "past key (Some (key x)) (xs @ [x] @ ys) = ys"
  using assms by (auto simp: past_def sorted_wrt_append filter_id_conv filter_empty_conv)

lemma past_past:
  "past key (Some c) (past key after rows) = past key (Some c) rows" if "\<forall>d. after = Some d \<longrightarrow> d \<le> c"
  using that by (cases after) (auto simp: past_def intro!: filter_cong)

locale keyset_listing =
  fixes ok :: "'db \<Rightarrow> bool"
    and list_page :: "'db \<Rightarrow> nat \<Rightarrow> 'c::linorder option \<Rightarrow> ('a, 'c) page"
    and listing :: "'db \<Rightarrow> 'a list"
    and key :: "'a \<Rightarrow> 'c"
  assumes listing_sorted: "ok db \<Longrightarrow> sorted_wrt (\<lambda>x y. key x < key y) (listing db)"
    and list_page: "ok db \<Longrightarrow> list_page db n after = page_of n key (past key after (listing db))"
begin

lemma page_entities: "ok db \<Longrightarrow> pg_entities (list_page db n after) = take n (past key after (listing db))"
  by (simp add: list_page page_of_def Let_def min_def)

lemma page_size: "ok db \<Longrightarrow> length (pg_entities (list_page db n after)) \<le> n"
  by (simp add: page_entities)

lemma follow_from:
  assumes ok: "ok db" and "0 < n" and "past key after (listing db) = drop i (listing db)" and "length (listing db) - i \<le> m * n" and "0 < m"
  shows "follow (list_page db n) m after = drop i (listing db)"
  using assms(3-5)
proof (induction m arbitrary: after i)
  case (Suc m)
  define rest where "rest = drop i (listing db)"
  have page: "list_page db n after = page_of n key rest" using Suc.prems(1) ok by (simp add: list_page rest_def)
  show ?case
  proof (cases "n < length rest")
    case False
    then show ?thesis using page by (simp add: page_of_def Let_def rest_def[symmetric])
  next
    case True
    let ?last = "last (take n rest)"
    from True assms(2) have ne: "take n rest \<noteq> []" by auto
    have split: "(listing db) = (take i (listing db) @ butlast (take n rest)) @ [?last] @ drop n rest"
    proof -
      have "take n rest = butlast (take n rest) @ [?last]" using ne by simp
      moreover have "(listing db) = take i (listing db) @ take n rest @ drop n rest" by (simp only: rest_def append_take_drop_id)
      ultimately show ?thesis by (metis append_assoc)
    qed
    have "past key (Some (key ?last)) (listing db) = drop (i + n) (listing db)"
      using past_sorted_split[of key "take i (listing db) @ butlast (take n rest)" ?last "drop n rest"]
        listing_sorted[OF ok] split by (simp add: rest_def add.commute)
    moreover have "0 < m" using Suc.prems(2) True by (cases m) (auto simp: rest_def)
    moreover have "length (listing db) - (i + n) \<le> m * n" using Suc.prems(2) by simp
    ultimately have "follow (list_page db n) m (Some (key ?last)) = drop (i + n) (listing db)"
      by (intro Suc.IH)
    moreover have "take n rest @ drop (i + n) (listing db) = rest"
      using append_take_drop_id[of n rest] by (simp add: rest_def add.commute)
    ultimately show ?thesis using True ne page
      by (simp add: page_of_def Let_def min_def flip: rest_def)
  qed
qed simp

text \<open>Following the cursors lists every row once, in order, whatever the page size.\<close>

lemma follow_all:
  assumes ok: "ok db" and "0 < n" and "length (listing db) \<le> m" and "0 < m"
  shows "follow (list_page db n) m None = (listing db)"
proof -
  have "length (listing db) \<le> m * n" using assms(2,3) by (metis le_trans mult.right_neutral mult_le_mono2 less_eq_Suc_le One_nat_def)
  then show ?thesis using follow_from[of db n None 0 m] assms by simp
qed

end

end
