(* ===== verification/Balance_Store.thy ===== *)
theory Balance_Store imports Account_Balance Membership Versioned_Store Pagination begin

text \<open>
  The balance repository (\<open>balance/repo.rs\<close>): the tables \<open>cala_balance_history\<close> and
  \<open>cala_current_balances\<close>, the queries over them and the batched upsert. Advisory locks order
  concurrent transactions and have no effect inside one, so they are not modelled. Currency
  columns hold codes, which are the currencies of the model; \<open>ORDER BY\<close> on a column and the
  comparison with a cursor use the same order.
\<close>

section \<open>Tables and errors\<close>

record 'd balance_tables =
  bt_history :: "(balance_id \<times> int \<times> 'd balance_snapshot) list"
  bt_current :: "(balance_id \<times> int \<times> 'd balance_snapshot) list"

datatype balance_error =
    Sqlx
  | NotFound journal_id account_id currency
  | JournalError
  | JournalLocked journal_id
  | AccountLocked account_id

definition snapshot_id :: "'d balance_snapshot \<Rightarrow> balance_id" where
  "snapshot_id s = (bs_journal_id s, bs_account_id s, bs_currency s)"

section \<open>Reading\<close>

text \<open>\<open>JOIN cala_accounts a ON c.account_id = a.id\<close>, and the conversion of a row.\<close>

definition join_account ::
  "membership_tables \<Rightarrow> balance_id \<times> int \<times> 'd balance_snapshot \<Rightarrow> (balance_id \<times> 'd account_balance) list" where
  "join_account mt row =
     (case row of ((j, a, c), v, s) \<Rightarrow>
        (case mt_accounts mt a of
           None \<Rightarrow> []
         | Some acc \<Rightarrow> [((j, a, c), account_balance_new (ac_normal_balance_type acc) s)]))"

definition joined_rows ::
  "membership_tables \<Rightarrow> 'd balance_tables \<Rightarrow> (balance_id \<times> 'd account_balance) list" where
  "joined_rows mt bt = concat (map (join_account mt) (bt_current bt))"

text \<open>The key columns of a row.\<close>

definition currency_col :: "balance_id \<times> 'b \<Rightarrow> currency" where
  "currency_col row = snd (snd (fst row))"

definition account_col :: "balance_id \<times> 'b \<Rightarrow> account_id" where
  "account_col row = fst (snd (fst row))"

definition journal_col :: "balance_id \<times> 'b \<Rightarrow> journal_id" where
  "journal_col row = fst (fst row)"

definition find_in_op ::
  "membership_tables \<Rightarrow> 'd balance_tables \<Rightarrow> journal_id \<Rightarrow> account_id \<Rightarrow> currency
     \<Rightarrow> balance_error + 'd account_balance" where
  "find_in_op mt bt journal_id account_id currency =
     ok_or (NotFound journal_id account_id currency)
       (map_of (joined_rows mt bt) (journal_id, account_id, currency))"

definition find_all_in_op ::
  "membership_tables \<Rightarrow> 'd balance_tables \<Rightarrow> balance_id list \<Rightarrow> (balance_id \<rightharpoonup> 'd account_balance)" where
  "find_all_in_op mt bt ids =
     foldl (\<lambda>ret (_, b). ret(snapshot_id (ab_details b) \<mapsto> b)) Map.empty
       (concat (map (\<lambda>row. concat (map (\<lambda>i. if i = fst row then [row] else []) ids)) (joined_rows mt bt)))"

definition list_for_account_in_op ::
  "membership_tables \<Rightarrow> 'd balance_tables \<Rightarrow> journal_id \<Rightarrow> account_id \<Rightarrow> nat \<Rightarrow> currency option
     \<Rightarrow> ('d account_balance, currency) page" where
  "list_for_account_in_op mt bt journal_id account_id n after =
     (let rows = filter (\<lambda>r. journal_col r = journal_id \<and> account_col r = account_id) (joined_rows mt bt)
      in page_of n (bs_currency \<circ> ab_details)
           (map snd (past currency_col after (sort_key currency_col rows))))"

definition list_for_accounts_in_op ::
  "membership_tables \<Rightarrow> 'd balance_tables \<Rightarrow> journal_id \<Rightarrow> account_id list \<Rightarrow> nat
     \<Rightarrow> (account_id \<times> currency) option \<Rightarrow> ('d account_balance, account_id \<times> currency) page" where
  "list_for_accounts_in_op mt bt journal_id account_ids n after =
     (let rows = filter (\<lambda>r. journal_col r = journal_id \<and> account_col r \<in> set account_ids) (joined_rows mt bt);
          columns = (\<lambda>r. (account_col r, currency_col r))
      in page_of n (\<lambda>b. (bs_account_id (ab_details b), bs_currency (ab_details b)))
           (map snd (past columns after (sort_key columns rows))))"

text \<open>\<open>entries\<close> are the (journal, account) columns of \<open>cala_entries\<close>.\<close>

definition member_has_balance_history_in_op ::
  "'d balance_tables \<Rightarrow> (journal_id \<times> account_id) list \<Rightarrow> journal_id \<Rightarrow> account_id \<Rightarrow> bool" where
  "member_has_balance_history_in_op bt entries journal_id member_id =
     ((\<exists>((j, a, _), _) \<in> set (bt_history bt). j = journal_id \<and> a = member_id) \<or>
      (\<exists>(j, a) \<in> set entries. j = journal_id \<and> a = member_id))"

definition members_with_balance_history_in_op ::
  "'d balance_tables \<Rightarrow> (journal_id \<times> account_id) list \<Rightarrow> (journal_id \<times> account_id) list
     \<Rightarrow> account_id list" where
  "members_with_balance_history_in_op bt entries pairs =
     (if pairs = [] then []
      else remdups (map snd (filter (\<lambda>(j, m).
             (\<exists>((j', a, _), _) \<in> set (bt_history bt). j' = j \<and> a = m) \<or>
             (\<exists>(j', a) \<in> set entries. j' = j \<and> a = m)) pairs)))"

section \<open>Writing\<close>

definition INSERT_SNAPSHOT_BATCH_SIZE :: nat where
  "INSERT_SNAPSHOT_BATCH_SIZE = 5000"

definition snapshot_row ::
  "'d balance_snapshot \<Rightarrow> balance_id \<times> int \<times> 'd balance_snapshot" where
  "snapshot_row balance = (snapshot_id balance, as_i32 (bs_version balance), balance)"

text \<open>\<open>SELECT .. GROUP BY\<close> over the new rows, then \<open>ON CONFLICT DO UPDATE\<close>, group by group.\<close>

definition upsert_current ::
  "('k, 'v) version_row list \<Rightarrow> ('k, 'v) version_row list \<Rightarrow> ('k, 'v) version_row list" where
  "upsert_current new current =
     foldl (\<lambda>c k. case latest (rows_of k new) of
                    None \<Rightarrow> c
                  | Some excluded \<Rightarrow> upsert k (\<lambda>old. the (later old (Some excluded))) c)
       current (remdups (map fst new))"

text \<open>\<open>UNIQUE (account_id, journal_id, currency, version)\<close> on the history.\<close>

definition unique_versions :: "('k, 'v) version_row list \<Rightarrow> bool" where
  "unique_versions rows = distinct (map (\<lambda>(k, v, _). (k, v)) rows)"

definition insert_chunk ::
  "'d balance_tables \<Rightarrow> 'd balance_snapshot list \<Rightarrow> balance_error + 'd balance_tables" where
  "insert_chunk bt chunk =
     (let new_snapshots = map snapshot_row chunk;
          history = bt_history bt @ new_snapshots
      in if unique_versions history
         then Inr (bt \<lparr> bt_history := history,
                        bt_current := upsert_current new_snapshots (bt_current bt) \<rparr>)
         else Inl Sqlx)"

definition insert_new_snapshots ::
  "'d balance_tables \<Rightarrow> 'd balance_snapshot list \<Rightarrow> balance_error + 'd balance_tables" where
  "insert_new_snapshots bt new_balances =
     rfold insert_chunk bt (chunks INSERT_SNAPSHOT_BATCH_SIZE new_balances)"

section \<open>Eventually consistent targets\<close>

definition fetch_ec_set_mappings ::
  "membership_tables \<Rightarrow> journal_id \<Rightarrow> account_id list \<Rightarrow> (account_id \<times> account_set_id list) list" where
  "fetch_ec_set_mappings mt journal_id account_ids =
     (let seed = map (\<lambda>(s, a). (a, s)) (filter (\<lambda>(s, a). a \<in> set account_ids) (mt_member_accounts mt));
          edges = concat (map (\<lambda>a. map (\<lambda>(p, c). ((a, c), (a, p))) (mt_member_sets mt)) account_ids);
          rows = filter (\<lambda>(a, s). mt_account_sets mt s = Some journal_id \<and>
                   (case mt_accounts mt (account_of_set s) of
                      None \<Rightarrow> False | Some acc \<Rightarrow> ac_eventually_consistent acc))
                 (union_walk edges seed)
      in group_pairs rows)"

definition fetch_ec_leaf_accounts :: "membership_tables \<Rightarrow> account_id list \<Rightarrow> account_id list" where
  "fetch_ec_leaf_accounts mt account_ids =
     filter (\<lambda>a. case mt_accounts mt a of
                   None \<Rightarrow> False
                 | Some acc \<Rightarrow> ac_eventually_consistent acc \<and> \<not> ac_is_account_set acc)
       (remdups account_ids)"

definition find_ec_balances_for_update ::
  "membership_tables \<Rightarrow> 'd balance_tables \<Rightarrow> journal_id \<Rightarrow> (account_id \<times> currency) list
     \<Rightarrow> balance_error + (account_id \<times> currency \<rightharpoonup> 'd balance_snapshot option)" where
  "find_ec_balances_for_update mt bt journal_id pairs =
     rfold (\<lambda>ret (a, c).
        case mt_accounts mt a of
          None \<Rightarrow> Inr ret
        | Some acc \<Rightarrow>
            if \<not> ac_eventually_consistent acc then Inr ret
            else if ac_status acc = Locked then Inl (AccountLocked a)
            else Inr (ret((a, c) \<mapsto> map_option snd (map_of (bt_current bt) (journal_id, a, c)))))
       Map.empty pairs"

section \<open>The store invariant\<close>

definition store_ok :: "'d balance_tables \<Rightarrow> bool" where
  "store_ok bt \<longleftrightarrow>
     unique_versions (bt_history bt) \<and>
     distinct (map fst (bt_current bt)) \<and>
     (\<forall>(k, v, s) \<in> set (bt_history bt). snapshot_id s = k) \<and>
     (\<forall>k. map_of (bt_current bt) k = latest (rows_of k (bt_history bt)))"

lemma store_okD:
  assumes "store_ok bt"
  shows "unique_versions (bt_history bt)" and "distinct (map fst (bt_current bt))"
    and "(k, v, s) \<in> set (bt_history bt) \<Longrightarrow> snapshot_id s = k"
    and "map_of (bt_current bt) k = latest (rows_of k (bt_history bt))"
  using assms unfolding store_ok_def by blast+

lemma store_ok_empty: "store_ok \<lparr> bt_history = [], bt_current = [] \<rparr>"
  by (simp add: store_ok_def unique_versions_def rows_of_def)

lemma upsert_current_step:
  assumes "distinct ks"
  shows "map_of (foldl (\<lambda>c k. case latest (rows_of k new) of None \<Rightarrow> c
            | Some excluded \<Rightarrow> upsert k (\<lambda>old. the (later old (Some excluded))) c) cur ks) k =
         (if k \<in> set ks then later (map_of cur k) (latest (rows_of k new)) else map_of cur k)"
  using assms
proof (induction ks arbitrary: cur)
  case (Cons k' ks)
  have "the (later old (Some e)) = e' \<longleftrightarrow> later old (Some e) = Some e'" for old and e e' :: "int \<times> 'b"
    by (cases old; cases e) (auto simp: later_def)
  then have "Some (the (later old (Some e))) = later old (Some e)" for old and e :: "int \<times> 'b"
    by metis
  then show ?case using Cons by (auto split: option.split)
qed simp

lemma map_of_upsert_current [simp]:
  "map_of (upsert_current new cur) k = later (map_of cur k) (latest (rows_of k new))"
proof -
  have "k \<notin> fst ` set new \<Longrightarrow> rows_of k new = []"
    by (force simp: rows_of_def filter_empty_conv)
  then show ?thesis by (auto simp: upsert_current_def upsert_current_step)
qed

lemma distinct_upsert_current:
  "distinct (map fst cur) \<Longrightarrow> distinct (map fst (upsert_current new cur))"
proof -
  have "distinct (map fst (foldl (\<lambda>c k. case latest (rows_of k new) of None \<Rightarrow> c
      | Some excluded \<Rightarrow> upsert k (\<lambda>old. the (later old (Some excluded))) c) cur ks))"
    if "distinct (map fst cur)" for ks
    using that by (induction ks arbitrary: cur) (auto split: option.split)
  then show "distinct (map fst cur) \<Longrightarrow> distinct (map fst (upsert_current new cur))"
    by (simp add: upsert_current_def)
qed

interpretation chunk_store: versioned_store insert_chunk bt_history "\<lambda>bt. map_of (bt_current bt)"
    snapshot_row "\<lambda>_ _. True"
  by unfold_locales (auto simp: insert_chunk_def Let_def split: if_splits)

lemma insert_chunk_ok: "insert_chunk bt rows = Inr bt' \<Longrightarrow> store_ok bt \<Longrightarrow> store_ok bt'"
  using chunk_store.ins_consistent[of bt rows bt']
  by (auto simp: store_ok_def chunk_store.consistent_def insert_chunk_def Let_def
      snapshot_row_def distinct_upsert_current split: if_splits)

lemma insert_chunk_cases:
  "insert_chunk bt rows =
     (if unique_versions (bt_history bt @ map snapshot_row rows)
      then Inr (bt \<lparr> bt_history := bt_history bt @ map snapshot_row rows,
                     bt_current := upsert_current (map snapshot_row rows) (bt_current bt) \<rparr>)
      else Inl Sqlx)"
  by (simp add: insert_chunk_def Let_def)

lemma insert_chunks_error:
  assumes "unique_versions (bt_history bt)"
  shows "(\<exists>e. rfold insert_chunk bt rss = Inl e) \<longleftrightarrow>
    \<not> unique_versions (bt_history bt @ map snapshot_row (concat rss))"
  using assms
proof (induction rss arbitrary: bt)
  case (Cons rs rss)
  have prefix: "unique_versions (xs @ ys) \<Longrightarrow> unique_versions xs" for xs ys :: "('k, 'v) version_row list"
    by (simp add: unique_versions_def)
  show ?case
  proof (cases "unique_versions (bt_history bt @ map snapshot_row rs)")
    case True
    then show ?thesis using Cons.IH by (simp add: insert_chunk_cases)
  next
    case False
    then have "\<not> unique_versions ((bt_history bt @ map snapshot_row rs) @ map snapshot_row (concat rss))"
      using prefix by blast
    with False show ?thesis by (simp add: insert_chunk_cases)
  qed
qed simp

section \<open>Listings\<close>

text \<open>The rows a listing enumerates, in key order.\<close>

definition currency_listing ::
  "membership_tables \<Rightarrow> journal_id \<Rightarrow> account_id \<Rightarrow> 'd balance_tables \<Rightarrow> 'd account_balance list" where
  "currency_listing mt journal_id account_id bt =
     map snd (sort_key currency_col
       (filter (\<lambda>r. journal_col r = journal_id \<and> account_col r = account_id) (joined_rows mt bt)))"

definition account_listing ::
  "membership_tables \<Rightarrow> journal_id \<Rightarrow> account_id list \<Rightarrow> 'd balance_tables \<Rightarrow> 'd account_balance list" where
  "account_listing mt journal_id account_ids bt =
     map snd (sort_key (\<lambda>r. (account_col r, currency_col r))
       (filter (\<lambda>r. journal_col r = journal_id \<and> account_col r \<in> set account_ids) (joined_rows mt bt)))"

lemma joined_rows_filter:
  "joined_rows mt bt = map (\<lambda>((j, a, c), v, s).
      ((j, a, c), account_balance_new (ac_normal_balance_type (the (mt_accounts mt a))) s))
      (filter (\<lambda>((j, a, c), v, s). mt_accounts mt a \<noteq> None) (bt_current bt))"
proof -
  have "concat (map (join_account mt) rows) = map (\<lambda>((j, a, c), v, s).
      ((j, a, c), account_balance_new (ac_normal_balance_type (the (mt_accounts mt a))) s))
      (filter (\<lambda>((j, a, c), v, s). mt_accounts mt a \<noteq> None) rows)" for rows :: "(balance_id \<times> int \<times> 'a balance_snapshot) list"
    by (induction rows) (auto simp: join_account_def split: option.split)
  then show ?thesis by (simp add: joined_rows_def)
qed

lemma joined_rows_keys: "distinct (map fst (bt_current bt)) \<Longrightarrow> distinct (map fst (joined_rows mt bt))"
  unfolding joined_rows_filter by (simp add: case_prod_unfold comp_def distinct_map_filter)

lemma current_keyed:
  assumes "store_ok bt" and "(k, v, s) \<in> set (bt_current bt)"
  shows "snapshot_id s = k"
proof -
  have "latest (rows_of k (bt_history bt)) = Some (v, s)"
    using store_okD(2,4)[OF assms(1)] assms(2) by (metis map_of_eq_Some_iff)
  from latest_Some[OF this] have "(k, v, s) \<in> set (bt_history bt)" by simp
  then show ?thesis by (rule store_okD(3)[OF assms(1)])
qed

lemma joined_rows_keyed: "store_ok bt \<Longrightarrow> (k, b) \<in> set (joined_rows mt bt) \<Longrightarrow> snapshot_id (ab_details b) = k"
  unfolding joined_rows_filter by (auto simp: account_balance_new_def dest: current_keyed)

lemma sort_key_strict:
  assumes "distinct (map f rows)"
  shows "sorted_wrt (\<lambda>x y. f x < f y) (sort_key f rows)"
proof -
  have "distinct (map f (sort_key f rows))"
    using assms by (metis distinct_map mset_sort mset_eq_setD mset_map distinct_count_atmost_1 mset_eq_imp_distinct_iff)
  then have "sorted_wrt (<) (map f (sort_key f rows))" by (simp add: strict_sorted_iff)
  then show ?thesis by (simp add: sorted_wrt_map)
qed

lemma past_map_snd:
  "(\<And>r. r \<in> set rows \<Longrightarrow> column r = key (snd r)) \<Longrightarrow>
     map snd (past column after rows) = past key after (map snd rows)"
  by (induction rows) (auto simp: past_def split: option.split)

lemma listing_columns:
  assumes ok: "store_ok bt"
    and f: "\<And>r. r \<in> set (joined_rows mt bt) \<Longrightarrow> column r = key (snd r)"
    and inj: "\<And>r q. P r \<Longrightarrow> P q \<Longrightarrow> column r = column q \<Longrightarrow> fst r = fst q"
  shows "sorted_wrt (\<lambda>x y. key x < key y) (map snd (sort_key column (filter P (joined_rows mt bt))))"
proof -
  let ?rows = "filter P (joined_rows mt bt)"
  have "distinct (map fst ?rows)"
    using store_okD(2)[OF ok] by (intro distinct_map_filter joined_rows_keys)
  then have rows: "distinct ?rows" and fst: "inj_on fst (set ?rows)" by (simp_all add: distinct_map)
  have "inj_on column (set ?rows)"
  proof (rule inj_onI)
    fix r q assume "r \<in> set ?rows" "q \<in> set ?rows" "column r = column q"
    moreover then have "fst r = fst q" by (intro inj) auto
    ultimately show "r = q" using fst by (meson inj_onD)
  qed
  with rows have "distinct (map column ?rows)" by (simp add: distinct_map)
  from sort_key_strict[OF this] have "sorted_wrt (\<lambda>x y. column x < column y) (sort_key column ?rows)" .
  moreover have "column r = key (snd r)" if "r \<in> set ?rows" for r
    using that f by auto
  ultimately show ?thesis
    by (auto simp: sorted_wrt_map intro: sorted_wrt_mono_rel[rotated])
qed

lemma row_columns:
  assumes "store_ok bt" and "r \<in> set (joined_rows mt bt)"
  shows "currency_col r = bs_currency (ab_details (snd r))"
    and "account_col r = bs_account_id (ab_details (snd r))"
  using joined_rows_keyed[OF assms(1), of "fst r" "snd r" mt] assms(2)
  by (cases r; simp add: snapshot_id_def currency_col_def account_col_def; metis fst_conv snd_conv)+

lemma row_eqI:
  "journal_col r = journal_col q \<Longrightarrow> account_col r = account_col q \<Longrightarrow> currency_col r = currency_col q \<Longrightarrow>
     fst r = fst q"
  by (simp add: journal_col_def account_col_def currency_col_def prod_eq_iff)

lemma currency_listing_sorted:
  "store_ok bt \<Longrightarrow> sorted_wrt (\<lambda>x y. (bs_currency \<circ> ab_details) x < (bs_currency \<circ> ab_details) y)
     (currency_listing mt journal account bt)"
  unfolding currency_listing_def
  by (rule listing_columns[where key = "bs_currency \<circ> ab_details"]) (auto simp: row_columns intro: row_eqI)

lemma account_listing_sorted:
  "store_ok bt \<Longrightarrow> sorted_wrt (\<lambda>x y. (bs_account_id (ab_details x), bs_currency (ab_details x)) <
      (bs_account_id (ab_details y), bs_currency (ab_details y))) (account_listing mt journal accounts bt)"
  unfolding account_listing_def
  by (rule listing_columns[where key = "\<lambda>b. (bs_account_id (ab_details b), bs_currency (ab_details b))"])
    (auto simp: row_columns intro: row_eqI)

lemma list_for_account_page:
  "store_ok bt \<Longrightarrow> list_for_account_in_op mt bt journal account n after =
     page_of n (bs_currency \<circ> ab_details)
       (past (bs_currency \<circ> ab_details) after (currency_listing mt journal account bt))"
  unfolding list_for_account_in_op_def currency_listing_def Let_def
  by (subst past_map_snd[where key = "bs_currency \<circ> ab_details"]) (auto simp: row_columns)

lemma list_for_accounts_page:
  "store_ok bt \<Longrightarrow> list_for_accounts_in_op mt bt journal accounts n after =
     page_of n (\<lambda>b. (bs_account_id (ab_details b), bs_currency (ab_details b)))
       (past (\<lambda>b. (bs_account_id (ab_details b), bs_currency (ab_details b))) after
         (account_listing mt journal accounts bt))"
  unfolding list_for_accounts_in_op_def account_listing_def Let_def
  by (subst past_map_snd[where key = "\<lambda>b. (bs_account_id (ab_details b), bs_currency (ab_details b))"])
    (auto simp: row_columns)

interpretation by_currency: keyset_listing store_ok
    "\<lambda>bt. list_for_account_in_op mt bt journal account" "currency_listing mt journal account"
    "bs_currency \<circ> ab_details" for mt journal account
  by unfold_locales (rule currency_listing_sorted list_for_account_page, assumption)+

interpretation by_account: keyset_listing store_ok
    "\<lambda>bt. list_for_accounts_in_op mt bt journal accounts" "account_listing mt journal accounts"
    "\<lambda>b. (bs_account_id (ab_details b), bs_currency (ab_details b))" for mt journal accounts
  by unfold_locales (rule account_listing_sorted list_for_accounts_page, assumption)+

section \<open>Eventually consistent targets\<close>

text \<open>The ancestor sets of an account: its direct sets and everything above them.\<close>

definition ancestor_sets :: "membership_tables \<Rightarrow> account_id \<Rightarrow> account_set_id set" where
  "ancestor_sets mt a =
     {(c, p). (p, c) \<in> set (mt_member_sets mt)}\<^sup>* `` {s. (s, a) \<in> set (mt_member_accounts mt)}"

lemma lifted_walk:
  assumes "set edges = {((a, c), (a, p)) |a c p. a \<in> A \<and> (p, c) \<in> R}" and "a \<in> A"
  shows "((a, s), (b, t)) \<in> (set edges)\<^sup>* \<longleftrightarrow> a = b \<and> (s, t) \<in> {(c, p). (p, c) \<in> R}\<^sup>*"
proof
  assume "((a, s), (b, t)) \<in> (set edges)\<^sup>*"
  then show "a = b \<and> (s, t) \<in> {(c, p). (p, c) \<in> R}\<^sup>*"
    by (induction rule: rtrancl_induct2) (auto simp: assms(1) intro: rtrancl_into_rtrancl)
next
  assume st: "a = b \<and> (s, t) \<in> {(c, p). (p, c) \<in> R}\<^sup>*"
  from conjunct2[OF st] have "((a, s), (a, t)) \<in> (set edges)\<^sup>*"
  proof (induction rule: rtrancl_induct)
    case (step t u)
    then have "((a, t), (a, u)) \<in> set edges" using assms by auto
    with step.IH show ?case by (rule rtrancl_into_rtrancl)
  qed simp
  then show "((a, s), (b, t)) \<in> (set edges)\<^sup>*" using conjunct1[OF st] by simp
qed

text \<open>The rows of the walk from the direct memberships of some accounts.\<close>

lemma ancestor_rows:
  defines "rows mt accounts \<equiv> union_walk
     (concat (map (\<lambda>a. map (\<lambda>(p, c). ((a, c), (a, p))) (mt_member_sets mt)) accounts))
     (map (\<lambda>(s, a). (a, s)) (filter (\<lambda>(s, a). a \<in> set accounts) (mt_member_accounts mt)))"
  shows "(a, s) \<in> set (rows mt accounts) \<longleftrightarrow> a \<in> set accounts \<and> s \<in> ancestor_sets mt a"
proof -
  define seed where "seed = map (\<lambda>(s, a). (a, s)) (filter (\<lambda>(s, a). a \<in> set accounts) (mt_member_accounts mt))"
  define edges where "edges = concat (map (\<lambda>a. map (\<lambda>(p, c). ((a, c), (a, p))) (mt_member_sets mt)) accounts)"
  have edges: "set edges = {((a, c), (a, p)) |a c p. a \<in> set accounts \<and> (p, c) \<in> set (mt_member_sets mt)}"
    by (force simp: edges_def)
  have seed: "(b, s) \<in> set seed \<longleftrightarrow> b \<in> set accounts \<and> (s, b) \<in> set (mt_member_accounts mt)" for b s
    by (force simp: seed_def)
  have "(a, s) \<in> (set edges)\<^sup>* `` set seed \<longleftrightarrow> a \<in> set accounts \<and> s \<in> ancestor_sets mt a"
  proof
    assume "(a, s) \<in> (set edges)\<^sup>* `` set seed"
    then obtain b t where "(b, t) \<in> set seed" "((b, t), (a, s)) \<in> (set edges)\<^sup>*" by auto
    then show "a \<in> set accounts \<and> s \<in> ancestor_sets mt a"
      using lifted_walk[OF edges, of b t a s] by (auto simp: seed ancestor_sets_def)
  next
    assume "a \<in> set accounts \<and> s \<in> ancestor_sets mt a"
    then obtain t where a: "a \<in> set accounts" and t: "(t, a) \<in> set (mt_member_accounts mt)"
      "(t, s) \<in> {(c, p). (p, c) \<in> set (mt_member_sets mt)}\<^sup>*"
      by (auto simp: ancestor_sets_def)
    from a t(1) have "(a, t) \<in> set seed" by (simp add: seed)
    moreover have "((a, t), (a, s)) \<in> (set edges)\<^sup>*" using lifted_walk[OF edges a, of t a s] t(2) by blast
    ultimately show "(a, s) \<in> (set edges)\<^sup>* `` set seed" by (rule ImageI[rotated])
  qed
  then show ?thesis unfolding rows_def edges_def[symmetric] seed_def[symmetric] by simp
qed

definition ec_set :: "membership_tables \<Rightarrow> journal_id \<Rightarrow> account_set_id \<Rightarrow> bool" where
  "ec_set mt j s \<longleftrightarrow> mt_account_sets mt s = Some j \<and>
     (\<exists>acc. mt_accounts mt (account_of_set s) = Some acc \<and> ac_eventually_consistent acc)"

lemma ec_mappings:
  "set (get_list (map_of (fetch_ec_set_mappings mt j accounts)) a) =
     (if a \<in> set accounts then {s \<in> ancestor_sets mt a. ec_set mt j s} else {})"
  "distinct (get_list (map_of (fetch_ec_set_mappings mt j accounts)) a)"
proof -
  define seed where "seed = map (\<lambda>(s, a). (a, s)) (filter (\<lambda>(s, a). a \<in> set accounts) (mt_member_accounts mt))"
  define edges where "edges = concat (map (\<lambda>a. map (\<lambda>(p, c). ((a, c), (a, p))) (mt_member_sets mt)) accounts)"
  have rows: "(a, s) \<in> set (union_walk edges seed) \<longleftrightarrow> a \<in> set accounts \<and> s \<in> ancestor_sets mt a" for s
    unfolding edges_def seed_def by (rule ancestor_rows)
  have "get_list (map_of (fetch_ec_set_mappings mt j accounts)) a =
      map snd (filter (\<lambda>r. fst r = a) (filter (\<lambda>(a, s). ec_set mt j s) (union_walk edges seed)))"
    unfolding fetch_ec_set_mappings_def Let_def seed_def edges_def
    by (simp add: ec_set_def case_prod_unfold) (auto intro!: arg_cong[of _ _ "map snd"] filter_cong split: option.splits)
  then show "set (get_list (map_of (fetch_ec_set_mappings mt j accounts)) a) =
     (if a \<in> set accounts then {s \<in> ancestor_sets mt a. ec_set mt j s} else {})"
    "distinct (get_list (map_of (fetch_ec_set_mappings mt j accounts)) a)"
    using rows by (force simp del: set_union_walk simp: case_prod_unfold, auto simp: distinct_map inj_on_def)
qed

section \<open>Properties\<close>

lemma batch_size_pos: "0 < INSERT_SNAPSHOT_BATCH_SIZE"
  by (simp add: INSERT_SNAPSHOT_BATCH_SIZE_def)

lemma insert_history:
  "insert_new_snapshots bt rows = Inr bt' \<Longrightarrow> bt_history bt' = bt_history bt @ map snapshot_row rows"
  using chunk_store.batches_hist[of bt _ bt'] batch_size_pos
  by (simp add: insert_new_snapshots_def)

lemma insert_ok: "insert_new_snapshots bt rows = Inr bt' \<Longrightarrow> store_ok bt \<Longrightarrow> store_ok bt'"
  unfolding insert_new_snapshots_def by (erule rfold_invariant) (auto intro: insert_chunk_ok)

lemma store_consistent: "store_ok bt \<Longrightarrow> chunk_store.consistent bt"
  by (simp add: chunk_store.consistent_def store_okD)

definition sample_snapshot :: "int balance_snapshot" where
  "sample_snapshot = new_snapshot 7 (AccountId 1) (sample_entry 1 1 Debit 100)"

definition sample_tables :: "int balance_tables" where
  "sample_tables = \<lparr> bt_history = [], bt_current = [] \<rparr>"

lemma sample_tables_ok: "store_ok sample_tables"
  by (simp add: sample_tables_def store_ok_empty)

lemma sample_insert: "\<exists>bt. insert_new_snapshots sample_tables [sample_snapshot] = Inr bt"
  by (simp add: insert_new_snapshots_def chunks_small INSERT_SNAPSHOT_BATCH_SIZE_def insert_chunk_cases
      sample_tables_def unique_versions_def snapshot_row_def)

text \<open>
  C33: The two balance tables stay in step. A write appends the snapshots to the history, keeps
  (key, version) unique, and leaves for every key the snapshot with the highest version ever
  recorded as the current one, however the batch is split into statements.
\<close>

theorem insert_keeps_current_latest:
  assumes "store_ok bt" and "insert_new_snapshots bt rows = Inr bt'"
  shows "store_ok bt' \<and>
     bt_history bt' = bt_history bt @ map snapshot_row rows \<and>
     (\<forall>k v s. map_of (bt_current bt') k = Some (v, s) \<longrightarrow>
        (k, v, s) \<in> set (bt_history bt') \<and> (\<forall>w t. (k, w, t) \<in> set (bt_history bt') \<longrightarrow> w \<le> v))"
proof (intro conjI allI impI)
  show ok: "store_ok bt'" by (rule insert_ok[OF assms(2,1)])
  show "bt_history bt' = bt_history bt @ map snapshot_row rows" by (rule insert_history[OF assms(2)])
  fix k v s assume "map_of (bt_current bt') k = Some (v, s)"
  then have max: "(k, v, s) \<in> set (bt_history bt') \<and> (\<forall>w t. (k, w, t) \<in> set (bt_history bt') \<longrightarrow> w \<le> v)"
    by (rule chunk_store.current_is_max[OF store_consistent[OF ok]])
  then show "(k, v, s) \<in> set (bt_history bt')" by blast
  show "w \<le> v" if "(k, w, t) \<in> set (bt_history bt')" for w t using max that by blast
qed

lemma insert_keeps_current_latest_witness:
  "\<exists>bt. insert_new_snapshots sample_tables [sample_snapshot] = Inr bt \<and> store_ok bt \<and>
     bt_history bt = [snapshot_row sample_snapshot]"
proof -
  obtain bt where "insert_new_snapshots sample_tables [sample_snapshot] = Inr bt" using sample_insert by blast
  with insert_keeps_current_latest[OF sample_tables_ok this] show ?thesis
    by (simp add: sample_tables_def)
qed

text \<open>
  Splitting a write into statements of 5000 rows is invisible: it fails exactly when the
  single statement would, and otherwise leaves the same history and the same current rows.
\<close>

theorem chunking_invisible:
  assumes "store_ok bt"
  shows "rmap (\<lambda>b. (bt_history b, map_of (bt_current b))) (insert_new_snapshots bt rows) =
         rmap (\<lambda>b. (bt_history b, map_of (bt_current b))) (insert_chunk bt rows)"
proof (cases "unique_versions (bt_history bt @ map snapshot_row rows)")
  case False
  then have "\<exists>e. insert_new_snapshots bt rows = Inl e"
    using insert_chunks_error[OF store_okD(1)[OF assms], of "chunks INSERT_SNAPSHOT_BATCH_SIZE rows"]
      batch_size_pos by (simp add: insert_new_snapshots_def)
  moreover have "rfold insert_chunk b rss = Inl e \<Longrightarrow> e = Sqlx" for b rss e
    by (induction rss arbitrary: b) (auto simp: insert_chunk_cases split: if_splits)
  ultimately show ?thesis using False by (auto simp: insert_new_snapshots_def insert_chunk_cases)
next
  case True
  then obtain b where b: "insert_new_snapshots bt rows = Inr b"
    using insert_chunks_error[OF store_okD(1)[OF assms], of "chunks INSERT_SNAPSHOT_BATCH_SIZE rows"]
      batch_size_pos by (cases "insert_new_snapshots bt rows") (auto simp: insert_new_snapshots_def)
  then have "map_of (bt_current b) k = later (map_of (bt_current bt) k) (latest (rows_of k (map snapshot_row rows)))" for k
    using chunk_store.batches_cur[of bt _ b k, OF _ store_consistent[OF assms]] batch_size_pos
    by (simp add: insert_new_snapshots_def)
  then show ?thesis using True b insert_history[OF b]
    by (simp add: insert_chunk_cases fun_eq_iff)
qed

lemma chunking_invisible_witness:
  "rmap (\<lambda>b. (bt_history b, map_of (bt_current b))) (insert_new_snapshots sample_tables [sample_snapshot, sample_snapshot]) =
     Inl Sqlx"
  unfolding chunking_invisible[OF sample_tables_ok]
  by (simp add: insert_chunk_cases sample_tables_def unique_versions_def snapshot_row_def)

lemma listing_members:
  assumes "store_ok bt"
  shows "set (account_listing mt j accounts bt) =
    {b. \<exists>a c. a \<in> set accounts \<and> find_in_op mt bt j a c = Inr b}"
proof -
  have dist: "distinct (map fst (joined_rows mt bt))" by (rule joined_rows_keys[OF store_okD(2)[OF assms]])
  have "find_in_op mt bt j a c = Inr b \<longleftrightarrow> ((j, a, c), b) \<in> set (joined_rows mt bt)" for a c b
    using dist by (simp add: find_in_op_def ok_or_Inr_iff map_of_eq_Some_iff)
  then show ?thesis
    by (force simp: account_listing_def journal_col_def account_col_def)
qed

text \<open>
  Listing the balances of a set of accounts page by page is complete: following the end
  cursors from the start returns, for any page size, every balance that a lookup of one of the
  accounts finds, exactly once and in (account, currency) order.
\<close>

theorem list_for_accounts_complete:
  assumes "store_ok bt" and "0 < n" and "length (bt_current bt) < m"
  shows "let listed = follow (list_for_accounts_in_op mt bt journal accounts n) m None in
     set listed = {b. \<exists>a c. a \<in> set accounts \<and> find_in_op mt bt journal a c = Inr b} \<and>
     sorted_wrt (\<lambda>x y. (bs_account_id (ab_details x), bs_currency (ab_details x)) <
       (bs_account_id (ab_details y), bs_currency (ab_details y))) listed"
proof -
  have "length (account_listing mt journal accounts bt) \<le> length (bt_current bt)"
    unfolding account_listing_def joined_rows_filter
    by (simp add: length_filter_le le_trans[OF length_filter_le])
  then have "follow (list_for_accounts_in_op mt bt journal accounts n) m None = account_listing mt journal accounts bt"
    using assms by (intro by_account.follow_all) auto
  then show ?thesis
    using listing_members[OF assms(1)] account_listing_sorted[OF assms(1)] by (simp add: Let_def)
qed

definition sample_membership :: membership_tables where
  "sample_membership =
     \<lparr> mt_accounts =
         [AccountId 1 \<mapsto> \<lparr> ac_normal_balance_type = Debit, ac_eventually_consistent = True,
            ac_is_account_set = False, ac_status = Active \<rparr>,
          AccountId 9 \<mapsto> \<lparr> ac_normal_balance_type = Debit, ac_eventually_consistent = True,
            ac_is_account_set = True, ac_status = Active \<rparr>],
       mt_account_sets = [AccountSetId 9 \<mapsto> JournalId 1],
       mt_member_accounts = [(AccountSetId 9, AccountId 1)],
       mt_member_sets = [], mt_graph_epoch = 0 \<rparr>"

lemma list_for_accounts_complete_witness:
  "set (follow (list_for_accounts_in_op sample_membership sample_tables (JournalId 1) [AccountId 1] 1) 1 None) = {}"
  using list_for_accounts_complete[OF sample_tables_ok, of 1 1 sample_membership "JournalId 1" "[AccountId 1]"]
  by (simp add: Let_def sample_tables_def find_in_op_def joined_rows_def)

text \<open>
  The rollup writes to the right accounts. The sets resolved for an account are exactly its
  ancestors, direct or through nested sets, that belong to the journal and are eventually
  consistent, each once; the leaves are the eventually consistent accounts that are no sets.
  The recursive walk ends on every membership table, cyclic ones included.
\<close>

theorem ec_targets_are_ec_ancestors:
  "(let sets = get_list (map_of (fetch_ec_set_mappings mt journal accounts)) in
      \<forall>a. distinct (sets a) \<and>
        set (sets a) = (if a \<in> set accounts then {s \<in> ancestor_sets mt a. ec_set mt journal s} else {})) \<and>
   distinct (fetch_ec_leaf_accounts mt accounts) \<and>
   set (fetch_ec_leaf_accounts mt accounts) = {a \<in> set accounts. \<exists>acc. mt_accounts mt a = Some acc \<and>
     ac_eventually_consistent acc \<and> \<not> ac_is_account_set acc}"
  using ec_mappings[of mt journal accounts]
  by (auto simp: Let_def fetch_ec_leaf_accounts_def split: option.splits)

end
