(* ===== verification/Graph_Validation.thy ===== *)
theory Graph_Validation imports Membership begin

text \<open>
  The validator of proposed memberships (\<open>account_set/graph_validation.rs\<close>): the combined graph
  of existing and proposed edges (\<open>SetDag\<close>), Kahn's traversal with longest-path depths, the
  path search that attributes a cycle, the unique-containment check and the binary search for
  the edge that exceeds the depth bound.

  Hash maps are association lists. A panic (a missing indegree, a decrement below zero, an
  index out of range) is \<open>None\<close>; \<open>Graph_Correct\<close> shows that it does not happen.
\<close>

section \<open>Edges and errors\<close>

record set_membership =
  sm_account_set_id :: account_set_id
  sm_member_account_set_id :: account_set_id

record account_membership =
  am_account_set_id :: account_set_id
  am_account_id :: account_id

definition MAX_MEMBERSHIP_DEPTH :: int where
  "MAX_MEMBERSHIP_DEPTH = 16"

text \<open>The variants that wrap errors of other crates carry no payload here.\<close>

datatype account_set_error =
    Sqlx
  | Create
  | Modify
  | Find
  | Query
  | AccountError
  | BalanceError
  | EntryError
  | CouldNotFindById account_set_id
  | CouldNotFindByExternalId string
  | ExternalIdAlreadyExists string
  | JournalIdMismatch
  | MemberAlreadyAdded
  | MemberHasBalanceHistory account_set_id account_id
  | MembershipCycleDetected account_set_id account_set_id
  | MembershipDepthExceeded account_set_id account_set_id int int

section \<open>The combined graph\<close>

record set_dag =
  dag_adjacency :: "(account_set_id \<times> account_set_id list) list"
  dag_indegree :: "(account_set_id \<times> nat) list"

definition dag_add_edge :: "set_dag \<Rightarrow> set_membership \<Rightarrow> set_dag" where
  "dag_add_edge dag edge =
     \<lparr> dag_adjacency = push_to (sm_account_set_id edge) (sm_member_account_set_id edge) (dag_adjacency dag),
       dag_indegree =
         upsert (sm_account_set_id edge) (\<lambda>d. case d of None \<Rightarrow> 0 | Some n \<Rightarrow> n)
           (upsert (sm_member_account_set_id edge) (\<lambda>d. case d of None \<Rightarrow> 1 | Some n \<Rightarrow> n + 1)
              (dag_indegree dag)) \<rparr>"

definition dag_new :: "set_membership list \<Rightarrow> set_dag" where
  "dag_new edges = foldl dag_add_edge \<lparr> dag_adjacency = [], dag_indegree = [] \<rparr> edges"

definition add_isolated :: "set_dag \<Rightarrow> account_set_id \<Rightarrow> set_dag" where
  "add_isolated dag s =
     dag \<lparr> dag_indegree := upsert s (\<lambda>d. case d of None \<Rightarrow> 0 | Some n \<Rightarrow> n) (dag_indegree dag) \<rparr>"

definition node_count :: "set_dag \<Rightarrow> nat" where
  "node_count dag = length (dag_indegree dag)"

definition children :: "set_dag \<Rightarrow> account_set_id \<Rightarrow> account_set_id list" where
  "children dag s = get_list (map_of (dag_adjacency dag)) s"

section \<open>Kahn's traversal\<close>

record traversal =
  tr_order :: "account_set_id list"
  tr_depths :: "(account_set_id \<times> int) list"

definition max_depth :: "traversal \<Rightarrow> int" where
  "max_depth t = foldr max (map snd (tr_depths t)) 0"

text \<open>\<open>depths.values().max().unwrap_or(0)\<close>: depths are never negative.\<close>

definition depth_of :: "(account_set_id \<times> int) list \<Rightarrow> account_set_id \<Rightarrow> int" where
  "depth_of depths s = (case map_of depths s of None \<Rightarrow> 0 | Some d \<Rightarrow> d)"

type_synonym kahn_state =
  "(account_set_id \<times> nat) list \<times> account_set_id list \<times> (account_set_id \<times> int) list"

definition visit_child :: "int \<Rightarrow> kahn_state \<Rightarrow> account_set_id \<Rightarrow> kahn_state option" where
  "visit_child parent_depth st child =
     (case st of (remaining, queue, depths) \<Rightarrow>
        let depths = upsert child (\<lambda>d. case d of None \<Rightarrow> parent_depth + 1
                                               | Some d \<Rightarrow> max d (parent_depth + 1)) depths
        in case map_of remaining child of
             None \<Rightarrow> None
           | Some 0 \<Rightarrow> None
           | Some (Suc degree) \<Rightarrow>
               Some (upsert child (\<lambda>_. degree) remaining,
                     if degree = 0 then queue @ [child] else queue,
                     depths))"

fun visit_children :: "int \<Rightarrow> kahn_state \<Rightarrow> account_set_id list \<Rightarrow> kahn_state option" where
  "visit_children pd st [] = Some st"
| "visit_children pd st (c # cs) =
     (case visit_child pd st c of None \<Rightarrow> None | Some st' \<Rightarrow> visit_children pd st' cs)"

definition kahn_weight :: "(account_set_id \<times> nat) list \<Rightarrow> account_set_id list \<Rightarrow> nat" where
  "kahn_weight remaining queue = sum_list (map snd remaining) + length queue"

lemma sum_upsert_dec:
  "map_of m k = Some (Suc d) \<Longrightarrow> sum_list (map snd m) = Suc (sum_list (map snd (upsert k (\<lambda>_. d) m)))"
  by (induction m) (auto split: if_splits)

lemma visit_child_weight:
  "visit_child pd (r, q, d) c = Some (r', q', d') \<Longrightarrow> kahn_weight r' q' \<le> kahn_weight r q"
  by (auto simp: visit_child_def kahn_weight_def Let_def dest: sum_upsert_dec split: option.splits nat.splits if_splits)

lemma visit_children_weight:
  "visit_children pd (r, q, d) cs = Some (r', q', d') \<Longrightarrow> kahn_weight r' q' \<le> kahn_weight r q"
proof (induction cs arbitrary: r q d)
  case (Cons c cs)
  then obtain st where st: "visit_child pd (r, q, d) c = Some st" "visit_children pd st cs = Some (r', q', d')"
    by (auto split: option.splits)
  obtain r1 q1 d1 where [simp]: "st = (r1, q1, d1)" by (cases st)
  show ?case using Cons.IH[of r1 q1 d1] st visit_child_weight[of pd r q d c r1 q1 d1] by simp
qed simp

text \<open>
  The \<open>while let Some(id) = queue.pop_front()\<close> loop. Every round takes one set off the queue
  and every push pays with one unit of remaining indegree.
\<close>

function kahn ::
  "set_dag \<Rightarrow> kahn_state \<Rightarrow> account_set_id list \<Rightarrow> traversal option" where
  "kahn dag (remaining, [], depths) order = Some \<lparr> tr_order = order, tr_depths = depths \<rparr>"
| "kahn dag (remaining, s # queue, depths) order =
     (case visit_children (depth_of depths s) (remaining, queue, depths) (children dag s) of
        None \<Rightarrow> None
      | Some st \<Rightarrow> kahn dag st (order @ [s]))"
  by pat_completeness auto
termination
proof (relation "measure (\<lambda>(dag, (r, q, d), order). kahn_weight r q)")
  fix dag r s q d order st
  assume "visit_children (depth_of d s) (r, q, d) (children dag s) = Some st"
  moreover obtain r' q' d' where "st = (r', q', d')" by (cases st)
  ultimately show "((dag, st, order @ [s]), dag, (r, s # q, d), order)
      \<in> measure (\<lambda>(dag, (r, q, d), order). kahn_weight r q)"
    using visit_children_weight[of "depth_of d s" r q d "children dag s" r' q' d']
    by (simp add: kahn_weight_def)
qed simp

definition traverse :: "set_dag \<Rightarrow> traversal option" where
  "traverse dag =
     (let remaining = dag_indegree dag;
          queue = map fst (filter (\<lambda>(_, degree). degree = 0) remaining)
      in kahn dag (remaining, queue, []) [])"

section \<open>Path search\<close>

text \<open>The stack grows at its end; here its top is the head of the list.\<close>

function has_path_loop ::
  "(account_set_id \<times> account_set_id list) list \<Rightarrow> account_set_id \<Rightarrow> account_set_id list
     \<Rightarrow> account_set_id set \<Rightarrow> bool" where
  "has_path_loop adj to [] visited = False"
| "has_path_loop adj to (current # pending) visited =
     (if current = to then True
      else if current \<in> visited then has_path_loop adj to pending visited
      else has_path_loop adj to (rev (get_list (map_of adj) current) @ pending) (insert current visited))"
  by pat_completeness auto
termination
proof (relation "measures [\<lambda>(adj, to, pending, visited). card (fst ` set adj - visited),
    \<lambda>(adj, to, pending, visited). length pending]")
  fix adj :: "(account_set_id \<times> account_set_id list) list"
    and to current :: account_set_id and pending visited
  assume new: "current \<notin> visited"
  show "((adj, to, rev (get_list (map_of adj) current) @ pending, insert current visited),
      adj, to, current # pending, visited) \<in> measures [\<lambda>(adj, to, pending, visited). card (fst ` set adj - visited),
    \<lambda>(adj, to, pending, visited). length pending]"
  proof (cases "current \<in> fst ` set adj")
    case True
    then have "fst ` set adj - insert current visited \<subset> fst ` set adj - visited" using new by blast
    then have "card (fst ` set adj - insert current visited) < card (fst ` set adj - visited)"
      by (simp add: psubset_card_mono)
    then show ?thesis by simp
  next
    case False
    then have "map_of adj current = None" by (simp add: map_of_eq_None_iff)
    moreover from False have "fst ` set adj - insert current visited = fst ` set adj - visited" by blast
    ultimately show ?thesis by (simp add: get_list_def)
  qed
qed auto

definition has_path :: "set_dag \<Rightarrow> account_set_id \<Rightarrow> account_set_id \<Rightarrow> bool" where
  "has_path dag from to = has_path_loop (dag_adjacency dag) to [from] {}"

section \<open>Validation\<close>

text \<open>
  The fold over the topological order: each set passes its ancestors and itself to its children,
  and an overlap with what a child already has is a second path.
\<close>

type_synonym ancestor_map = "account_set_id \<rightharpoonup> account_set_id set"

fun add_contribution ::
  "account_set_id set \<Rightarrow> ancestor_map \<Rightarrow> account_set_id list \<Rightarrow> account_set_error + ancestor_map" where
  "add_contribution contribution ancestors [] = Inr ancestors"
| "add_contribution contribution ancestors (child # cs) =
     (let child_ancestors = (case ancestors child of None \<Rightarrow> {} | Some a \<Rightarrow> a)
      in if child_ancestors \<inter> contribution \<noteq> {} then Inl MemberAlreadyAdded
         else add_contribution contribution (ancestors(child \<mapsto> child_ancestors \<union> contribution)) cs)"

fun collect_ancestors ::
  "set_dag \<Rightarrow> ancestor_map \<Rightarrow> account_set_id list \<Rightarrow> account_set_error + ancestor_map" where
  "collect_ancestors dag ancestors [] = Inr ancestors"
| "collect_ancestors dag ancestors (s # order) =
     (let contribution = insert s (case ancestors s of None \<Rightarrow> {} | Some a \<Rightarrow> a)
      in rbind (add_contribution contribution ancestors (children dag s))
           (\<lambda>ancestors. collect_ancestors dag ancestors order))"

text \<open>
  The pass over the account members. \<open>account_paths\<close> is the hash set of containments seen; a
  repeated insert of the membership itself or of one of its inherited containments fails.
\<close>

fun check_account_paths ::
  "ancestor_map \<Rightarrow> (account_set_id \<times> account_id) set \<Rightarrow> account_membership list
     \<Rightarrow> account_set_error + unit" where
  "check_account_paths ancestors seen [] = Inr ()"
| "check_account_paths ancestors seen (m # ms) =
     (let s = am_account_set_id m; a = am_account_id m
      in if (s, a) \<in> seen then Inl MemberAlreadyAdded
         else
           let seen = insert (s, a) seen;
               inherited = (case ancestors s of None \<Rightarrow> {} | Some cs \<Rightarrow> (\<lambda>c. (c, a)) ` cs)
           in if inherited \<inter> seen \<noteq> {} then Inl MemberAlreadyAdded
              else check_account_paths ancestors (seen \<union> inherited) ms)"

text \<open>\<open>prefix_depth\<close>; slicing past the end panics.\<close>

definition prefix_depth :: "set_membership list \<Rightarrow> set_membership list \<Rightarrow> nat \<Rightarrow> int option" where
  "prefix_depth existing proposed n =
     (if length proposed < n then None
      else map_option max_depth (traverse (dag_new (existing @ take n proposed))))"

function overflow_search ::
  "set_membership list \<Rightarrow> set_membership list \<Rightarrow> nat \<Rightarrow> nat \<Rightarrow> nat option" where
  "overflow_search existing proposed low high =
     (if low < high then
        (let middle = (low + high) div 2
         in case prefix_depth existing proposed middle of
              None \<Rightarrow> None
            | Some d \<Rightarrow>
                if MAX_MEMBERSHIP_DEPTH < d then overflow_search existing proposed low middle
                else overflow_search existing proposed (middle + 1) high)
      else Some low)"
  by pat_completeness auto
termination by (relation "measure (\<lambda>(_, _, low, high). high - low)") auto

declare overflow_search.simps [simp del]

definition first_depth_overflow ::
  "set_membership list \<Rightarrow> set_membership list \<Rightarrow> (nat \<times> int) option" where
  "first_depth_overflow existing proposed =
     Option.bind (overflow_search existing proposed 1 (length proposed))
       (\<lambda>low. map_option (\<lambda>d. (low - 1, d)) (prefix_depth existing proposed low))"

definition cycle_error ::
  "set_dag \<Rightarrow> set_membership list \<Rightarrow> set_membership list \<Rightarrow> account_set_error option" where
  "cycle_error dag existing proposed =
     map_option (\<lambda>edge. MembershipCycleDetected (sm_account_set_id edge) (sm_member_account_set_id edge))
       (case List.find (\<lambda>edge. sm_account_set_id edge = sm_member_account_set_id edge \<or>
                 has_path dag (sm_member_account_set_id edge) (sm_account_set_id edge)) proposed of
          Some edge \<Rightarrow> Some edge
        | None \<Rightarrow> (case existing of [] \<Rightarrow> None | edge # _ \<Rightarrow> Some edge))"

definition depth_error ::
  "set_membership list \<Rightarrow> set_membership list \<Rightarrow> account_set_error option" where
  "depth_error existing proposed =
     Option.bind (first_depth_overflow existing proposed)
       (\<lambda>(index, depth).
          if index < length proposed
          then let edge = proposed ! index
               in Some (MembershipDepthExceeded (sm_account_set_id edge) (sm_member_account_set_id edge)
                          depth MAX_MEMBERSHIP_DEPTH)
          else None)"

definition validate_set_memberships ::
  "set_membership list \<Rightarrow> set_membership list \<Rightarrow> account_membership list
     \<Rightarrow> (account_set_error + unit) option" where
  "validate_set_memberships existing proposed account_members =
     (let dag = foldl (\<lambda>d m. add_isolated d (am_account_set_id m)) (dag_new (existing @ proposed)) account_members
      in case traverse dag of
           None \<Rightarrow> None
         | Some t \<Rightarrow>
             if length (tr_order t) \<noteq> node_count dag
             then map_option Inl (cycle_error dag existing proposed)
             else
               (case rbind (collect_ancestors dag Map.empty (tr_order t))
                       (\<lambda>ancestors. check_account_paths ancestors {} account_members) of
                  Inl e \<Rightarrow> Some (Inl e)
                | Inr _ \<Rightarrow>
                    if MAX_MEMBERSHIP_DEPTH < max_depth t
                    then map_option Inl (depth_error existing proposed)
                    else Some (Inr ())))"

section \<open>Containment paths of accounts\<close>

text \<open>
  \<open>parents_of\<close> is the parent table of a graph view: \<open>None\<close> for an unknown set. \<open>counts\<close>
  are the sets counted once; counting one again ends the walk, so it always ends.
\<close>

function path_loop ::
  "(account_set_id \<times> account_set_id list) list \<Rightarrow> account_set_id set \<Rightarrow> account_set_id list \<Rightarrow> bool option" where
  "path_loop parents counted [] = Some False"
| "path_loop parents counted (s # queue) =
     (case map_of parents s of
        None \<Rightarrow> None
      | Some ps \<Rightarrow> if s \<in> counted then Some True
                   else path_loop parents (insert s counted) (queue @ ps))"
  by pat_completeness auto
termination
proof (relation "measure (\<lambda>(parents, counted, queue). card (fst ` set parents - counted))")
  fix parents :: "(account_set_id \<times> account_set_id list) list" and counted and s :: account_set_id and queue ps
  assume "map_of parents s = Some ps" "s \<notin> counted"
  then have "s \<in> fst ` set parents - counted" by (force dest: map_of_SomeD)
  then have "fst ` set parents - insert s counted \<subset> fst ` set parents - counted" by blast
  then show "((parents, insert s counted, queue @ ps), parents, counted, s # queue)
      \<in> measure (\<lambda>(parents, counted, queue). card (fst ` set parents - counted))"
    by (simp add: psubset_card_mono)
qed simp

fun any_duplicate :: "(account_set_id \<times> account_set_id list) list \<Rightarrow> account_set_id list list \<Rightarrow> bool option" where
  "any_duplicate parents [] = Some False"
| "any_duplicate parents (seeds # rest) =
     (case path_loop parents {} seeds of
        None \<Rightarrow> None
      | Some True \<Rightarrow> Some True
      | Some False \<Rightarrow> any_duplicate parents rest)"

definition has_duplicate_account_membership_paths ::
  "account_membership list \<Rightarrow> account_membership list
     \<Rightarrow> (account_set_id \<times> account_set_id list) list \<Rightarrow> bool option" where
  "has_duplicate_account_membership_paths proposed existing parents =
     (let per_account = group_pairs (map (\<lambda>m. (am_account_id m, am_account_set_id m)) (proposed @ existing))
      in any_duplicate parents (map snd per_account))"

end
