(* ===== verification/Graph_Correct.thy ===== *)
theory Graph_Correct imports Graph_Validation begin

text \<open>
  Correctness of the membership validator: Kahn's traversal is total and orders exactly the
  acyclic graphs, its depths are longest walks, the ancestor fold accepts exactly the graphs
  in which two sets are joined by at most one walk, and the binary search finds the first
  offending edge.
\<close>

named_theorems graph_simps \<open>the graph an edge list denotes\<close>

section \<open>The graph of an edge list\<close>

definition edge_rel :: "set_membership list \<Rightarrow> (account_set_id \<times> account_set_id) set" where
  "edge_rel es = (\<lambda>e. (sm_account_set_id e, sm_member_account_set_id e)) ` set es"

definition indeg :: "set_membership list \<Rightarrow> account_set_id set \<Rightarrow> account_set_id \<Rightarrow> nat" where
  "indeg es done x =
     length (filter (\<lambda>e. sm_member_account_set_id e = x \<and> sm_account_set_id e \<notin> done) es)"

definition members :: "set_membership list \<Rightarrow> account_set_id \<Rightarrow> account_set_id list" where
  "members es x = map sm_member_account_set_id (filter (\<lambda>e. sm_account_set_id e = x) es)"

definition dag_of :: "set_dag \<Rightarrow> set_membership list \<Rightarrow> account_set_id set \<Rightarrow> bool" where
  "dag_of dag es N \<longleftrightarrow>
     Field (edge_rel es) \<subseteq> N \<and> finite N \<and>
     distinct (map fst (dag_indegree dag)) \<and>
     (\<forall>x. children dag x = members es x) \<and>
     (\<forall>x. map_of (dag_indegree dag) x = (if x \<in> N then Some (indeg es {} x) else None))"

lemma set_members [simp]: "c \<in> set (members es x) \<longleftrightarrow> (x, c) \<in> edge_rel es"
  by (force simp: members_def edge_rel_def)

lemma finite_edge_rel [simp]: "finite (edge_rel es)"
  by (simp add: edge_rel_def)

lemma edge_rel_simps [simp]:
  "edge_rel [] = {}"
  "edge_rel (e # es) = insert (sm_account_set_id e, sm_member_account_set_id e) (edge_rel es)"
  "edge_rel (es @ fs) = edge_rel es \<union> edge_rel fs"
  by (auto simp: edge_rel_def)

lemma indeg_eq_0: "indeg es done x = 0 \<longleftrightarrow> (\<forall>p. (p, x) \<in> edge_rel es \<longrightarrow> p \<in> done)"
  by (auto simp: indeg_def filter_empty_conv edge_rel_def)

lemma indeg_done:
  "s \<notin> done \<Longrightarrow> indeg es done x = indeg es (insert s done) x + count_list (members es s) x"
  by (induction es) (auto simp: indeg_def members_def)

lemma dag_new_snoc: "dag_new (es @ [e]) = dag_add_edge (dag_new es) e"
  by (simp add: dag_new_def)

lemma dag_of_new: "dag_of (dag_new es) es (Field (edge_rel es))"
proof (induction es rule: rev_induct)
  case Nil
  then show ?case by (simp add: dag_of_def dag_new_def children_def members_def)
next
  case (snoc e es)
  let ?c = "sm_account_set_id e" and ?m = "sm_member_account_set_id e"
  have N: "Field (edge_rel (es @ [e])) = insert ?c (insert ?m (Field (edge_rel es)))"
    by (auto simp: Field_def)
  have zero: "x \<notin> Field (edge_rel es) \<Longrightarrow> indeg es {} x = 0" for x
    by (auto simp: indeg_eq_0 Field_def)
  have children: "children (dag_new (es @ [e])) x = members (es @ [e]) x" for x
    using snoc by (simp add: dag_new_snoc dag_add_edge_def children_def dag_of_def members_def)
  have indegree: "map_of (dag_indegree (dag_new (es @ [e]))) x =
      (if x \<in> Field (edge_rel (es @ [e])) then Some (indeg (es @ [e]) {} x) else None)" for x
  proof -
    have "indeg (es @ [e]) {} x = indeg es {} x + (if ?m = x then 1 else 0)"
      by (simp add: indeg_def)
    then show ?thesis using snoc zero
      by (auto simp: dag_new_snoc dag_add_edge_def dag_of_def N split: option.split)
  qed
  have "distinct (map fst (dag_indegree (dag_new (es @ [e]))))"
    using snoc by (simp add: dag_new_snoc dag_add_edge_def dag_of_def)
  moreover have "finite (Field (edge_rel (es @ [e])))" by (simp add: finite_Field)
  ultimately show ?case using children indegree by (simp add: dag_of_def del: edge_rel_simps)
qed

lemma dag_of_isolated:
  assumes "dag_of dag es N"
  shows "dag_of (add_isolated dag s) es (insert s N)"
proof -
  have "s \<notin> N \<Longrightarrow> indeg es {} s = 0"
    using assms by (auto simp: indeg_eq_0 dag_of_def Field_def)
  with assms show ?thesis
    by (auto simp: dag_of_def add_isolated_def children_def split: option.split)
qed

lemma dag_of_isolated_list:
  "dag_of dag es N \<Longrightarrow> dag_of (foldl (\<lambda>d m. add_isolated d (f m)) dag ms) es (f ` set ms \<union> N)"
proof (induction ms arbitrary: dag N)
  case (Cons m ms)
  then show ?case using Cons.IH[OF dag_of_isolated[OF Cons.prems, of "f m"]] by simp
qed simp

lemma node_count: "dag_of dag es N \<Longrightarrow> node_count dag = card N"
proof -
  assume d: "dag_of dag es N"
  have "fst ` set (dag_indegree dag) = dom (map_of (dag_indegree dag))" by (simp add: dom_map_of_conv_image_fst)
  also have "\<dots> = N" using d by (auto simp: dag_of_def dom_def split: if_splits)
  finally have "card (set (map fst (dag_indegree dag))) = card N" by simp
  then show ?thesis using d by (simp add: dag_of_def node_count_def distinct_card del: set_map)
qed

section \<open>One round of the traversal\<close>

lemma visit_child_Some:
  assumes "map_of r c = Some (Suc n)"
  shows "visit_child pd (r, q, d) c =
    Some (upsert c (\<lambda>_. n) r, if n = 0 then q @ [c] else q,
          upsert c (\<lambda>v. case v of None \<Rightarrow> pd + 1 | Some x \<Rightarrow> max x (pd + 1)) d)"
  using assms by (simp add: visit_child_def Let_def)

lemma depth_of_upsert [simp]:
  "0 \<le> pd \<Longrightarrow> depth_of (upsert c (\<lambda>v. case v of None \<Rightarrow> pd + 1 | Some x \<Rightarrow> max x (pd + 1)) d) x =
     (if x = c then max (depth_of d x) (pd + 1) else depth_of d x)"
  by (simp add: depth_of_def split: option.split)

lemma visit_children_Some:
  assumes "\<And>c. c \<in> set cs \<Longrightarrow> \<exists>n. map_of r c = Some n \<and> count_list cs c \<le> n" and "0 \<le> pd"
  shows "\<exists>r' hits d'. visit_children pd (r, q, d) cs = Some (r', q @ hits, d') \<and>
    (\<forall>x. map_of r' x = map_option (\<lambda>n. n - count_list cs x) (map_of r x)) \<and>
    distinct hits \<and> set hits = {c \<in> set cs. map_of r' c = Some 0} \<and>
    (\<forall>x. depth_of d' x = (if x \<in> set cs then max (depth_of d x) (pd + 1) else depth_of d x)) \<and>
    (distinct (map fst d) \<longrightarrow> distinct (map fst d'))"
  using assms(1)
proof (induction cs arbitrary: r q d)
  case Nil
  then show ?case by (auto simp: option.map_ident)
next
  case (Cons c cs)
  from Cons.prems[of c] obtain k where k: "map_of r c = Some k" "Suc (count_list cs c) \<le> k"
    by auto
  then obtain n where n: "map_of r c = Some (Suc n)" "count_list cs c \<le> n"
    by (cases k) auto
  let ?r = "upsert c (\<lambda>_. n) r" and ?q = "if n = 0 then q @ [c] else q"
  let ?d = "upsert c (\<lambda>v. case v of None \<Rightarrow> pd + 1 | Some x \<Rightarrow> max x (pd + 1)) d"
  have "\<exists>m. map_of ?r c' = Some m \<and> count_list cs c' \<le> m" if "c' \<in> set cs" for c'
    using Cons.prems[of c'] n that by (cases "c' = c") auto
  from Cons.IH[OF this, of ?q ?d] obtain r' hits d' where IH:
    "visit_children pd (?r, ?q, ?d) cs = Some (r', ?q @ hits, d')"
    "\<And>x. map_of r' x = map_option (\<lambda>n. n - count_list cs x) (map_of ?r x)"
    "distinct hits" "set hits = {c \<in> set cs. map_of r' c = Some 0}"
    "\<And>x. depth_of d' x = (if x \<in> set cs then max (depth_of ?d x) (pd + 1) else depth_of ?d x)"
    "distinct (map fst ?d) \<Longrightarrow> distinct (map fst d')"
    by blast
  have c': "map_of r' c = Some (n - count_list cs c)" by (simp add: IH(2))
  have fresh: "n = 0 \<Longrightarrow> c \<notin> set cs" using n(2) by (simp add: count_list_0_iff)
  show ?case
  proof (intro exI conjI)
    show "visit_children pd (r, q, d) (c # cs) =
        Some (r', q @ ((if n = 0 then [c] else []) @ hits), d')"
      using IH(1) by (simp add: visit_child_Some[OF n(1)] del: upsert.simps)
    show "\<forall>x. map_of r' x = map_option (\<lambda>n. n - count_list (c # cs) x) (map_of r x)"
      using n by (auto simp: IH(2))
    show "distinct ((if n = 0 then [c] else []) @ hits)" using IH(3,4) fresh by auto
    show "set ((if n = 0 then [c] else []) @ hits) = {x \<in> set (c # cs). map_of r' x = Some 0}"
    proof (cases "n = 0")
      case True
      then show ?thesis using IH(4) c' by auto
    next
      case False
      then have "map_of r' c = Some 0 \<Longrightarrow> c \<in> set cs"
        using c' by (auto simp: count_list_0_iff intro: ccontr)
      then show ?thesis using IH(4) False by auto
    qed
    show "\<forall>x. depth_of d' x =
        (if x \<in> set (c # cs) then max (depth_of d x) (pd + 1) else depth_of d x)"
      using assms(2) by (auto simp: IH(5))
    show "distinct (map fst d) \<longrightarrow> distinct (map fst d')" using IH(6) by auto
  qed
qed

section \<open>The whole traversal\<close>

definition topological :: "set_membership list \<Rightarrow> account_set_id list \<Rightarrow> bool" where
  "topological es order \<longleftrightarrow>
     (\<forall>o1 x o2. order = o1 @ x # o2 \<longrightarrow> (\<forall>p. (p, x) \<in> edge_rel es \<longrightarrow> p \<in> set o1))"

definition depths_ok :: "set_membership list \<Rightarrow> account_set_id set \<Rightarrow> (account_set_id \<times> int) list \<Rightarrow> bool" where
  "depths_ok es done d \<longleftrightarrow> distinct (map fst d) \<and>
     (\<forall>p x. p \<in> done \<longrightarrow> (p, x) \<in> edge_rel es \<longrightarrow> depth_of d p + 1 \<le> depth_of d x) \<and>
     (\<forall>x. depth_of d x = 0 \<or> (\<exists>p \<in> done. (p, x) \<in> edge_rel es \<and> depth_of d x = depth_of d p + 1)) \<and>
     (\<forall>x. 0 \<le> depth_of d x)"

definition kahn_inv ::
  "set_membership list \<Rightarrow> account_set_id set \<Rightarrow> kahn_state \<Rightarrow> account_set_id list \<Rightarrow> bool" where
  "kahn_inv es N st order \<longleftrightarrow> (case st of (r, q, d) \<Rightarrow>
     (\<forall>x. map_of r x = (if x \<in> N then Some (indeg es (set order) x) else None)) \<and>
     distinct (order @ q) \<and>
     set (order @ q) = {x \<in> N. indeg es (set order) x = 0} \<and>
     topological es order \<and> depths_ok es (set order) d)"

lemma topological_snoc:
  assumes "topological es order" and "\<forall>p. (p, s) \<in> edge_rel es \<longrightarrow> p \<in> set order"
  shows "topological es (order @ [s])"
  unfolding topological_def
proof (intro allI impI)
  fix o1 x o2 p
  assume split: "order @ [s] = o1 @ x # o2" and e: "(p, x) \<in> edge_rel es"
  show "p \<in> set o1"
  proof (cases o2 rule: rev_cases)
    case Nil
    then show ?thesis using split e assms(2) by simp
  next
    case (snoc ys y)
    then have "order = o1 @ x # ys" using split by simp
    then show ?thesis using assms(1) e by (auto simp: topological_def)
  qed
qed

lemma kahn_step:
  assumes "dag_of dag es N" and "kahn_inv es N (r, s # q, d) order"
  shows "\<exists>st. visit_children (depth_of d s) (r, q, d) (children dag s) = Some st \<and>
    kahn_inv es N st (order @ [s])"
proof -
  from assms(2) have r: "\<And>x. map_of r x = (if x \<in> N then Some (indeg es (set order) x) else None)"
    and dist: "distinct (order @ s # q)"
    and zero: "set (order @ s # q) = {x \<in> N. indeg es (set order) x = 0}"
    and topo: "topological es order" and depths: "depths_ok es (set order) d"
    by (auto simp: kahn_inv_def)
  have N: "(x, y) \<in> edge_rel es \<Longrightarrow> x \<in> N \<and> y \<in> N" for x y
    using assms(1) by (auto simp: dag_of_def Field_def)
  have cs: "children dag s = members es s" using assms(1) by (simp add: dag_of_def)
  have new: "s \<notin> set order" using dist by simp
  have ready: "\<forall>p. (p, s) \<in> edge_rel es \<longrightarrow> p \<in> set order" using zero by (auto simp: indeg_eq_0)
  have later: "x \<notin> set order" "x \<noteq> s" if "(s, x) \<in> edge_rel es" for x
    using that zero new ready by (auto simp: indeg_eq_0)
  have deg: "indeg es (set order) x = indeg es (set (order @ [s])) x + count_list (members es s) x" for x
    using indeg_done[OF new, of es x] by simp
  have d0: "\<And>x. 0 \<le> depth_of d x" using depths by (simp add: depths_ok_def)
  have "\<exists>n. map_of r c = Some n \<and> count_list (members es s) c \<le> n" if "c \<in> set (members es s)" for c
    using that N[of s c] deg[of c] by (simp add: r)
  from visit_children_Some[OF this d0, of s q d] obtain r' hits d' where
    v: "visit_children (depth_of d s) (r, q, d) (members es s) = Some (r', q @ hits, d')"
    and r': "\<And>x. map_of r' x = map_option (\<lambda>n. n - count_list (members es s) x) (map_of r x)"
    and hits: "distinct hits" "set hits = {c \<in> set (members es s). map_of r' c = Some 0}"
    and d': "\<And>x. depth_of d' x = (if (s, x) \<in> edge_rel es then max (depth_of d x) (depth_of d s + 1) else depth_of d x)"
    and keys: "distinct (map fst d) \<Longrightarrow> distinct (map fst d')"
    by (auto simp: set_members)
  have r'': "map_of r' x = (if x \<in> N then Some (indeg es (set (order @ [s])) x) else None)" for x
    using deg[of x] by (simp add: r' r)
  have zero': "set ((order @ [s]) @ q @ hits) = {x \<in> N. indeg es (set (order @ [s])) x = 0}"
  proof -
    have hit: "x \<in> set hits \<longleftrightarrow> (s, x) \<in> edge_rel es \<and> indeg es (set (order @ [s])) x = 0" for x
      using N[of s x] by (auto simp: hits(2) r'')
    have "indeg es (set order) x = 0 \<longleftrightarrow> indeg es (set (order @ [s])) x = 0 \<and> (s, x) \<notin> edge_rel es" for x
      using new by (auto simp: indeg_eq_0)
    then have "{x \<in> N. indeg es (set (order @ [s])) x = 0} = set (order @ s # q) \<union> set hits"
      unfolding zero using hit N by blast
    then show ?thesis by auto
  qed
  have dist': "distinct ((order @ [s]) @ q @ hits)"
  proof -
    have "x \<notin> set (order @ s # q)" if "x \<in> set hits" for x
      using that hits(2) zero new by (auto simp: indeg_eq_0)
    then show ?thesis using dist hits(1) by auto
  qed
  have depths': "depths_ok es (set (order @ [s])) d'"
  proof -
    have keep: "depth_of d' p = depth_of d p" if "p \<in> set (order @ [s])" for p
      using that later[of p] by (auto simp: d')
    have grow: "depth_of d x \<le> depth_of d' x" for x by (simp add: d')
    have "depth_of d' p + 1 \<le> depth_of d' x" if "p \<in> set (order @ [s])" "(p, x) \<in> edge_rel es" for p x
    proof (cases "p = s")
      case True
      then show ?thesis using keep[OF that(1)] that(2) by (simp add: d')
    next
      case False
      then have "depth_of d p + 1 \<le> depth_of d x" using that depths by (simp add: depths_ok_def)
      then show ?thesis using keep[OF that(1)] grow[of x] by simp
    qed
    moreover have "depth_of d' x = 0 \<or>
        (\<exists>p \<in> set (order @ [s]). (p, x) \<in> edge_rel es \<and> depth_of d' x = depth_of d' p + 1)" for x
    proof (cases "depth_of d' x = depth_of d x")
      case True
      moreover have "depth_of d x = 0 \<or> (\<exists>p \<in> set order. (p, x) \<in> edge_rel es \<and> depth_of d x = depth_of d p + 1)"
        using depths unfolding depths_ok_def by blast
      ultimately show ?thesis using keep by fastforce
    next
      case False
      then have "(s, x) \<in> edge_rel es" "depth_of d' x = depth_of d s + 1" by (auto simp: d' max_def split: if_splits)
      then show ?thesis using keep[of s] by auto
    qed
    moreover have "0 \<le> depth_of d' x" for x using d0[of x] grow[of x] by linarith
    moreover have "distinct (map fst d')" using depths keys by (simp add: depths_ok_def)
    ultimately show ?thesis unfolding depths_ok_def by blast
  qed
  have "kahn_inv es N (r', q @ hits, d') (order @ [s])"
    unfolding kahn_inv_def prod.case
    using r'' dist' zero' topological_snoc[OF topo ready] depths' by blast
  then show ?thesis using v by (simp add: cs)
qed

lemma kahn_total:
  "dag_of dag es N \<Longrightarrow> kahn_inv es N st order \<Longrightarrow> \<exists>t. kahn dag st order = Some t \<and>
     (\<exists>r. kahn_inv es N (r, [], tr_depths t) (tr_order t))"
proof (induction dag st order rule: kahn.induct)
  case (1 dag remaining depths order)
  then show ?case by auto
next
  case (2 dag remaining s queue depths order)
  from kahn_step[OF 2(2,3)] obtain st where
    "visit_children (depth_of depths s) (remaining, queue, depths) (children dag s) = Some st"
    "kahn_inv es N st (order @ [s])" by blast
  with 2(1)[OF this(1) 2(2)] show ?case by simp
qed

lemma kahn_inv_init:
  assumes "dag_of dag es N"
  shows "kahn_inv es N (dag_indegree dag,
    map fst (filter (\<lambda>(_, degree). degree = 0) (dag_indegree dag)), []) []"
proof -
  let ?q = "map fst (filter (\<lambda>(_, degree). degree = 0) (dag_indegree dag))"
  have look: "\<And>x. map_of (dag_indegree dag) x = (if x \<in> N then Some (indeg es {} x) else None)"
    and dist: "distinct (map fst (dag_indegree dag))" using assms by (auto simp: dag_of_def)
  have "x \<in> set ?q \<longleftrightarrow> map_of (dag_indegree dag) x = Some 0" for x
    using dist by (force simp: map_of_eq_Some_iff)
  then have "set ?q = {x \<in> N. indeg es {} x = 0}"
    by (intro set_eqI) (simp only: look mem_Collect_eq split: if_split, simp)
  moreover have "distinct ?q" using dist by (rule distinct_map_filter)
  ultimately show ?thesis
    by (auto simp: kahn_inv_def look topological_def depths_ok_def depth_of_def)
qed

lemma traverse_Some:
  assumes "dag_of dag es N"
  obtains t where "traverse dag = Some t" and "distinct (tr_order t)" and "set (tr_order t) \<subseteq> N"
    and "\<And>x. x \<in> N \<Longrightarrow> x \<notin> set (tr_order t) \<Longrightarrow> \<exists>p. (p, x) \<in> edge_rel es \<and> p \<notin> set (tr_order t)"
    and "topological es (tr_order t)" and "depths_ok es (set (tr_order t)) (tr_depths t)"
proof -
  obtain t r where t: "traverse dag = Some t" "kahn_inv es N (r, [], tr_depths t) (tr_order t)"
    using kahn_total[OF assms kahn_inv_init[OF assms]] by (auto simp: traverse_def Let_def)
  have "set (tr_order t) = {x \<in> N. indeg es (set (tr_order t)) x = 0}"
    using t(2) by (simp add: kahn_inv_def)
  then have "x \<in> N \<Longrightarrow> x \<notin> set (tr_order t) \<Longrightarrow> \<exists>p. (p, x) \<in> edge_rel es \<and> p \<notin> set (tr_order t)" for x
    using indeg_eq_0[of es "set (tr_order t)" x] by blast
  moreover have "set (tr_order t) \<subseteq> N" using t(2) by (auto simp: kahn_inv_def)
  ultimately show thesis using that t by (auto simp: kahn_inv_def)
qed

lemma topological_acyclic:
  assumes "topological es order" and "Field (edge_rel es) \<subseteq> set order"
  shows "acyclic (edge_rel es)"
proof -
  define pos where "pos x = length (takeWhile (\<lambda>y. y \<noteq> x) order)" for x
  have less: "pos p < pos x" if e: "(p, x) \<in> edge_rel es" for p x
  proof -
    have "x \<in> set order" using assms(2) e by (auto simp: Field_def)
    then obtain o1 o2 where o: "order = o1 @ x # o2" "x \<notin> set o1" by (meson split_list_first)
    have "p \<in> set o1" using assms(1) e o(1) by (auto simp: topological_def)
    then obtain o3 o4 where o1: "o1 = o3 @ p # o4" "p \<notin> set o3" by (meson split_list_first)
    have "pos x = length o1" using o(2) unfolding pos_def o(1) by (subst takeWhile_append2) auto
    moreover have "pos p = length o3" using o1(2) unfolding pos_def o(1) o1(1) append.assoc by (subst takeWhile_append2) auto
    ultimately show ?thesis using o1(1) by simp
  qed
  have "acyclic ((edge_rel es)\<inverse>)"
    by (rule acyclicI_order[where f = pos]) (use less in auto)
  then show ?thesis by simp
qed

lemma order_complete_iff_acyclic:
  assumes "dag_of dag es N" and "traverse dag = Some t"
  shows "length (tr_order t) = node_count dag \<longleftrightarrow> acyclic (edge_rel es)"
    and "acyclic (edge_rel es) \<Longrightarrow> set (tr_order t) = N"
proof -
  from traverse_Some[OF assms(1)] assms(2) have
    dist: "distinct (tr_order t)" and sub: "set (tr_order t) \<subseteq> N"
    and stuck: "\<And>x. x \<in> N \<Longrightarrow> x \<notin> set (tr_order t) \<Longrightarrow> \<exists>p. (p, x) \<in> edge_rel es \<and> p \<notin> set (tr_order t)"
    and topo: "topological es (tr_order t)"
    by (metis option.inject)+
  have N: "Field (edge_rel es) \<subseteq> N" "finite N" using assms(1) by (auto simp: dag_of_def)
  have full: "length (tr_order t) = node_count dag \<longleftrightarrow> set (tr_order t) = N"
    using dist sub N(2) by (metis card_subset_eq distinct_card node_count[OF assms(1)])
  show all: "set (tr_order t) = N" if "acyclic (edge_rel es)"
  proof (rule ccontr)
    assume "set (tr_order t) \<noteq> N"
    then obtain x where x: "x \<in> N - set (tr_order t)" using sub by blast
    have "wf (edge_rel es)" using that by (simp add: finite_acyclic_wf)
    from wfE_min[OF this x] obtain z where z: "z \<in> N - set (tr_order t)"
      "\<And>y. (y, z) \<in> edge_rel es \<Longrightarrow> y \<notin> N - set (tr_order t)" by blast
    from stuck[of z] z(1) obtain p where "(p, z) \<in> edge_rel es" "p \<notin> set (tr_order t)" by auto
    moreover then have "p \<in> N" using N(1) by (auto simp: Field_def)
    ultimately show False using z(2) by blast
  qed
  show "length (tr_order t) = node_count dag \<longleftrightarrow> acyclic (edge_rel es)"
    using full all topological_acyclic[OF topo] N(1) by blast
qed

section \<open>Depths are longest walks\<close>

lemma depth_ge:
  "\<forall>p x. (p, x) \<in> E \<longrightarrow> f p + 1 \<le> (f x :: int) \<Longrightarrow> \<forall>x. 0 \<le> f x \<Longrightarrow> (y, x) \<in> E ^^ n \<Longrightarrow> int n \<le> f x"
proof (induction n arbitrary: x)
  case (Suc n)
  then obtain z where "(y, z) \<in> E ^^ n" "(z, x) \<in> E" by auto
  then have "int n \<le> f z" "f z + 1 \<le> f x" using Suc by blast+
  then show ?case by simp
qed simp

lemma depth_attained:
  "\<forall>x. f x = 0 \<or> (\<exists>p. (p, x) \<in> E \<and> f x = f p + (1 :: int)) \<Longrightarrow> f x = int n \<Longrightarrow> \<exists>y. (y, x) \<in> E ^^ n"
proof (induction n arbitrary: x)
  case (Suc n)
  have "f x = 0 \<or> (\<exists>p. (p, x) \<in> E \<and> f x = f p + 1)" using Suc.prems(1) by blast
  then obtain p where "(p, x) \<in> E" "f p = int n" using Suc.prems(2) by auto
  with Suc.IH[OF Suc.prems(1)] obtain y where "(y, p) \<in> E ^^ n" by blast
  with \<open>(p, x) \<in> E\<close> show ?case by auto
qed auto

lemma foldr_max_ge: "x \<in> set xs \<Longrightarrow> x \<le> foldr max xs (0 :: int)"
  by (induction xs) (auto simp: le_max_iff_disj)

lemma foldr_max_mem: "foldr max xs (0 :: int) \<noteq> 0 \<Longrightarrow> foldr max xs 0 \<in> set xs"
  by (induction xs) (auto simp: max_def)

lemma foldr_max_nonneg: "0 \<le> foldr max xs (0 :: int)"
  by (induction xs) (auto simp: le_max_iff_disj)

lemma max_depth_iff:
  assumes "depths_ok es done (tr_depths t)" and "fst ` edge_rel es \<subseteq> done"
  shows "int n \<le> max_depth t \<longleftrightarrow> (\<exists>y x. (y, x) \<in> edge_rel es ^^ n)"
proof
  let ?f = "depth_of (tr_depths t)"
  assume ge: "int n \<le> max_depth t"
  have att: "\<forall>x. ?f x = 0 \<or> (\<exists>p. (p, x) \<in> edge_rel es \<and> ?f x = ?f p + 1)"
    using assms(1) unfolding depths_ok_def by blast
  show "\<exists>y x. (y, x) \<in> edge_rel es ^^ n"
  proof (cases "max_depth t = 0")
    case True
    then show ?thesis using ge by auto
  next
    case False
    then have "max_depth t \<in> snd ` set (tr_depths t)" using foldr_max_mem by (force simp: max_depth_def)
    then obtain x where "(x, max_depth t) \<in> set (tr_depths t)" by force
    then have "?f x = max_depth t" using assms(1) by (simp add: depth_of_def depths_ok_def)
    moreover have "0 \<le> max_depth t" by (simp add: max_depth_def foldr_max_nonneg)
    ultimately have "?f x = int (nat (max_depth t))" by simp
    from depth_attained[OF att this] obtain y where "(y, x) \<in> edge_rel es ^^ nat (max_depth t)" by blast
    moreover have "nat (max_depth t) = (nat (max_depth t) - n) + n" using ge by simp
    ultimately have "(y, x) \<in> edge_rel es ^^ (nat (max_depth t) - n) O edge_rel es ^^ n"
      by (metis relpow_add)
    then show ?thesis by auto
  qed
next
  let ?f = "depth_of (tr_depths t)"
  assume "\<exists>y x. (y, x) \<in> edge_rel es ^^ n"
  then obtain y x where yx: "(y, x) \<in> edge_rel es ^^ n" by blast
  have "int n \<le> ?f x"
    using assms yx by (intro depth_ge[of "edge_rel es" ?f y x n]) (force simp: depths_ok_def)+
  also have "?f x \<le> max_depth t"
  proof (cases "map_of (tr_depths t) x")
    case None
    then show ?thesis by (simp add: depth_of_def max_depth_def foldr_max_nonneg)
  next
    case (Some d)
    then have "d \<in> set (map snd (tr_depths t))" by (force dest: map_of_SomeD)
    then show ?thesis using Some by (simp add: depth_of_def max_depth_def foldr_max_ge)
  qed
  finally show "int n \<le> max_depth t" .
qed

section \<open>Walks\<close>

text \<open>A walk is the list of the positions of its edges, so parallel edges are different walks.\<close>

fun is_walk :: "set_membership list \<Rightarrow> account_set_id \<Rightarrow> nat list \<Rightarrow> account_set_id \<Rightarrow> bool" where
  "is_walk es a [] b = (a = b)"
| "is_walk es a (i # p) b =
     (i < length es \<and> sm_account_set_id (es ! i) = a \<and> is_walk es (sm_member_account_set_id (es ! i)) p b)"

definition unique_walks :: "set_membership list \<Rightarrow> bool" where
  "unique_walks es \<longleftrightarrow> (\<forall>a b p q. is_walk es a p b \<longrightarrow> is_walk es a q b \<longrightarrow> p = q)"

definition unique_account_walks :: "set_membership list \<Rightarrow> account_membership list \<Rightarrow> bool" where
  "unique_account_walks es ms \<longleftrightarrow>
     (\<forall>i j t p q. i < length ms \<longrightarrow> j < length ms \<longrightarrow> am_account_id (ms ! i) = am_account_id (ms ! j) \<longrightarrow>
        is_walk es t p (am_account_set_id (ms ! i)) \<longrightarrow> is_walk es t q (am_account_set_id (ms ! j)) \<longrightarrow>
        i = j \<and> p = q)"

lemma is_walk_append: "is_walk es a (p @ q) b \<longleftrightarrow> (\<exists>c. is_walk es a p c \<and> is_walk es c q b)"
  by (induction p arbitrary: a) auto

lemma is_walk_snoc:
  "is_walk es a (p @ [i]) b \<longleftrightarrow>
     i < length es \<and> is_walk es a p (sm_account_set_id (es ! i)) \<and> sm_member_account_set_id (es ! i) = b"
  by (auto simp: is_walk_append)

lemma edge_rel_nth: "(x, y) \<in> edge_rel es \<longleftrightarrow>
    (\<exists>i < length es. sm_account_set_id (es ! i) = x \<and> sm_member_account_set_id (es ! i) = y)"
  by (force simp: edge_rel_def in_set_conv_nth image_iff)

lemma relpow_is_walk: "(a, b) \<in> edge_rel es ^^ n \<longleftrightarrow> (\<exists>p. length p = n \<and> is_walk es a p b)"
proof (induction n arbitrary: b)
  case (Suc n)
  have "(a, b) \<in> edge_rel es ^^ Suc n \<longleftrightarrow>
      (\<exists>p i. length p = n \<and> is_walk es a (p @ [i]) b)"
    using Suc.IH by (auto simp: is_walk_snoc edge_rel_nth relcomp_unfold)
  also have "\<dots> \<longleftrightarrow> (\<exists>p. length p = Suc n \<and> is_walk es a p b)"
    by (metis length_append_singleton length_Suc_conv_rev)
  finally show ?case .
qed auto

lemma reach_is_walk: "(a, b) \<in> (edge_rel es)\<^sup>* \<longleftrightarrow> (\<exists>p. is_walk es a p b)"
  by (metis relpow_is_walk rtrancl_power)

lemma unique_walks_acyclic: "unique_walks es \<Longrightarrow> acyclic (edge_rel es)"
proof (rule acyclicI, intro allI notI)
  fix x assume u: "unique_walks es" and "(x, x) \<in> (edge_rel es)\<^sup>+"
  then obtain n where "(x, x) \<in> edge_rel es ^^ n" "0 < n" by (auto simp: trancl_power)
  then obtain p where "length p = n" "is_walk es x p x" by (auto simp: relpow_is_walk)
  moreover have "is_walk es x [] x" by simp
  ultimately have "p = []" using u unfolding unique_walks_def by blast
  with \<open>length p = n\<close> \<open>0 < n\<close> show False by simp
qed

text \<open>The ancestors of a set, itself included.\<close>

definition ups :: "set_membership list \<Rightarrow> account_set_id \<Rightarrow> account_set_id set" where
  "ups es x = {a. (a, x) \<in> (edge_rel es)\<^sup>*}"

definition disjoint_parents :: "set_membership list \<Rightarrow> bool" where
  "disjoint_parents es \<longleftrightarrow>
     (\<forall>i j. i < length es \<longrightarrow> j < length es \<longrightarrow> i \<noteq> j \<longrightarrow>
        sm_member_account_set_id (es ! i) = sm_member_account_set_id (es ! j) \<longrightarrow>
        ups es (sm_account_set_id (es ! i)) \<inter> ups es (sm_account_set_id (es ! j)) = {})"

lemma self_ups [simp]: "x \<in> ups es x"
  by (simp add: ups_def)

lemma ups_unfold: "ups es x = insert x (\<Union>(ups es ` {p. (p, x) \<in> edge_rel es}))"
  by (auto simp: ups_def elim: rtranclE intro: rtrancl_into_rtrancl)

lemma acyclic_not_ups: "acyclic (edge_rel es) \<Longrightarrow> (p, x) \<in> edge_rel es \<Longrightarrow> x \<notin> ups es p"
  by (auto simp: ups_def acyclic_def dest: rtrancl_into_trancl1)

lemma acyclic_walk_Nil: "acyclic (edge_rel es) \<Longrightarrow> is_walk es a p a \<Longrightarrow> p = []"
proof (cases p rule: rev_cases)
  case (snoc q i)
  assume ac: "acyclic (edge_rel es)" and "is_walk es a p a"
  then have i: "i < length es" "is_walk es a q (sm_account_set_id (es ! i))" "sm_member_account_set_id (es ! i) = a"
    by (auto simp: snoc is_walk_snoc)
  then have "(sm_account_set_id (es ! i), a) \<in> edge_rel es" by (auto simp: edge_rel_nth)
  moreover have "a \<in> ups es (sm_account_set_id (es ! i))" using i(2) by (auto simp: ups_def reach_is_walk)
  ultimately show ?thesis using acyclic_not_ups[OF ac] by blast
qed simp

lemma unique_walks_iff:
  assumes ac: "acyclic (edge_rel es)"
  shows "unique_walks es \<longleftrightarrow> disjoint_parents es"
proof
  assume u: "unique_walks es"
  show "disjoint_parents es"
    unfolding disjoint_parents_def
  proof (intro allI impI, rule ccontr)
    fix i j
    assume ij: "i < length es" "j < length es" "i \<noteq> j"
      "sm_member_account_set_id (es ! i) = sm_member_account_set_id (es ! j)"
      "ups es (sm_account_set_id (es ! i)) \<inter> ups es (sm_account_set_id (es ! j)) \<noteq> {}"
    then obtain a p q where "is_walk es a p (sm_account_set_id (es ! i))" "is_walk es a q (sm_account_set_id (es ! j))"
      by (auto simp: ups_def reach_is_walk)
    with ij have "is_walk es a (p @ [i]) (sm_member_account_set_id (es ! i))"
      "is_walk es a (q @ [j]) (sm_member_account_set_id (es ! i))"
      by (auto simp: is_walk_snoc)
    then have "p @ [i] = q @ [j]" using u unfolding unique_walks_def by blast
    then show False using ij(3) by simp
  qed
next
  assume d: "disjoint_parents es"
  have "is_walk es a p b \<Longrightarrow> is_walk es a q b \<Longrightarrow> p = q" for a b p q
  proof (induction p arbitrary: b q rule: rev_induct)
    case Nil
    then show ?case using acyclic_walk_Nil[OF ac] by auto
  next
    case (snoc i p)
    show ?case
    proof (cases q rule: rev_cases)
      case Nil
      then show ?thesis using snoc.prems acyclic_walk_Nil[OF ac] by auto
    next
      case (snoc q' j)
      note p = snoc.prems(1)[unfolded is_walk_snoc] and q = snoc.prems(2)[unfolded \<open>q = q' @ [j]\<close> is_walk_snoc]
      have "a \<in> ups es (sm_account_set_id (es ! i))" "a \<in> ups es (sm_account_set_id (es ! j))"
        using p q by (auto simp: ups_def reach_is_walk)
      then have "i = j" using d p q unfolding disjoint_parents_def by (metis disjoint_iff)
      then show ?thesis using snoc.IH p q \<open>q = q' @ [j]\<close> by auto
    qed
  qed
  then show "unique_walks es" unfolding unique_walks_def by blast
qed

section \<open>The ancestor fold\<close>

definition anc :: "ancestor_map \<Rightarrow> account_set_id \<Rightarrow> account_set_id set" where
  "anc A x = (case A x of None \<Rightarrow> {} | Some s \<Rightarrow> s)"

definition fold_ok :: "set_membership list \<Rightarrow> account_set_id set \<Rightarrow> bool" where
  "fold_ok es done \<longleftrightarrow> (\<forall>s \<in> done. distinct (members es s)) \<and>
     (\<forall>s \<in> done. \<forall>s' \<in> done. \<forall>c. s \<noteq> s' \<longrightarrow> (s, c) \<in> edge_rel es \<longrightarrow> (s', c) \<in> edge_rel es \<longrightarrow>
        ups es s \<inter> ups es s' = {})"

lemma anc_upd [simp]: "anc (A(c \<mapsto> X)) x = (if x = c then X else anc A x)"
  by (simp add: anc_def)

lemma add_contribution_Cons:
  "add_contribution K A (c # cs) =
     (if anc A c \<inter> K \<noteq> {} then Inl MemberAlreadyAdded
      else add_contribution K (A(c \<mapsto> anc A c \<union> K)) cs)"
  by (simp add: anc_def Let_def)

lemma add_contribution_Inr:
  "add_contribution K A cs = Inr A' \<Longrightarrow> anc A' x = (if x \<in> set cs then anc A x \<union> K else anc A x)"
proof (induction cs arbitrary: A)
  case (Cons c cs)
  then have "add_contribution K (A(c \<mapsto> anc A c \<union> K)) cs = Inr A'"
    unfolding add_contribution_Cons by (simp split: if_splits)
  from Cons.IH[OF this] show ?case by auto
qed simp

lemma add_contribution_iff:
  assumes "K \<noteq> {}"
  shows "(\<exists>A'. add_contribution K A cs = Inr A') \<longleftrightarrow> distinct cs \<and> (\<forall>c \<in> set cs. anc A c \<inter> K = {})"
proof (induction cs arbitrary: A)
  case (Cons c cs)
  let ?A = "A(c \<mapsto> anc A c \<union> K)"
  have "(\<forall>x \<in> set cs. anc ?A x \<inter> K = {}) \<longleftrightarrow> c \<notin> set cs \<and> (\<forall>x \<in> set cs. anc A x \<inter> K = {})"
    using assms by (auto simp del: fun_upd_apply)
  then have "(\<exists>A'. add_contribution K ?A cs = Inr A') \<longleftrightarrow>
      distinct cs \<and> c \<notin> set cs \<and> (\<forall>x \<in> set cs. anc A x \<inter> K = {})"
    unfolding Cons.IH[of ?A] by blast
  then show ?case unfolding add_contribution_Cons by auto
qed simp

lemma add_contribution_Inl: "add_contribution K A cs = Inl e \<Longrightarrow> e = MemberAlreadyAdded"
  by (induction cs arbitrary: A) (auto simp: Let_def split: if_splits)

lemma fold_ok_distinct: "fold_ok es done \<Longrightarrow> s \<in> done \<Longrightarrow> distinct (members es s)"
  by (simp add: fold_ok_def)

lemma fold_ok_disjoint:
  "fold_ok es done \<Longrightarrow> s \<in> done \<Longrightarrow> s' \<in> done \<Longrightarrow> s \<noteq> s' \<Longrightarrow> (s, c) \<in> edge_rel es \<Longrightarrow>
     (s', c) \<in> edge_rel es \<Longrightarrow> ups es s \<inter> ups es s' = {}"
  unfolding fold_ok_def by (elim conjE) (metis (no_types, lifting))

lemma fold_okI:
  assumes "\<And>s. s \<in> done \<Longrightarrow> distinct (members es s)"
    and "\<And>s s' c. s \<in> done \<Longrightarrow> s' \<in> done \<Longrightarrow> s \<noteq> s' \<Longrightarrow> (s, c) \<in> edge_rel es \<Longrightarrow>
      (s', c) \<in> edge_rel es \<Longrightarrow> ups es s \<inter> ups es s' = {}"
  shows "fold_ok es done"
  unfolding fold_ok_def by (intro conjI ballI allI impI assms)

lemma fold_ok_mono:
  assumes "fold_ok es D" and sub: "D' \<subseteq> D"
  shows "fold_ok es D'"
proof (rule fold_okI)
  show "distinct (members es s)" if "s \<in> D'" for s
    using fold_ok_distinct[OF assms(1)] that sub by blast
  show "ups es s \<inter> ups es s' = {}"
    if "s \<in> D'" "s' \<in> D'" "s \<noteq> s'" "(s, c) \<in> edge_rel es" "(s', c) \<in> edge_rel es" for s s' c
    by (rule fold_ok_disjoint[OF assms(1) _ _ that(3-5)]) (use that(1,2) sub in auto)
qed

lemma UN_disjoint: "\<Union>(f ` S) \<inter> T = {} \<longleftrightarrow> (\<forall>p \<in> S. f p \<inter> T = {})"
  by blast

lemma fold_ok_insert:
  assumes "fold_ok es done" and "s \<notin> done"
  shows "fold_ok es (insert s done) \<longleftrightarrow> distinct (members es s) \<and>
    (\<forall>c. (s, c) \<in> edge_rel es \<longrightarrow> (\<Union>(ups es ` {p \<in> done. (p, c) \<in> edge_rel es})) \<inter> ups es s = {})"
proof
  assume ok: "fold_ok es (insert s done)"
  have disj: "ups es p \<inter> ups es s = {}" if "p \<in> done" "(p, c) \<in> edge_rel es" "(s, c) \<in> edge_rel es" for p c
  proof -
    have "p \<noteq> s" using that(1) assms(2) by blast
    then show ?thesis using fold_ok_disjoint[OF ok, of p s c] that by simp
  qed
  show "distinct (members es s) \<and>
    (\<forall>c. (s, c) \<in> edge_rel es \<longrightarrow> (\<Union>(ups es ` {p \<in> done. (p, c) \<in> edge_rel es})) \<inter> ups es s = {})"
    unfolding UN_disjoint
    by (intro conjI allI impI ballI fold_ok_distinct[OF ok]) (simp, elim CollectE conjE, rule disj)
next
  assume r: "distinct (members es s) \<and>
    (\<forall>c. (s, c) \<in> edge_rel es \<longrightarrow> (\<Union>(ups es ` {p \<in> done. (p, c) \<in> edge_rel es})) \<inter> ups es s = {})"
  have new: "ups es p \<inter> ups es s = {}"
    if "p \<in> done" "(p, c) \<in> edge_rel es" "(s, c) \<in> edge_rel es" for p c
    using conjunct2[OF r] that by (simp add: UN_disjoint)
  show "fold_ok es (insert s done)"
  proof (rule fold_okI)
    show "distinct (members es x)" if "x \<in> insert s done" for x
      using that conjunct1[OF r] fold_ok_distinct[OF assms(1)] by auto
    fix p p' c
    assume "p \<in> insert s done" "p' \<in> insert s done" "p \<noteq> p'"
      and e: "(p, c) \<in> edge_rel es" "(p', c) \<in> edge_rel es"
    then consider "p = s" "p' \<in> done" | "p' = s" "p \<in> done" | "p \<in> done" "p' \<in> done" by auto
    then show "ups es p \<inter> ups es p' = {}"
      using new[of p c] new[of p' c] fold_ok_disjoint[OF assms(1) _ _ \<open>p \<noteq> p'\<close> e] e
      by cases (simp_all add: Int_commute)
  qed
qed

lemma collect_ancestors_spec:
  assumes "\<And>x. children dag x = members es x"
  shows "topological es (o1 @ rest) \<Longrightarrow> distinct (o1 @ rest) \<Longrightarrow> fold_ok es (set o1) \<Longrightarrow>
     (\<And>x. anc A x = \<Union>(ups es ` {p \<in> set o1. (p, x) \<in> edge_rel es})) \<Longrightarrow>
     (case collect_ancestors dag A rest of
        Inl e \<Rightarrow> e = MemberAlreadyAdded \<and> \<not> fold_ok es (set (o1 @ rest))
      | Inr A' \<Rightarrow> fold_ok es (set (o1 @ rest)) \<and>
          (\<forall>x. anc A' x = \<Union>(ups es ` {p \<in> set (o1 @ rest). (p, x) \<in> edge_rel es})))"
proof (induction rest arbitrary: o1 A)
  case (Cons s rest)
  have parents: "{p \<in> set o1. (p, s) \<in> edge_rel es} = {p. (p, s) \<in> edge_rel es}"
    using Cons.prems(1) by (auto simp: topological_def)
  have K: "insert s (case A s of None \<Rightarrow> {} | Some a \<Rightarrow> a) = ups es s"
    using Cons.prems(4)[of s] unfolding parents ups_unfold[of es s] by (simp add: anc_def)
  have step: "collect_ancestors dag A (s # rest) =
      rbind (add_contribution (ups es s) A (members es s)) (\<lambda>A. collect_ancestors dag A rest)"
    by (simp add: Let_def K assms)
  have "s \<notin> set o1" using Cons.prems(2) by simp
  note ins = fold_ok_insert[OF Cons.prems(3) this]
  have ok: "(\<exists>A'. add_contribution (ups es s) A (members es s) = Inr A') \<longleftrightarrow> fold_ok es (insert s (set o1))"
  proof -
    have "ups es s \<noteq> {}" using self_ups by blast
    then show ?thesis
      unfolding ins add_contribution_iff[OF \<open>ups es s \<noteq> {}\<close>]
      by (simp only: Cons.prems(4) Ball_def set_members)
  qed
  show ?case
  proof (cases "add_contribution (ups es s) A (members es s)")
    case (Inl e)
    then have "\<not> fold_ok es (insert s (set o1))" using ok by simp
    moreover have "insert s (set o1) \<subseteq> set (o1 @ s # rest)" by auto
    ultimately have "\<not> fold_ok es (set (o1 @ s # rest))" using fold_ok_mono by blast
    then show ?thesis using Inl add_contribution_Inl[OF Inl] unfolding step by simp
  next
    case (Inr A')
    have "anc A' x = \<Union>(ups es ` {p \<in> set (o1 @ [s]). (p, x) \<in> edge_rel es})" for x
    proof -
      have "{p \<in> set (o1 @ [s]). (p, x) \<in> edge_rel es} =
          (if (s, x) \<in> edge_rel es then insert s {p \<in> set o1. (p, x) \<in> edge_rel es}
           else {p \<in> set o1. (p, x) \<in> edge_rel es})"
        by (simp add: set_eq_iff) blast
      moreover have "anc A' x = (if (s, x) \<in> edge_rel es
          then \<Union>(ups es ` {p \<in> set o1. (p, x) \<in> edge_rel es}) \<union> ups es s
          else \<Union>(ups es ` {p \<in> set o1. (p, x) \<in> edge_rel es}))"
        using add_contribution_Inr[OF Inr, of x] unfolding Cons.prems(4) set_members .
      ultimately show ?thesis
        by (cases "(s, x) \<in> edge_rel es") (simp_all only: image_insert Union_insert Un_commute if_True if_False)
    qed
    moreover have "fold_ok es (set (o1 @ [s]))" using ok Inr by simp
    ultimately have "case collect_ancestors dag A' rest of
        Inl e \<Rightarrow> e = MemberAlreadyAdded \<and> \<not> fold_ok es (set ((o1 @ [s]) @ rest))
      | Inr A' \<Rightarrow> fold_ok es (set ((o1 @ [s]) @ rest)) \<and>
          (\<forall>x. anc A' x = \<Union>(ups es ` {p \<in> set ((o1 @ [s]) @ rest). (p, x) \<in> edge_rel es}))"
      using Cons.prems(1,2) by (intro Cons.IH) simp_all
    moreover have "(o1 @ [s]) @ rest = o1 @ s # rest" by simp
    ultimately show ?thesis unfolding step Inr rbind_simps by (simp only:)
  qed
qed simp

lemma mem_edges: "e \<in> set es \<longleftrightarrow> (sm_account_set_id e, sm_member_account_set_id e) \<in> edge_rel es"
  for e :: set_membership
proof
  assume "(sm_account_set_id e, sm_member_account_set_id e) \<in> edge_rel es"
  then obtain x where "x \<in> set es" "sm_account_set_id x = sm_account_set_id e"
    "sm_member_account_set_id x = sm_member_account_set_id e"
    by (auto simp: edge_rel_def)
  then show "e \<in> set es" by (metis old.unit.exhaust set_membership.equality)
qed (auto simp: edge_rel_def)

lemma distinct_edges: "distinct es \<longleftrightarrow> (\<forall>s. distinct (members es s))" for es :: "set_membership list"
proof (induction es)
  case (Cons e es)
  have "members (e # es) s =
      (if sm_account_set_id e = s then sm_member_account_set_id e # members es s else members es s)" for s
    by (simp add: members_def)
  then have "(\<forall>s. distinct (members (e # es) s)) \<longleftrightarrow>
      (sm_account_set_id e, sm_member_account_set_id e) \<notin> edge_rel es \<and> (\<forall>s. distinct (members es s))"
    by auto
  then show ?case using Cons mem_edges[of e es] by simp
qed (simp add: members_def)

lemma fold_ok_all:
  assumes "fst ` edge_rel es \<subseteq> done"
  shows "fold_ok es done \<longleftrightarrow> disjoint_parents es"
proof
  assume ok: "fold_ok es done"
  have "distinct (members es s)" for s
  proof (cases "s \<in> done")
    case False
    then have "c \<notin> set (members es s)" for c using assms unfolding set_members by force
    then have "members es s = []" by (meson last_in_set)
    then show ?thesis by simp
  qed (rule fold_ok_distinct[OF ok])
  then have dist: "distinct es" by (simp add: distinct_edges)
  show "disjoint_parents es" unfolding disjoint_parents_def
  proof (intro allI impI)
    fix i j
    assume ij: "i < length es" "j < length es" "i \<noteq> j"
      "sm_member_account_set_id (es ! i) = sm_member_account_set_id (es ! j)"
    let ?s = "sm_account_set_id (es ! i)" and ?t = "sm_account_set_id (es ! j)" and ?c = "sm_member_account_set_id (es ! j)"
    have e: "(?s, ?c) \<in> edge_rel es" "(?t, ?c) \<in> edge_rel es" using ij by (auto simp: edge_rel_nth)
    have "es ! i \<noteq> es ! j" using dist ij by (simp add: nth_eq_iff_index_eq)
    then have "?s \<noteq> ?t" using ij(4) by (metis old.unit.exhaust set_membership.equality)
    moreover have "?s \<in> done" "?t \<in> done" using assms e by force+
    ultimately show "ups es ?s \<inter> ups es ?t = {}" using fold_ok_disjoint[OF ok _ _ _ e] by blast
  qed
next
  assume d: "disjoint_parents es"
  have disj: "ups es (sm_account_set_id (es ! i)) \<inter> ups es (sm_account_set_id (es ! j)) = {}"
    if "i < length es" "j < length es" "i \<noteq> j" "sm_member_account_set_id (es ! i) = sm_member_account_set_id (es ! j)" for i j
    using d that unfolding disjoint_parents_def by blast
  have "distinct es"
    unfolding distinct_conv_nth
  proof (intro allI impI notI)
    fix i j assume "i < length es" "j < length es" "i \<noteq> j" "es ! i = es ! j"
    then show False using disj[of i j] self_ups[of "sm_account_set_id (es ! j)" es] by auto
  qed
  then have dist: "distinct (members es s)" for s by (simp add: distinct_edges)
  show "fold_ok es done"
  proof (rule fold_okI)
    fix s s' c assume s: "s \<noteq> s'" "(s, c) \<in> edge_rel es" "(s', c) \<in> edge_rel es"
    then obtain i j where "i < length es" "sm_account_set_id (es ! i) = s" "sm_member_account_set_id (es ! i) = c"
      "j < length es" "sm_account_set_id (es ! j) = s'" "sm_member_account_set_id (es ! j) = c"
      by (auto simp: edge_rel_nth)
    moreover then have "i \<noteq> j" using s(1) by auto
    ultimately show "ups es s \<inter> ups es s' = {}" using disj[of i j] by simp
  qed (rule dist)
qed

section \<open>Account paths\<close>

text \<open>The containments a list of memberships gives its accounts.\<close>

definition containments :: "set_membership list \<Rightarrow> account_membership list \<Rightarrow> (account_set_id \<times> account_id) set" where
  "containments es ms = (\<Union>m \<in> set ms. (\<lambda>s. (s, am_account_id m)) ` ups es (am_account_set_id m))"

lemma containments_simps [simp]:
  "containments es [] = {}"
  "containments es (m # ms) = (\<lambda>s. (s, am_account_id m)) ` ups es (am_account_set_id m) \<union> containments es ms"
  by (auto simp: containments_def)

definition account_disjoint :: "set_membership list \<Rightarrow> account_membership \<Rightarrow> account_membership \<Rightarrow> bool" where
  "account_disjoint es m m' \<longleftrightarrow> am_account_id m = am_account_id m' \<longrightarrow>
     ups es (am_account_set_id m) \<inter> ups es (am_account_set_id m') = {}"

lemma check_account_paths_spec:
  assumes A: "\<And>x. insert x (anc A x) = ups es x" "\<And>x. x \<notin> anc A x"
  shows "check_account_paths A seen ms = Inr () \<longleftrightarrow>
    sorted_wrt (account_disjoint es) ms \<and> containments es ms \<inter> seen = {}"
proof (induction ms arbitrary: seen)
  case (Cons m ms)
  let ?s = "am_account_set_id m" and ?a = "am_account_id m"
  let ?new = "(\<lambda>s. (s, ?a)) ` ups es ?s"
  have inh: "(case A ?s of None \<Rightarrow> {} | Some cs \<Rightarrow> (\<lambda>c. (c, ?a)) ` cs) = (\<lambda>c. (c, ?a)) ` anc A ?s"
    by (simp add: anc_def split: option.split)
  have new: "insert (?s, ?a) ((\<lambda>c. (c, ?a)) ` anc A ?s) = ?new" unfolding A(1)[symmetric] by simp
  have "(?s, ?a) \<notin> (\<lambda>c. (c, ?a)) ` anc A ?s" using A(2) by auto
  then have step: "check_account_paths A seen (m # ms) =
      (if ?new \<inter> seen \<noteq> {} then Inl MemberAlreadyAdded else check_account_paths A (seen \<union> ?new) ms)"
    unfolding new[symmetric] by (simp add: Let_def inh insert_commute)
  have disj: "containments es ms \<inter> ?new = {} \<longleftrightarrow> (\<forall>m' \<in> set ms. account_disjoint es m m')"
    by (auto simp: containments_def account_disjoint_def)
  have "check_account_paths A (seen \<union> ?new) ms = Inr () \<longleftrightarrow>
      sorted_wrt (account_disjoint es) ms \<and> containments es ms \<inter> (seen \<union> ?new) = {}"
    by (rule Cons.IH)
  also have "containments es ms \<inter> (seen \<union> ?new) = {} \<longleftrightarrow>
      containments es ms \<inter> seen = {} \<and> (\<forall>m' \<in> set ms. account_disjoint es m m')"
    unfolding disj[symmetric] by blast
  finally show ?case unfolding step
    by (cases "?new \<inter> seen = {}") (auto simp only: sorted_wrt.simps containments_simps Int_Un_distrib2 Un_empty if_False if_True simp_thms sum.distinct)
qed simp

lemma check_account_paths_Inl: "check_account_paths A seen ms = Inl e \<Longrightarrow> e = MemberAlreadyAdded"
  by (induction ms arbitrary: seen) (auto simp: Let_def split: if_splits)

lemma unique_account_walks_iff:
  assumes "unique_walks es"
  shows "unique_account_walks es ms \<longleftrightarrow> sorted_wrt (account_disjoint es) ms"
proof
  assume u: "unique_account_walks es ms"
  show "sorted_wrt (account_disjoint es) ms"
    unfolding sorted_wrt_iff_nth_less
  proof (intro allI impI)
    fix i j assume ij: "i < j" "j < length ms"
    have "i = j" if "am_account_id (ms ! i) = am_account_id (ms ! j)"
      "is_walk es t p (am_account_set_id (ms ! i))" "is_walk es t q (am_account_set_id (ms ! j))" for t p q
      using u ij that unfolding unique_account_walks_def by (meson less_trans)
    then show "account_disjoint es (ms ! i) (ms ! j)"
      using ij(1) by (auto simp: account_disjoint_def ups_def reach_is_walk)
  qed
next
  assume s: "sorted_wrt (account_disjoint es) ms"
  have sym: "account_disjoint es m m' \<longleftrightarrow> account_disjoint es m' m" for m m'
    by (auto simp: account_disjoint_def)
  have disj: "account_disjoint es (ms ! i) (ms ! j)" if "i < length ms" "j < length ms" "i \<noteq> j" for i j
    using s that sym unfolding sorted_wrt_iff_nth_less by (metis linorder_neqE_nat)
  show "unique_account_walks es ms" unfolding unique_account_walks_def
  proof (intro allI impI)
    fix i j t p q
    assume a: "i < length ms" "j < length ms" "am_account_id (ms ! i) = am_account_id (ms ! j)"
      and w: "is_walk es t p (am_account_set_id (ms ! i))" "is_walk es t q (am_account_set_id (ms ! j))"
    have "i = j"
    proof (rule ccontr)
      assume "i \<noteq> j"
      from disj[OF a(1,2) this] a(3) w show False
        by (auto simp: account_disjoint_def ups_def reach_is_walk)
    qed
    moreover then have "p = q" using assms w unfolding unique_walks_def by blast
    ultimately show "i = j \<and> p = q" by blast
  qed
qed

end
