(* ===== verification/Graph_Theorems.thy ===== *)
theory Graph_Theorems imports Graph_Correct begin

text \<open>
  What the membership validator guarantees, on the walks of the combined graph: the accepted
  inputs, the edge named by each rejection, and the containment-path count used on the
  account-attach path.
\<close>

section \<open>Path search\<close>

definition child_rel :: "(account_set_id \<times> account_set_id list) list \<Rightarrow> (account_set_id \<times> account_set_id) set" where
  "child_rel adj = {(x, c). c \<in> set (get_list (map_of adj) x)}"

lemma has_path_loop_iff:
  "\<forall>v \<in> visited. v \<noteq> to \<and> child_rel adj `` {v} \<subseteq> visited \<union> set pending \<Longrightarrow>
     has_path_loop adj to pending visited \<longleftrightarrow> (\<exists>x \<in> set pending \<union> visited. (x, to) \<in> (child_rel adj)\<^sup>*)"
proof (induction adj to pending visited rule: has_path_loop.induct)
  case (1 adj to visited)
  have "child_rel adj `` visited \<subseteq> visited" using 1 by fastforce
  then have "(child_rel adj)\<^sup>* `` visited = visited" by (rule Image_closed_trancl)
  then have "to \<in> visited" if "x \<in> visited" "(x, to) \<in> (child_rel adj)\<^sup>*" for x
    using that by (metis ImageI)
  moreover have "to \<notin> visited" using 1 by blast
  ultimately show ?case by (simp only: has_path_loop.simps list.set Un_empty_left) blast
next
  case (2 adj to current pending visited)
  let ?R = "child_rel adj" and ?cs = "get_list (map_of adj) current"
  show ?case
  proof (cases "current = to \<or> current \<in> visited")
    case True
    then show ?thesis using 2(1,3) by (cases "current = to") (auto simp: insert_absorb)
  next
    case False
    have cs: "?R `` {current} = set ?cs" by (auto simp: child_rel_def)
    have "\<forall>v \<in> insert current visited. v \<noteq> to \<and>
        ?R `` {v} \<subseteq> insert current visited \<union> set (rev ?cs @ pending)"
      using 2(3) False cs by auto
    with 2(2) False have "has_path_loop adj to (rev ?cs @ pending) (insert current visited) \<longleftrightarrow>
        (\<exists>x \<in> set (rev ?cs @ pending) \<union> insert current visited. (x, to) \<in> ?R\<^sup>*)" by blast
    also have "\<dots> \<longleftrightarrow> (\<exists>x \<in> set (current # pending) \<union> visited. (x, to) \<in> ?R\<^sup>*)"
    proof -
      have "(current, to) \<in> ?R\<^sup>*" if "x \<in> set ?cs" "(x, to) \<in> ?R\<^sup>*" for x
      proof -
        have "(current, x) \<in> ?R" using that(1) by (simp add: child_rel_def)
        then show ?thesis using that(2) by (rule converse_rtrancl_into_rtrancl)
      qed
      then show ?thesis by auto
    qed
    finally show ?thesis using False by simp
  qed
qed

lemma has_path_iff:
  assumes "dag_of dag es N"
  shows "has_path dag a b \<longleftrightarrow> (a, b) \<in> (edge_rel es)\<^sup>*"
proof -
  have "child_rel (dag_adjacency dag) = edge_rel es"
    using assms by (force simp: child_rel_def dag_of_def children_def)
  moreover have "has_path_loop (dag_adjacency dag) b [a] {} \<longleftrightarrow> (a, b) \<in> (child_rel (dag_adjacency dag))\<^sup>*"
    by (subst has_path_loop_iff) simp_all
  ultimately show ?thesis by (simp only: has_path_def)
qed

section \<open>Validation\<close>

definition membership_dag ::
  "set_membership list \<Rightarrow> account_membership list \<Rightarrow> set_dag" where
  "membership_dag es ms = foldl (\<lambda>d m. add_isolated d (am_account_set_id m)) (dag_new es) ms"

lemma membership_dag: "dag_of (membership_dag es ms) es (am_account_set_id ` set ms \<union> Field (edge_rel es))"
  unfolding membership_dag_def by (rule dag_of_isolated_list[OF dag_of_new])

definition shallow :: "set_membership list \<Rightarrow> bool" where
  "shallow es \<longleftrightarrow> (\<forall>a p b. is_walk es a p b \<longrightarrow> int (length p) \<le> MAX_MEMBERSHIP_DEPTH)"

lemma not_shallow_iff: "\<not> shallow es \<longleftrightarrow> (\<exists>y x. (y, x) \<in> edge_rel es ^^ 17)"
proof
  assume "\<not> shallow es"
  then obtain a p b where p: "is_walk es a p b" "17 \<le> length p"
    by (auto simp: shallow_def MAX_MEMBERSHIP_DEPTH_def)
  then have "is_walk es a (take 17 p @ drop 17 p) b" by simp
  then obtain c where "is_walk es a (take 17 p) c" unfolding is_walk_append by blast
  moreover have "length (take 17 p) = 17" using p(2) by simp
  ultimately show "\<exists>y x. (y, x) \<in> edge_rel es ^^ 17" using relpow_is_walk by blast
next
  assume "\<exists>y x. (y, x) \<in> edge_rel es ^^ 17"
  then obtain a p b where "is_walk es a p b" "length p = 17" by (auto simp: relpow_is_walk)
  then show "\<not> shallow es" unfolding shallow_def MAX_MEMBERSHIP_DEPTH_def by fastforce
qed

lemma acyclic_traversal:
  assumes "dag_of dag es N" and "acyclic (edge_rel es)"
  obtains t where "traverse dag = Some t" and "length (tr_order t) = node_count dag"
    and "distinct (tr_order t)" and "set (tr_order t) = N" and "topological es (tr_order t)"
    and "\<And>n. int n \<le> max_depth t \<longleftrightarrow> (\<exists>y x. (y, x) \<in> edge_rel es ^^ n)"
proof -
  from traverse_Some[OF assms(1)] obtain t where t: "traverse dag = Some t" "distinct (tr_order t)"
    "topological es (tr_order t)" "depths_ok es (set (tr_order t)) (tr_depths t)" by metis
  have N: "set (tr_order t) = N" by (rule order_complete_iff_acyclic(2)[OF assms(1) t(1) assms(2)])
  have "fst ` edge_rel es \<subseteq> set (tr_order t)"
    using assms(1) unfolding N dag_of_def by (auto simp: Field_def)
  from max_depth_iff[OF t(4) this] show thesis
    using that t N order_complete_iff_acyclic(1)[OF assms(1) t(1)] assms(2) by simp
qed

lemma collect_all:
  assumes "dag_of dag es N" and "acyclic (edge_rel es)" and "distinct order" and "set order = N"
    and "topological es order"
  shows "case collect_ancestors dag Map.empty order of
      Inl e \<Rightarrow> e = MemberAlreadyAdded \<and> \<not> unique_walks es
    | Inr A \<Rightarrow> unique_walks es \<and> (\<forall>x. insert x (anc A x) = ups es x \<and> x \<notin> anc A x)"
proof -
  have src: "fst ` edge_rel es \<subseteq> N" using assms(1) by (auto simp: dag_of_def Field_def)
  have all: "{p \<in> N. (p, x) \<in> edge_rel es} = {p. (p, x) \<in> edge_rel es}" for x using src by force
  have uniq: "fold_ok es N \<longleftrightarrow> unique_walks es"
    by (simp add: fold_ok_all[OF src] unique_walks_iff[OF assms(2)])
  have kids: "\<And>x. children dag x = members es x" using assms(1) by (simp add: dag_of_def)
  have "case collect_ancestors dag Map.empty order of
      Inl e \<Rightarrow> e = MemberAlreadyAdded \<and> \<not> fold_ok es (set ([] @ order))
    | Inr A \<Rightarrow> fold_ok es (set ([] @ order)) \<and>
        (\<forall>x. anc A x = \<Union>(ups es ` {p \<in> set ([] @ order). (p, x) \<in> edge_rel es}))"
    by (rule collect_ancestors_spec[OF kids]) (simp_all add: assms(3,5) fold_ok_def anc_def)
  then have spec: "case collect_ancestors dag Map.empty order of
      Inl e \<Rightarrow> e = MemberAlreadyAdded \<and> \<not> unique_walks es
    | Inr A \<Rightarrow> unique_walks es \<and> (\<forall>x. anc A x = \<Union>(ups es ` {p. (p, x) \<in> edge_rel es}))"
    by (cases "collect_ancestors dag Map.empty order") (simp_all add: assms(4) uniq all)
  show ?thesis
  proof (cases "collect_ancestors dag Map.empty order")
    case (Inr A)
    then have A: "\<And>x. anc A x = \<Union>(ups es ` {p. (p, x) \<in> edge_rel es})" and u: "unique_walks es"
      using spec by simp_all
    have "insert x (anc A x) = ups es x" for x unfolding A by (rule ups_unfold[symmetric])
    moreover have "x \<notin> anc A x" for x unfolding A using acyclic_not_ups[OF assms(2)] by blast
    ultimately show ?thesis using Inr u by simp
  qed (use spec in simp)
qed

lemma validate_acyclic:
  assumes "acyclic (edge_rel (existing @ proposed))"
  defines "es \<equiv> existing @ proposed"
  shows "validate_set_memberships existing proposed ms =
    (if unique_walks es \<and> unique_account_walks es ms
     then (if shallow es then Some (Inr ()) else map_option Inl (depth_error existing proposed))
     else Some (Inl MemberAlreadyAdded))"
proof -
  note dag = membership_dag[of es ms]
  have ac: "acyclic (edge_rel es)" using assms(1) by (simp only: es_def)
  from acyclic_traversal[OF dag ac] obtain t where t: "traverse (membership_dag es ms) = Some t"
    "length (tr_order t) = node_count (membership_dag es ms)" "distinct (tr_order t)"
    "set (tr_order t) = am_account_set_id ` set ms \<union> Field (edge_rel es)" "topological es (tr_order t)"
    "\<And>n. int n \<le> max_depth t \<longleftrightarrow> (\<exists>y x. (y, x) \<in> edge_rel es ^^ n)" by metis
  have deep: "MAX_MEMBERSHIP_DEPTH < max_depth t \<longleftrightarrow> \<not> shallow es"
    using t(6)[of 17] by (auto simp: not_shallow_iff MAX_MEMBERSHIP_DEPTH_def)
  note spec = collect_all[OF dag ac t(3-5)]
  have step: "validate_set_memberships existing proposed ms =
      (case rbind (collect_ancestors (membership_dag es ms) Map.empty (tr_order t))
              (\<lambda>A. check_account_paths A {} ms) of
         Inl e \<Rightarrow> Some (Inl e)
       | Inr _ \<Rightarrow> if shallow es then Some (Inr ()) else map_option Inl (depth_error existing proposed))"
    using t(1,2) deep by (simp add: validate_set_memberships_def membership_dag_def es_def split: sum.split)
  show ?thesis
  proof (cases "collect_ancestors (membership_dag es ms) Map.empty (tr_order t)")
    case (Inl e)
    then show ?thesis using spec unfolding step by simp
  next
    case (Inr A)
    then have u: "unique_walks es" and A: "\<And>x. insert x (anc A x) = ups es x" "\<And>x. x \<notin> anc A x"
      using spec by simp_all
    have "check_account_paths A {} ms = Inr () \<longleftrightarrow> unique_account_walks es ms"
      using check_account_paths_spec[OF A, of "{}" ms] unique_account_walks_iff[OF u] by simp
    then show ?thesis using u check_account_paths_Inl[of A "{}" ms]
      unfolding step Inr rbind_simps
      by (cases "check_account_paths A {} ms") (simp_all del: check_account_paths.simps)
  qed
qed

lemma validate_cyclic:
  assumes "\<not> acyclic (edge_rel (existing @ proposed))"
  shows "validate_set_memberships existing proposed ms =
    map_option Inl (cycle_error (membership_dag (existing @ proposed) ms) existing proposed)"
proof -
  note dag = membership_dag[of "existing @ proposed" ms]
  from traverse_Some[OF dag] obtain t where t: "traverse (membership_dag (existing @ proposed) ms) = Some t" by metis
  from order_complete_iff_acyclic(1)[OF dag t] assms
  have "length (tr_order t) \<noteq> node_count (membership_dag (existing @ proposed) ms)" by simp
  then show ?thesis using t by (simp add: validate_set_memberships_def membership_dag_def)
qed

section \<open>The first edge past the depth bound\<close>

definition longest :: "set_membership list \<Rightarrow> int \<Rightarrow> bool" where
  "longest es d \<longleftrightarrow> (\<exists>a p b. is_walk es a p b \<and> int (length p) = d) \<and>
     (\<forall>a p b. is_walk es a p b \<longrightarrow> int (length p) \<le> d)"

lemma acyclic_prefix:
  "acyclic (edge_rel (existing @ proposed)) \<Longrightarrow> acyclic (edge_rel (existing @ take n proposed))"
  by (erule acyclic_subset) (auto simp: edge_rel_def dest: in_set_takeD)

lemma prefix_depth_longest:
  assumes "acyclic (edge_rel (existing @ proposed))" and "n \<le> length proposed"
  shows "\<exists>d. prefix_depth existing proposed n = Some d \<and> longest (existing @ take n proposed) d \<and>
    (MAX_MEMBERSHIP_DEPTH < d \<longleftrightarrow> \<not> shallow (existing @ take n proposed))"
proof -
  let ?es = "existing @ take n proposed"
  from acyclic_traversal[OF dag_of_new acyclic_prefix[OF assms(1)], of n] obtain t where
    t: "traverse (dag_new ?es) = Some t"
    and depth: "\<And>k. int k \<le> max_depth t \<longleftrightarrow> (\<exists>y x. (y, x) \<in> edge_rel ?es ^^ k)" by metis
  have nonneg: "0 \<le> max_depth t" by (simp add: max_depth_def foldr_max_nonneg)
  have "longest ?es (max_depth t)"
    unfolding longest_def
  proof
    have "\<exists>y x. (y, x) \<in> edge_rel ?es ^^ nat (max_depth t)"
      using depth[of "nat (max_depth t)"] nonneg by simp
    then obtain y x p where "is_walk ?es y p x" "length p = nat (max_depth t)"
      unfolding relpow_is_walk by blast
    moreover then have "int (length p) = max_depth t" using nonneg by simp
    ultimately show "\<exists>a p b. is_walk ?es a p b \<and> int (length p) = max_depth t" by blast
    show "\<forall>a p b. is_walk ?es a p b \<longrightarrow> int (length p) \<le> max_depth t"
      using depth unfolding relpow_is_walk by auto
  qed
  moreover have "MAX_MEMBERSHIP_DEPTH < max_depth t \<longleftrightarrow> \<not> shallow ?es"
    using depth[of 17] by (auto simp: not_shallow_iff MAX_MEMBERSHIP_DEPTH_def)
  ultimately show ?thesis using t assms(2) by (simp add: prefix_depth_def)
qed

lemma relpow_subset: "R \<subseteq> S \<Longrightarrow> R ^^ n \<subseteq> S ^^ n" for R S :: "('a \<times> 'a) set"
  by (induction n) (auto simp: relcomp_mono)

lemma shallow_prefix: "m \<le> n \<Longrightarrow> shallow (existing @ take n proposed) \<Longrightarrow> shallow (existing @ take m proposed)"
proof (rule ccontr)
  assume mn: "m \<le> n" and n: "shallow (existing @ take n proposed)" and m: "\<not> shallow (existing @ take m proposed)"
  have "edge_rel (existing @ take m proposed) \<subseteq> edge_rel (existing @ take n proposed)"
    using set_take_subset_set_take[OF mn, of proposed] by (auto simp: edge_rel_def)
  then have "edge_rel (existing @ take m proposed) ^^ 17 \<subseteq> edge_rel (existing @ take n proposed) ^^ 17"
    by (rule relpow_subset)
  then show False using n m not_shallow_iff by blast
qed

lemma overflow_search_first:
  assumes "acyclic (edge_rel (existing @ proposed))" and "low \<le> high" and "high \<le> length proposed"
    and "\<not> shallow (existing @ take high proposed)"
    and "\<And>m. m < low \<Longrightarrow> base \<le> m \<Longrightarrow> shallow (existing @ take m proposed)"
  shows "\<exists>i. overflow_search existing proposed low high = Some i \<and> low \<le> i \<and> i \<le> high \<and>
    \<not> shallow (existing @ take i proposed) \<and> (\<forall>m < i. base \<le> m \<longrightarrow> shallow (existing @ take m proposed))"
  using assms(2-5)
proof (induction "high - low" arbitrary: low high rule: less_induct)
  case less
  show ?case
  proof (cases "low < high")
    case False
    then have "overflow_search existing proposed low high = Some low" by (simp add: overflow_search.simps)
    moreover have "low = high" using False less.prems(1) by simp
    ultimately show ?thesis using less.prems(3,4) by auto
  next
    case True
    let ?mid = "(low + high) div 2"
    have mid: "low \<le> ?mid" "?mid < high" "?mid \<le> length proposed" using True less.prems(2) by auto
    obtain d where d: "prefix_depth existing proposed ?mid = Some d"
      "MAX_MEMBERSHIP_DEPTH < d \<longleftrightarrow> \<not> shallow (existing @ take ?mid proposed)"
      using prefix_depth_longest[OF assms(1) mid(3)] by auto
    have step: "overflow_search existing proposed low high =
        (if shallow (existing @ take ?mid proposed) then overflow_search existing proposed (?mid + 1) high
         else overflow_search existing proposed low ?mid)"
      using True d by (subst overflow_search.simps) (simp add: Let_def)
    show ?thesis
    proof (cases "shallow (existing @ take ?mid proposed)")
      case True
      have "\<exists>i. overflow_search existing proposed (?mid + 1) high = Some i \<and> ?mid + 1 \<le> i \<and> i \<le> high \<and>
          \<not> shallow (existing @ take i proposed) \<and> (\<forall>m < i. base \<le> m \<longrightarrow> shallow (existing @ take m proposed))"
      proof (rule less.hyps)
        show "high - (?mid + 1) < high - low" "?mid + 1 \<le> high" using mid by auto
        show "shallow (existing @ take m proposed)" if "m < ?mid + 1" "base \<le> m" for m
          using shallow_prefix[OF _ True] that(1) by simp
      qed (rule less.prems)+
      then show ?thesis using True mid(1) unfolding step by auto
    next
      case False
      have "\<exists>i. overflow_search existing proposed low ?mid = Some i \<and> low \<le> i \<and> i \<le> ?mid \<and>
          \<not> shallow (existing @ take i proposed) \<and> (\<forall>m < i. base \<le> m \<longrightarrow> shallow (existing @ take m proposed))"
      proof (rule less.hyps)
        show "?mid - low < high - low" using mid by auto
        show "\<not> shallow (existing @ take ?mid proposed)" by (rule False)
      qed (use mid less.prems(4) in auto)
      then show ?thesis using False mid(2) unfolding step by (metis less_imp_le order_trans)
    qed
  qed
qed

lemma depth_error_first:
  assumes "acyclic (edge_rel (existing @ proposed))" and "\<not> shallow (existing @ proposed)" and "proposed \<noteq> []"
  obtains i d where "i < length proposed"
    and "depth_error existing proposed = Some (MembershipDepthExceeded (sm_account_set_id (proposed ! i))
          (sm_member_account_set_id (proposed ! i)) d MAX_MEMBERSHIP_DEPTH)"
    and "longest (existing @ take (Suc i) proposed) d" and "MAX_MEMBERSHIP_DEPTH < d"
    and "\<And>m. 1 \<le> m \<Longrightarrow> m \<le> i \<Longrightarrow> shallow (existing @ take m proposed)"
proof -
  from assms(3) have len: "1 \<le> length proposed" by (cases proposed) auto
  have "\<exists>i. overflow_search existing proposed 1 (length proposed) = Some i \<and> 1 \<le> i \<and> i \<le> length proposed \<and>
      \<not> shallow (existing @ take i proposed) \<and> (\<forall>m < i. 1 \<le> m \<longrightarrow> shallow (existing @ take m proposed))"
    by (rule overflow_search_first[OF assms(1) len]) (use assms(2) in auto)
  then obtain i where i: "overflow_search existing proposed 1 (length proposed) = Some i" "1 \<le> i" "i \<le> length proposed"
    "\<not> shallow (existing @ take i proposed)" "\<forall>m < i. 1 \<le> m \<longrightarrow> shallow (existing @ take m proposed)" by blast
  from prefix_depth_longest[OF assms(1) i(3)] i(4) obtain d where d: "prefix_depth existing proposed i = Some d"
    "longest (existing @ take i proposed) d" "MAX_MEMBERSHIP_DEPTH < d" by blast
  have "i - 1 < length proposed" "Suc (i - 1) = i" using i(2,3) by auto
  with i d show thesis
    by (intro that[of "i - 1" d]) (auto simp: depth_error_def first_depth_overflow_def Let_def)
qed

section \<open>Counting containment paths\<close>

text \<open>
  A path from a queue of sets: the position of its start and the positions of the parents taken.
\<close>

fun up_walk :: "(account_set_id \<times> account_set_id list) list \<Rightarrow> account_set_id \<Rightarrow> nat list \<Rightarrow> account_set_id \<Rightarrow> bool" where
  "up_walk parents s [] t = (s = t)"
| "up_walk parents s (k # p) t =
     (case map_of parents s of
        None \<Rightarrow> False
      | Some ps \<Rightarrow> k < length ps \<and> up_walk parents (ps ! k) p t)"

definition path_from ::
  "(account_set_id \<times> account_set_id list) list \<Rightarrow> account_set_id list \<Rightarrow> nat \<times> nat list \<Rightarrow> account_set_id \<Rightarrow> bool" where
  "path_from parents queue x t = (fst x < length queue \<and> up_walk parents (queue ! fst x) (snd x) t)"

definition duplicate_path :: "(account_set_id \<times> account_set_id list) list \<Rightarrow> account_set_id list \<Rightarrow> bool" where
  "duplicate_path parents queue \<longleftrightarrow>
     (\<exists>x y t. x \<noteq> y \<and> path_from parents queue x t \<and> path_from parents queue y t)"

definition unknown_path :: "(account_set_id \<times> account_set_id list) list \<Rightarrow> account_set_id list \<Rightarrow> bool" where
  "unknown_path parents queue \<longleftrightarrow> (\<exists>x t. path_from parents queue x t \<and> map_of parents t = None)"

definition meets :: "(account_set_id \<times> account_set_id list) list \<Rightarrow> account_set_id set \<Rightarrow> account_set_id list \<Rightarrow> bool" where
  "meets parents C queue \<longleftrightarrow> (\<exists>x. \<exists>t \<in> C. path_from parents queue x t)"

text \<open>Where a path of \<open>queue @ parents of s\<close> sits among the paths of \<open>s # queue\<close>.\<close>

definition shift :: "nat \<Rightarrow> nat \<times> nat list \<Rightarrow> nat \<times> nat list" where
  "shift n x = (if fst x < n then (Suc (fst x), snd x) else (0, (fst x - n) # snd x))"

lemma shift_inj: "shift n x = shift n y \<Longrightarrow> x = y"
  by (cases x; cases y) (auto simp: shift_def split: if_splits)

lemma shift_ne [simp]: "shift n x \<noteq> (0, [])"
  by (auto simp: shift_def)

lemma path_from_shift:
  assumes "map_of parents s = Some ps"
  shows "path_from parents (s # queue) (shift (length queue) y) t \<longleftrightarrow> path_from parents (queue @ ps) y t"
  using assms by (cases y) (auto simp: path_from_def shift_def nth_append)

lemma path_from_Cons:
  assumes "map_of parents s = Some ps"
  shows "path_from parents (s # queue) x t \<longleftrightarrow>
    (x = (0, []) \<and> t = s) \<or> (\<exists>y. path_from parents (queue @ ps) y t \<and> x = shift (length queue) y)"
proof
  assume p: "path_from parents (s # queue) x t"
  obtain i q where x: "x = (i, q)" by fastforce
  consider "i = 0" "q = []" | k p where "i = 0" "q = k # p" | j where "i = Suc j"
    by (cases i; cases q) auto
  then show "(x = (0, []) \<and> t = s) \<or> (\<exists>y. path_from parents (queue @ ps) y t \<and> x = shift (length queue) y)"
  proof cases
    case 1
    then show ?thesis using p x by (simp add: path_from_def)
  next
    case (2 k r)
    then have "x = shift (length queue) (length queue + k, r)" by (simp add: x shift_def)
    then show ?thesis using p path_from_shift[OF assms] by blast
  next
    case (3 j)
    then have "x = shift (length queue) (j, q)" using p x by (simp add: path_from_def shift_def)
    then show ?thesis using p path_from_shift[OF assms] by blast
  qed
next
  assume "(x = (0, []) \<and> t = s) \<or> (\<exists>y. path_from parents (queue @ ps) y t \<and> x = shift (length queue) y)"
  then show "path_from parents (s # queue) x t"
    using path_from_shift[OF assms] by (auto simp: path_from_def[of _ _ "(0, [])"])
qed

lemma path_from_tail:
  "map_of parents s = Some ps \<Longrightarrow> path_from parents (queue @ ps) y t \<Longrightarrow>
     path_from parents (s # queue) (shift (length queue) y) t"
  by (simp add: path_from_shift)

lemma path_loop_spec:
  "case path_loop parents C queue of
     None \<Rightarrow> unknown_path parents queue
   | Some True \<Rightarrow> meets parents C queue \<or> duplicate_path parents queue
   | Some False \<Rightarrow> \<not> unknown_path parents queue \<and> \<not> meets parents C queue \<and> \<not> duplicate_path parents queue"
proof (induction parents C queue rule: path_loop.induct)
  case (1 parents C)
  then show ?case by (simp add: unknown_path_def meets_def duplicate_path_def path_from_def)
next
  case (2 parents C s queue)
  have here: "path_from parents (s # queue) (0, []) s" by (simp add: path_from_def)
  show ?case
  proof (cases "map_of parents s")
    case None
    then show ?thesis using here by (auto simp: unknown_path_def)
  next
    case (Some ps)
    note Cons = path_from_Cons[OF Some] and tail = path_from_tail[OF Some]
    show ?thesis
    proof (cases "s \<in> C")
      case True
      then show ?thesis using Some here by (auto simp: meets_def)
    next
      case False
      let ?q = "queue @ ps"
      have unknown: "unknown_path parents ?q \<longleftrightarrow> unknown_path parents (s # queue)"
      proof
        assume "unknown_path parents ?q"
        then show "unknown_path parents (s # queue)" unfolding unknown_path_def using tail by blast
      next
        assume "unknown_path parents (s # queue)"
        then obtain x t where t: "path_from parents (s # queue) x t" "map_of parents t = None"
          unfolding unknown_path_def by blast
        moreover have "t \<noteq> s" using t(2) Some by auto
        ultimately show "unknown_path parents ?q" unfolding Cons unknown_path_def by blast
      qed
      have meets: "meets parents C ?q \<longleftrightarrow> meets parents C (s # queue)"
      proof
        assume "meets parents C ?q"
        then show "meets parents C (s # queue)" unfolding meets_def using tail by blast
      next
        assume "meets parents C (s # queue)"
        then obtain x t where t: "path_from parents (s # queue) x t" "t \<in> C"
          unfolding meets_def by blast
        moreover have "t \<noteq> s" using t(2) False by auto
        ultimately show "meets parents C ?q" unfolding Cons meets_def by blast
      qed
      have dup: "meets parents {s} ?q \<or> duplicate_path parents ?q \<longleftrightarrow> duplicate_path parents (s # queue)"
      proof
        assume "meets parents {s} ?q \<or> duplicate_path parents ?q"
        then show "duplicate_path parents (s # queue)"
        proof
          assume "meets parents {s} ?q"
          then obtain y where "path_from parents ?q y s" unfolding meets_def by blast
          from tail[OF this] here show ?thesis unfolding duplicate_path_def using shift_ne by blast
        next
          assume "duplicate_path parents ?q"
          then obtain x y t where "x \<noteq> y" "path_from parents ?q x t" "path_from parents ?q y t"
            unfolding duplicate_path_def by blast
          then show ?thesis unfolding duplicate_path_def using tail shift_inj by blast
        qed
      next
        assume "duplicate_path parents (s # queue)"
        then obtain x y t where ne: "x \<noteq> y" and x: "path_from parents (s # queue) x t"
          and y: "path_from parents (s # queue) y t"
          unfolding duplicate_path_def by blast
        show "meets parents {s} ?q \<or> duplicate_path parents ?q"
        proof (cases "x = (0, []) \<or> y = (0, [])")
          case True
          then have "t = s" using x y by (auto simp: path_from_def)
          then have "\<exists>z. path_from parents ?q z s" using True x y ne unfolding Cons by blast
          then show ?thesis unfolding meets_def by blast
        next
          case False
          from x False obtain x' where x': "path_from parents ?q x' t" "x = shift (length queue) x'"
            unfolding Cons by blast
          from y False obtain y' where y': "path_from parents ?q y' t" "y = shift (length queue) y'"
            unfolding Cons by blast
          from x'(2) y'(2) ne have "x' \<noteq> y'" by blast
          with x'(1) y'(1) show ?thesis unfolding duplicate_path_def by blast
        qed
      qed
      have "meets parents (insert s C) ?q \<longleftrightarrow> meets parents {s} ?q \<or> meets parents C ?q"
        unfolding meets_def by blast
      then have new: "meets parents (insert s C) ?q \<or> duplicate_path parents ?q \<longleftrightarrow>
          meets parents C (s # queue) \<or> duplicate_path parents (s # queue)"
        using meets dup by blast
      have step: "path_loop parents C (s # queue) = path_loop parents (insert s C) ?q"
        using Some False by simp
      note IH = 2[OF Some False]
      consider "path_loop parents (insert s C) ?q = None"
        | "path_loop parents (insert s C) ?q = Some True" | "path_loop parents (insert s C) ?q = Some False"
        by (metis option.exhaust)
      then show ?thesis unfolding step
        by cases (use IH new unknown in simp_all)
    qed
  qed
qed

section \<open>Properties\<close>

lemma validate_accepts:
  "validate_set_memberships existing proposed ms = Some (Inr ()) \<longleftrightarrow>
     unique_walks (existing @ proposed) \<and>
     unique_account_walks (existing @ proposed) ms \<and>
     shallow (existing @ proposed)"
proof (cases "acyclic (edge_rel (existing @ proposed))")
  case True
  then show ?thesis by (cases "depth_error existing proposed") (auto simp: validate_acyclic)
next
  case False
  then have "\<not> unique_walks (existing @ proposed)" using unique_walks_acyclic by blast
  then show ?thesis using validate_cyclic[OF False, of ms]
    by (cases "cycle_error (membership_dag (existing @ proposed) ms) existing proposed") simp_all
qed

text \<open>
  C15: The validator accepts exactly the sound hierarchies. Proposed edges and memberships are
  accepted if and only if, in the graph with them added, any two sets are joined by at most one
  walk (so there is no cycle and no second containment path), every set reaches an account
  through at most one of its memberships, and no chain is longer than 16 edges.
\<close>

theorem validate_accepts_iff:
  "validate_set_memberships existing proposed ms = Some (Inr ()) \<longleftrightarrow>
     unique_walks (existing @ proposed) \<and>
     unique_account_walks (existing @ proposed) ms \<and>
     shallow (existing @ proposed)"
  by (rule validate_accepts)

text \<open>An edge lies on a cycle when its member leads back to its container.\<close>

definition on_cycle :: "set_membership list \<Rightarrow> set_membership \<Rightarrow> bool" where
  "on_cycle es e \<longleftrightarrow> (sm_member_account_set_id e, sm_account_set_id e) \<in> (edge_rel es)\<^sup>*"

lemma cyclic_edge:
  assumes "\<not> acyclic (edge_rel (existing @ proposed))" and "\<forall>e \<in> set proposed. \<not> on_cycle (existing @ proposed) e"
  shows "\<not> acyclic (edge_rel existing)"
proof -
  let ?E = "edge_rel (existing @ proposed)"
  obtain x where x: "(x, x) \<in> ?E\<^sup>+" using assms(1) by (auto simp: acyclic_def)
  have old: "(y, z) \<in> edge_rel existing" if "(y, z) \<in> ?E" "(z, y) \<in> ?E\<^sup>*" for y z
  proof -
    from that(1) obtain e where e: "e \<in> set (existing @ proposed)" "sm_account_set_id e = y" "sm_member_account_set_id e = z"
      by (auto simp: edge_rel_def)
    then have "on_cycle (existing @ proposed) e" using that(2) by (simp add: on_cycle_def)
    with e assms(2) show ?thesis by (auto simp: edge_rel_def)
  qed
  have "(y, z) \<in> ?E\<^sup>+ \<Longrightarrow> (z, y) \<in> ?E\<^sup>* \<Longrightarrow> (y, z) \<in> (edge_rel existing)\<^sup>+" for y z
  proof (induction rule: trancl_induct)
    case (base z)
    then show ?case using old by blast
  next
    case (step z w)
    then have "(z, y) \<in> ?E\<^sup>*" by (meson converse_rtrancl_into_rtrancl)
    moreover have "(w, z) \<in> ?E\<^sup>*" using step by (meson rtrancl_trans trancl_into_rtrancl)
    ultimately show ?case using step old by (meson trancl_into_trancl)
  qed
  from this[OF x] show ?thesis by (auto simp: acyclic_def)
qed

lemma find_first: "List.find P xs = Some x \<longleftrightarrow> (\<exists>i < length xs. x = xs ! i \<and> P x \<and> (\<forall>j < i. \<not> P (xs ! j)))"
  by (auto simp: find_Some_iff)

lemma cycle_attribution:
  assumes "\<not> acyclic (edge_rel (existing @ proposed))"
  shows "\<exists>edge. validate_set_memberships existing proposed ms =
      Some (Inl (MembershipCycleDetected (sm_account_set_id edge) (sm_member_account_set_id edge))) \<and>
    ((\<exists>i < length proposed. edge = proposed ! i \<and> on_cycle (existing @ proposed) edge \<and>
        (\<forall>j < i. \<not> on_cycle (existing @ proposed) (proposed ! j))) \<or>
     (\<not> acyclic (edge_rel existing) \<and> edge = hd existing))"
proof -
  let ?es = "existing @ proposed" and ?dag = "membership_dag (existing @ proposed) ms"
  let ?P = "\<lambda>e. sm_account_set_id e = sm_member_account_set_id e \<or>
      has_path ?dag (sm_member_account_set_id e) (sm_account_set_id e)"
  have P: "?P e \<longleftrightarrow> on_cycle ?es e" for e
    unfolding has_path_iff[OF membership_dag] on_cycle_def by auto
  show ?thesis
  proof (cases "List.find ?P proposed")
    case (Some e)
    then have "\<exists>i < length proposed. e = proposed ! i \<and> on_cycle ?es e \<and> (\<forall>j < i. \<not> on_cycle ?es (proposed ! j))"
      unfolding find_first P .
    then show ?thesis using Some by (intro exI[of _ e]) (simp add: validate_cyclic[OF assms] cycle_error_def)
  next
    case None
    then have "\<forall>e \<in> set proposed. \<not> on_cycle ?es e" unfolding find_None_iff P by blast
    from cyclic_edge[OF assms this] have c: "\<not> acyclic (edge_rel existing)" .
    then obtain e rest where e: "existing = e # rest" by (cases existing) (auto simp: acyclic_def)
    have "cycle_error ?dag existing proposed =
        Some (MembershipCycleDetected (sm_account_set_id e) (sm_member_account_set_id e))"
      by (simp only: cycle_error_def None option.case) (simp add: e)
    then show ?thesis using c e unfolding validate_cyclic[OF assms] by auto
  qed
qed

text \<open>
  C19: A cycle is always reported, and attributed. When the combined graph has a cycle the result
  is \<open>MembershipCycleDetected\<close>, naming the first proposed edge that lies on a cycle; only when
  no proposed edge does, which means that the existing graph is cyclic, the first existing edge.
\<close>

theorem cycle_is_attributed:
  assumes "\<not> acyclic (edge_rel (existing @ proposed))"
  shows "\<exists>edge. validate_set_memberships existing proposed ms =
      Some (Inl (MembershipCycleDetected (sm_account_set_id edge) (sm_member_account_set_id edge))) \<and>
    ((\<exists>i < length proposed. edge = proposed ! i \<and> on_cycle (existing @ proposed) edge \<and>
        (\<forall>j < i. \<not> on_cycle (existing @ proposed) (proposed ! j))) \<or>
     (\<not> acyclic (edge_rel existing) \<and> edge = hd existing))"
  using assms by (rule cycle_attribution)

definition edge :: "uuid \<Rightarrow> uuid \<Rightarrow> set_membership" where
  "edge a b = \<lparr> sm_account_set_id = AccountSetId a, sm_member_account_set_id = AccountSetId b \<rparr>"

lemma ordered_acyclic:
  assumes "\<forall>e \<in> set es. sm_account_set_id e < sm_member_account_set_id e"
  shows "acyclic (edge_rel es)"
proof -
  have "acyclic ((edge_rel es)\<inverse>)"
    by (rule acyclicI_order[where f = id]) (use assms in \<open>auto simp: edge_rel_def\<close>)
  then show ?thesis by simp
qed

lemma cycle_is_attributed_witness:
  "validate_set_memberships [edge 1 2] [edge 1 3, edge 2 1] [] =
     Some (Inl (MembershipCycleDetected (AccountSetId 2) (AccountSetId 1)))"
proof -
  let ?E = "edge_rel ([edge 1 2] @ [edge 1 3, edge 2 1])"
  have E: "?E = {(AccountSetId 1, AccountSetId 2), (AccountSetId 1, AccountSetId 3), (AccountSetId 2, AccountSetId 1)}"
    by (auto simp: edge_def)
  have cyc: "\<not> acyclic ?E" unfolding E acyclic_def by (auto intro!: exI[of _ "AccountSetId 1"] trancl_into_trancl[OF r_into_trancl, of _ "AccountSetId 2"])
  have "acyclic (edge_rel [edge 1 2])"
    by (rule ordered_acyclic) (simp add: edge_def less_account_set_id_def)
  moreover have "\<not> on_cycle ([edge 1 2] @ [edge 1 3, edge 2 1]) (edge 1 3)"
    unfolding on_cycle_def E by (auto simp: edge_def elim: converse_rtranclE)
  ultimately show ?thesis
    using cycle_is_attributed[OF cyc, of "[]"] by (auto simp: edge_def less_Suc_eq nth_Cons')
qed

text \<open>
  C21: A depth rejection names the culprit. When validation fails with \<open>MembershipDepthExceeded\<close>,
  the edge it names is the first proposed edge whose inclusion takes the longest chain of the
  combined graph past 16, and the reported depth is the length of that longest chain.
\<close>

theorem depth_error_names_first_edge:
  assumes "validate_set_memberships existing proposed ms = Some (Inl (MembershipDepthExceeded c m d mx))"
  shows "\<exists>i < length proposed. sm_account_set_id (proposed ! i) = c \<and> sm_member_account_set_id (proposed ! i) = m \<and>
    longest (existing @ take (Suc i) proposed) d \<and> 16 < d \<and> mx = 16 \<and>
    (\<forall>k. 1 \<le> k \<and> k \<le> i \<longrightarrow> shallow (existing @ take k proposed))"
proof (cases "acyclic (edge_rel (existing @ proposed))")
  case False
  then show ?thesis using assms cycle_attribution[OF False, of ms] by auto
next
  case True
  have err: "depth_error existing proposed = Some (MembershipDepthExceeded c m d mx)" "\<not> shallow (existing @ proposed)"
    using assms unfolding validate_acyclic[OF True] by (auto split: if_splits)
  have "proposed \<noteq> []"
  proof
    assume "proposed = []"
    then have "depth_error existing proposed = None"
      by (simp add: depth_error_def first_depth_overflow_def overflow_search.simps prefix_depth_def)
    with err(1) show False by simp
  qed
  from depth_error_first[OF True err(2) this] obtain i d' where "i < length proposed"
    "depth_error existing proposed = Some (MembershipDepthExceeded (sm_account_set_id (proposed ! i))
       (sm_member_account_set_id (proposed ! i)) d' MAX_MEMBERSHIP_DEPTH)"
    "longest (existing @ take (Suc i) proposed) d'" "MAX_MEMBERSHIP_DEPTH < d'"
    "\<And>k. 1 \<le> k \<Longrightarrow> k \<le> i \<Longrightarrow> shallow (existing @ take k proposed)" by metis
  then show ?thesis using err(1) by (intro exI[of _ i]) (auto simp: MAX_MEMBERSHIP_DEPTH_def)
qed

definition sample_chain :: "set_membership list" where
  "sample_chain = [edge 1 2, edge 2 3, edge 3 4, edge 4 5, edge 5 6, edge 6 7, edge 7 8, edge 8 9,
     edge 9 10, edge 10 11, edge 11 12, edge 12 13, edge 13 14, edge 14 15, edge 15 16]"

definition sample_proposed :: "set_membership list" where
  "sample_proposed = [edge 16 17, edge 17 18]"

lemma sample_chain_too_deep:
  "\<exists>c m d mx. validate_set_memberships sample_chain sample_proposed [] =
     Some (Inl (MembershipDepthExceeded c m d mx))"
proof -
  let ?es = "sample_chain @ sample_proposed"
  have ac: "acyclic (edge_rel ?es)"
    by (rule ordered_acyclic) (simp add: sample_chain_def sample_proposed_def edge_def less_account_set_id_def)
  have "distinct (map sm_member_account_set_id ?es)"
    by (simp add: sample_chain_def sample_proposed_def edge_def)
  then have "disjoint_parents ?es"
    unfolding disjoint_parents_def distinct_conv_nth by (metis length_map nth_map)
  then have u: "unique_walks ?es" by (simp add: unique_walks_iff[OF ac])
  have "is_walk ?es (AccountSetId 1) [0, 1, 2, 3, 4, 5, 6, 7, 8, 9, 10, 11, 12, 13, 14, 15, 16] (AccountSetId 18)"
    by (simp add: sample_chain_def sample_proposed_def edge_def)
  then have deep: "\<not> shallow ?es" unfolding shallow_def MAX_MEMBERSHIP_DEPTH_def by fastforce
  have "unique_account_walks ?es []" by (simp add: unique_account_walks_def)
  moreover have "sample_proposed \<noteq> []" by (simp add: sample_proposed_def)
  ultimately show ?thesis
    using u deep depth_error_first[OF ac deep] unfolding validate_acyclic[OF ac] by (metis option.simps(9))
qed

lemma depth_error_names_first_edge_witness:
  "\<exists>i < 2. \<exists>d > 16. longest (sample_chain @ take (Suc i) sample_proposed) d"
proof -
  obtain c m d mx where "validate_set_memberships sample_chain sample_proposed [] =
      Some (Inl (MembershipDepthExceeded c m d mx))" using sample_chain_too_deep by blast
  moreover have "length sample_proposed = 2" by (simp add: sample_proposed_def)
  ultimately show ?thesis using depth_error_names_first_edge by fastforce
qed

text \<open>The sets an account is a direct member of.\<close>

definition seeds :: "account_membership list \<Rightarrow> account_id \<Rightarrow> account_set_id list" where
  "seeds ms a = map am_account_set_id (filter (\<lambda>m. am_account_id m = a) ms)"

lemma opt_bool_cases:
  obtains "x = None" | "x = Some True" | "x = Some False"
  by (cases x) auto

lemma any_duplicate_spec:
  "case any_duplicate parents qs of
     None \<Rightarrow> \<exists>q \<in> set qs. unknown_path parents q
   | Some True \<Rightarrow> \<exists>q \<in> set qs. duplicate_path parents q
   | Some False \<Rightarrow> \<forall>q \<in> set qs. \<not> unknown_path parents q \<and> \<not> duplicate_path parents q"
proof (induction qs)
  case (Cons q qs)
  have no: "\<not> meets parents {} q" by (simp add: meets_def)
  consider "path_loop parents {} q = None" | "path_loop parents {} q = Some True" | "path_loop parents {} q = Some False"
    by (metis option.exhaust)
  then show ?case
  proof cases
    case 3
    then show ?thesis using Cons path_loop_spec[where parents = parents and C = "{}" and queue = q] no
      by (auto split: option.splits bool.splits)
  qed (use path_loop_spec[where parents = parents and C = "{}" and queue = q] no in auto)
qed simp

text \<open>
  C22: Containment paths are counted exactly. For the proposed and existing memberships of each
  account, walked upwards through the parent table: the answer \<open>False\<close> means that every set
  reached is known and reached by one path only, \<open>True\<close> that some account reaches a set by two
  paths, and \<open>None\<close> that some path leaves the known sets. The walk ends on cyclic tables too.
\<close>

theorem duplicate_paths_counted:
  "case has_duplicate_account_membership_paths proposed existing parents of
     None \<Rightarrow> \<exists>a. unknown_path parents (seeds (proposed @ existing) a)
   | Some True \<Rightarrow> \<exists>a. duplicate_path parents (seeds (proposed @ existing) a)
   | Some False \<Rightarrow> \<forall>a. \<not> unknown_path parents (seeds (proposed @ existing) a) \<and>
       \<not> duplicate_path parents (seeds (proposed @ existing) a)"
proof -
  let ?g = "group_pairs (map (\<lambda>m. (am_account_id m, am_account_set_id m)) (proposed @ existing))"
  have look: "get_list (map_of ?g) a = seeds (proposed @ existing) a" for a
    by (simp only: get_list_group_pairs seeds_def filter_map comp_def fst_conv map_map snd_conv)
  have mem: "q \<in> set (map snd ?g) \<Longrightarrow> \<exists>a. q = seeds (proposed @ existing) a" for q
  proof -
    assume "q \<in> set (map snd ?g)"
    then obtain a where "(a, q) \<in> set ?g" by auto
    then have "map_of ?g a = Some q" by (simp add: map_of_eq_Some_iff)
    then show ?thesis using look[of a] by (auto simp: get_list_def)
  qed
  have all: "seeds (proposed @ existing) a \<in> set (map snd ?g) \<or> seeds (proposed @ existing) a = []" for a
    using look[of a] by (cases "map_of ?g a") (force simp: get_list_def dest: map_of_SomeD)+
  have empty: "\<not> unknown_path parents [] \<and> \<not> duplicate_path parents []"
    by (simp add: unknown_path_def duplicate_path_def path_from_def)
  have step: "has_duplicate_account_membership_paths proposed existing parents = any_duplicate parents (map snd ?g)"
    by (simp add: has_duplicate_account_membership_paths_def Let_def)
  have spec: "case any_duplicate parents (map snd ?g) of
     None \<Rightarrow> \<exists>q \<in> set (map snd ?g). unknown_path parents q
   | Some True \<Rightarrow> \<exists>q \<in> set (map snd ?g). duplicate_path parents q
   | Some False \<Rightarrow> \<forall>q \<in> set (map snd ?g). \<not> unknown_path parents q \<and> \<not> duplicate_path parents q"
    by (rule any_duplicate_spec)
  have some: "\<exists>q \<in> set (map snd ?g). P q \<Longrightarrow> \<exists>a. P (seeds (proposed @ existing) a)" for P
    using mem by blast
  have every: "\<forall>q \<in> set (map snd ?g). \<not> unknown_path parents q \<and> \<not> duplicate_path parents q \<Longrightarrow>
      \<forall>a. \<not> unknown_path parents (seeds (proposed @ existing) a) \<and>
          \<not> duplicate_path parents (seeds (proposed @ existing) a)"
    using all empty by metis
  show ?thesis unfolding step
    using spec some[of "unknown_path parents"] some[of "duplicate_path parents"] every
    by (cases "any_duplicate parents (map snd ?g)" rule: opt_bool_cases)
      (simp_all only: option.case bool.case simp_thms)
qed

end
