(* ===== verification/Effective.thy ===== *)
theory Effective imports Balance_Store begin

text \<open>
  Cumulative effective balances (\<open>balance/effective/\<close>): for every key the table
  \<open>cala_cumulative_effective_balances\<close> holds one row per entry in the order of effective dates,
  so an entry posted for a past date rewrites every later row. \<open>data.rs\<close> recomputes the rows of
  one key, \<open>repo.rs\<close> takes them out of the table and puts them back, \<open>mod.rs\<close> drives a batch.

  A panic (\<open>unreachable!\<close>, \<open>unimplemented!\<close>, a failed \<open>expect\<close>) is \<open>None\<close>. A comparison sort
  compares neighbours of its result, so sorting a list in which an entry and a snapshot share a
  date always reaches the \<open>unreachable!\<close> of \<open>Ord\<close>.
\<close>

section \<open>Rows and updates\<close>

record 'd effective_balance_snapshot =
  eb_journal_id :: journal_id
  eb_account_id :: account_id
  eb_currency :: currency
  eb_effective :: naive_date
  eb_version :: u32
  eb_all_time_version :: u32
  eb_created_at :: date_time
  eb_modified_at :: date_time
  eb_entry_id :: entry_id
  eb_settled :: "'d balance_amount"
  eb_pending :: "'d balance_amount"
  eb_encumbrance :: "'d balance_amount"

text \<open>Reading the stored JSON back as a \<open>BalanceSnapshot\<close> keeps the common fields.\<close>

definition as_balance_snapshot :: "'d effective_balance_snapshot \<Rightarrow> 'd balance_snapshot" where
  "as_balance_snapshot b =
     \<lparr> bs_journal_id = eb_journal_id b, bs_account_id = eb_account_id b, bs_currency = eb_currency b,
       bs_version = eb_version b, bs_created_at = eb_created_at b, bs_modified_at = eb_modified_at b,
       bs_entry_id = eb_entry_id b, bs_settled = eb_settled b, bs_pending = eb_pending b,
       bs_encumbrance = eb_encumbrance b \<rparr>"

datatype 'd snapshot_or_entry =
    Snapshot naive_date "'d balance_snapshot"
  | Entry naive_date "'d entry_values"

fun effective_of :: "'d snapshot_or_entry \<Rightarrow> naive_date" where
  "effective_of (Snapshot d _) = d"
| "effective_of (Entry d _) = d"

fun order_of :: "'d snapshot_or_entry \<Rightarrow> naive_date \<times> u32" where
  "order_of (Snapshot d v) = (d, bs_version v)"
| "order_of (Entry d e) = (d, e_sequence e)"

fun is_entry :: "'d snapshot_or_entry \<Rightarrow> bool" where
  "is_entry (Entry _ _) = True"
| "is_entry (Snapshot _ _) = False"

definition sort_updates :: "'d snapshot_or_entry list \<Rightarrow> 'd snapshot_or_entry list option" where
  "sort_updates us =
     (if \<exists>u \<in> set us. \<exists>v \<in> set us. is_entry u \<and> \<not> is_entry v \<and> effective_of u = effective_of v
      then None else Some (sort_key order_of us))"

record 'd effective_balance_data =
  ed_account_id :: account_id
  ed_currency :: currency
  ed_last_snapshot :: "(naive_date \<times> 'd balance_snapshot) option"
  ed_latest_all_time_version :: u32
  ed_updates :: "'d snapshot_or_entry list"

definition push_update ::
  "'d effective_balance_data \<Rightarrow> naive_date \<Rightarrow> 'd entry_values \<Rightarrow> 'd effective_balance_data" where
  "push_update data effective entry = data \<lparr> ed_updates := ed_updates data @ [Entry effective entry] \<rparr>"

definition first_snapshot ::
  "date_time \<Rightarrow> account_id \<Rightarrow> 'd::linordered_ab_group_add entry_values \<Rightarrow> 'd balance_snapshot" where
  "first_snapshot time account_id entry =
     (let entry_id = UNASSIGNED_ENTRY_ID
      in \<lparr> bs_journal_id = e_journal_id entry, bs_account_id = account_id,
           bs_currency = e_currency entry, bs_version = 0, bs_created_at = time,
           bs_modified_at = time, bs_entry_id = entry_id,
           bs_settled = zero_amount entry_id time, bs_pending = zero_amount entry_id time,
           bs_encumbrance = zero_amount entry_id time \<rparr>)"

section \<open>Recomputation\<close>

text \<open>The three layer additions and the three entry-id repairs of the \<open>Snapshot\<close> arm.\<close>

definition add_diff ::
  "date_time \<Rightarrow> 'd::linordered_ab_group_add balance_amount \<Rightarrow> 'd balance_amount \<Rightarrow> 'd balance_amount" where
  "add_diff time diff amount =
     (if ba_cr diff \<noteq> 0 \<or> ba_dr diff \<noteq> 0
      then amount \<lparr> ba_cr := ba_cr amount + ba_cr diff, ba_dr := ba_dr amount + ba_dr diff,
                    ba_modified_at := time \<rparr>
      else amount)"

definition set_entry :: "'d balance_amount \<Rightarrow> entry_id \<Rightarrow> 'd balance_amount" where
  "set_entry amount e = amount \<lparr> ba_entry_id := e \<rparr>"

definition rewrite_snapshot ::
  "date_time \<Rightarrow> 'd::linordered_ab_group_add balance_snapshot \<Rightarrow> 'd balance_snapshot
     \<Rightarrow> 'd balance_snapshot \<times> 'd balance_snapshot" where
  "rewrite_snapshot time diff values =
     (let values = values \<lparr> bs_modified_at := time,
                            bs_encumbrance := add_diff time (bs_encumbrance diff) (bs_encumbrance values),
                            bs_pending := add_diff time (bs_pending diff) (bs_pending values),
                            bs_settled := add_diff time (bs_settled diff) (bs_settled values) \<rparr>;
          (diff, values) =
            (if bs_entry_id values = ba_entry_id (bs_encumbrance values)
             then (diff \<lparr> bs_encumbrance := set_entry (bs_encumbrance diff) (bs_entry_id values) \<rparr>,
                   values \<lparr> bs_pending := set_entry (bs_pending values) (ba_entry_id (bs_pending diff)),
                            bs_settled := set_entry (bs_settled values) (ba_entry_id (bs_settled diff)) \<rparr>)
             else (diff, values));
          (diff, values) =
            (if bs_entry_id values = ba_entry_id (bs_pending values)
             then (diff \<lparr> bs_pending := set_entry (bs_pending diff) (bs_entry_id values) \<rparr>,
                   values \<lparr> bs_encumbrance := set_entry (bs_encumbrance values) (ba_entry_id (bs_encumbrance diff)),
                            bs_settled := set_entry (bs_settled values) (ba_entry_id (bs_settled diff)) \<rparr>)
             else (diff, values));
          (diff, values) =
            (if bs_entry_id values = ba_entry_id (bs_settled values)
             then (diff \<lparr> bs_settled := set_entry (bs_settled diff) (bs_entry_id values) \<rparr>,
                   values \<lparr> bs_encumbrance := set_entry (bs_encumbrance values) (ba_entry_id (bs_encumbrance diff)),
                            bs_pending := set_entry (bs_pending values) (ba_entry_id (bs_pending diff)) \<rparr>)
             else (diff, values))
      in (diff, values))"

definition start_diff ::
  "date_time \<Rightarrow> account_id \<Rightarrow> 'd::linordered_ab_group_add balance_snapshot \<Rightarrow> 'd entry_values
     \<Rightarrow> 'd balance_snapshot" where
  "start_diff time account_id last_balance entry =
     (let initial = first_snapshot time account_id entry
      in initial \<lparr> bs_entry_id := bs_entry_id last_balance,
                   bs_encumbrance := set_entry (bs_encumbrance initial) (ba_entry_id (bs_encumbrance last_balance)),
                   bs_pending := set_entry (bs_pending initial) (ba_entry_id (bs_pending last_balance)),
                   bs_settled := set_entry (bs_settled initial) (ba_entry_id (bs_settled last_balance)) \<rparr>)"

text \<open>The loop over the sorted updates: \<open>prev\<close> is \<open>(last_effective, last_balance)\<close>.\<close>

fun recalc_loop ::
  "date_time \<Rightarrow> account_id \<Rightarrow> naive_date \<times> 'd::linordered_ab_group_add balance_snapshot
     \<Rightarrow> 'd balance_snapshot option \<Rightarrow> 'd snapshot_or_entry list \<Rightarrow> 'd snapshot_or_entry list option" where
  "recalc_loop time acc prev diff [] = Some []"
| "recalc_loop time acc prev diff (u # us) =
     (let last_balance = (if fst prev \<noteq> effective_of u then (snd prev) \<lparr> bs_version := 0 \<rparr> else snd prev)
      in case u of
           Entry effective entry \<Rightarrow>
             (let last_balance = update_snapshot time last_balance entry;
                  diff' = (case diff of
                      Some d \<Rightarrow> update_snapshot time d entry
                    | None \<Rightarrow> update_snapshot time (start_diff time acc last_balance entry) entry)
              in map_option (\<lambda>rest. Snapshot effective last_balance # rest)
                   (recalc_loop time acc (effective, last_balance) (Some diff') us))
         | Snapshot effective values \<Rightarrow>
             (case diff of
                None \<Rightarrow> None
              | Some d \<Rightarrow>
                  (let (d', values') = rewrite_snapshot time d values
                   in map_option (\<lambda>rest. Snapshot effective values' # rest)
                        (recalc_loop time acc (effective, last_balance) (Some d') us))))"

definition re_calculate_snapshots ::
  "'d::linordered_ab_group_add effective_balance_data \<Rightarrow> date_time \<Rightarrow> 'd effective_balance_data option" where
  "re_calculate_snapshots data created_at =
     (if ed_updates data = [] then Some data
      else Option.bind (sort_updates (ed_updates data)) (\<lambda>updates.
        Option.bind
          (case ed_last_snapshot data of
             Some (snapshot_date, snapshot) \<Rightarrow> Some (snapshot_date, snapshot)
           | None \<Rightarrow>
               (case hd updates of
                  Entry effective entry \<Rightarrow>
                    Some (effective, first_snapshot created_at (ed_account_id data) entry)
                | Snapshot _ _ \<Rightarrow> None))
          (\<lambda>prev. map_option (\<lambda>us. data \<lparr> ed_updates := us, ed_last_snapshot := None \<rparr>)
             (recalc_loop created_at (ed_account_id data) prev None updates))))"

definition into_effective_snapshots ::
  "'d effective_balance_data \<Rightarrow> journal_id \<Rightarrow> 'd effective_balance_snapshot list option" where
  "into_effective_snapshots data journal_id =
     (if \<exists>u \<in> set (ed_updates data). is_entry u then None
      else Some (map (\<lambda>(idx, update). case update of
          Snapshot effective snapshot \<Rightarrow>
            \<lparr> eb_journal_id = journal_id, eb_account_id = ed_account_id data,
              eb_currency = ed_currency data, eb_effective = effective,
              eb_version = bs_version snapshot,
              eb_all_time_version = of_nat idx + 1 + ed_latest_all_time_version data,
              eb_created_at = bs_created_at snapshot, eb_modified_at = bs_modified_at snapshot,
              eb_entry_id = bs_entry_id snapshot, eb_settled = bs_settled snapshot,
              eb_pending = bs_pending snapshot, eb_encumbrance = bs_encumbrance snapshot \<rparr>)
        (enumerate 0 (ed_updates data))))"

end
