(* ===== verification/Effective_Store.thy ===== *)
theory Effective_Store imports Effective begin

text \<open>
  The effective-balance repository (\<open>balance/effective/repo.rs\<close>) and the operations over it
  (\<open>balance/effective/mod.rs\<close>). The table is the list of its rows; a \<open>DISTINCT ON\<close> or
  \<open>LIMIT 1\<close> after an \<open>ORDER BY .. DESC\<close> takes the row with the greatest sort key.
  \<open>NOW()::DATE\<close> is the parameter \<open>today\<close>.
\<close>

section \<open>Table\<close>

record 'd effective_row =
  er_key :: balance_id
  er_effective :: naive_date
  er_version :: int
  er_all_time_version :: int
  er_updated_at :: date_time
  er_values :: "'d effective_balance_snapshot"

fun max_by :: "('a \<Rightarrow> 'b::linorder) \<Rightarrow> 'a list \<Rightarrow> 'a option" where
  "max_by f [] = None"
| "max_by f (x # xs) = (case max_by f xs of None \<Rightarrow> Some x | Some y \<Rightarrow> Some (if f x < f y then y else x))"

text \<open>\<open>ORDER BY effective DESC, version DESC\<close>, first row.\<close>

definition latest_effective ::
  "'d effective_row list \<Rightarrow> balance_id \<Rightarrow> (naive_date \<Rightarrow> bool) \<Rightarrow> 'd effective_row option" where
  "latest_effective rows key p =
     max_by (\<lambda>r. (er_effective r, er_version r)) (filter (\<lambda>r. er_key r = key \<and> p (er_effective r)) rows)"

definition row_details :: "'d effective_row \<Rightarrow> 'd balance_snapshot" where
  "row_details r = as_balance_snapshot (er_values r)"

definition normal_type :: "membership_tables \<Rightarrow> account_id \<Rightarrow> debit_or_credit option" where
  "normal_type mt a = map_option ac_normal_balance_type (mt_accounts mt a)"

text \<open>The row a lateral join yields for one balance id, as an account balance with its version.\<close>

definition joined_latest ::
  "membership_tables \<Rightarrow> 'd effective_row list \<Rightarrow> balance_id \<Rightarrow> (naive_date \<Rightarrow> bool)
     \<Rightarrow> ('d account_balance \<times> u32) option" where
  "joined_latest mt rows key p =
     (case normal_type mt (fst (snd key)) of
        None \<Rightarrow> None
      | Some t \<Rightarrow> map_option (\<lambda>r. (account_balance_new t (row_details r), word_of_int (er_all_time_version r)))
                   (latest_effective rows key p))"

section \<open>Queries\<close>

definition effective_find_in_op ::
  "membership_tables \<Rightarrow> 'd effective_row list \<Rightarrow> journal_id \<Rightarrow> account_id \<Rightarrow> currency \<Rightarrow> naive_date
     \<Rightarrow> balance_error + 'd account_balance" where
  "effective_find_in_op mt rows journal_id account_id currency date =
     ok_or (NotFound journal_id account_id currency)
       (map_option fst (joined_latest mt rows (journal_id, account_id, currency) (\<lambda>d. d \<le> date)))"

definition coalesce :: "'a option \<Rightarrow> 'a \<Rightarrow> 'a" where
  "coalesce x d = (case x of None \<Rightarrow> d | Some a \<Rightarrow> a)"

definition find_range ::
  "membership_tables \<Rightarrow> 'd effective_row list \<Rightarrow> naive_date \<Rightarrow> journal_id \<Rightarrow> account_id \<Rightarrow> currency
     \<Rightarrow> naive_date \<Rightarrow> naive_date option
     \<Rightarrow> 'd account_balance option \<times> 'd account_balance option \<times> u32" where
  "find_range mt rows today journal_id account_id currency from_date until =
     (let key = (journal_id, account_id, currency);
          first_row = joined_latest mt rows key (\<lambda>d. d < from_date);
          last_row = joined_latest mt rows key (\<lambda>d. d \<le> coalesce until today);
          first_version = (case first_row of None \<Rightarrow> 0 | Some (_, v) \<Rightarrow> v);
          last_version = (case last_row of None \<Rightarrow> 0 | Some (_, v) \<Rightarrow> v)
      in (map_option fst first_row, map_option fst last_row, last_version - first_version))"

definition find_in_range ::
  "membership_tables \<Rightarrow> 'd::linordered_ab_group_add effective_row list \<Rightarrow> naive_date \<Rightarrow> journal_id
     \<Rightarrow> account_id \<Rightarrow> currency \<Rightarrow> naive_date \<Rightarrow> naive_date option \<Rightarrow> balance_error + 'd balance_range" where
  "find_in_range mt rows today journal_id account_id currency from_date until =
     (case find_range mt rows today journal_id account_id currency from_date until of
        (start, Some close, version_diff) \<Rightarrow> Inr (balance_range_new start close version_diff)
      | _ \<Rightarrow> Inl (NotFound journal_id account_id currency))"

definition effective_find_all ::
  "membership_tables \<Rightarrow> 'd effective_row list \<Rightarrow> balance_id list \<Rightarrow> naive_date
     \<Rightarrow> (balance_id \<rightharpoonup> 'd account_balance)" where
  "effective_find_all mt rows ids date =
     foldl (\<lambda>ret i. case joined_latest mt rows i (\<lambda>d. d \<le> date) of
                      None \<Rightarrow> ret
                    | Some (b, _) \<Rightarrow> ret(snapshot_id (ab_details b) \<mapsto> b))
       Map.empty ids"

type_synonym 'd range_entry = "'d account_balance option \<times> u32 \<times> 'd account_balance option \<times> u32"

text \<open>One row of the \<open>UNION ALL\<close> put into the \<open>BalanceRangeResult\<close>.\<close>

definition put_first :: "(balance_id \<times> 'd range_entry) list \<Rightarrow> 'd account_balance \<times> u32 \<Rightarrow> (balance_id \<times> 'd range_entry) list" where
  "put_first ret bv = (case bv of (b, v) \<Rightarrow> upsert (snapshot_id (ab_details b))
     (\<lambda>old. case old of None \<Rightarrow> (Some b, v, None, 0) | Some (_, _, c, w) \<Rightarrow> (Some b, v, c, w)) ret)"

definition put_last :: "(balance_id \<times> 'd range_entry) list \<Rightarrow> 'd account_balance \<times> u32 \<Rightarrow> (balance_id \<times> 'd range_entry) list" where
  "put_last ret bv = (case bv of (b, v) \<Rightarrow> upsert (snapshot_id (ab_details b))
     (\<lambda>old. case old of None \<Rightarrow> (None, 0, Some b, v) | Some (a, w, _, _) \<Rightarrow> (a, w, Some b, v)) ret)"

definition find_range_all ::
  "membership_tables \<Rightarrow> 'd effective_row list \<Rightarrow> naive_date \<Rightarrow> balance_id list \<Rightarrow> naive_date
     \<Rightarrow> naive_date option \<Rightarrow> (balance_id \<times> 'd range_entry) list" where
  "find_range_all mt rows today ids from_date until =
     (let firsts = List.map_filter (\<lambda>i. joined_latest mt rows i (\<lambda>d. d < from_date)) ids;
          lasts = List.map_filter (\<lambda>i. joined_latest mt rows i (\<lambda>d. d \<le> coalesce until today)) ids
      in foldl put_last (foldl put_first [] firsts) lasts)"

definition find_all_in_range ::
  "membership_tables \<Rightarrow> 'd::linordered_ab_group_add effective_row list \<Rightarrow> naive_date \<Rightarrow> balance_id list
     \<Rightarrow> naive_date \<Rightarrow> naive_date option \<Rightarrow> (balance_id \<rightharpoonup> 'd balance_range)" where
  "find_all_in_range mt rows today ids from_date until =
     map_of (List.map_filter (\<lambda>(i, start, start_version, close, end_version).
         map_option (Pair i) (from_bounds start start_version close end_version))
       (find_range_all mt rows today ids from_date until))"

text \<open>
  The balance ids a listing joins: the distinct keys with a row in the period, past the cursor,
  in key order. \<open>list_range_*\<close> limits the ids, the plain listings limit the rows.
\<close>

definition keys_upto ::
  "'d effective_row list \<Rightarrow> journal_id \<Rightarrow> account_id list \<Rightarrow> naive_date \<Rightarrow> (account_id \<times> currency) list" where
  "keys_upto rows journal_id account_ids date =
     sort_dedup (map (\<lambda>r. snd (er_key r))
       (filter (\<lambda>r. fst (er_key r) = journal_id \<and> fst (snd (er_key r)) \<in> set account_ids
                  \<and> er_effective r \<le> date) rows))"

definition keys_joined ::
  "membership_tables \<Rightarrow> 'd effective_row list \<Rightarrow> journal_id \<Rightarrow> account_id list \<Rightarrow> naive_date
     \<Rightarrow> (account_id \<times> currency) list" where
  "keys_joined mt rows journal_id account_ids date =
     filter (\<lambda>(a, c). mt_accounts mt a \<noteq> None) (keys_upto rows journal_id account_ids date)"

definition effective_list_for_account ::
  "membership_tables \<Rightarrow> 'd effective_row list \<Rightarrow> journal_id \<Rightarrow> account_id \<Rightarrow> naive_date \<Rightarrow> nat
     \<Rightarrow> currency option \<Rightarrow> ('d account_balance, currency) page" where
  "effective_list_for_account mt rows journal_id account_id date n after =
     page_of n (bs_currency \<circ> ab_details)
       (List.map_filter (\<lambda>(a, c). map_option fst (joined_latest mt rows (journal_id, a, c) (\<lambda>d. d \<le> date)))
          (past snd after (keys_joined mt rows journal_id [account_id] date)))"

definition effective_list_for_accounts ::
  "membership_tables \<Rightarrow> 'd effective_row list \<Rightarrow> journal_id \<Rightarrow> account_id list \<Rightarrow> naive_date \<Rightarrow> nat
     \<Rightarrow> (account_id \<times> currency) option \<Rightarrow> ('d account_balance, account_id \<times> currency) page" where
  "effective_list_for_accounts mt rows journal_id account_ids date n after =
     page_of n (\<lambda>b. (bs_account_id (ab_details b), bs_currency (ab_details b)))
       (List.map_filter (\<lambda>(a, c). map_option fst (joined_latest mt rows (journal_id, a, c) (\<lambda>d. d \<le> date)))
          (past id after (keys_joined mt rows journal_id account_ids date)))"

definition modified_columns :: "'d effective_row \<Rightarrow> account_id \<times> currency \<times> naive_date" where
  "modified_columns r = (fst (snd (er_key r)), snd (snd (er_key r)), er_effective r)"

definition list_modified_since ::
  "'d effective_row list \<Rightarrow> journal_id \<Rightarrow> date_time \<Rightarrow> nat \<Rightarrow> (account_id \<times> currency \<times> naive_date) option
     \<Rightarrow> ('d effective_balance_snapshot, account_id \<times> currency \<times> naive_date) page" where
  "list_modified_since rows journal_id since n after =
     (let rows = filter (\<lambda>r. fst (er_key r) = journal_id \<and> since \<le> er_updated_at r) rows;
          tuples = past id after (sort_dedup (map modified_columns rows))
      in page_of n (\<lambda>s. (eb_account_id s, eb_currency s, eb_effective s))
           (List.map_filter (\<lambda>t. map_option er_values
              (max_by er_all_time_version (filter (\<lambda>r. modified_columns r = t) rows))) tuples))"

definition balance_ranges_from_snapshots ::
  "(balance_id \<times> 'd::linordered_ab_group_add range_entry) list \<Rightarrow> 'd balance_range list" where
  "balance_ranges_from_snapshots ranges =
     sort_key (\<lambda>r. snapshot_id (ab_details (br_close r)))
       (List.map_filter (\<lambda>(_, start, start_version, close, end_version).
          map_option (\<lambda>e. balance_range_new start e (end_version - start_version)) close) ranges)"

definition range_page ::
  "nat \<Rightarrow> ('d::linordered_ab_group_add balance_range \<Rightarrow> 'c) \<Rightarrow> (balance_id \<times> 'd range_entry) list
     \<Rightarrow> ('d balance_range, 'c) page" where
  "range_page n cursor ranges =
     (let has_next_page = n < length ranges;
          entities = take n (balance_ranges_from_snapshots ranges)
      in \<lparr> pg_entities = entities, pg_has_next_page = has_next_page,
           pg_end_cursor = (if entities = [] then None else Some (cursor (last entities))) \<rparr>)"

definition list_range_for_account ::
  "membership_tables \<Rightarrow> 'd::linordered_ab_group_add effective_row list \<Rightarrow> naive_date \<Rightarrow> journal_id
     \<Rightarrow> account_id \<Rightarrow> naive_date \<Rightarrow> naive_date option \<Rightarrow> nat \<Rightarrow> currency option
     \<Rightarrow> ('d balance_range, currency) page" where
  "list_range_for_account mt rows today journal_id account_id from_date until n after =
     (let balance_ids = take (n + 1) (past snd after
            (keys_joined mt rows journal_id [account_id] (coalesce until today)))
      in range_page n (bs_currency \<circ> ab_details \<circ> br_close)
           (find_range_all mt rows today (map (Pair journal_id) balance_ids) from_date until))"

definition list_range_for_accounts ::
  "membership_tables \<Rightarrow> 'd::linordered_ab_group_add effective_row list \<Rightarrow> naive_date \<Rightarrow> journal_id
     \<Rightarrow> account_id list \<Rightarrow> naive_date \<Rightarrow> naive_date option \<Rightarrow> nat \<Rightarrow> (account_id \<times> currency) option
     \<Rightarrow> ('d balance_range, account_id \<times> currency) page" where
  "list_range_for_accounts mt rows today journal_id account_ids from_date until n after =
     (let balance_ids = take (n + 1) (past id after
            (keys_joined mt rows journal_id account_ids (coalesce until today)))
      in range_page n (\<lambda>r. (bs_account_id (ab_details (br_close r)), bs_currency (ab_details (br_close r))))
           (find_range_all mt rows today (map (Pair journal_id) balance_ids) from_date until))"

section \<open>Updates\<close>

text \<open>
  Both fetches for update: the eligible pairs, their rows after the date taken out of the table,
  and the row with the greatest all-time version of the rest. \<open>ec\<close> is the flag the accounts
  must carry.
\<close>

definition eligible_pairs ::
  "bool \<Rightarrow> membership_tables \<Rightarrow> (account_id \<times> currency) list \<Rightarrow> (account_id \<times> currency) list" where
  "eligible_pairs ec mt ids =
     remdups (filter (\<lambda>(a, c). case mt_accounts mt a of None \<Rightarrow> False
                                | Some acc \<Rightarrow> ac_eventually_consistent acc = ec) ids)"

definition take_future ::
  "'d effective_row list \<Rightarrow> journal_id \<Rightarrow> (account_id \<times> currency) list \<Rightarrow> naive_date
     \<Rightarrow> 'd effective_row list \<times> ((account_id \<times> currency) \<times> 'd effective_balance_data) list" where
  "take_future rows journal_id pairs effective =
     (let future = (\<lambda>r. fst (er_key r) = journal_id \<and> snd (er_key r) \<in> set pairs \<and> effective < er_effective r);
          deleted = filter future rows;
          remaining = filter (\<lambda>r. \<not> future r) rows
      in (remaining, map (\<lambda>p.
            (let prev_row = max_by er_all_time_version
                   (filter (\<lambda>r. er_key r = (journal_id, p) \<and> er_effective r \<le> effective) rows)
             in (p, \<lparr> ed_account_id = fst p, ed_currency = snd p,
                      ed_last_snapshot = map_option (\<lambda>r. (er_effective r, row_details r)) prev_row,
                      ed_latest_all_time_version =
                        (case prev_row of None \<Rightarrow> 0 | Some r \<Rightarrow> word_of_int (er_all_time_version r)),
                      ed_updates = map (\<lambda>r. Snapshot (er_effective r) (row_details r))
                        (filter (\<lambda>r. er_key r = (journal_id, p)) deleted) \<rparr>))) pairs))"

definition find_for_update ::
  "membership_tables \<Rightarrow> 'd effective_row list \<Rightarrow> journal_id \<Rightarrow> (account_id \<times> currency) list \<Rightarrow> naive_date
     \<Rightarrow> 'd effective_row list \<times> ((account_id \<times> currency) \<times> 'd effective_balance_data) list" where
  "find_for_update mt rows journal_id ids effective =
     take_future rows journal_id (eligible_pairs False mt ids) effective"

definition find_ec_for_update ::
  "membership_tables \<Rightarrow> 'd effective_row list \<Rightarrow> journal_id \<Rightarrow> (account_id \<times> currency) list \<Rightarrow> naive_date
     \<Rightarrow> 'd effective_row list \<times> ((account_id \<times> currency) \<times> 'd effective_balance_data) list" where
  "find_ec_for_update mt rows journal_id ids effective =
     take_future rows journal_id (eligible_pairs True mt ids) effective"

definition effective_row_of :: "journal_id \<Rightarrow> 'd effective_balance_snapshot \<Rightarrow> 'd effective_row" where
  "effective_row_of journal_id balance =
     \<lparr> er_key = (journal_id, eb_account_id balance, eb_currency balance),
       er_effective = eb_effective balance, er_version = as_i32 (eb_version balance),
       er_all_time_version = as_i32 (eb_all_time_version balance),
       er_updated_at = eb_modified_at balance, er_values = balance \<rparr>"

text \<open>\<open>UNIQUE (journal_id, account_id, currency, effective, version)\<close>.\<close>

definition unique_effective :: "'d effective_row list \<Rightarrow> bool" where
  "unique_effective rows = distinct (map (\<lambda>r. (er_key r, er_effective r, er_version r)) rows)"

definition insert_effective_snapshots ::
  "'d effective_row list \<Rightarrow> journal_id \<Rightarrow> 'd effective_balance_snapshot list
     \<Rightarrow> balance_error + 'd effective_row list" where
  "insert_effective_snapshots rows journal_id new_balances =
     (let rows = rows @ map (effective_row_of journal_id) new_balances
      in if unique_effective rows then Inr rows else Inl Sqlx)"

definition push_post ::
  "naive_date \<Rightarrow> ((account_id \<times> currency) \<times> 'd effective_balance_data) list \<Rightarrow> account_id \<Rightarrow> 'd entry_values
     \<Rightarrow> ((account_id \<times> currency) \<times> 'd effective_balance_data) list" where
  "push_post effective all_data account_id entry =
     map (\<lambda>(k, data). if k = (account_id, e_currency entry)
                       then (k, push_update data effective entry) else (k, data)) all_data"

fun traverse :: "('a \<Rightarrow> 'b option) \<Rightarrow> 'a list \<Rightarrow> 'b list option" where
  "traverse f [] = Some []"
| "traverse f (x # xs) = Option.bind (f x) (\<lambda>y. map_option ((#) y) (traverse f xs))"

text \<open>The tail the two drivers share: recompute, flatten, insert. \<open>None\<close> is a panic.\<close>

definition write_back ::
  "'d::linordered_ab_group_add effective_row list \<Rightarrow> journal_id \<Rightarrow> date_time
     \<Rightarrow> ((account_id \<times> currency) \<times> 'd effective_balance_data) list
     \<Rightarrow> (balance_error + 'd effective_row list) option" where
  "write_back rows journal_id created_at all_data =
     Option.bind (traverse (\<lambda>(_, data). re_calculate_snapshots data created_at) all_data) (\<lambda>all_data.
       map_option (\<lambda>new. insert_effective_snapshots rows journal_id (concat new))
         (traverse (\<lambda>data. into_effective_snapshots data journal_id) all_data))"

definition update_cumulative_balances_in_op ::
  "membership_tables \<Rightarrow> 'd::linordered_ab_group_add effective_row list \<Rightarrow> journal_id \<Rightarrow> 'd entry_values list
     \<Rightarrow> naive_date \<Rightarrow> date_time \<Rightarrow> (account_id \<rightharpoonup> account_set_id list) \<Rightarrow> (account_id \<times> currency) list
     \<Rightarrow> (balance_error + 'd effective_row list) option" where
  "update_cumulative_balances_in_op mt rows journal_id entries effective created_at mappings balance_ids =
     (let (rows, all_data) = find_for_update mt rows journal_id balance_ids effective;
          all_data = foldl (\<lambda>all_data entry.
            foldl (\<lambda>all_data account_id. push_post effective all_data account_id entry) all_data
              (map account_of_set (get_list mappings (e_account_id entry)) @ [e_account_id entry]))
            all_data entries
      in write_back rows journal_id created_at all_data)"

definition effective_apply_ec_rollup_in_op ::
  "membership_tables \<Rightarrow> 'd::linordered_ab_group_add effective_row list \<Rightarrow> journal_id \<Rightarrow> 'd entry_values list
     \<Rightarrow> naive_date \<Rightarrow> date_time \<Rightarrow> (account_id \<rightharpoonup> account_set_id list) \<Rightarrow> (account_id \<times> currency) list
     \<Rightarrow> account_id set \<Rightarrow> (balance_error + 'd effective_row list) option" where
  "effective_apply_ec_rollup_in_op mt rows journal_id entries effective created_at ec_mappings balance_ids ec_leaves =
     (let (rows, all_data) = find_ec_for_update mt rows journal_id balance_ids effective;
          all_data = foldl (\<lambda>all_data entry.
            foldl (\<lambda>all_data account_id. push_post effective all_data account_id entry) all_data
              (map account_of_set (get_list ec_mappings (e_account_id entry)) @
               (if e_account_id entry \<in> ec_leaves then [e_account_id entry] else [])))
            all_data entries
      in write_back rows journal_id created_at all_data)"

end
