(* ===== verification/Effective_Correct.thy ===== *)
theory Effective_Correct imports Effective_Store begin

text \<open>
  What the rows of one key must be: the i-th row describes the first i entries of the key's
  entries in the order of effective dates. The lemmas follow \<open>re_calculate_snapshots\<close> through
  its two phases: the new entries extend the last balance, and every later row is shifted by
  the difference those entries make.
\<close>

section \<open>What a row says\<close>

type_synonym 'd dated = "naive_date \<times> 'd entry_values"

definition layer_entry :: "layer \<Rightarrow> 'd entry_values list \<Rightarrow> entry_id" where
  "layer_entry l es = foldl (\<lambda>i e. if e_layer e = l then e_id e else i) UNASSIGNED_ENTRY_ID es"

definition totals :: "'d::linordered_ab_group_add entry_values list \<Rightarrow> 'd balance_snapshot \<Rightarrow> bool" where
  "totals es b \<longleftrightarrow> (\<forall>l. ba_dr (layer_amount b l) = side_total Debit l es \<and>
                          ba_cr (layer_amount b l) = side_total Credit l es)"

definition layer_ids :: "'d entry_values list \<Rightarrow> 'd balance_snapshot \<Rightarrow> bool" where
  "layer_ids es b \<longleftrightarrow> (\<forall>l. ba_entry_id (layer_amount b l) = layer_entry l es)"

definition on_date :: "naive_date \<Rightarrow> 'd dated list \<Rightarrow> nat" where
  "on_date d P = length (filter (\<lambda>p. fst p = d) P)"

definition balance_shows :: "'d::linordered_ab_group_add dated list \<Rightarrow> 'd balance_snapshot \<Rightarrow> bool" where
  "balance_shows P b \<longleftrightarrow>
     bs_entry_id b = e_id (snd (last P)) \<and>
     bs_version b = of_nat (on_date (fst (last P)) P) \<and>
     totals (map snd P) b \<and> layer_ids (map snd P) b"

text \<open>\<open>R\<close> holds of every longer prefix and the element at its end.\<close>

fun along :: "('p list \<Rightarrow> 'b \<Rightarrow> bool) \<Rightarrow> 'p list \<Rightarrow> 'p list \<Rightarrow> 'b list \<Rightarrow> bool" where
  "along R P [] bs = (bs = [])"
| "along R P (f # F) bs = (case bs of [] \<Rightarrow> False | b # bs \<Rightarrow> R (P @ [f]) b \<and> along R (P @ [f]) F bs)"

lemma along_length: "along R P F bs \<Longrightarrow> length bs = length F"
  by (induction R P F bs rule: along.induct) (auto split: list.splits)

lemma along_append:
  "length bs = length F \<Longrightarrow> along R P (F @ G) (bs @ cs) \<longleftrightarrow> along R P F bs \<and> along R (P @ F) G cs"
proof (induction F arbitrary: P bs)
  case (Cons f F)
  then show ?case by (cases bs) auto
qed simp

lemma along_nth: "along R P F bs \<longleftrightarrow>
    length bs = length F \<and> (\<forall>i < length F. R (P @ take (Suc i) F) (bs ! i))"
proof (induction F arbitrary: P bs)
  case (Cons f F)
  show ?case
  proof (cases bs)
    case (Cons b bs')
    have "(\<forall>i < Suc n. Q i) \<longleftrightarrow> Q 0 \<and> (\<forall>i < n. Q (Suc i))" for n and Q :: "nat \<Rightarrow> bool"
      by (metis less_Suc_eq_0_disj)
    then show ?thesis using Cons.IH Cons by auto
  qed auto
qed auto

lemma along_last: "along R [] F bs \<Longrightarrow> F \<noteq> [] \<Longrightarrow> R F (last bs)"
proof -
  assume al: "along R [] F bs" and ne: "F \<noteq> []"
  then have "length bs = length F" "bs \<noteq> []" using along_length[OF al] by auto
  moreover have "R (take (Suc n) F) (bs ! n)" if "n < length F" for n
    using al that by (simp add: along_nth)
  from this[of "length F - 1"] ne have "R F (bs ! (length F - 1))" by simp
  ultimately show "R F (last bs)" using ne by (simp add: last_conv_nth)
qed

lemma along_mono: "along R P F bs \<Longrightarrow> (\<And>P b. R P b \<Longrightarrow> S P b) \<Longrightarrow> along S P F bs"
  by (auto simp: along_nth)

section \<open>One entry\<close>

lemma layer_entry_simps [simp]:
  "layer_entry l [] = UNASSIGNED_ENTRY_ID"
  "layer_entry l (es @ [e]) = (if e_layer e = l then e_id e else layer_entry l es)"
  by (simp_all add: layer_entry_def)

lemma layer_entry_in: "layer_entry l es \<in> insert UNASSIGNED_ENTRY_ID (e_id ` set es)"
  by (induction es rule: rev_induct) auto

lemma on_date_simps [simp]:
  "on_date d [] = 0"
  "on_date d (P @ Q) = on_date d P + on_date d Q"
  "on_date d (p # P) = (if fst p = d then 1 else 0) + on_date d P"
  "on_date d (map (Pair d') es) = (if d' = d then length es else 0)"
  by (simp_all add: on_date_def)

lemma on_date_0: "(\<And>p. p \<in> set P \<Longrightarrow> fst p \<noteq> d) \<Longrightarrow> on_date d P = 0"
  by (auto simp: on_date_def filter_empty_conv)

lemma totals_update: "totals es b \<Longrightarrow> totals (es @ [e]) (update_snapshot t b e)"
  by (auto simp: totals_def update_snapshot_amount simp del: all_layer)

lemma layer_ids_update: "layer_ids es b \<Longrightarrow> layer_ids (es @ [e]) (update_snapshot t b e)"
  by (auto simp: layer_ids_def update_snapshot_amount simp del: all_layer)

lemma layer_amount_version [simp]: "layer_amount (b \<lparr> bs_version := v \<rparr>) l = layer_amount b l"
  by (cases l) simp_all

lemma totals_version [simp]: "totals es (b \<lparr> bs_version := v \<rparr>) = totals es b"
  by (simp add: totals_def del: all_layer)

lemma layer_ids_version [simp]: "layer_ids es (b \<lparr> bs_version := v \<rparr>) = layer_ids es b"
  by (simp add: layer_ids_def del: all_layer)

lemma first_snapshot_shows:
  "totals [] (first_snapshot t a e)" "layer_ids [] (first_snapshot t a e)"
  "bs_version (first_snapshot t a e) = 0"
  by (simp_all add: totals_def layer_ids_def first_snapshot_def zero_amount_def Let_def)

lemma start_diff_shows:
  assumes "layer_ids es lb"
  shows "totals [] (start_diff t a lb e)" and "layer_ids es (start_diff t a lb e)"
  using assms by (simp_all add: totals_def layer_ids_def start_diff_def first_snapshot_def
      zero_amount_def set_entry_def Let_def)

section \<open>The new entries\<close>

definition diff_shows ::
  "'d::linordered_ab_group_add entry_values list \<Rightarrow> 'd entry_values list \<Rightarrow> 'd balance_snapshot option \<Rightarrow> bool" where
  "diff_shows E es diff \<longleftrightarrow> (case diff of None \<Rightarrow> E = [] | Some D \<Rightarrow> totals E D \<and> layer_ids es D)"

lemma diff_shows_next:
  assumes "diff_shows E es diff" and "layer_ids (es @ [e]) lb"
  shows "diff_shows (E @ [e]) (es @ [e]) (Some (case diff of
      Some d \<Rightarrow> update_snapshot t d e
    | None \<Rightarrow> update_snapshot t (start_diff t a lb e) e))"
proof (cases diff)
  case None
  have "layer_entry l ((es @ [e]) @ [e]) = layer_entry l (es @ [e])" for l
    by (simp only: layer_entry_simps) simp
  then have "layer_ids ((es @ [e]) @ [e]) b \<Longrightarrow> layer_ids (es @ [e]) b" for b :: "'a balance_snapshot"
    unfolding layer_ids_def by metis
  moreover have "E = []" using None assms(1) by (simp add: diff_shows_def)
  ultimately show ?thesis
    using None start_diff_shows[OF assms(2), of t a e] totals_update[of "[]" _ e t] layer_ids_update[of "es @ [e]" _ e t]
    by (simp add: diff_shows_def)
next
  case (Some d)
  then show ?thesis using assms by (simp add: diff_shows_def totals_update layer_ids_update)
qed

lemma recalc_entries:
  assumes "totals (map snd P) (snd prev)" and "layer_ids (map snd P) (snd prev)"
    and "(if fst prev \<noteq> d then 0 else bs_version (snd prev)) = of_nat (on_date d P)"
    and "diff_shows E (map snd P) diff"
  shows "\<exists>outs prev' diff'.
    recalc_loop t a prev diff (map (Entry d) es @ rest) =
      map_option (\<lambda>us. map (Snapshot d) outs @ us) (recalc_loop t a prev' diff' rest) \<and>
    along balance_shows P (map (Pair d) es) outs \<and>
    diff_shows (E @ es) (map snd P @ es) diff' \<and> (es \<noteq> [] \<longrightarrow> diff' \<noteq> None)"
  using assms
proof (induction es arbitrary: P prev diff E)
  case Nil
  then show ?case by (intro exI[of _ "[]"] exI[of _ prev] exI[of _ diff]) (simp add: option.map_ident)
next
  case (Cons e es)
  define lb where "lb = update_snapshot t
    (if fst prev \<noteq> d then (snd prev) \<lparr> bs_version := 0 \<rparr> else snd prev) e"
  define D where "D = (case diff of
      Some x \<Rightarrow> update_snapshot t x e
    | None \<Rightarrow> update_snapshot t (start_diff t a lb e) e)"
  have lb: "totals (map snd (P @ [(d, e)])) lb" "layer_ids (map snd (P @ [(d, e)])) lb"
      "bs_version lb = of_nat (on_date d (P @ [(d, e)]))" "bs_entry_id lb = e_id e"
    using Cons.prems(1-3)
    by (auto simp: lb_def totals_update layer_ids_update split: if_splits)
  have shows_lb: "balance_shows (P @ [(d, e)]) lb" using lb by (simp add: balance_shows_def)
  have D: "diff_shows (E @ [e]) (map snd (P @ [(d, e)])) (Some D)"
    unfolding D_def using diff_shows_next[OF Cons.prems(4)] lb(2) by simp
  obtain outs prev' diff' where IH:
    "recalc_loop t a (d, lb) (Some D) (map (Entry d) es @ rest) =
      map_option (\<lambda>us. map (Snapshot d) outs @ us) (recalc_loop t a prev' diff' rest)"
    "along balance_shows (P @ [(d, e)]) (map (Pair d) es) outs"
    "diff_shows ((E @ [e]) @ es) (map snd (P @ [(d, e)]) @ es) diff'" "es \<noteq> [] \<longrightarrow> diff' \<noteq> None"
    using Cons.IH[of "P @ [(d, e)]" "(d, lb)" "E @ [e]" "Some D"] lb D by auto
  have "es = [] \<Longrightarrow> diff' \<noteq> None" using IH(3) by (cases diff') (simp_all add: diff_shows_def)
  moreover have "recalc_loop t a prev diff (map (Entry d) (e # es) @ rest) =
      map_option (\<lambda>us. map (Snapshot d) (lb # outs) @ us) (recalc_loop t a prev' diff' rest)"
    by (simp only: list.map append_Cons recalc_loop.simps effective_of.simps snapshot_or_entry.case Let_def
        lb_def[symmetric] D_def[symmetric] IH(1) option.map_comp comp_def)
  ultimately show ?case using IH shows_lb
    by (intro exI[of _ "lb # outs"] exI[of _ prev'] exI[of _ diff']) auto
qed

section \<open>The later rows\<close>

definition own_layer :: "layer \<Rightarrow> 'd balance_snapshot \<Rightarrow> 'd balance_snapshot \<Rightarrow> bool" where
  "own_layer l diff values \<longleftrightarrow> ba_entry_id (layer_amount values l) = bs_entry_id values \<and>
     (\<forall>k. k \<noteq> l \<longrightarrow> ba_entry_id (layer_amount values k) \<noteq> bs_entry_id values \<and>
       ba_entry_id (layer_amount diff k) \<noteq> bs_entry_id values)"

lemma add_diff_sel [simp]:
  "ba_dr (add_diff t d a) = ba_dr a + ba_dr d"
  "ba_cr (add_diff t d a) = ba_cr a + ba_cr d"
  "ba_entry_id (add_diff t d a) = ba_entry_id a"
  by (simp_all add: add_diff_def)

lemma set_entry_sel [simp]:
  "ba_dr (set_entry a e) = ba_dr a" "ba_cr (set_entry a e) = ba_cr a" "ba_entry_id (set_entry a e) = e"
  by (simp_all add: set_entry_def)

lemma rewrite_snapshot_amounts:
  assumes "own_layer l diff values" and "rewrite_snapshot t diff values = (diff', values')"
  shows "bs_entry_id values' = bs_entry_id values" and "bs_version values' = bs_version values"
    and "ba_dr (layer_amount values' k) = ba_dr (layer_amount values k) + ba_dr (layer_amount diff k)"
    and "ba_cr (layer_amount values' k) = ba_cr (layer_amount values k) + ba_cr (layer_amount diff k)"
    and "ba_entry_id (layer_amount values' k) =
      (if k = l then bs_entry_id values else ba_entry_id (layer_amount diff k))"
    and "ba_dr (layer_amount diff' k) = ba_dr (layer_amount diff k)"
    and "ba_cr (layer_amount diff' k) = ba_cr (layer_amount diff k)"
    and "ba_entry_id (layer_amount diff' k) =
      (if k = l then bs_entry_id values else ba_entry_id (layer_amount diff k))"
  using assms by (cases l; cases k; force simp: own_layer_def rewrite_snapshot_def Let_def)+

definition dated_ids :: "'d dated list \<Rightarrow> entry_id set" where
  "dated_ids P = (\<lambda>p. e_id (snd p)) ` set P"

lemma dated_ids_append: "dated_ids (A @ B) = dated_ids A \<union> dated_ids B"
  by (auto simp: dated_ids_def)

lemma distinct_dated:
  "distinct (map (\<lambda>p. e_id (snd p)) (A @ B)) \<longleftrightarrow> distinct (map (\<lambda>p. e_id (snd p)) A) \<and>
     distinct (map (\<lambda>p. e_id (snd p)) B) \<and> dated_ids A \<inter> dated_ids B = {}"
  by (simp add: dated_ids_def)

text \<open>\<open>D\<close> is what the new entries of \<open>N\<close> add to \<open>old\<close>.\<close>

definition shift :: "'d::linordered_ab_group_add dated list \<Rightarrow> 'd dated list \<Rightarrow> 'd balance_snapshot \<Rightarrow> bool" where
  "shift old N D \<longleftrightarrow> layer_ids (map snd N) D \<and>
     (\<forall>l. side_total Debit l (map snd N) = side_total Debit l (map snd old) + ba_dr (layer_amount D l) \<and>
          side_total Credit l (map snd N) = side_total Credit l (map snd old) + ba_cr (layer_amount D l))"

lemma shiftD:
  assumes "shift old N D"
  shows "ba_entry_id (layer_amount D l) = layer_entry l (map snd N)"
    and "side_total Debit l (map snd N) = side_total Debit l (map snd old) + ba_dr (layer_amount D l)"
    and "side_total Credit l (map snd N) = side_total Credit l (map snd old) + ba_cr (layer_amount D l)"
  using assms unfolding shift_def layer_ids_def by blast+

lemma balance_showsD:
  assumes "balance_shows P b"
  shows "bs_entry_id b = e_id (snd (last P))" and "bs_version b = of_nat (on_date (fst (last P)) P)"
    and "ba_dr (layer_amount b l) = side_total Debit l (map snd P)"
    and "ba_cr (layer_amount b l) = side_total Credit l (map snd P)"
    and "ba_entry_id (layer_amount b l) = layer_entry l (map snd P)"
  using assms unfolding balance_shows_def totals_def layer_ids_def by blast+

lemma layer_entry_dated: "layer_entry l (map snd P) \<in> insert UNASSIGNED_ENTRY_ID (dated_ids P)"
  using layer_entry_in[of l "map snd P"] by (simp add: dated_ids_def image_image)

lemma rewrite_shows:
  assumes b: "balance_shows (old @ [f]) b" and D: "shift old N D"
    and date: "on_date (fst f) N = on_date (fst f) old"
    and fresh: "e_id (snd f) \<notin> insert UNASSIGNED_ENTRY_ID (dated_ids old \<union> dated_ids N)"
    and rw: "rewrite_snapshot t D b = (D', b')"
  shows "balance_shows (N @ [f]) b'" and "shift (old @ [f]) (N @ [f]) D'"
proof -
  have id: "bs_entry_id b = e_id (snd f)" using balance_showsD(1)[OF b] by simp
  have "layer_entry k (map snd old) \<noteq> e_id (snd f)" "layer_entry k (map snd N) \<noteq> e_id (snd f)" for k
    using fresh layer_entry_dated[of k old] layer_entry_dated[of k N] by auto
  then have "own_layer (e_layer (snd f)) D b"
    unfolding own_layer_def id balance_showsD(5)[OF b] shiftD(1)[OF D] by (simp del: all_layer)
  note r = rewrite_snapshot_amounts[OF this rw]
  show "balance_shows (N @ [f]) b'"
    unfolding balance_shows_def totals_def layer_ids_def r
    using balance_showsD[OF b] shiftD[OF D] date by (simp add: add.assoc add.commute add.left_commute del: all_layer)
  show "shift (old @ [f]) (N @ [f]) D'"
    unfolding shift_def layer_ids_def r
    using balance_showsD[OF b] shiftD[OF D] id by (simp add: add.assoc add.commute add.left_commute del: all_layer)
qed

lemma recalc_snapshots:
  assumes "along balance_shows old F bs" and "shift old N D"
    and "\<And>f. f \<in> set F \<Longrightarrow> on_date (fst f) N = on_date (fst f) old"
    and "distinct (map (\<lambda>p. e_id (snd p)) F)"
    and "dated_ids F \<inter> insert UNASSIGNED_ENTRY_ID (dated_ids old \<union> dated_ids N) = {}"
  shows "\<exists>outs. recalc_loop t a prev (Some D) (map2 Snapshot (map fst F) bs) =
      Some (map2 Snapshot (map fst F) outs) \<and> along balance_shows N F outs"
  using assms
proof (induction F arbitrary: old N D bs prev)
  case Nil
  then show ?case by auto
next
  case (Cons f F)
  obtain b bs' where bs: "bs = b # bs'" "balance_shows (old @ [f]) b" "along balance_shows (old @ [f]) F bs'"
    using Cons.prems(1) by (auto split: list.splits)
  obtain D' b' where rw: "rewrite_snapshot t D b = (D', b')" by fastforce
  have "e_id (snd f) \<notin> insert UNASSIGNED_ENTRY_ID (dated_ids old \<union> dated_ids N)"
    using Cons.prems(5) by (auto simp: dated_ids_def)
  note step = rewrite_shows[OF bs(2) Cons.prems(2) _ this rw]
  have "e_id (snd f) \<notin> dated_ids F" using Cons.prems(4) by (simp add: dated_ids_def)
  moreover have "dated_ids (P @ [f]) = insert (e_id (snd f)) (dated_ids P)" for P
    by (simp add: dated_ids_def)
  ultimately have "dated_ids F \<inter> insert UNASSIGNED_ENTRY_ID (dated_ids (old @ [f]) \<union> dated_ids (N @ [f])) = {}"
    using Cons.prems(5) by (auto simp: dated_ids_def)
  moreover have "on_date (fst g) (N @ [f]) = on_date (fst g) (old @ [f])" if "g \<in> set F" for g
    using Cons.prems(3)[of g] that by simp
  moreover have "distinct (map (\<lambda>p. e_id (snd p)) F)" using Cons.prems(4) by simp
  moreover have date: "on_date (fst f) N = on_date (fst f) old" using Cons.prems(3)[of f] by simp
  ultimately obtain outs where outs: "along balance_shows (N @ [f]) F outs"
    "recalc_loop t a (fst f, if fst prev \<noteq> fst f then (snd prev) \<lparr> bs_version := 0 \<rparr> else snd prev) (Some D')
       (map2 Snapshot (map fst F) bs') = Some (map2 Snapshot (map fst F) outs)"
    using Cons.IH[OF bs(3) step(2)[OF date]] by blast
  have "recalc_loop t a prev (Some D) (map2 Snapshot (map fst (f # F)) (b # bs')) =
      Some (map2 Snapshot (map fst (f # F)) (b' # outs))"
    by (simp only: list.map zip_Cons_Cons prod.case recalc_loop.simps effective_of.simps
        snapshot_or_entry.case Let_def option.case rw outs(2) option.map)
  moreover have "along balance_shows N (f # F) (b' # outs)"
    using step(1)[OF date] outs(1) by simp
  ultimately show ?case unfolding bs(1) by blast
qed

section \<open>Order of the rows\<close>

lemma sort_key_append_less:
  assumes "\<And>x y. x \<in> set xs \<Longrightarrow> y \<in> set ys \<Longrightarrow> f y < f x"
  shows "sort_key f (xs @ ys) = sort_key f ys @ sort_key f xs"
proof (rule properties_for_sort_key)
  show "mset (sort_key f ys @ sort_key f xs) = mset (xs @ ys)" by simp
  show "sorted (map f (sort_key f ys @ sort_key f xs))"
    using assms by (auto simp: sorted_append less_imp_le)
  fix k assume "k \<in> set (sort_key f ys @ sort_key f xs)"
  then have "filter (\<lambda>x. f k = f x) xs = [] \<or> filter (\<lambda>x. f k = f x) ys = []"
    using assms by (fastforce simp: filter_empty_conv)
  moreover have "filter (\<lambda>x. f k = f x) (sort_key f zs) = filter (\<lambda>x. f k = f x) zs" for zs
    using sort_key_stable[of f "f k" zs] by (simp add: eq_commute)
  ultimately show "filter (\<lambda>x. f k = f x) (sort_key f ys @ sort_key f xs) = filter (\<lambda>x. f k = f x) (xs @ ys)"
    by auto
qed

lemma sort_key_cong_less:
  assumes "\<And>x y. f x \<le> f y \<longleftrightarrow> g x \<le> g y"
  shows "sort_key f xs = sort_key g xs"
proof -
  have "insort_key f x ys = insort_key g x ys" for x ys
    by (induction ys) (auto simp: assms)
  then show ?thesis by (induction xs) (auto simp: sort_key_def)
qed

lemma sort_key_unique:
  assumes "mset us = mset vs" and "sorted_wrt (\<lambda>x y. f x < f y) vs"
  shows "sort_key f us = vs"
proof -
  have "sorted_wrt (<) (map f vs)" using assms(2) by (simp add: sorted_wrt_map)
  then have "sorted (map f vs)" and "distinct (map f vs)" by (simp_all add: strict_sorted_iff)
  then have "inj_on f (set vs)" by (simp add: distinct_map)
  then show ?thesis
    using sort_key_inj_key_eq[of us vs f] assms(1) \<open>sorted (map f vs)\<close> mset_eq_setD[OF assms(1)] by simp
qed

definition mark :: "'d dated list \<Rightarrow> naive_date \<times> nat" where
  "mark P = (fst (last P), on_date (fst (last P)) P)"

lemma mark_less:
  assumes "sorted (map fst X)" and "i < j" and "j < length X"
  shows "mark (take (Suc i) X) < mark (take (Suc j) X)"
proof -
  have last_take: "k < length X \<Longrightarrow> last (take (Suc k) X) = X ! k" for k
    by (simp add: take_Suc_conv_app_nth)
  have le: "fst (X ! i) \<le> fst (X ! j)"
    using assms sorted_nth_mono[of "map fst X" i j] by simp
  have "take (Suc j) X = take j X @ [X ! j]" using assms(3) by (simp add: take_Suc_conv_app_nth)
  moreover have "take j X = take (Suc i) X @ take (j - Suc i) (drop (Suc i) X)"
    using assms(2) take_add[of "Suc i" "j - Suc i" X] by simp
  ultimately have "on_date (fst (X ! j)) (take (Suc i) X) < on_date (fst (X ! j)) (take (Suc j) X)" by simp
  with le assms show ?thesis
    by (auto simp: mark_def last_take less_prod_def le_less)
qed

lemma on_date_le: "on_date d P \<le> length P"
  by (simp add: on_date_def)

lemma along_strict:
  assumes "along R P F bs" and "sorted (map fst (P @ F))"
    and "\<And>Q b. R Q b \<Longrightarrow> key b = (fst (mark Q), conv (snd (mark Q)))"
    and "\<And>m n. m < n \<Longrightarrow> n \<le> length (P @ F) \<Longrightarrow> conv m < conv n"
  shows "sorted_wrt (\<lambda>x y. key x < key y) bs"
proof -
  have "key (bs ! i) < key (bs ! j)" if "i < j" "j < length bs" for i j
  proof -
    have len: "length bs = length F" using assms(1) by (simp add: along_length)
    have R: "R (take (Suc (length P + k)) (P @ F)) (bs ! k)" if "k < length bs" for k
    proof -
      have "take (Suc (length P + k)) (P @ F) = P @ take (Suc k) F" by simp
      then show ?thesis using assms(1) that by (simp add: along_nth len)
    qed
    let ?m = "\<lambda>k. mark (take (Suc (length P + k)) (P @ F))"
    have "?m i < ?m j" using that len by (intro mark_less assms(2)) simp_all
    then have "fst (?m i) < fst (?m j) \<or> fst (?m i) = fst (?m j) \<and> snd (?m i) < snd (?m j)"
      by (cases "?m i"; cases "?m j") (auto simp: less_prod_def le_less)
    moreover have "snd (?m j) \<le> length (take (Suc (length P + j)) (P @ F))"
      unfolding mark_def snd_conv by (rule on_date_le)
    then have "snd (?m j) \<le> length (P @ F)" by (rule le_trans) simp
    then have "snd (?m i) < snd (?m j) \<Longrightarrow> conv (snd (?m i)) < conv (snd (?m j))" by (rule assms(4)[rotated])
    ultimately show ?thesis
      unfolding assms(3)[OF R[OF less_trans[OF that]]] assms(3)[OF R[OF that(2)]] less_prod_def by auto
  qed
  then show ?thesis by (simp add: sorted_wrt_iff_nth_less)
qed

lemma of_nat_u32_less: "m < n \<Longrightarrow> n \<le> N \<Longrightarrow> N < 2 ^ 32 \<Longrightarrow> (of_nat m :: u32) < of_nat n"
  by (simp add: word_less_nat_alt unat_of_nat take_bit_eq_mod)

lemma snapshots_strict:
  assumes "along balance_shows P F bs" and "sorted (map fst (P @ F))" and "length (P @ F) < 2 ^ 32"
  shows "sorted_wrt (\<lambda>x y. order_of x < order_of y) (map2 Snapshot (map fst F) bs)"
proof -
  have "along (\<lambda>Q u. order_of u = (fst (mark Q), of_nat (snd (mark Q)))) P F (map2 Snapshot (map fst F) bs)"
    using along_length[OF assms(1)] assms(1)
    by (auto simp: along_nth mark_def balance_shows_def take_Suc_conv_app_nth)
  from along_strict[OF this assms(2), of order_of of_nat] show ?thesis
    using of_nat_u32_less[OF _ _ assms(3)] by blast
qed

section \<open>Recomputing one key\<close>

lemma sort_new_entries:
  "sort_key order_of (map (Entry d) es) = map (Entry d) (sort_key e_sequence es)"
proof -
  have "sort_key (order_of \<circ> Entry d) es = sort_key e_sequence es"
    by (rule sort_key_cong_less) (simp add: less_eq_prod_def)
  then show ?thesis by (simp add: sort_key_map)
qed

lemma sort_updates_split:
  assumes "mset us = mset (map2 Snapshot (map fst F) bs)" and "length bs = length F"
    and "\<And>f. f \<in> set F \<Longrightarrow> d < fst f"
    and "sorted_wrt (\<lambda>x y. order_of x < order_of y) (map2 Snapshot (map fst F) bs)"
  shows "sort_updates (us @ map (Entry d) es) =
    Some (map (Entry d) (sort_key e_sequence es) @ map2 Snapshot (map fst F) bs)"
proof -
  have set_us: "set us = set (map2 Snapshot (map fst F) bs)" by (rule mset_eq_setD[OF assms(1)])
  have us: "\<exists>f b. f \<in> set F \<and> u = Snapshot (fst f) b" if u: "u \<in> set us" for u
  proof -
    from u obtain n where "n < length F" "u = Snapshot (fst (F ! n)) (bs ! n)"
      unfolding set_us by (auto simp: in_set_zip)
    then show ?thesis by (intro exI[of _ "F ! n"] exI[of _ "bs ! n"]) simp
  qed
  have "\<not> (\<exists>u \<in> set (us @ map (Entry d) es). \<exists>v \<in> set (us @ map (Entry d) es).
      is_entry u \<and> \<not> is_entry v \<and> effective_of u = effective_of v)"
    using us assms(3) by fastforce
  moreover have "sort_key order_of (us @ map (Entry d) es) =
      sort_key order_of (map (Entry d) es) @ sort_key order_of us"
  proof (rule sort_key_append_less)
    fix x y assume "x \<in> set us" "y \<in> set (map (Entry d) es)"
    then show "order_of y < order_of x" using us[of x] assms(3) by (auto simp: less_prod_def)
  qed
  ultimately show ?thesis
    using sort_key_unique[OF assms(1,4)] by (simp add: sort_updates_def sort_new_entries)
qed

text \<open>The loop over the sorted updates: the new entries \<open>E\<close>, then the later rows.\<close>

lemma recalc_all:
  assumes prev: "totals (map snd P) (snd prev)" "layer_ids (map snd P) (snd prev)"
      "(if fst prev \<noteq> d then 0 else bs_version (snd prev)) = of_nat (on_date d P)"
    and F: "\<And>f. f \<in> set F \<Longrightarrow> d < fst f" "along balance_shows P F bs"
    and ids: "distinct (map (\<lambda>p. e_id (snd p)) (P @ map (Pair d) E @ F))"
      "UNASSIGNED_ENTRY_ID \<notin> dated_ids F"
    and E: "E \<noteq> []"
  shows "\<exists>outs. recalc_loop t a prev None (map (Entry d) E @ map2 Snapshot (map fst F) bs) =
      Some (map2 Snapshot (map fst (map (Pair d) E @ F)) outs) \<and>
    along balance_shows P (map (Pair d) E @ F) outs"
proof -
  have "diff_shows [] (map snd P) None" by (simp add: diff_shows_def)
  then obtain outs prev' diff where new:
    "recalc_loop t a prev None (map (Entry d) E @ map2 Snapshot (map fst F) bs) =
      map_option (\<lambda>us. map (Snapshot d) outs @ us)
        (recalc_loop t a prev' diff (map2 Snapshot (map fst F) bs))"
    "along balance_shows P (map (Pair d) E) outs"
    "diff_shows E (map snd P @ E) diff" "diff \<noteq> None"
    using recalc_entries[OF prev, of "[]" None t a E "map2 Snapshot (map fst F) bs"] E
    unfolding append_Nil by blast
  then obtain D where D: "diff = Some D" "totals E D" "layer_ids (map snd P @ E) D"
    by (auto simp: diff_shows_def)
  define N where "N = P @ map (Pair d) E"
  have "shift P N D" using D by (simp add: shift_def totals_def N_def comp_def)
  moreover have "on_date (fst f) N = on_date (fst f) P" if "f \<in> set F" for f
    using F(1)[OF that] by (auto simp: N_def)
  moreover have "dated_ids F \<inter> insert UNASSIGNED_ENTRY_ID (dated_ids P \<union> dated_ids N) = {}"
    using ids(2) ids(1)[unfolded distinct_dated] unfolding N_def dated_ids_append by blast
  moreover have "distinct (map (\<lambda>p. e_id (snd p)) F)" using ids(1) by simp
  ultimately obtain outs' where later:
    "recalc_loop t a prev' (Some D) (map2 Snapshot (map fst F) bs) = Some (map2 Snapshot (map fst F) outs')"
    "along balance_shows N F outs'"
    using recalc_snapshots[OF F(2)] by blast
  have len_outs: "length outs = length E" using along_length[OF new(2)] by simp
  then have "map (Snapshot d) outs = map2 Snapshot (map fst (map (Pair d) E)) outs"
    by (simp add: comp_def map_replicate_const zip_replicate1)
  with len_outs have "map (Snapshot d) outs @ map2 Snapshot (map fst F) outs' =
      map2 Snapshot (map fst (map (Pair d) E @ F)) (outs @ outs')" by simp
  moreover have "along balance_shows P (map (Pair d) E @ F) (outs @ outs')"
    using new(2) later(2) len_outs by (simp add: along_append N_def)
  ultimately show ?thesis
    unfolding new(1) D(1) later(1) by (intro exI[of _ "outs @ outs'"]) simp
qed

lemma on_date_last:
  assumes "sorted (map fst P)" and "\<And>p. p \<in> set P \<Longrightarrow> fst p \<le> d" and "P \<noteq> []" and "fst (last P) \<noteq> d"
  shows "on_date d P = 0"
proof (rule on_date_0)
  fix p assume p: "p \<in> set P"
  have "fst p \<le> fst (last P)"
    using p assms(1) by (induction P rule: rev_induct) (auto simp: sorted_append)
  moreover have "fst (last P) < d" using assms(2)[of "last P"] assms(3,4) by simp
  ultimately show "fst p \<noteq> d" by simp
qed

lemma recalculate:
  assumes P: "\<And>p. p \<in> set P \<Longrightarrow> fst p \<le> d" "sorted (map fst P)" "P \<noteq> [] \<Longrightarrow> balance_shows P lb"
    and F: "\<And>f. f \<in> set F \<Longrightarrow> d < fst f" "sorted (map fst F)" "along balance_shows P F bs"
    and len: "length (P @ F) < 2 ^ 32"
    and ids: "distinct (map (\<lambda>p. e_id (snd p)) (P @ map (Pair d) (sort_key e_sequence es) @ F))"
      "UNASSIGNED_ENTRY_ID \<notin> dated_ids F"
    and es: "es \<noteq> []"
    and data: "ed_last_snapshot data = (if P = [] then None else Some (fst (last P), lb))"
      "ed_updates data = us @ map (Entry d) es" "mset us = mset (map2 Snapshot (map fst F) bs)"
  shows "\<exists>outs. re_calculate_snapshots data t =
      Some (data \<lparr> ed_updates := map2 Snapshot (map fst (map (Pair d) (sort_key e_sequence es) @ F)) outs,
                   ed_last_snapshot := None \<rparr>) \<and>
    along balance_shows P (map (Pair d) (sort_key e_sequence es) @ F) outs"
proof -
  define E where "E = sort_key e_sequence es"
  have "set E = set es" by (simp add: E_def)
  then have E: "E \<noteq> []" using es by (metis set_empty)
  have sorted_PF: "sorted (map fst (P @ F))" using P(1,2) F(1,2) by (force simp: sorted_append)
  have sort: "sort_updates (ed_updates data) = Some (map (Entry d) E @ map2 Snapshot (map fst F) bs)"
    unfolding data(2) E_def
    by (rule sort_updates_split[OF data(3) along_length[OF F(3)] F(1) snapshots_strict[OF F(3) sorted_PF len]])
  define prev where "prev = (if P = [] then (d, first_snapshot t (ed_account_id data) (hd E)) else (fst (last P), lb))"
  have start: "re_calculate_snapshots data t =
      map_option (\<lambda>us. data \<lparr> ed_updates := us, ed_last_snapshot := None \<rparr>)
        (recalc_loop t (ed_account_id data) prev None (map (Entry d) E @ map2 Snapshot (map fst F) bs))"
    using es E data(1,2) unfolding re_calculate_snapshots_def sort
    by (cases E) (auto simp: prev_def)
  have "totals (map snd P) (snd prev)" "layer_ids (map snd P) (snd prev)"
    "(if fst prev \<noteq> d then 0 else bs_version (snd prev)) = of_nat (on_date d P)"
    using P(3) on_date_last[OF P(2,1)] first_snapshot_shows[of t "ed_account_id data" "hd E"]
    by (auto simp: prev_def balance_shows_def)
  from recalc_all[OF this F(1,3) ids[folded E_def] E, of t "ed_account_id data"]
  show ?thesis unfolding start E_def[symmetric] by auto
qed

end
