(* ===== verification/Effective_Table.thy ===== *)
theory Effective_Table imports Effective_Correct begin

text \<open>
  The effective-balance table as a picture of a ledger: for every key the entries in the order of
  their effective dates, and for every prefix of them the row that describes it. Posting on a
  past date, which the code does by rewriting rows, is insertion into the ledger.
\<close>

section \<open>The table and its ledger\<close>

type_synonym 'd ledger = "balance_id \<Rightarrow> 'd dated list"

definition row_shows :: "balance_id \<Rightarrow> 'd::linordered_ab_group_add dated list \<Rightarrow> 'd effective_row \<Rightarrow> bool" where
  "row_shows k P r \<longleftrightarrow>
     er_key r = k \<and> snapshot_id (row_details r) = k \<and>
     er_effective r = fst (mark P) \<and> er_version r = int (snd (mark P)) \<and>
     er_all_time_version r = int (length P) \<and> balance_shows P (row_details r)"

definition key_rows :: "balance_id \<Rightarrow> 'd effective_row list \<Rightarrow> 'd effective_row list" where
  "key_rows k rows = sort_key er_all_time_version (filter (\<lambda>r. er_key r = k) rows)"

definition represents :: "'d::linordered_ab_group_add effective_row list \<Rightarrow> 'd ledger \<Rightarrow> bool" where
  "represents rows ledger \<longleftrightarrow> (\<forall>k. along (row_shows k) [] (ledger k) (key_rows k rows))"

definition ledger_ok :: "'d dated list \<Rightarrow> bool" where
  "ledger_ok P \<longleftrightarrow> sorted (map fst P) \<and> distinct (map (\<lambda>p. e_id (snd p)) P) \<and>
     UNASSIGNED_ENTRY_ID \<notin> dated_ids P \<and> length P < 2 ^ 31"

definition upto_date :: "naive_date \<Rightarrow> 'd dated list \<Rightarrow> 'd dated list" where
  "upto_date d P = filter (\<lambda>p. fst p \<le> d) P"

definition after_date :: "naive_date \<Rightarrow> 'd dated list \<Rightarrow> 'd dated list" where
  "after_date d P = filter (\<lambda>p. d < fst p) P"

definition insert_dated :: "naive_date \<Rightarrow> 'd entry_values list \<Rightarrow> 'd dated list \<Rightarrow> 'd dated list" where
  "insert_dated d es P = upto_date d P @ map (Pair d) es @ after_date d P"

section \<open>Greatest rows\<close>

lemma max_by_None [simp]: "max_by f xs = None \<longleftrightarrow> xs = []"
  by (cases xs) (auto split: option.splits)

lemma max_by_in: "max_by f xs = Some x \<Longrightarrow> x \<in> set xs"
  by (induction xs arbitrary: x) (auto split: option.splits if_splits)

lemma max_by_max: "max_by f xs = Some x \<Longrightarrow> y \<in> set xs \<Longrightarrow> f y \<le> f x"
proof (induction xs arbitrary: x)
  case (Cons z zs)
  then show ?case
    by (cases "max_by f zs") (auto split: if_splits intro: order_trans less_imp_le)
qed simp

lemma max_by_strict:
  assumes "mset xs = mset ys" and "sorted_wrt (\<lambda>x y. f x < f y) ys"
  shows "max_by f xs = (if ys = [] then None else Some (last ys))"
proof -
  have sets: "set xs = set ys" by (rule mset_eq_setD[OF assms(1)])
  show ?thesis
  proof (cases "ys = []")
    case False
    then obtain z where z: "max_by f xs = Some z" using sets by (cases "max_by f xs") auto
    have top: "f y < f (last ys)" if "y \<in> set ys" "y \<noteq> last ys" for y
      using that assms(2) by (induction ys rule: rev_induct) (auto simp: sorted_wrt_append)
    have "f (last ys) \<le> f z" "z \<in> set ys" using max_by_max[OF z] max_by_in[OF z] False sets by auto
    then have "z = last ys" using top[of z] by (auto simp: not_less[symmetric])
    then show ?thesis using z False by simp
  qed (use assms(1) in simp)
qed

lemma split_by_date:
  assumes "sorted (map fst P)"
  shows "upto_date d P @ after_date d P = P"
  using assms
proof (induction P)
  case (Cons p P)
  then show ?case
  proof (cases "fst p \<le> d")
    case False
    then have "\<forall>x \<in> set (p # P). d < fst x" using Cons.prems by (auto simp: not_le)
    then show ?thesis by (auto simp: upto_date_def after_date_def filter_empty_conv filter_id_conv not_le[symmetric])
  qed (use Cons in \<open>simp add: upto_date_def after_date_def\<close>)
qed (simp add: upto_date_def after_date_def)

lemma mset_key_rows: "mset (key_rows k rows) = mset (filter (\<lambda>r. er_key r = k) rows)"
  by (simp add: key_rows_def)

lemma row_shows_along_strict:
  assumes "along (row_shows k) P F rs"
  shows "sorted_wrt (\<lambda>x y. er_all_time_version x < er_all_time_version y) rs"
proof -
  have "er_all_time_version (rs ! i) = int (length P + Suc i)" if "i < length rs" for i
    using assms that by (auto simp: along_nth row_shows_def)
  then show ?thesis by (simp add: sorted_wrt_iff_nth_less)
qed

lemma row_shows_along_marks:
  assumes "along (row_shows k) P F rs" and "sorted (map fst (P @ F))"
  shows "sorted_wrt (\<lambda>x y. (er_effective x, er_version x) < (er_effective y, er_version y)) rs"
  by (rule along_strict[OF assms, of _ int]) (simp_all add: row_shows_def)

lemma along_dates: "along (row_shows k) P F rs \<Longrightarrow> map er_effective rs = map fst F"
  by (rule nth_equalityI) (auto simp: along_nth row_shows_def mark_def take_Suc_conv_app_nth)

lemma along_keys: "along (row_shows k) P F rs \<Longrightarrow> r \<in> set rs \<Longrightarrow> er_key r = k"
  by (auto simp: along_nth row_shows_def in_set_conv_nth)

text \<open>The rows of a key up to a date and after it.\<close>

lemma key_rows_split:
  assumes rep: "along (row_shows k) [] P (key_rows k rows)" and sorted: "sorted (map fst P)"
  obtains rs ts where "key_rows k rows = rs @ ts"
    and "along (row_shows k) [] (upto_date d P) rs"
    and "along (row_shows k) (upto_date d P) (after_date d P) ts"
    and "mset (filter (\<lambda>r. er_key r = k \<and> er_effective r \<le> d) rows) = mset rs"
    and "mset (filter (\<lambda>r. er_key r = k \<and> d < er_effective r) rows) = mset ts"
proof -
  define n where "n = length (upto_date d P)"
  define rs ts where "rs = take n (key_rows k rows)" and "ts = drop n (key_rows k rows)"
  have len: "length (key_rows k rows) = length P" by (rule along_length[OF rep])
  note split = split_by_date[OF sorted, of d]
  have split_rows: "key_rows k rows = rs @ ts" by (simp add: rs_def ts_def)
  have "n \<le> length P" using arg_cong[OF split, of length] by (simp add: n_def)
  then have len_rs: "length rs = length (upto_date d P)" by (simp add: rs_def len n_def)
  have al: "along (row_shows k) [] (upto_date d P) rs" "along (row_shows k) (upto_date d P) (after_date d P) ts"
    using rep along_append[OF len_rs, of "row_shows k" "[]" "after_date d P" ts]
    by (simp_all add: split split_rows)
  have "\<forall>r \<in> set rs. er_effective r \<le> d" "\<forall>r \<in> set ts. d < er_effective r"
    using arg_cong[OF along_dates[OF al(1)], of set] arg_cong[OF along_dates[OF al(2)], of set]
    by (auto simp: upto_date_def after_date_def)
  then have "filter (\<lambda>r. er_effective r \<le> d) (rs @ ts) = rs" "filter (\<lambda>r. d < er_effective r) (rs @ ts) = ts"
    by (auto simp: filter_id_conv filter_empty_conv)
  moreover have "mset (filter (\<lambda>r. er_key r = k \<and> Q r) rows) = mset (filter Q (rs @ ts))" for Q
    unfolding split_rows[symmetric] by (simp only: mset_filter mset_key_rows filter_filter_mset)
  ultimately show thesis using that[OF split_rows al] by metis
qed

lemma represents_rows:
  assumes "\<And>k. mset (filter (\<lambda>r. er_key r = k) rows) = mset (rs k)" and "\<And>k. along (row_shows k) [] (ledger k) (rs k)"
  shows "represents rows ledger"
  unfolding represents_def key_rows_def
  using assms sort_key_unique[OF assms(1) row_shows_along_strict[OF assms(2)]] by metis

text \<open>A table that pictures a ledger in date order never has two rows of one version.\<close>

lemma represents_unique:
  assumes "represents rows ledger" and "\<And>k. sorted (map fst (ledger k))"
  shows "unique_effective rows"
proof -
  let ?col = "\<lambda>r. (er_key r, er_effective r, er_version r)"
  have "sorted_wrt (\<lambda>x y. (er_effective x, er_version x) < (er_effective y, er_version y)) (key_rows k rows)" for k
    using row_shows_along_marks[of k "[]" "ledger k"] assms unfolding represents_def append_Nil by blast
  then have "sorted_wrt (<) (map (\<lambda>r. (er_effective r, er_version r)) (key_rows k rows))" for k
    by (simp add: sorted_wrt_map)
  then have "distinct (map (\<lambda>r. (er_effective r, er_version r)) (key_rows k rows))" for k
    by (simp add: strict_sorted_iff)
  moreover have "distinct (map f xs) \<longleftrightarrow> distinct (map f ys)" if "mset xs = mset ys" for f :: "'a effective_row \<Rightarrow> 'b" and xs ys
    using mset_eq_imp_distinct_iff[of "map f xs" "map f ys"] that by simp
  ultimately have "distinct (map (\<lambda>r. (er_effective r, er_version r)) (filter (\<lambda>r. er_key r = k) rows))" for k
    using mset_key_rows[of k rows] by metis
  then show ?thesis unfolding unique_effective_def
  proof (induction rows)
    case (Cons r rows)
    have "distinct (map (\<lambda>r. (er_effective r, er_version r)) (filter (\<lambda>r. er_key r = k) rows))" for k
      using Cons.prems[of k] by (simp split: if_splits)
    moreover have "?col r \<notin> set (map ?col rows)"
      using Cons.prems[of "er_key r"] by (force simp: image_iff)
    ultimately show ?case using Cons.IH by simp
  qed simp
qed

section \<open>From recomputed snapshots to rows\<close>

lemma as_i32_of_nat: "n < 2 ^ 31 \<Longrightarrow> as_i32 (of_nat n) = int n"
proof -
  assume n: "n < 2 ^ 31"
  then have "unat (of_nat n :: u32) = n" by (simp add: unat_of_nat take_bit_eq_mod)
  with n have "as_i32 (of_nat n) = uint (of_nat n :: u32)" by (intro as_i32_uint) simp
  also have "\<dots> = int (unat (of_nat n :: u32))" by simp
  finally show ?thesis using \<open>unat (of_nat n :: u32) = n\<close> by simp
qed

definition new_effective ::
  "'d effective_balance_data \<Rightarrow> journal_id \<Rightarrow> nat \<Rightarrow> naive_date \<Rightarrow> 'd balance_snapshot \<Rightarrow> 'd effective_balance_snapshot" where
  "new_effective data j i d b =
     \<lparr> eb_journal_id = j, eb_account_id = ed_account_id data, eb_currency = ed_currency data,
       eb_effective = d, eb_version = bs_version b,
       eb_all_time_version = of_nat i + 1 + ed_latest_all_time_version data,
       eb_created_at = bs_created_at b, eb_modified_at = bs_modified_at b,
       eb_entry_id = bs_entry_id b, eb_settled = bs_settled b,
       eb_pending = bs_pending b, eb_encumbrance = bs_encumbrance b \<rparr>"

lemma into_effective_snapshots:
  assumes "ed_updates data = map2 Snapshot ds bs" and "length bs = length ds"
  shows "into_effective_snapshots data j =
    Some (map (\<lambda>i. new_effective data j i (ds ! i) (bs ! i)) [0..<length ds])"
proof -
  have "\<not> (\<exists>u \<in> set (ed_updates data). is_entry u)" using assms by (auto simp: in_set_zip)
  then show ?thesis
    unfolding into_effective_snapshots_def
    by (auto intro!: nth_equalityI simp: assms nth_enumerate_eq new_effective_def)
qed

lemma new_rows_show:
  assumes outs: "along balance_shows P G outs"
    and data: "ed_account_id data = a" "ed_currency data = c" "ed_latest_all_time_version data = of_nat (length P)"
    and len: "length (P @ G) < 2 ^ 31"
  shows "along (row_shows (j, a, c)) P G
    (map (effective_row_of j) (map (\<lambda>i. new_effective data j i (map fst G ! i) (outs ! i)) [0..<length G]))"
proof -
  have "row_shows (j, a, c) (P @ take (Suc i) G) (effective_row_of j (new_effective data j i (fst (G ! i)) (outs ! i)))"
    if i: "i < length G" for i
  proof -
    let ?Q = "P @ take (Suc i) G" and ?b = "outs ! i"
    have b: "balance_shows ?Q ?b" using outs i by (simp add: along_nth)
    have last: "last ?Q = G ! i" using i by (simp add: take_Suc_conv_app_nth)
    let ?r = "effective_row_of j (new_effective data j i (fst (G ! i)) ?b)"
    have len_Q: "length ?Q < 2 ^ 31" using len i by simp
    have "on_date (fst (last ?Q)) ?Q < 2 ^ 31" using on_date_le len_Q by (rule le_less_trans)
    then have "as_i32 (bs_version ?b) = int (on_date (fst (last ?Q)) ?Q)"
      unfolding balance_showsD(2)[OF b] by (rule as_i32_of_nat)
    then have "er_version ?r = int (on_date (fst (last ?Q)) ?Q)"
      by (simp only: effective_row_of_def new_effective_def effective_row.simps effective_balance_snapshot.simps)
    moreover have "er_all_time_version ?r = int (length ?Q)"
    proof -
      have "of_nat i + 1 + ed_latest_all_time_version data = (of_nat (length ?Q) :: u32)"
        using i by (simp add: data(3))
      then show ?thesis using as_i32_of_nat[OF len_Q] by (simp add: effective_row_of_def new_effective_def)
    qed
    moreover have "balance_shows ?Q (row_details ?r)"
    proof -
      have "layer_amount (row_details ?r) l = layer_amount ?b l" for l
        by (cases l) (simp_all add: row_details_def as_balance_snapshot_def effective_row_of_def new_effective_def)
      moreover have "bs_version (row_details ?r) = bs_version ?b" "bs_entry_id (row_details ?r) = bs_entry_id ?b"
        by (simp_all add: row_details_def as_balance_snapshot_def effective_row_of_def new_effective_def)
      ultimately show ?thesis using b by (simp only: balance_shows_def totals_def layer_ids_def simp_thms)
    qed
    moreover have "er_key ?r = (j, a, c)" "snapshot_id (row_details ?r) = (j, a, c)" "er_effective ?r = fst (last ?Q)"
      by (simp_all only: last) (simp_all add: data effective_row_of_def new_effective_def row_details_def
          as_balance_snapshot_def snapshot_id_def)
    ultimately show ?thesis by (simp only: row_shows_def mark_def fst_conv snd_conv simp_thms)
  qed
  then show ?thesis by (simp add: along_nth)
qed

section \<open>One batch\<close>

lemma push_post_map:
  "push_post d (map (\<lambda>p. (p, f p)) ps) a e =
     map (\<lambda>p. (p, if p = (a, e_currency e) then push_update (f p) d e else f p)) ps"
  by (auto simp: push_post_def)

definition with_posts ::
  "naive_date \<Rightarrow> (account_id \<times> 'd entry_values) list \<Rightarrow> account_id \<times> currency \<Rightarrow> 'd effective_balance_data
     \<Rightarrow> 'd effective_balance_data" where
  "with_posts d posts p data = data \<lparr> ed_updates := ed_updates data @ map (Entry d) (posts_on p posts) \<rparr>"

lemma push_posts:
  "foldl (\<lambda>all_data (a, e). push_post d all_data a e) (map (\<lambda>p. (p, f p)) ps) posts =
     map (\<lambda>p. (p, with_posts d posts p (f p))) ps"
proof (induction posts arbitrary: f)
  case (Cons x posts)
  obtain a e where x: "x = (a, e)" by fastforce
  have "with_posts d posts p (if p = (a, e_currency e) then push_update (f p) d e else f p) =
      with_posts d (x # posts) p (f p)" for p
    by (auto simp: x with_posts_def push_update_def)
  then show ?case using Cons.IH by (simp add: x push_post_map)
qed (simp add: with_posts_def)

lemma foldl_posts:
  "foldl (\<lambda>acc e. foldl (\<lambda>acc a. f acc a e) acc (g e)) acc es =
     foldl (\<lambda>acc (a, e). f acc a e) acc (concat (map (\<lambda>e. map (\<lambda>a. (a, e)) (g e)) es))"
proof -
  have "foldl (\<lambda>acc a. f acc a e) acc as = foldl (\<lambda>acc (a, e). f acc a e) acc (map (\<lambda>a. (a, e)) as)"
    for acc e as by (induction as arbitrary: acc) auto
  then show ?thesis by (induction es arbitrary: acc) auto
qed

lemma traverse_map: "(\<And>x. x \<in> set xs \<Longrightarrow> f x = Some (g x)) \<Longrightarrow> traverse f xs = Some (map g xs)"
  by (induction xs) auto

definition taken ::
  "'d effective_row list \<Rightarrow> journal_id \<Rightarrow> naive_date \<Rightarrow> account_id \<times> currency \<Rightarrow> 'd effective_balance_data" where
  "taken rows j d p =
     (let prev_row = max_by er_all_time_version (filter (\<lambda>r. er_key r = (j, p) \<and> er_effective r \<le> d) rows)
      in \<lparr> ed_account_id = fst p, ed_currency = snd p,
           ed_last_snapshot = map_option (\<lambda>r. (er_effective r, row_details r)) prev_row,
           ed_latest_all_time_version = (case prev_row of None \<Rightarrow> 0 | Some r \<Rightarrow> word_of_int (er_all_time_version r)),
           ed_updates = map (\<lambda>r. Snapshot (er_effective r) (row_details r))
             (filter (\<lambda>r. er_key r = (j, p) \<and> d < er_effective r) rows) \<rparr>)"

lemma take_future_taken:
  "snd (take_future rows j pairs d) = map (\<lambda>p. (p, taken rows j d p)) pairs"
proof -
  have "filter (\<lambda>r. er_key r = (j, p)) (filter (\<lambda>r. fst (er_key r) = j \<and> snd (er_key r) \<in> set pairs \<and> d < er_effective r) rows) =
      filter (\<lambda>r. er_key r = (j, p) \<and> d < er_effective r) rows" if "p \<in> set pairs" for p
    using that by (auto intro!: filter_cong)
  then show ?thesis by (simp add: take_future_def Let_def taken_def)
qed

lemma taken_shows:
  assumes rep: "along (row_shows (j, p)) [] L (key_rows (j, p) rows)" and sorted: "sorted (map fst L)"
  obtains rs bs lb where
    "mset (filter (\<lambda>r. er_key r = (j, p) \<and> er_effective r \<le> d) rows) = mset rs"
    "along (row_shows (j, p)) [] (upto_date d L) rs"
    "upto_date d L \<noteq> [] \<Longrightarrow> balance_shows (upto_date d L) lb"
    "ed_last_snapshot (taken rows j d p) =
       (if upto_date d L = [] then None else Some (fst (last (upto_date d L)), lb))"
    "ed_latest_all_time_version (taken rows j d p) = of_nat (length (upto_date d L))"
    "along balance_shows (upto_date d L) (after_date d L) bs"
    "mset (ed_updates (taken rows j d p)) = mset (map2 Snapshot (map fst (after_date d L)) bs)"
proof -
  obtain rs ts where split: "along (row_shows (j, p)) [] (upto_date d L) rs"
    "along (row_shows (j, p)) (upto_date d L) (after_date d L) ts"
    "mset (filter (\<lambda>r. er_key r = (j, p) \<and> er_effective r \<le> d) rows) = mset rs"
    "mset (filter (\<lambda>r. er_key r = (j, p) \<and> d < er_effective r) rows) = mset ts"
    using key_rows_split[OF rep sorted] by blast
  let ?P = "upto_date d L" and ?F = "after_date d L"
  have prev: "max_by er_all_time_version (filter (\<lambda>r. er_key r = (j, p) \<and> er_effective r \<le> d) rows) =
      (if rs = [] then None else Some (last rs))"
    by (rule max_by_strict[OF split(3) row_shows_along_strict[OF split(1)]])
  have len: "length rs = length ?P" by (rule along_length[OF split(1)])
  have last_row: "row_shows (j, p) ?P (last rs)" if "?P \<noteq> []"
    by (rule along_last[OF split(1) that])
  have empty: "rs = [] \<longleftrightarrow> ?P = []" using len by (metis length_0_conv)
  have len_ts: "length ts = length ?F" by (rule along_length[OF split(2)])
  show thesis
  proof (rule that[of rs "row_details (last rs)" "map row_details ts"])
    show "ed_last_snapshot (taken rows j d p) =
        (if ?P = [] then None else Some (fst (last ?P), row_details (last rs)))"
      using last_row by (simp add: taken_def prev row_shows_def mark_def empty)
    show "ed_latest_all_time_version (taken rows j d p) = of_nat (length ?P)"
      using last_row by (simp add: taken_def prev row_shows_def empty)
    show "along balance_shows ?P ?F (map row_details ts)"
      using split(2) len_ts by (auto simp: along_nth row_shows_def)
    have "map (\<lambda>r. Snapshot (er_effective r) (row_details r)) ts = map2 Snapshot (map er_effective ts) (map row_details ts)"
      by (induction ts) auto
    moreover have "mset (ed_updates (taken rows j d p)) = mset (map (\<lambda>r. Snapshot (er_effective r) (row_details r)) ts)"
      by (simp only: taken_def Let_def effective_balance_data.simps mset_map split(4))
    ultimately show "mset (ed_updates (taken rows j d p)) = mset (map2 Snapshot (map fst ?F) (map row_details ts))"
      by (simp only: along_dates[OF split(2)])
  qed (use split last_row in \<open>simp_all add: row_shows_def\<close>)
qed

lemma insert_datedD:
  assumes "ledger_ok (insert_dated d es L)" and "sorted (map fst L)"
  shows "distinct (map (\<lambda>p. e_id (snd p)) (upto_date d L @ map (Pair d) es @ after_date d L))"
    and "UNASSIGNED_ENTRY_ID \<notin> dated_ids (after_date d L)"
    and "length (upto_date d L @ map (Pair d) es @ after_date d L) < 2 ^ 31"
    and "length (upto_date d L @ after_date d L) < 2 ^ 32"
    and "\<And>p. p \<in> set (upto_date d L) \<Longrightarrow> fst p \<le> d" and "\<And>p. p \<in> set (after_date d L) \<Longrightarrow> d < fst p"
    and "sorted (map fst (upto_date d L))" and "sorted (map fst (after_date d L))"
  using assms unfolding ledger_ok_def insert_dated_def
  by (simp_all add: upto_date_def after_date_def dated_ids_append sorted_filter)

lemma key_step:
  assumes rep: "along (row_shows (j, p)) [] L (key_rows (j, p) rows)" and sorted: "sorted (map fst L)"
    and es: "es = posts_on p posts" "es \<noteq> []"
    and ok: "ledger_ok (insert_dated d (sort_key e_sequence es) L)"
  shows "\<exists>data new rs. re_calculate_snapshots (with_posts d posts p (taken rows j d p)) t = Some data \<and>
    into_effective_snapshots data j = Some new \<and>
    mset (filter (\<lambda>r. er_key r = (j, p) \<and> er_effective r \<le> d) rows) = mset rs \<and>
    along (row_shows (j, p)) [] (insert_dated d (sort_key e_sequence es) L) (rs @ map (effective_row_of j) new)"
proof -
  obtain rs bs lb where taken:
    "mset (filter (\<lambda>r. er_key r = (j, p) \<and> er_effective r \<le> d) rows) = mset rs"
    "along (row_shows (j, p)) [] (upto_date d L) rs"
    "upto_date d L \<noteq> [] \<Longrightarrow> balance_shows (upto_date d L) lb"
    "ed_last_snapshot (taken rows j d p) =
       (if upto_date d L = [] then None else Some (fst (last (upto_date d L)), lb))"
    "ed_latest_all_time_version (taken rows j d p) = of_nat (length (upto_date d L))"
    "along balance_shows (upto_date d L) (after_date d L) bs"
    "mset (ed_updates (taken rows j d p)) = mset (map2 Snapshot (map fst (after_date d L)) bs)"
    by (rule taken_shows[OF rep sorted, where d = d]) (rule that; assumption)
  note D = insert_datedD[OF ok sorted]
  let ?data = "with_posts d posts p (taken rows j d p)"
  let ?G = "map (Pair d) (sort_key e_sequence es) @ after_date d L"
  have "ed_last_snapshot ?data = (if upto_date d L = [] then None else Some (fst (last (upto_date d L)), lb))"
    "ed_updates ?data = ed_updates (taken rows j d p) @ map (Entry d) es"
    by (simp_all add: with_posts_def taken(4) es(1))
  then obtain outs where outs: "re_calculate_snapshots ?data t =
      Some (?data \<lparr> ed_updates := map2 Snapshot (map fst ?G) outs, ed_last_snapshot := None \<rparr>)"
    "along balance_shows (upto_date d L) ?G outs"
    using recalculate[OF D(5,7) taken(3) D(6,8) taken(6) D(4) D(1)[unfolded append_assoc] D(2) es(2) _ _ taken(7)]
    by metis
  let ?new = "?data \<lparr> ed_updates := map2 Snapshot (map fst ?G) outs, ed_last_snapshot := None \<rparr>"
  have into: "into_effective_snapshots ?new j =
      Some (map (\<lambda>i. new_effective ?new j i (map fst ?G ! i) (outs ! i)) [0..<length (map fst ?G)])"
    by (rule into_effective_snapshots) (simp_all add: along_length[OF outs(2)])
  have "along (row_shows (j, fst p, snd p)) (upto_date d L) ?G
      (map (effective_row_of j) (map (\<lambda>i. new_effective ?new j i (map fst ?G ! i) (outs ! i)) [0..<length ?G]))"
    using D(3) taken(5) by (intro new_rows_show outs(2)) (simp_all add: with_posts_def taken_def Let_def)
  then have "along (row_shows (j, p)) [] (upto_date d L @ ?G)
      (rs @ map (effective_row_of j) (map (\<lambda>i. new_effective ?new j i (map fst ?G ! i) (outs ! i)) [0..<length (map fst ?G)]))"
    using along_append[OF along_length[OF taken(2)]] taken(2) by (simp only: append_Nil length_map surjective_pairing[symmetric])
  then show ?thesis using outs(1) into taken(1) unfolding insert_dated_def by blast
qed

definition post_ledger ::
  "journal_id \<Rightarrow> (account_id \<times> currency) list \<Rightarrow> naive_date \<Rightarrow> (account_id \<times> 'd entry_values) list
     \<Rightarrow> 'd ledger \<Rightarrow> 'd ledger" where
  "post_ledger j pairs d posts ledger = (\<lambda>k.
     if fst k = j \<and> snd k \<in> set pairs
     then insert_dated d (sort_key e_sequence (posts_on (snd k) posts)) (ledger k)
     else ledger k)"

lemma filter_concat_key:
  assumes "distinct ps" and "p \<in> set ps" and "\<And>q r. q \<in> set ps \<Longrightarrow> r \<in> set (N q) \<Longrightarrow> er_key r = (j, q)"
  shows "filter (\<lambda>r. er_key r = (j, p)) (concat (map N ps)) = N p"
  using assms
proof (induction ps)
  case (Cons q ps)
  have q: "filter (\<lambda>r. er_key r = (j, p)) (N q) = (if q = p then N q else [])"
    using Cons.prems(3)[of q] by (auto simp: filter_id_conv filter_empty_conv)
  have "er_key r \<noteq> (j, p)" if "p \<notin> set ps" "q' \<in> set ps" "r \<in> set (N q')" for q' r
    using Cons.prems(3)[of q' r] that by auto
  then have rest: "p \<notin> set ps \<Longrightarrow> filter (\<lambda>r. er_key r = (j, p)) (concat (map N ps)) = []"
    unfolding filter_empty_conv by auto
  show ?case using Cons q rest by (cases "q = p") auto
qed simp

lemma post_rows_represent:
  assumes rep: "represents rows ledger" and pairs: "distinct pairs"
    and N: "\<And>p. p \<in> set pairs \<Longrightarrow>
      mset (filter (\<lambda>r. er_key r = (j, p) \<and> er_effective r \<le> d) rows) = mset (R p) \<and>
      along (row_shows (j, p)) [] (post_ledger j pairs d posts ledger (j, p)) (R p @ N p)"
  shows "represents (fst (take_future rows j pairs d) @ concat (map N pairs)) (post_ledger j pairs d posts ledger)"
proof (rule represents_rows)
  define rs where "rs k = (if fst k = j \<and> snd k \<in> set pairs then R (snd k) @ N (snd k) else key_rows k rows)" for k
  have keys: "er_key r = (j, q)" if "q \<in> set pairs" "r \<in> set (N q)" for q r
    using N[OF that(1)] that(2) along_keys[of "(j, q)" "[]" _ "R q @ N q" r] by auto
  show "along (row_shows k) [] (post_ledger j pairs d posts ledger k) (rs k)" for k
    using N[of "snd k"] rep by (cases k) (auto simp: rs_def post_ledger_def represents_def)
  show "mset (filter (\<lambda>r. er_key r = k) (fst (take_future rows j pairs d) @ concat (map N pairs))) = mset (rs k)" for k
  proof (cases "fst k = j \<and> snd k \<in> set pairs")
    case True
    then have k: "k = (j, snd k)" "snd k \<in> set pairs" by auto
    have "filter (\<lambda>r. er_key r = k) (fst (take_future rows j pairs d)) =
        filter (\<lambda>r. er_key r = k \<and> er_effective r \<le> d) rows"
      using True by (auto simp: take_future_def Let_def intro!: filter_cong)
    moreover have "filter (\<lambda>r. er_key r = k) (concat (map N pairs)) = N (snd k)"
      using filter_concat_key[OF pairs k(2) keys] k(1) by simp
    ultimately show ?thesis using N[OF k(2)] True k(1) by (simp add: rs_def del: mset_filter)
  next
    case False
    then have "filter (\<lambda>r. er_key r = k) (fst (take_future rows j pairs d)) = filter (\<lambda>r. er_key r = k) rows"
      by (auto simp: take_future_def Let_def intro!: filter_cong)
    moreover have "filter (\<lambda>r. er_key r = k) (concat (map N pairs)) = []"
      using False keys by (fastforce simp: filter_empty_conv)
    moreover have "rs k = key_rows k rows" using False by (auto simp: rs_def)
    ultimately show ?thesis by (simp add: mset_key_rows del: mset_filter)
  qed
qed

definition recomputed where
  "recomputed rows j d t posts ledger p x \<longleftrightarrow> (case x of (data, new, rs) \<Rightarrow>
     re_calculate_snapshots (with_posts d posts p (taken rows j d p)) t = Some data \<and>
     into_effective_snapshots data j = Some new \<and>
     mset (filter (\<lambda>r. er_key r = (j, p) \<and> er_effective r \<le> d) rows) = mset rs \<and>
     along (row_shows (j, p)) [] (ledger (j, p)) (rs @ map (effective_row_of j) new))"

lemma write_back_represents:
  assumes rep: "represents rows ledger" and pairs: "distinct pairs"
    and ok: "\<And>k. ledger_ok (ledger k)" "\<And>k. ledger_ok (post_ledger j pairs d posts ledger k)"
    and touched: "\<And>p. p \<in> set pairs \<Longrightarrow> posts_on p posts \<noteq> []"
  shows "\<exists>rows'. write_back (fst (take_future rows j pairs d)) j t
      (foldl (\<lambda>all_data (a, e). push_post d all_data a e) (snd (take_future rows j pairs d)) posts) = Some (Inr rows') \<and>
    represents rows' (post_ledger j pairs d posts ledger)"
proof -
  let ?L = "post_ledger j pairs d posts ledger"
  have "\<exists>x. recomputed rows j d t posts ?L p x" if p: "p \<in> set pairs" for p
  proof -
    have L: "?L (j, p) = insert_dated d (sort_key e_sequence (posts_on p posts)) (ledger (j, p))"
      using p by (simp add: post_ledger_def)
    have "along (row_shows (j, p)) [] (ledger (j, p)) (key_rows (j, p) rows)"
      using rep unfolding represents_def by blast
    moreover have "sorted (map fst (ledger (j, p)))" using ok(1)[of "(j, p)"] by (simp add: ledger_ok_def)
    moreover have "ledger_ok (insert_dated d (sort_key e_sequence (posts_on p posts)) (ledger (j, p)))"
      using ok(2)[of "(j, p)"] by (simp only: L)
    ultimately obtain data new rs where "recomputed rows j d t posts ?L p (data, new, rs)"
      using key_step[OF _ _ refl touched[OF p], of j "ledger (j, p)" rows d t] unfolding recomputed_def L by auto
    then show ?thesis by blast
  qed
  then obtain X where X: "\<And>p. p \<in> set pairs \<Longrightarrow> recomputed rows j d t posts ?L p (X p)" by metis
  define data new rs where "data p = fst (X p)" and "new p = fst (snd (X p))" and "rs p = snd (snd (X p))" for p
  have D: "re_calculate_snapshots (with_posts d posts p (taken rows j d p)) t = Some (data p)"
      "into_effective_snapshots (data p) j = Some (new p)"
      "mset (filter (\<lambda>r. er_key r = (j, p) \<and> er_effective r \<le> d) rows) = mset (rs p)"
      "along (row_shows (j, p)) [] (?L (j, p)) (rs p @ map (effective_row_of j) (new p))"
    if "p \<in> set pairs" for p
    using X[OF that] unfolding recomputed_def case_prod_unfold data_def new_def rs_def by blast+
  let ?rows' = "fst (take_future rows j pairs d) @ concat (map (\<lambda>p. map (effective_row_of j) (new p)) pairs)"
  have rep': "represents ?rows' ?L"
    using D by (intro post_rows_represent[OF rep pairs, where R = rs]) blast
  have "unique_effective ?rows'"
    using ok(2) by (intro represents_unique[OF rep']) (simp add: ledger_ok_def)
  moreover have "traverse (\<lambda>(_, data). re_calculate_snapshots data t)
      (map (\<lambda>p. (p, with_posts d posts p (taken rows j d p))) pairs) = Some (map data pairs)"
    using D(1) by (subst traverse_map[where g = "data \<circ> fst"]) (auto simp: comp_def)
  moreover have "traverse (\<lambda>data. into_effective_snapshots data j) (map data pairs) = Some (map new pairs)"
  proof -
    have "traverse (\<lambda>x. into_effective_snapshots x j) (map data ps) = Some (map new ps)" if "set ps \<subseteq> set pairs" for ps
      using that D(2) by (induction ps) auto
    then show ?thesis by blast
  qed
  ultimately show ?thesis using rep'
    by (simp add: write_back_def take_future_taken push_posts insert_effective_snapshots_def Let_def map_concat comp_def)
qed

end
