(* ===== verification/Effective_Theorems.thy ===== *)
theory Effective_Theorems imports Effective_Table begin

text \<open>
  What the effective balances guarantee: a posting for any date refines insertion into the
  ledger, and the queries answer sums over the ledger. The listings provide the keyset contract.
\<close>

section \<open>Reading\<close>

lemma latest_effective_shows:
  assumes "represents rows ledger" and "sorted (map fst (ledger k))"
  shows "case latest_effective rows k (\<lambda>d. d \<le> x) of
      None \<Rightarrow> upto_date x (ledger k) = []
    | Some r \<Rightarrow> upto_date x (ledger k) \<noteq> [] \<and> row_shows k (upto_date x (ledger k)) r"
proof -
  have "along (row_shows k) [] (ledger k) (key_rows k rows)" using assms(1) unfolding represents_def by blast
  then obtain rs where rs: "along (row_shows k) [] (upto_date x (ledger k)) rs"
    "mset (filter (\<lambda>r. er_key r = k \<and> er_effective r \<le> x) rows) = mset rs"
    using key_rows_split[OF _ assms(2)] by blast
  have "sorted (map fst ([] @ upto_date x (ledger k)))" using assms(2) by (simp add: upto_date_def sorted_filter)
  from max_by_strict[OF rs(2) row_shows_along_marks[OF rs(1) this]]
  have "latest_effective rows k (\<lambda>d. d \<le> x) = (if rs = [] then None else Some (last rs))"
    by (simp add: latest_effective_def)
  moreover have "rs = [] \<longleftrightarrow> upto_date x (ledger k) = []" using along_length[OF rs(1)] by (metis length_0_conv)
  ultimately show ?thesis using along_last[OF rs(1)] by simp
qed

lemma joined_latest_shows:
  assumes rep: "represents rows ledger" "sorted (map fst (ledger (j, a, c)))" and acc: "mt_accounts mt a = Some acc"
  shows "case joined_latest mt rows (j, a, c) (\<lambda>d. d \<le> x) of
      None \<Rightarrow> upto_date x (ledger (j, a, c)) = []
    | Some (b, v) \<Rightarrow> upto_date x (ledger (j, a, c)) \<noteq> [] \<and> ab_balance_type b = ac_normal_balance_type acc \<and>
        snapshot_id (ab_details b) = (j, a, c) \<and> balance_shows (upto_date x (ledger (j, a, c))) (ab_details b) \<and>
        v = of_nat (length (upto_date x (ledger (j, a, c))))"
  using latest_effective_shows[OF rep, of x] acc
  by (cases "latest_effective rows (j, a, c) (\<lambda>d. d \<le> x)")
    (simp_all add: joined_latest_def normal_type_def row_shows_def account_balance_new_def)

lemma balance_shows_amount:
  "balance_shows P b \<Longrightarrow> base_amount dir l (Some b) = side_total dir l (map snd P)"
  by (cases dir) (simp_all add: base_amount_def balance_showsD)

lemma before_date: "(\<lambda>d. d < x) = (\<lambda>d. d \<le> x - (1 :: naive_date))"
  by (auto simp: fun_eq_iff)

definition between :: "naive_date \<Rightarrow> naive_date \<Rightarrow> 'd dated list \<Rightarrow> 'd dated list" where
  "between x y P = filter (\<lambda>p. x \<le> fst p \<and> fst p \<le> y) P"

lemma upto_between:
  assumes "x \<le> y"
  shows "side_total dir l (map snd (upto_date y P)) =
      side_total dir l (map snd (upto_date (x - 1) P)) + side_total dir l (map snd (between x y P))"
    and "length (upto_date y P) = length (upto_date (x - 1) P) + length (between x y P)"
  using assms by (induction P) (auto simp: upto_date_def between_def ac_simps)

section \<open>Listings\<close>

definition table_ok :: "'d effective_row list \<Rightarrow> bool" where
  "table_ok rows \<longleftrightarrow> (\<forall>r \<in> set rows. snapshot_id (row_details r) = er_key r \<and>
     (eb_account_id (er_values r), eb_currency (er_values r), eb_effective (er_values r)) = modified_columns r)"

definition effective_listing ::
  "membership_tables \<Rightarrow> journal_id \<Rightarrow> account_id list \<Rightarrow> naive_date \<Rightarrow> 'd effective_row list \<Rightarrow> 'd account_balance list" where
  "effective_listing mt j accounts date rows =
     List.map_filter (\<lambda>(a, c). map_option fst (joined_latest mt rows (j, a, c) (\<lambda>d. d \<le> date)))
       (keys_joined mt rows j accounts date)"

definition modified_listing ::
  "journal_id \<Rightarrow> date_time \<Rightarrow> 'd effective_row list \<Rightarrow> 'd effective_balance_snapshot list" where
  "modified_listing j since rows =
     (let rows = filter (\<lambda>r. fst (er_key r) = j \<and> since \<le> er_updated_at r) rows
      in List.map_filter (\<lambda>t. map_option er_values
           (max_by er_all_time_version (filter (\<lambda>r. modified_columns r = t) rows)))
           (sort_dedup (map modified_columns rows)))"

lemma map_filter_keys:
  assumes "\<And>x y. x \<in> set xs \<Longrightarrow> f x = Some y \<Longrightarrow> key y = x" and "\<And>x. x \<in> set xs \<Longrightarrow> f x \<noteq> None"
  shows "map key (List.map_filter f xs) = xs"
  using assms
proof (induction xs)
  case (Cons x xs)
  from Cons.prems(2)[of x] obtain y where "f x = Some y" by auto
  then show ?case using Cons by (simp add: map_filter_simps)
qed (simp add: map_filter_simps)

lemma sorted_keys:
  assumes "map key ys = xs" and "sorted_wrt (<) xs"
  shows "sorted_wrt (\<lambda>x y. key x < key y) ys"
  using assms by (simp add: sorted_wrt_map flip: assms(1))

lemma past_map_filter:
  assumes "\<And>x y. x \<in> set xs \<Longrightarrow> f x = Some y \<Longrightarrow> key y = x" 
  shows "List.map_filter f (past id after xs) = past key after (List.map_filter f xs)"
  using assms by (induction xs) (auto simp: map_filter_simps past_def split: option.splits)

lemma set_map_filter_Some: "y \<in> set (List.map_filter f xs) \<longleftrightarrow> (\<exists>x \<in> set xs. f x = Some y)"
  by (induction xs) (auto simp: map_filter_simps split: option.splits)

lemma strict_sort_dedup [simp]: "sorted_wrt (<) (sort_dedup xs)"
  by (simp add: strict_sorted_iff)

lemma joined_latest_key:
  assumes "table_ok rows" and "joined_latest mt rows k p = Some (b, v)"
  shows "snapshot_id (ab_details b) = k"
proof -
  obtain t r where r: "latest_effective rows k p = Some r" "b = account_balance_new t (row_details r)"
    using assms(2) by (auto simp: joined_latest_def split: option.splits)
  then have "r \<in> set rows" "er_key r = k" using max_by_in[OF r(1)[unfolded latest_effective_def]] by auto
  then show ?thesis using assms(1) r(2) by (auto simp: table_ok_def account_balance_new_def)
qed

lemma listed_key:
  assumes "table_ok rows"
    and "(case k of (a, c) \<Rightarrow> map_option fst (joined_latest mt rows (j, a, c) (\<lambda>d. d \<le> date))) = Some b"
  shows "(bs_account_id (ab_details b), bs_currency (ab_details b)) = k"
  using joined_latest_key[OF assms(1)] assms(2) by (cases k) (fastforce simp: snapshot_id_def)

lemma joined_latest_exists:
  assumes "r \<in> set rows" and "er_key r = (j, a, c)" and "p (er_effective r)" and "mt_accounts mt a \<noteq> None"
  shows "joined_latest mt rows (j, a, c) p \<noteq> None"
proof -
  have "filter (\<lambda>r. er_key r = (j, a, c) \<and> p (er_effective r)) rows \<noteq> []"
    using assms(1-3) by (auto simp: filter_empty_conv)
  then have "latest_effective rows (j, a, c) p \<noteq> None" by (simp only: latest_effective_def max_by_None not_False_eq_True)
  then show ?thesis using assms(4) by (auto simp: joined_latest_def normal_type_def)
qed

lemma effective_listing_keys:
  assumes "table_ok rows"
  shows "map (\<lambda>b. (bs_account_id (ab_details b), bs_currency (ab_details b)))
    (effective_listing mt j accounts date rows) = keys_joined mt rows j accounts date"
  unfolding effective_listing_def
proof (rule map_filter_keys)
  fix k assume k: "k \<in> set (keys_joined mt rows j accounts date)"
  obtain a c where ac: "k = (a, c)" by fastforce
  with k obtain r where "r \<in> set rows" "er_key r = (j, a, c)" "er_effective r \<le> date" "mt_accounts mt a \<noteq> None"
    by (auto simp: keys_joined_def keys_upto_def)
  then have "joined_latest mt rows (j, a, c) (\<lambda>d. d \<le> date) \<noteq> None" by (rule joined_latest_exists)
  then show "(case k of (a, c) \<Rightarrow> map_option fst (joined_latest mt rows (j, a, c) (\<lambda>d. d \<le> date))) \<noteq> None"
    by (simp add: ac)
qed (rule listed_key[OF assms])

lemma effective_listing_sorted:
  "table_ok rows \<Longrightarrow> sorted_wrt (\<lambda>x y. (bs_account_id (ab_details x), bs_currency (ab_details x)) <
      (bs_account_id (ab_details y), bs_currency (ab_details y))) (effective_listing mt j accounts date rows)"
  by (rule sorted_keys[OF effective_listing_keys])
    (auto simp: keys_joined_def keys_upto_def intro: sorted_wrt_filter)

lemma effective_page:
  assumes "table_ok rows"
  shows "effective_list_for_accounts mt rows j accounts date n after =
    page_of n (\<lambda>b. (bs_account_id (ab_details b), bs_currency (ab_details b)))
      (past (\<lambda>b. (bs_account_id (ab_details b), bs_currency (ab_details b))) after
        (effective_listing mt j accounts date rows))"
  unfolding effective_list_for_accounts_def effective_listing_def
  by (subst past_map_filter[OF listed_key[OF assms]]) simp_all

interpretation effective_by_account: keyset_listing table_ok
    "\<lambda>rows. effective_list_for_accounts mt rows j accounts date" "effective_listing mt j accounts date"
    "\<lambda>b. (bs_account_id (ab_details b), bs_currency (ab_details b))" for mt j accounts date
  by unfold_locales (rule effective_listing_sorted effective_page, assumption)+

lemma modified_key:
  assumes "table_ok rows"
    and "map_option er_values (max_by er_all_time_version (filter (\<lambda>r. modified_columns r = t)
      (filter (\<lambda>r. fst (er_key r) = j \<and> since \<le> er_updated_at r) rows))) = Some s"
  shows "(eb_account_id s, eb_currency s, eb_effective s) = t"
proof -
  obtain r where r: "max_by er_all_time_version (filter (\<lambda>r. modified_columns r = t)
      (filter (\<lambda>r. fst (er_key r) = j \<and> since \<le> er_updated_at r) rows)) = Some r" "s = er_values r"
    using assms(2) by auto
  from max_by_in[OF r(1)] assms(1) r(2) show ?thesis by (auto simp: table_ok_def)
qed

lemma modified_listing_keys:
  assumes "table_ok rows"
  shows "map (\<lambda>x. (eb_account_id x, eb_currency x, eb_effective x)) (modified_listing j since rows) =
    sort_dedup (map modified_columns (filter (\<lambda>r. fst (er_key r) = j \<and> since \<le> er_updated_at r) rows))"
  unfolding modified_listing_def Let_def
  by (rule map_filter_keys) (use modified_key[OF assms] in \<open>auto simp: filter_empty_conv\<close>)

lemma modified_listing_sorted:
  "table_ok rows \<Longrightarrow> sorted_wrt (\<lambda>x y. (eb_account_id x, eb_currency x, eb_effective x) <
    (eb_account_id y, eb_currency y, eb_effective y)) (modified_listing j since rows)"
  by (rule sorted_keys[OF modified_listing_keys]) simp_all

lemma modified_page:
  assumes "table_ok rows"
  shows "list_modified_since rows j since n after =
    page_of n (\<lambda>s. (eb_account_id s, eb_currency s, eb_effective s))
      (past (\<lambda>s. (eb_account_id s, eb_currency s, eb_effective s)) after (modified_listing j since rows))"
  unfolding list_modified_since_def modified_listing_def Let_def
  by (subst past_map_filter[OF modified_key[OF assms]]) simp_all

interpretation modified: keyset_listing table_ok
    "\<lambda>rows. list_modified_since rows j since" "modified_listing j since"
    "\<lambda>s. (eb_account_id s, eb_currency s, eb_effective s)" for j since
  by unfold_locales (rule modified_listing_sorted modified_page, assumption)+

section \<open>Examples\<close>

definition inline_accounts :: membership_tables where
  "inline_accounts = sample_membership \<lparr> mt_accounts :=
     [AccountId 1 \<mapsto> \<lparr> ac_normal_balance_type = Debit, ac_eventually_consistent = False,
        ac_is_account_set = False, ac_status = Active \<rparr>] \<rparr>"

definition sample_key :: balance_id where
  "sample_key = (JournalId 1, AccountId 1, USD)"

definition sample_ledger :: "int ledger" where
  "sample_ledger = (\<lambda>k. if k = sample_key then [(10, sample_entry 1 1 Debit 100)] else [])"

definition backdated_ledger :: "int ledger" where
  "backdated_ledger = (\<lambda>k. if k = sample_key
     then [(5, sample_entry 2 1 Credit 30), (10, sample_entry 1 1 Debit 100)] else [])"

lemma sample_ledgers_ok: "ledger_ok (sample_ledger k)" "ledger_ok (backdated_ledger k)" "ledger_ok ([] :: int dated list)"
  by (auto simp: ledger_ok_def sample_ledger_def backdated_ledger_def dated_ids_def UNASSIGNED_ENTRY_ID_def)

lemma represents_empty: "represents [] (\<lambda>_. [])"
  by (simp add: represents_def key_rows_def)

lemma sample_posts_ledger:
  "post_ledger (JournalId 1) [(AccountId 1, USD)] 10 [(AccountId 1, sample_entry 1 1 Debit 100)] (\<lambda>_. []) = sample_ledger"
  "post_ledger (JournalId 1) [(AccountId 1, USD)] 5 [(AccountId 1, sample_entry 2 1 Credit 30)] sample_ledger = backdated_ledger"
  by (auto simp: fun_eq_iff post_ledger_def sample_ledger_def backdated_ledger_def sample_key_def insert_dated_def
      upto_date_def after_date_def)

lemma sample_rows: "\<exists>rows. represents rows sample_ledger"
  using write_back_represents[OF represents_empty, of "[(AccountId 1, USD)]" "JournalId 1" 10
      "[(AccountId 1, sample_entry 1 1 Debit 100)]"] sample_ledgers_ok
  unfolding sample_posts_ledger by fastforce

lemma sample_eligible: "eligible_pairs False inline_accounts [(AccountId 1, USD)] = [(AccountId 1, USD)]"
  "eligible_pairs True sample_membership [(AccountId 1, USD)] = [(AccountId 1, USD)]"
  by (simp_all add: eligible_pairs_def inline_accounts_def sample_membership_def)

lemma sample_leaf_posts:
  "leaf_posts Map.empty [sample_entry 2 1 Credit 30] = [(AccountId 1, sample_entry 2 1 Credit 30)]"
  "ec_posts Map.empty {AccountId 1} [sample_entry 2 1 Credit 30] = [(AccountId 1, sample_entry 2 1 Credit 30)]"
  by (simp_all add: leaf_posts_def ec_posts_def)

section \<open>Properties\<close>

lemma inline_driver:
  "update_cumulative_balances_in_op mt rows j entries d t mappings ids =
     (let (rows, all_data) = find_for_update mt rows j ids d
      in write_back rows j t (foldl (\<lambda>all_data (a, e). push_post d all_data a e) all_data (leaf_posts mappings entries)))"
  by (simp only: update_cumulative_balances_in_op_def foldl_posts leaf_posts_def map_append map_map comp_def
      list.map Let_def)

lemma ec_driver:
  "effective_apply_ec_rollup_in_op mt rows j entries d t mappings ids leaves =
     (let (rows, all_data) = find_ec_for_update mt rows j ids d
      in write_back rows j t (foldl (\<lambda>all_data (a, e). push_post d all_data a e) all_data (ec_posts mappings leaves entries)))"
proof -
  have "map (\<lambda>a. (a, e)) (map account_of_set ss @ (if b then [x] else [])) =
      map (\<lambda>s. (account_of_set s, e)) ss @ (if b then [(x, e)] else [])" for e :: "'a entry_values" and ss b x
    by simp
  then show ?thesis by (simp only: effective_apply_ec_rollup_in_op_def foldl_posts ec_posts_def Let_def)
qed



text \<open>
  C30: The eventually consistent rollup refines the same insertion: \<open>apply_ec_rollup_in_op\<close> neither
  panics nor fails and inserts, for exactly the eventually consistent accounts among the balance
  ids, the entries of their member accounts and, for a leaf, its own.
\<close>

theorem ec_rollup_refines_ledger:
  assumes "represents rows ledger"
    and "pairs = eligible_pairs True mt balance_ids" and "posts = ec_posts ec_mappings ec_leaves entries"
    and "\<And>p. p \<in> set pairs \<Longrightarrow> posts_on p posts \<noteq> []"
    and "\<And>k. ledger_ok (ledger k)" and "\<And>k. ledger_ok (post_ledger journal pairs date posts ledger k)"
  shows "\<exists>rows'. effective_apply_ec_rollup_in_op mt rows journal entries date time ec_mappings balance_ids ec_leaves =
      Some (Inr rows') \<and> represents rows' (post_ledger journal pairs date posts ledger)"
proof -
  have "distinct pairs" by (simp add: assms(2) eligible_pairs_def)
  from write_back_represents[OF assms(1) this assms(5,6,4)] show ?thesis
    by (simp add: ec_driver find_ec_for_update_def case_prod_unfold Let_def assms(2,3))
qed

lemma ec_rollup_refines_ledger_witness:
  "\<exists>rows rows'. represents rows sample_ledger \<and>
     effective_apply_ec_rollup_in_op sample_membership rows (JournalId 1) [sample_entry 2 1 Credit 30] 5 7
       Map.empty [(AccountId 1, USD)] {AccountId 1} = Some (Inr rows') \<and>
     represents rows' backdated_ledger"
proof -
  obtain rows where rows: "represents rows sample_ledger" using sample_rows by blast
  have touched: "posts_on p (ec_posts Map.empty {AccountId 1} [sample_entry 2 1 Credit 30]) \<noteq> []"
    if "p \<in> set (eligible_pairs True sample_membership [(AccountId 1, USD)])" for p
    using that by (simp add: sample_eligible sample_leaf_posts)
  have "ledger_ok (post_ledger (JournalId 1) (eligible_pairs True sample_membership [(AccountId 1, USD)]) 5
      (ec_posts Map.empty {AccountId 1} [sample_entry 2 1 Credit 30]) sample_ledger k)" for k
    unfolding sample_eligible sample_leaf_posts sample_posts_ledger by (rule sample_ledgers_ok)
  from ec_rollup_refines_ledger[OF rows refl refl touched sample_ledgers_ok(1) this, where time = 7]
  show ?thesis using rows unfolding sample_eligible sample_leaf_posts sample_posts_ledger by blast
qed

text \<open>
  C31: A cumulative balance is the sum of the ledger up to the date: \<open>find_cumulative\<close> reports
  \<open>NotFound\<close> exactly when no entry is effective by then, and otherwise both sides of every layer
  hold the totals of all entries effective on or before the date.
\<close>

theorem cumulative_balance_is_ledger_sum:
  assumes "represents rows ledger" and "sorted (map fst (ledger (j, a, c)))" and "mt_accounts mt a = Some acc"
  shows "case effective_find_in_op mt rows j a c date of
      Inl e \<Rightarrow> e = NotFound j a c \<and> upto_date date (ledger (j, a, c)) = []
    | Inr b \<Rightarrow> upto_date date (ledger (j, a, c)) \<noteq> [] \<and>
        ab_balance_type b = ac_normal_balance_type acc \<and>
        (\<forall>dir l. base_amount dir l (Some (ab_details b)) =
           side_total dir l (map snd (upto_date date (ledger (j, a, c)))))"
  using joined_latest_shows[OF assms, of date] balance_shows_amount
  by (cases "joined_latest mt rows (j, a, c) (\<lambda>d. d \<le> date)")
    (auto simp: effective_find_in_op_def simp del: all_layer)

lemma cumulative_balance_is_ledger_sum_witness:
  "\<exists>rows. represents rows sample_ledger \<and>
     effective_find_in_op inline_accounts rows (JournalId 1) (AccountId 1) USD 9 = Inl (NotFound (JournalId 1) (AccountId 1) USD) \<and>
     (\<exists>b. effective_find_in_op inline_accounts rows (JournalId 1) (AccountId 1) USD 10 = Inr b \<and>
       base_amount Debit Settled (Some (ab_details b)) = 100)"
proof -
  obtain rows where rows: "represents rows sample_ledger" using sample_rows by blast
  have sorted: "sorted (map fst (sample_ledger (JournalId 1, AccountId 1, USD)))" by (simp add: sample_ledger_def)
  have acc: "mt_accounts inline_accounts (AccountId 1) = Some \<lparr> ac_normal_balance_type = Debit,
      ac_eventually_consistent = False, ac_is_account_set = False, ac_status = Active \<rparr>"
    by (simp add: inline_accounts_def)
  have upto: "upto_date 9 (sample_ledger (JournalId 1, AccountId 1, USD)) = []"
    "upto_date 10 (sample_ledger (JournalId 1, AccountId 1, USD)) = [(10, sample_entry 1 1 Debit 100)]"
    by (simp_all add: sample_ledger_def sample_key_def upto_date_def)
  show ?thesis
    using rows cumulative_balance_is_ledger_sum[OF rows sorted acc, of 9]
      cumulative_balance_is_ledger_sum[OF rows sorted acc, of 10]
    unfolding upto by (intro exI[of _ rows]) (auto split: sum.splits)
qed

lemma range_new_shows:
  assumes "case start of None \<Rightarrow> P = [] | Some s \<Rightarrow> balance_shows P (ab_details s)"
    and "balance_shows Q (ab_details close)"
    and "\<And>dir l. side_total dir l (map snd Q) = side_total dir l (map snd P) + side_total dir l (map snd M)"
  shows "base_amount dir l (Some (ab_details (br_open (balance_range_new start close v)))) = side_total dir l (map snd P)"
    and "base_amount dir l (Some (ab_details (br_period (balance_range_new start close v)))) = side_total dir l (map snd M)"
    and "base_amount dir l (Some (ab_details (br_close (balance_range_new start close v)))) = side_total dir l (map snd Q)"
proof -
  have zero: "base_amount dir l (Some (ab_details (br_open (balance_range_new None close v)))) = 0"
    by (cases dir; cases l) (simp_all add: base_amount_def balance_range_new_def zero_amount_def Let_def)
  have same: "br_open (balance_range_new (Some s) close v) = s" for s
    by (simp add: balance_range_new_def Let_def)
  show opened: "base_amount dir l (Some (ab_details (br_open (balance_range_new start close v)))) = side_total dir l (map snd P)"
    using assms(1) zero balance_shows_amount by (cases start) (simp_all add: same del: all_layer)
  show closed: "base_amount dir l (Some (ab_details (br_close (balance_range_new start close v)))) = side_total dir l (map snd Q)"
    using balance_shows_amount[OF assms(2)] by (auto simp: balance_range_new_def Let_def split: option.split)
  show "base_amount dir l (Some (ab_details (br_period (balance_range_new start close v)))) = side_total dir l (map snd M)"
    using range_new_amounts[OF refl, of start close v l] opened closed assms(3)[of dir l]
    by (cases dir) (auto simp: base_amount_def)
qed

text \<open>
  C32: A range query adds up the ledger. For a period with \<open>from \<le> until\<close> (today when no end is
  given), \<open>find_in_range\<close> fails exactly when no entry is effective by its end; otherwise the
  opening holds the totals before the period, the period those inside it, the closing those up
  to its end, and the version difference counts the entries of the period.
\<close>

theorem range_balance_is_ledger_sum:
  assumes "represents rows ledger" and "sorted (map fst (ledger (j, a, c)))" and "mt_accounts mt a = Some acc"
    and "start \<le> coalesce until today"
  shows "let L = ledger (j, a, c); stop = coalesce until today in
    case find_in_range mt rows today j a c start until of
      Inl e \<Rightarrow> e = NotFound j a c \<and> upto_date stop L = []
    | Inr r \<Rightarrow> upto_date stop L \<noteq> [] \<and>
        (\<forall>dir l. base_amount dir l (Some (ab_details (br_open r))) = side_total dir l (map snd (upto_date (start - 1) L)) \<and>
           base_amount dir l (Some (ab_details (br_period r))) = side_total dir l (map snd (between start stop L)) \<and>
           base_amount dir l (Some (ab_details (br_close r))) = side_total dir l (map snd (upto_date stop L))) \<and>
        bs_version (ab_details (br_period r)) = of_nat (length (between start stop L))"
proof -
  define L where "L = ledger (j, a, c)"
  define stop where "stop = coalesce until today"
  define first_row where "first_row = joined_latest mt rows (j, a, c) (\<lambda>d. d \<le> start - 1)"
  let ?last = "joined_latest mt rows (j, a, c) (\<lambda>d. d \<le> stop)"
  note first = joined_latest_shows[OF assms(1-3), of "start - 1", folded L_def first_row_def]
  note final = joined_latest_shows[OF assms(1-3), of stop, folded L_def]
  note sums = upto_between[OF assms(4), folded stop_def, where P = L]
  define fv where "fv = (case first_row of None \<Rightarrow> 0 | Some (_, v) \<Rightarrow> v)"
  have found: "find_in_range mt rows today j a c start until =
      (case ?last of None \<Rightarrow> Inl (NotFound j a c)
       | Some (close, v) \<Rightarrow> Inr (balance_range_new (map_option fst first_row) close (v - fv)))"
    unfolding find_in_range_def find_range_def Let_def before_date stop_def[symmetric] fv_def first_row_def
    by (cases ?last) (simp_all del: zle_diff1_eq add: case_prod_unfold)
  show ?thesis
  proof (cases ?last)
    case None
    then show ?thesis using final by (simp add: found Let_def flip: L_def stop_def)
  next
    case (Some cv)
    obtain close v where cv: "cv = (close, v)" by fastforce
    have close: "upto_date stop L \<noteq> []" "balance_shows (upto_date stop L) (ab_details close)"
      "v = of_nat (length (upto_date stop L))"
      using final Some by (simp_all add: cv)
    let ?r = "balance_range_new (map_option fst first_row) close (v - fv)"
    have fv: "fv = of_nat (length (upto_date (start - 1) L))" using first by (auto simp: fv_def split: option.splits)
    have "case map_option fst first_row of None \<Rightarrow> upto_date (start - 1) L = []
        | Some s \<Rightarrow> balance_shows (upto_date (start - 1) L) (ab_details s)"
      using first by (auto split: option.splits)
    note amounts = range_new_shows[OF this close(2) sums(1), of _ _ "v - fv"]
    have "bs_version (ab_details (br_period ?r)) = of_nat (length (between start stop L))"
      using sums(2) by (simp add: balance_range_new_def Let_def close(3) fv split: option.split)
    with close(1) amounts show ?thesis
      unfolding found Some cv option.case prod.case sum.case Let_def L_def[symmetric] stop_def[symmetric] by blast
  qed
qed

lemma range_balance_is_ledger_sum_witness:
  "\<exists>rows r. represents rows backdated_ledger \<and>
     find_in_range inline_accounts rows 20 (JournalId 1) (AccountId 1) USD 6 None = Inr r \<and>
     base_amount Credit Settled (Some (ab_details (br_open r))) = 30 \<and>
     base_amount Debit Settled (Some (ab_details (br_period r))) = 100 \<and>
     bs_version (ab_details (br_period r)) = 1"
proof -
  obtain rows0 where rows0: "represents rows0 sample_ledger" using sample_rows by blast
  have "\<exists>rows. represents rows backdated_ledger"
    using write_back_represents[OF rows0, of "[(AccountId 1, USD)]" "JournalId 1" 5
        "[(AccountId 1, sample_entry 2 1 Credit 30)]"] sample_ledgers_ok
    unfolding sample_posts_ledger by fastforce
  then obtain rows where rows: "represents rows backdated_ledger" by blast
  have sorted: "sorted (map fst (backdated_ledger (JournalId 1, AccountId 1, USD)))" by (simp add: backdated_ledger_def)
  have acc: "mt_accounts inline_accounts (AccountId 1) = Some \<lparr> ac_normal_balance_type = Debit,
      ac_eventually_consistent = False, ac_is_account_set = False, ac_status = Active \<rparr>"
    by (simp add: inline_accounts_def)
  have stop: "coalesce None 20 = (20 :: naive_date)" by (simp add: coalesce_def)
  have le: "6 \<le> coalesce None (20 :: naive_date)" by (simp add: stop)
  have L: "upto_date 20 (backdated_ledger (JournalId 1, AccountId 1, USD)) =
      [(5, sample_entry 2 1 Credit 30), (10, sample_entry 1 1 Debit 100)]"
    "upto_date (6 - 1) (backdated_ledger (JournalId 1, AccountId 1, USD)) = [(5, sample_entry 2 1 Credit 30)]"
    "between 6 20 (backdated_ledger (JournalId 1, AccountId 1, USD)) = [(10, sample_entry 1 1 Debit 100)]"
    by (simp_all add: backdated_ledger_def sample_key_def upto_date_def between_def)
  show ?thesis
    using rows range_balance_is_ledger_sum[OF rows sorted acc le] unfolding stop Let_def L
    by (intro exI[of _ rows]) (auto split: sum.splits)
qed

text \<open>
  C36: What the change feed returns. Following the end cursors of \<open>list_modified_since\<close> returns, for
  any page size, one snapshot for exactly the (account, currency, date) tuples of the journal
  that have a row written since the watermark, in key order, and each is the row of its tuple
  with the greatest all-time version among the rows written since. That row is the newest of its
  tuple overall exactly when a newest row of the tuple carries a time since the watermark.
\<close>

theorem modified_since_complete:
  assumes "table_ok rows" and "0 < n" and "length rows < m"
  shows "let listed = follow (list_modified_since rows j since n) m None;
             recent = filter (\<lambda>r. fst (er_key r) = j \<and> since \<le> er_updated_at r) rows;
             newest = (\<lambda>r. \<forall>q \<in> set rows. fst (er_key q) = j \<and> modified_columns q = modified_columns r \<longrightarrow>
               er_all_time_version q \<le> er_all_time_version r)
         in sorted_wrt (\<lambda>x y. (eb_account_id x, eb_currency x, eb_effective x) <
              (eb_account_id y, eb_currency y, eb_effective y)) listed \<and>
            (\<lambda>s. (eb_account_id s, eb_currency s, eb_effective s)) ` set listed = modified_columns ` set recent \<and>
            (\<forall>s \<in> set listed. \<exists>r \<in> set recent. s = er_values r \<and>
               (\<forall>q \<in> set recent. modified_columns q = modified_columns r \<longrightarrow> er_all_time_version q \<le> er_all_time_version r) \<and>
               (newest r \<longleftrightarrow> (\<exists>q \<in> set recent. modified_columns q = modified_columns r \<and> newest q)))"
proof -
  let ?recent = "filter (\<lambda>r. fst (er_key r) = j \<and> since \<le> er_updated_at r) rows"
  let ?newest = "\<lambda>r. \<forall>q \<in> set rows. fst (er_key q) = j \<and> modified_columns q = modified_columns r \<longrightarrow>
      er_all_time_version q \<le> er_all_time_version r"
  let ?listing = "modified_listing j since rows"
  have keys: "map (\<lambda>s. (eb_account_id s, eb_currency s, eb_effective s)) ?listing = sort_dedup (map modified_columns ?recent)"
    by (rule modified_listing_keys[OF assms(1)])
  have "length ?listing \<le> length rows"
    using arg_cong[OF keys, of length] length_sort_dedup[of "map modified_columns ?recent"] length_filter_le[of _ rows]
    by (metis (no_types, lifting) le_trans length_map)
  then have "follow (list_modified_since rows j since n) m None = ?listing"
    using assms by (intro modified.follow_all) auto
  moreover have "\<exists>r \<in> set ?recent. s = er_values r \<and>
      (\<forall>q \<in> set ?recent. modified_columns q = modified_columns r \<longrightarrow> er_all_time_version q \<le> er_all_time_version r) \<and>
      (?newest r \<longleftrightarrow> (\<exists>q \<in> set ?recent. modified_columns q = modified_columns r \<and> ?newest q))"
    if s: "s \<in> set ?listing" for s
  proof -
    from s obtain t where
      "map_option er_values (max_by er_all_time_version (filter (\<lambda>r. modified_columns r = t) ?recent)) = Some s"
      unfolding modified_listing_def Let_def set_map_filter_Some by blast
    then obtain r where r: "max_by er_all_time_version (filter (\<lambda>r. modified_columns r = t) ?recent) = Some r"
      "s = er_values r"
      unfolding map_option_eq_Some by blast
    from max_by_in[OF r(1)] max_by_max[OF r(1)] have top: "r \<in> set ?recent"
      "\<forall>q \<in> set ?recent. modified_columns q = modified_columns r \<longrightarrow> er_all_time_version q \<le> er_all_time_version r"
      by auto
    have "?newest r" if "q \<in> set ?recent" "modified_columns q = modified_columns r" "?newest q" for q
    proof (intro ballI impI)
      fix x assume "x \<in> set rows" and "fst (er_key x) = j \<and> modified_columns x = modified_columns r"
      then have "er_all_time_version x \<le> er_all_time_version q" using that(2,3) by simp
      also have "\<dots> \<le> er_all_time_version r" using top(2) that(1,2) by blast
      finally show "er_all_time_version x \<le> er_all_time_version r" .
    qed
    with top have "?newest r \<longleftrightarrow> (\<exists>q \<in> set ?recent. modified_columns q = modified_columns r \<and> ?newest q)" by blast
    with top r(2) show ?thesis by blast
  qed
  ultimately show ?thesis
    using modified_listing_sorted[OF assms(1), of j since] arg_cong[OF keys, of set] by (simp add: Let_def)
qed

definition modified_row :: "uuid \<Rightarrow> int \<Rightarrow> date_time \<Rightarrow> int effective_row" where
  "modified_row acc version updated =
     (let b = new_snapshot updated (AccountId acc) (sample_entry 1 acc Debit 100)
      in effective_row_of (JournalId 1) \<lparr> eb_journal_id = JournalId 1, eb_account_id = AccountId acc, eb_currency = USD,
           eb_effective = 10, eb_version = word_of_int version, eb_all_time_version = word_of_int version,
           eb_created_at = updated, eb_modified_at = updated, eb_entry_id = EntryId 1, eb_settled = bs_settled b,
           eb_pending = bs_pending b, eb_encumbrance = bs_encumbrance b \<rparr>)"

lemma modified_since_complete_witness:
  "(\<lambda>s. (eb_account_id s, eb_currency s, eb_effective s)) `
     set (follow (list_modified_since [modified_row 1 1 3, modified_row 2 1 5, modified_row 2 2 7] (JournalId 1) 4 1) 4 None) =
   {(AccountId 2, USD, 10)}"
proof -
  let ?rows = "[modified_row 1 1 3, modified_row 2 1 5, modified_row 2 2 7]"
  have "table_ok ?rows"
    by (simp add: table_ok_def modified_row_def Let_def effective_row_of_def row_details_def as_balance_snapshot_def
        snapshot_id_def modified_columns_def)
  then show ?thesis
    using modified_since_complete[of ?rows 1 4 "JournalId 1" 4]
    by (simp add: Let_def modified_row_def effective_row_of_def modified_columns_def)
qed

text \<open>
  A posting that began earlier but took its locks later writes the higher version with the lower
  time; a watermark between the two returns the older row.
\<close>

lemma change_feed_returns_older_row:
  "map eb_all_time_version (follow (list_modified_since [modified_row 2 1 7, modified_row 2 2 5] (JournalId 1) 6 1) 3 None) = [1]"
  by code_simp

lemma traverse_elem: "traverse f xs = Some ys \<Longrightarrow> y \<in> set ys \<Longrightarrow> \<exists>x \<in> set xs. f x = Some y"
  by (induction xs arbitrary: ys) (auto split: bind_splits)

lemma into_effective_journal:
  "into_effective_snapshots data j = Some ss \<Longrightarrow> s \<in> set ss \<Longrightarrow> eb_journal_id s = j"
proof -
  assume ss: "into_effective_snapshots data j = Some ss" and s: "s \<in> set ss"
  then have none: "\<not> (\<exists>u \<in> set (ed_updates data). is_entry u)"
    by (auto simp: into_effective_snapshots_def split: if_splits)
  have "s \<in> set (map (\<lambda>(idx, u). case u of Snapshot effective snapshot \<Rightarrow> new_effective data j idx effective snapshot)
      (enumerate 0 (ed_updates data)))"
    using ss s none unfolding into_effective_snapshots_def new_effective_def by simp
  then obtain idx u where "(idx, u) \<in> set (enumerate 0 (ed_updates data))"
    "s = (case u of Snapshot effective snapshot \<Rightarrow> new_effective data j idx effective snapshot)"
    by auto
  moreover from this none have "\<not> is_entry u" by (auto simp: in_set_enumerate_eq)
  ultimately show "eb_journal_id s = j" by (cases u) (simp_all add: new_effective_def)
qed

lemma write_back_table_ok:
  assumes "table_ok rows" and "write_back rows j t all_data = Some (Inr rows')"
  shows "table_ok rows'"
proof -
  obtain new where new: "\<And>ss s. ss \<in> set new \<Longrightarrow> s \<in> set ss \<Longrightarrow> eb_journal_id s = j"
    "rows' = rows @ map (effective_row_of j) (concat new)"
    using assms(2) into_effective_journal
    by (fastforce simp: write_back_def insert_effective_snapshots_def Let_def split: bind_splits if_splits dest: traverse_elem)
  have "eb_journal_id s = j \<Longrightarrow> table_ok [effective_row_of j s]" for s :: "'a effective_balance_snapshot"
    by (simp add: table_ok_def effective_row_of_def row_details_def as_balance_snapshot_def snapshot_id_def modified_columns_def)
  then show ?thesis using assms(1) new by (auto simp: table_ok_def)
qed

text \<open>
  The columns of a row agree with the snapshot it stores, through every inline posting and
  every eventually consistent rollup; the listings rely on it.
\<close>

theorem effective_rows_agree:
  assumes "table_ok rows"
  shows "(update_cumulative_balances_in_op mt rows journal entries date time mappings balance_ids = Some (Inr rows') \<longrightarrow>
      table_ok rows') \<and>
    (effective_apply_ec_rollup_in_op mt rows journal entries date time mappings balance_ids leaves = Some (Inr rows') \<longrightarrow>
      table_ok rows')"
proof -
  have remaining: "table_ok (fst (take_future rows journal pairs date))" for pairs
    using assms by (auto simp: table_ok_def take_future_def Let_def)
  show ?thesis
    using write_back_table_ok[OF remaining]
    by (auto simp: inline_driver ec_driver find_for_update_def find_ec_for_update_def case_prod_unfold Let_def)
qed

lemma effective_rows_agree_witness:
  "\<exists>rows'. update_cumulative_balances_in_op inline_accounts [] (JournalId 1) [sample_entry 1 1 Debit 100] 10 7
     Map.empty [(AccountId 1, USD)] = Some (Inr rows') \<and> table_ok rows'"
proof -
  have "leaf_posts Map.empty [sample_entry 1 1 Debit 100] = [(AccountId 1, sample_entry 1 1 Debit 100)]"
    by (simp add: leaf_posts_def)
  then obtain rows' where "update_cumulative_balances_in_op inline_accounts [] (JournalId 1) [sample_entry 1 1 Debit 100] 10 7
     Map.empty [(AccountId 1, USD)] = Some (Inr rows')"
    using write_back_represents[OF represents_empty, of "[(AccountId 1, USD)]" "JournalId 1" 10
      "[(AccountId 1, sample_entry 1 1 Debit 100)]" 7] sample_ledgers_ok
    unfolding sample_posts_ledger by (fastforce simp: inline_driver find_for_update_def sample_eligible case_prod_unfold)
  moreover have "table_ok ([] :: int effective_row list)" by (simp add: table_ok_def)
  ultimately show ?thesis using effective_rows_agree[of "[]"] by blast
qed

end
