(* ===== verification/Cel.thy ===== *)
theory Cel imports Primitives begin

text \<open>
  The expression layer (\<open>cala-cel-interpreter\<close>): values and their conversions to and from the
  \<open>cel\<close> crate, the builtins registered with it, contexts, and evaluation with coercion of the
  result. What the code takes from other crates (parsing and printing of decimals, dates, UUIDs
  and floats, checked decimal arithmetic, the CEL engine itself) are the fields of \<open>cel_lib\<close> and
  the parameter \<open>execute\<close>. A \<open>HashMap\<close> is an association list with distinct keys.
\<close>

section \<open>Values\<close>

datatype cel_key = KInt "64 word" | KUInt "64 word" | KBool bool | KString string

datatype 'd cel_value =
    CMap "(cel_key \<times> 'd cel_value) list"
  | CList "'d cel_value list"
  | CInt "64 word"
  | CUInt "64 word"
  | CDouble "64 word"
  | CString string
  | CBytes "8 word list"
  | CBool bool
  | CNull
  | CDecimal 'd
  | CDate naive_date
  | CTimestamp date_time
  | CUuid uuid

datatype cel_type =
    TMap | TList | TInt | TUInt | TDouble | TString | TBytes | TBool | TNull
  | TDate | TTimestamp | TUuid | TDecimal

text \<open>
  \<open>cel::objects::Value\<close>, as far as the code names it. A timestamp is an instant with the offset
  of its zone, in the unit of instants. The opaque wrappers \<open>CelDecimal\<close> and \<open>CelUuid\<close> are the
  constructors \<open>VDecimal\<close> and \<open>VUuid\<close>; \<open>VOpaque\<close> is an opaque value of another runtime type.
\<close>

datatype 'd val =
    VMap "(cel_key \<times> 'd val) list"
  | VList "'d val list"
  | VInt "64 word"
  | VUInt "64 word"
  | VFloat "64 word"
  | VString string
  | VBytes "8 word list"
  | VBool bool
  | VDuration int
  | VTimestamp date_time int
  | VDecimal 'd
  | VUuid uuid
  | VOpaque string
  | VNull
  | VFunction

datatype result_coercion_error =
    BadCoreTypeCoercion string cel_type cel_type
  | BadExternalTypeCoercion string cel_type string
  | ExternalTypeCoercionError string string string string

datatype execution_error =
    UndeclaredReference string
  | NoSuchKey string
  | NoSuchOverload
  | InvalidArgumentCount nat nat
  | FunctionError string string
  | OtherError string

datatype cel_error =
    CelParseError string
  | BadType cel_type cel_type
  | UnknownIdent string
  | UnknownPackage string
  | UnknownAttribute cel_type string
  | IllegalTarget
  | MissingArgument
  | WrongArgumentType cel_type cel_type
  | ChronoParseError string
  | UuidError string
  | DecimalError string
  | TimestampError string
  | NoMatchingOverload string
  | Unexpected string
  | CoercionError result_coercion_error
  | EvaluationError string cel_error

text \<open>An error of a parser of another crate, by its two printed forms.\<close>

datatype parse_error = ParseError (error_display: string) (error_debug: string)

record 'd cel_lib =
  lib_parse_decimal :: "string \<Rightarrow> parse_error + 'd"
  lib_show_decimal :: "'d \<Rightarrow> string"
  lib_decimal_of_int :: "int \<Rightarrow> 'd"
  lib_checked_add :: "'d \<Rightarrow> 'd \<Rightarrow> 'd option"
  lib_checked_sub :: "'d \<Rightarrow> 'd \<Rightarrow> 'd option"
  lib_checked_mul :: "'d \<Rightarrow> 'd \<Rightarrow> 'd option"
  lib_parse_uuid :: "string \<Rightarrow> parse_error + uuid"
  lib_show_uuid :: "uuid \<Rightarrow> string"
  lib_parse_date_format :: "string \<Rightarrow> string \<Rightarrow> parse_error + naive_date"
  lib_parse_date :: "string \<Rightarrow> parse_error + naive_date"
  lib_show_date :: "naive_date \<Rightarrow> string"
  lib_date_of :: "date_time \<Rightarrow> naive_date"
  lib_midnight :: "naive_date \<Rightarrow> date_time"
  lib_rfc3339 :: "date_time \<Rightarrow> string"
  lib_format_time :: "string \<Rightarrow> date_time \<Rightarrow> string option"
  lib_show_double :: "64 word \<Rightarrow> string"
  lib_show_duration :: "int \<Rightarrow> string"
  lib_debug_string :: "string \<Rightarrow> string"
  lib_debug_val :: "'d val \<Rightarrow> string"
  lib_debug_value :: "'d cel_value \<Rightarrow> string"
  lib_debug_key :: "cel_key \<Rightarrow> string"

fun cel_type_of :: "'d cel_value \<Rightarrow> cel_type" where
  "cel_type_of (CMap _) = TMap"
| "cel_type_of (CList _) = TList"
| "cel_type_of (CInt _) = TInt"
| "cel_type_of (CUInt _) = TUInt"
| "cel_type_of (CDouble _) = TDouble"
| "cel_type_of (CString _) = TString"
| "cel_type_of (CBytes _) = TBytes"
| "cel_type_of (CBool _) = TBool"
| "cel_type_of CNull = TNull"
| "cel_type_of (CDecimal _) = TDecimal"
| "cel_type_of (CDate _) = TDate"
| "cel_type_of (CUuid _) = TUuid"
| "cel_type_of (CTimestamp _) = TTimestamp"

fun key_type_of :: "cel_key \<Rightarrow> cel_type" where
  "key_type_of (KInt _) = TInt"
| "key_type_of (KUInt _) = TUInt"
| "key_type_of (KBool _) = TBool"
| "key_type_of (KString _) = TString"

text \<open>\<open>CelMap\<close>: \<open>insert\<close>, \<open>get\<close>, \<open>contains_key\<close> with string keys.\<close>

definition cel_map_insert :: "string \<Rightarrow> 'd cel_value \<Rightarrow> (cel_key \<times> 'd cel_value) list \<Rightarrow> (cel_key \<times> 'd cel_value) list" where
  "cel_map_insert k v m = upsert (KString k) (\<lambda>_. v) m"

definition cel_map_get :: "(cel_key \<times> 'd cel_value) list \<Rightarrow> string \<Rightarrow> 'd cel_value" where
  "cel_map_get m k = (case map_of m (KString k) of None \<Rightarrow> CNull | Some v \<Rightarrow> v)"

definition cel_map_contains :: "(cel_key \<times> 'd cel_value) list \<Rightarrow> string \<Rightarrow> bool" where
  "cel_map_contains m k = (map_of m (KString k) \<noteq> None)"

section \<open>Conversions\<close>

fun into_cel_value :: "'d cel_lib \<Rightarrow> 'd cel_value \<Rightarrow> 'd val"
  and into_cel_entries :: "'d cel_lib \<Rightarrow> (cel_key \<times> 'd cel_value) list \<Rightarrow> (cel_key \<times> 'd val) list"
  and into_cel_list :: "'d cel_lib \<Rightarrow> 'd cel_value list \<Rightarrow> 'd val list" where
  "into_cel_value lib (CMap m) = VMap (into_cel_entries lib m)"
| "into_cel_value lib (CList a) = VList (into_cel_list lib a)"
| "into_cel_value lib (CInt i) = VInt i"
| "into_cel_value lib (CUInt u) = VUInt u"
| "into_cel_value lib (CDouble d) = VFloat d"
| "into_cel_value lib (CString s) = VString s"
| "into_cel_value lib (CBytes b) = VBytes b"
| "into_cel_value lib (CBool b) = VBool b"
| "into_cel_value lib CNull = VNull"
| "into_cel_value lib (CDecimal d) = VDecimal d"
| "into_cel_value lib (CDate d) = VTimestamp (lib_midnight lib d) 0"
| "into_cel_value lib (CTimestamp ts) = VTimestamp ts 0"
| "into_cel_value lib (CUuid u) = VUuid u"
| "into_cel_entries lib [] = []"
| "into_cel_entries lib ((k, v) # m) = (k, into_cel_value lib v) # into_cel_entries lib m"
| "into_cel_list lib [] = []"
| "into_cel_list lib (v # a) = into_cel_value lib v # into_cel_list lib a"

fun from_cel_value :: "'d cel_lib \<Rightarrow> 'd val \<Rightarrow> cel_error + 'd cel_value"
  and from_cel_entries :: "'d cel_lib \<Rightarrow> (cel_key \<times> 'd val) list \<Rightarrow> cel_error + (cel_key \<times> 'd cel_value) list"
  and from_cel_list :: "'d cel_lib \<Rightarrow> 'd val list \<Rightarrow> cel_error + 'd cel_value list" where
  "from_cel_value lib (VMap m) = rmap CMap (from_cel_entries lib m)"
| "from_cel_value lib (VList a) = rmap CList (from_cel_list lib a)"
| "from_cel_value lib (VInt i) = Inr (CInt i)"
| "from_cel_value lib (VUInt u) = Inr (CUInt u)"
| "from_cel_value lib (VFloat f) = Inr (CDouble f)"
| "from_cel_value lib (VString s) = Inr (CString s)"
| "from_cel_value lib (VBytes b) = Inr (CBytes b)"
| "from_cel_value lib (VBool b) = Inr (CBool b)"
| "from_cel_value lib (VDuration d) = Inr (CString (lib_show_duration lib d))"
| "from_cel_value lib (VTimestamp ts off) = Inr (CTimestamp ts)"
| "from_cel_value lib (VDecimal d) = Inr (CDecimal d)"
| "from_cel_value lib (VUuid u) = Inr (CUuid u)"
| "from_cel_value lib (VOpaque n) = Inl (Unexpected (''Unsupported opaque value '' @ n))"
| "from_cel_value lib VNull = Inr CNull"
| "from_cel_value lib VFunction = Inl (Unexpected ''Cannot convert function value'')"
| "from_cel_entries lib [] = Inr []"
| "from_cel_entries lib ((k, v) # m) =
     rbind (from_cel_value lib v) (\<lambda>v. rbind (from_cel_entries lib m) (\<lambda>m. Inr ((k, v) # m)))"
| "from_cel_list lib [] = Inr []"
| "from_cel_list lib (v # a) =
     rbind (from_cel_value lib v) (\<lambda>v. rbind (from_cel_list lib a) (\<lambda>a. Inr (v # a)))"

text \<open>\<open>serde_json\<close>: an object keeps its keys sorted; \<open>insert\<close> replaces the value of a key.\<close>

fun json_insert :: "string \<Rightarrow> json \<Rightarrow> (string \<times> json) list \<Rightarrow> (string \<times> json) list" where
  "json_insert k v [] = [(k, v)]"
| "json_insert k v ((k', v') # m) =
     (if k = k' then (k, v) # m
      else if k < k' then (k, v) # (k', v') # m
      else (k', v') # json_insert k v m)"

fun from_json :: "json \<Rightarrow> 'd cel_value"
  and from_json_members :: "(string \<times> json) list \<Rightarrow> (cel_key \<times> 'd cel_value) list"
  and from_json_list :: "json list \<Rightarrow> 'd cel_value list" where
  "from_json JNull = CNull"
| "from_json (JBool b) = CBool b"
| "from_json (JNumber (PosInt n)) = CUInt n"
| "from_json (JNumber (NegInt n)) = CInt n"
| "from_json (JNumber (Float f)) = CDouble f"
| "from_json (JString s) = CString s"
| "from_json (JObject m) = CMap (from_json_members m)"
| "from_json (JArray a) = CList (from_json_list a)"
| "from_json_members [] = []"
| "from_json_members ((k, v) # m) = (KString k, from_json v) # from_json_members m"
| "from_json_list [] = []"
| "from_json_list (v # a) = from_json v # from_json_list a"

fun key_to_string :: "'d cel_lib \<Rightarrow> cel_key \<Rightarrow> result_coercion_error + string" where
  "key_to_string lib (KString s) = Inr s"
| "key_to_string lib k = Inl (BadCoreTypeCoercion (lib_debug_key lib k) (key_type_of k) TString)"

definition json_of_i64 :: "64 word \<Rightarrow> json" where
  "json_of_i64 n = JNumber (if sint n < 0 then NegInt n else PosInt n)"

fun to_json :: "'d cel_lib \<Rightarrow> string \<Rightarrow> 'd cel_value \<Rightarrow> result_coercion_error + json"
  and to_json_members :: "'d cel_lib \<Rightarrow> string \<Rightarrow> (cel_key \<times> 'd cel_value) list \<Rightarrow> (string \<times> json) list
        \<Rightarrow> result_coercion_error + (string \<times> json) list"
  and to_json_list :: "'d cel_lib \<Rightarrow> string \<Rightarrow> 'd cel_value list \<Rightarrow> result_coercion_error + json list" where
  "to_json lib expr (CInt n) = Inr (json_of_i64 n)"
| "to_json lib expr (CUInt n) = Inr (JNumber (PosInt n))"
| "to_json lib expr (CDouble n) = Inr (JString (lib_show_double lib n))"
| "to_json lib expr (CBool b) = Inr (JBool b)"
| "to_json lib expr (CString s) = Inr (JString s)"
| "to_json lib expr CNull = Inr JNull"
| "to_json lib expr (CDate d) = Inr (JString (lib_show_date lib d))"
| "to_json lib expr (CTimestamp d) = Inr (JString (lib_rfc3339 lib d))"
| "to_json lib expr (CUuid u) = Inr (JString (lib_show_uuid lib u))"
| "to_json lib expr (CMap m) = rmap JObject (to_json_members lib expr m [])"
| "to_json lib expr (CList a) = rmap JArray (to_json_list lib expr a)"
| "to_json lib expr (CDecimal d) = Inr (JString (lib_show_decimal lib d))"
| "to_json lib expr (CBytes b) = Inl (BadExternalTypeCoercion expr TBytes ''serde_json::Value'')"
| "to_json_members lib expr [] res = Inr res"
| "to_json_members lib expr ((k, v) # m) res =
     rbind (key_to_string lib k) (\<lambda>key.
       rbind (to_json lib expr v) (\<lambda>value. to_json_members lib expr m (json_insert key value res)))"
| "to_json_list lib expr [] = Inr []"
| "to_json_list lib expr (v # a) =
     rbind (to_json lib expr v) (\<lambda>v. rbind (to_json_list lib expr a) (\<lambda>a. Inr (v # a)))"

section \<open>Coercion of results\<close>

text \<open>The \<open>TryFrom<CelResult>\<close> implementations; \<open>expr\<close> is the source of the expression.\<close>

fun coerce_bool :: "'d cel_lib \<Rightarrow> string \<Rightarrow> 'd cel_value \<Rightarrow> result_coercion_error + bool" where
  "coerce_bool lib expr (CBool b) = Inr b"
| "coerce_bool lib expr v = Inl (BadCoreTypeCoercion (lib_debug_string lib expr) (cel_type_of v) TBool)"

fun coerce_date :: "'d cel_lib \<Rightarrow> string \<Rightarrow> 'd cel_value \<Rightarrow> result_coercion_error + naive_date" where
  "coerce_date lib expr (CDate d) = Inr d"
| "coerce_date lib expr (CTimestamp ts) = Inr (lib_date_of lib ts)"
| "coerce_date lib expr v = Inl (BadCoreTypeCoercion expr (cel_type_of v) TDate)"

fun coerce_timestamp :: "string \<Rightarrow> 'd cel_value \<Rightarrow> result_coercion_error + date_time" where
  "coerce_timestamp expr (CTimestamp d) = Inr d"
| "coerce_timestamp expr v = Inl (BadCoreTypeCoercion expr (cel_type_of v) TTimestamp)"

fun coerce_uuid :: "string \<Rightarrow> 'd cel_value \<Rightarrow> result_coercion_error + uuid" where
  "coerce_uuid expr (CUuid u) = Inr u"
| "coerce_uuid expr v = Inl (BadCoreTypeCoercion expr (cel_type_of v) TUuid)"

fun coerce_string :: "string \<Rightarrow> 'd cel_value \<Rightarrow> result_coercion_error + string" where
  "coerce_string expr (CString s) = Inr s"
| "coerce_string expr v = Inl (BadCoreTypeCoercion expr (cel_type_of v) TString)"

fun coerce_decimal :: "string \<Rightarrow> 'd cel_value \<Rightarrow> result_coercion_error + 'd" where
  "coerce_decimal expr (CDecimal n) = Inr n"
| "coerce_decimal expr v = Inl (BadCoreTypeCoercion expr (cel_type_of v) TDecimal)"

definition coerce_direction :: "'d cel_lib \<Rightarrow> string \<Rightarrow> 'd cel_value \<Rightarrow> result_coercion_error + debit_or_credit" where
  "coerce_direction lib expr v =
     (if v = CString ''DEBIT'' then Inr Debit
      else if v = CString ''CREDIT'' then Inr Credit
      else Inl (BadExternalTypeCoercion (lib_debug_string lib expr) (cel_type_of v) ''DebitOrCredit''))"

definition coerce_layer :: "'d cel_lib \<Rightarrow> string \<Rightarrow> 'd cel_value \<Rightarrow> result_coercion_error + layer" where
  "coerce_layer lib expr v =
     (if v = CString ''SETTLED'' then Inr Settled
      else if v = CString ''PENDING'' then Inr Pending
      else if v = CString ''ENCUMBRANCE'' then Inr Encumbrance
      else Inl (BadExternalTypeCoercion (lib_debug_string lib expr) (cel_type_of v) ''Layer''))"

fun cel_of_direction :: "debit_or_credit \<Rightarrow> 'd cel_value" where
  "cel_of_direction Debit = CString ''DEBIT''"
| "cel_of_direction Credit = CString ''CREDIT''"

fun cel_of_layer :: "layer \<Rightarrow> 'd cel_value" where
  "cel_of_layer Settled = CString ''SETTLED''"
| "cel_of_layer Pending = CString ''PENDING''"
| "cel_of_layer Encumbrance = CString ''ENCUMBRANCE''"

definition cel_of_currency :: "currency \<Rightarrow> 'd cel_value" where
  "cel_of_currency c = CString (code c)"

section \<open>Builtins\<close>

definition map_parse :: "string \<Rightarrow> parse_error + 'a \<Rightarrow> execution_error + 'a" where
  "map_parse f r = map_err (\<lambda>e. FunctionError f (error_debug e)) r"

text \<open>The date of an instant in the zone of a timestamp.\<close>

definition local_date :: "'d cel_lib \<Rightarrow> date_time \<Rightarrow> int \<Rightarrow> naive_date" where
  "local_date lib ts off = lib_date_of lib (ts + off)"

fun builtin_date :: "'d cel_lib \<Rightarrow> date_time \<Rightarrow> 'd val list \<Rightarrow> execution_error + 'd val" where
  "builtin_date lib now args =
     rmap (\<lambda>d. VTimestamp (lib_midnight lib d) 0)
       (case args of
          [] \<Rightarrow> Inr (lib_date_of lib now)
        | [VString s] \<Rightarrow> map_err (\<lambda>e. FunctionError ''date'' (error_display e)) (lib_parse_date_format lib ''%Y-%m-%d'' s)
        | [VTimestamp ts off] \<Rightarrow> Inr (local_date lib ts off)
        | [v] \<Rightarrow> Inl (FunctionError ''date'' (''cannot convert '' @ lib_debug_val lib v @ '' to date''))
        | values \<Rightarrow> Inl (InvalidArgumentCount 1 (length values)))"

fun builtin_uuid :: "'d cel_lib \<Rightarrow> 'd val list \<Rightarrow> execution_error + 'd val" where
  "builtin_uuid lib args =
     (case args of
        [VString s] \<Rightarrow> rmap VUuid (map_parse ''uuid'' (lib_parse_uuid lib s))
      | [v] \<Rightarrow> Inl (FunctionError ''uuid'' (''cannot convert '' @ lib_debug_val lib v @ '' to uuid''))
      | values \<Rightarrow> Inl (InvalidArgumentCount 1 (length values)))"

fun decimal_from_value :: "'d cel_lib \<Rightarrow> 'd val \<Rightarrow> execution_error + 'd" where
  "decimal_from_value lib (VDecimal d) = Inr d"
| "decimal_from_value lib (VString s) = map_parse ''decimal'' (lib_parse_decimal lib s)"
| "decimal_from_value lib (VInt i) = Inr (lib_decimal_of_int lib (sint i))"
| "decimal_from_value lib (VUInt u) = Inr (lib_decimal_of_int lib (uint u))"
| "decimal_from_value lib v = Inl (FunctionError ''decimal'' (''cannot convert '' @ lib_debug_val lib v @ '' to decimal''))"

fun builtin_decimal :: "'d cel_lib \<Rightarrow> 'd val list \<Rightarrow> execution_error + 'd val" where
  "builtin_decimal lib args =
     (case args of
        [v] \<Rightarrow> rmap VDecimal (decimal_from_value lib v)
      | values \<Rightarrow> Inl (InvalidArgumentCount 1 (length values)))"

fun decimal_binary_args :: "'d cel_lib \<Rightarrow> 'd val list \<Rightarrow> execution_error + 'd \<times> 'd" where
  "decimal_binary_args lib [left, right] =
     rbind (decimal_from_value lib left) (\<lambda>l. rbind (decimal_from_value lib right) (\<lambda>r. Inr (l, r)))"
| "decimal_binary_args lib values = Inl (InvalidArgumentCount 2 (length values))"

definition decimal_op ::
  "'d cel_lib \<Rightarrow> string \<Rightarrow> ('d \<Rightarrow> 'd \<Rightarrow> 'd option) \<Rightarrow> 'd val list \<Rightarrow> execution_error + 'd val" where
  "decimal_op lib name op args =
     rbind (decimal_binary_args lib args) (\<lambda>(l, r).
       rmap VDecimal (ok_or (FunctionError name ''overflow'') (op l r)))"

definition decimal_add :: "'d cel_lib \<Rightarrow> 'd val list \<Rightarrow> execution_error + 'd val" where
  "decimal_add lib = decimal_op lib ''decimal.Add'' (lib_checked_add lib)"

definition decimal_sub :: "'d cel_lib \<Rightarrow> 'd val list \<Rightarrow> execution_error + 'd val" where
  "decimal_sub lib = decimal_op lib ''decimal.Sub'' (lib_checked_sub lib)"

definition decimal_mul :: "'d cel_lib \<Rightarrow> 'd val list \<Rightarrow> execution_error + 'd val" where
  "decimal_mul lib = decimal_op lib ''decimal.Mul'' (lib_checked_mul lib)"

definition decimal_cmp :: "'d::linorder cel_lib \<Rightarrow> 'd val list \<Rightarrow> execution_error + 'd val" where
  "decimal_cmp lib args =
     rbind (decimal_binary_args lib args) (\<lambda>(l, r).
       Inr (VInt (if l < r then - 1 else if l = r then 0 else 1)))"

fun timestamp_format :: "'d cel_lib \<Rightarrow> 'd val \<Rightarrow> string \<Rightarrow> execution_error + 'd val" where
  "timestamp_format lib (VTimestamp ts off) format =
     rmap VString (ok_or (FunctionError ''format'' (''invalid timestamp format string: '' @ [CHR 39] @ format @ [CHR 39]))
       (lib_format_time lib format ts))"
| "timestamp_format lib v format =
     Inl (FunctionError ''format'' (''cannot format '' @ lib_debug_val lib v @ '' as timestamp''))"

section \<open>Contexts and evaluation\<close>

text \<open>
  A context holds the variables, the latest binding of a name first, and the clock the builtins
  read. The functions registered by \<open>new_with_clock\<close> are the same in every context.
\<close>

record 'd cel_context =
  ctx_vars :: "(string \<times> 'd val) list"
  ctx_clock :: date_time

definition new_with_clock :: "date_time \<Rightarrow> 'd cel_context" where
  "new_with_clock now = \<lparr> ctx_vars = [], ctx_clock = now \<rparr>"

definition add_variable :: "'d cel_lib \<Rightarrow> string \<Rightarrow> 'd cel_value \<Rightarrow> 'd cel_context \<Rightarrow> 'd cel_context" where
  "add_variable lib name value ctx = ctx \<lparr> ctx_vars := (name, into_cel_value lib value) # ctx_vars ctx \<rparr>"

definition initialize :: "'d cel_lib \<Rightarrow> date_time \<Rightarrow> 'd cel_context" where
  "initialize lib now =
     foldl (\<lambda>ctx name. add_variable lib name (CString name) ctx) (new_with_clock now)
       [''SETTLED'', ''PENDING'', ''ENCUMBRANCE'', ''DEBIT'', ''CREDIT'']"

datatype 'd registered =
    Builtin "'d val list \<Rightarrow> execution_error + 'd val"
  | MethodOnThis "'d val \<Rightarrow> string \<Rightarrow> execution_error + 'd val"

definition registered_functions :: "'d::linorder cel_lib \<Rightarrow> date_time \<Rightarrow> string \<Rightarrow> 'd registered option" where
  "registered_functions lib now =
     [''date'' \<mapsto> Builtin (builtin_date lib now),
      ''uuid'' \<mapsto> Builtin (builtin_uuid lib),
      ''decimal'' \<mapsto> Builtin (builtin_decimal lib),
      ''decimal.Add'' \<mapsto> Builtin (decimal_add lib),
      ''decimal.Sub'' \<mapsto> Builtin (decimal_sub lib),
      ''decimal.Mul'' \<mapsto> Builtin (decimal_mul lib),
      ''decimal.Cmp'' \<mapsto> Builtin (decimal_cmp lib),
      ''format'' \<mapsto> MethodOnThis (timestamp_format lib)]"

fun from_execution_error :: "(execution_error \<Rightarrow> string) \<Rightarrow> execution_error \<Rightarrow> cel_error" where
  "from_execution_error show (UndeclaredReference name) = UnknownIdent name"
| "from_execution_error show (NoSuchKey name) = UnknownIdent name"
| "from_execution_error show NoSuchOverload = NoMatchingOverload ''No such overload''"
| "from_execution_error show (InvalidArgumentCount _ _) = MissingArgument"
| "from_execution_error show (FunctionError f msg) = Unexpected (f @ '': '' @ msg)"
| "from_execution_error show e = Unexpected (show e)"

text \<open>
  A compiled program is determined by its source, so a \<open>CelExpression\<close> is the source of one that
  compiled. \<open>env_compile\<close> is \<open>Program::compile\<close> (the message of a rejected source), whose results
  the code memoizes; \<open>env_execute\<close> is \<open>Program::execute\<close>, given the variables and the registered
  functions of the context; \<open>env_show\<close> and \<open>env_show_error\<close> are the \<open>Display\<close> forms of the errors.
\<close>

type_synonym cel_expression = string

type_synonym 'd engine =
  "string \<Rightarrow> (string \<times> 'd val) list \<Rightarrow> (string \<Rightarrow> 'd registered option) \<Rightarrow> execution_error + 'd val"

record 'd cel_env =
  env_lib :: "'d cel_lib"
  env_compile :: "string \<Rightarrow> string option"
  env_execute :: "'d engine"
  env_show_error :: "execution_error \<Rightarrow> string"
  env_show :: "cel_error \<Rightarrow> string"

definition cel_expression_try_from :: "'d cel_env \<Rightarrow> string \<Rightarrow> cel_error + cel_expression" where
  "cel_expression_try_from env source =
     (case env_compile env source of None \<Rightarrow> Inr source | Some e \<Rightarrow> Inl (CelParseError e))"

definition evaluate :: "'d::linorder cel_env \<Rightarrow> 'd cel_context \<Rightarrow> cel_expression \<Rightarrow> cel_error + 'd cel_value" where
  "evaluate env ctx source =
     rbind (map_err (\<lambda>e. EvaluationError source (from_execution_error (env_show_error env) e))
              (env_execute env source (ctx_vars ctx) (registered_functions (env_lib env) (ctx_clock ctx))))
       (from_cel_value (env_lib env))"

definition try_evaluate ::
  "'d::linorder cel_env \<Rightarrow> 'd cel_context \<Rightarrow> (string \<Rightarrow> 'd cel_value \<Rightarrow> result_coercion_error + 'a)
     \<Rightarrow> cel_expression \<Rightarrow> cel_error + 'a" where
  "try_evaluate env ctx coerce source =
     rbind (evaluate env ctx source) (\<lambda>res. map_err CoercionError (coerce source res))"

section \<open>Round trips\<close>

text \<open>What a value becomes on its way through the engine: a date comes back as its midnight.\<close>

fun midnight_dates :: "'d cel_lib \<Rightarrow> 'd cel_value \<Rightarrow> 'd cel_value" where
  "midnight_dates lib (CMap m) = CMap (map (\<lambda>(k, v). (k, midnight_dates lib v)) m)"
| "midnight_dates lib (CList a) = CList (map (midnight_dates lib) a)"
| "midnight_dates lib (CDate d) = CTimestamp (lib_midnight lib d)"
| "midnight_dates lib v = v"

lemma from_into_cel:
  "from_cel_value lib (into_cel_value lib v) = Inr (midnight_dates lib v)"
  "from_cel_entries lib (into_cel_entries lib m) = Inr (map (\<lambda>(k, v). (k, midnight_dates lib v)) m)"
  "from_cel_list lib (into_cel_list lib a) = Inr (map (midnight_dates lib) a)"
  by (induction v and m and a rule: into_cel_value_into_cel_entries_into_cel_list.induct) auto

text \<open>
  Documents that survive a round trip: the keys of an object are sorted and unique, as
  \<open>serde_json\<close> keeps them, a negative number is negative, and there is no float (floats become
  strings on the way back).
\<close>

fun plain_json :: "json \<Rightarrow> bool" where
  "plain_json (JNumber (NegInt n)) = (sint n < 0)"
| "plain_json (JNumber (Float f)) = False"
| "plain_json (JObject m) =
     (sorted_wrt (<) (map fst m) \<and> (\<forall>j \<in> set (map snd m). plain_json j))"
| "plain_json (JArray a) = (\<forall>j \<in> set a. plain_json j)"
| "plain_json j = True"

lemma json_insert_last:
  "\<forall>k' \<in> set (map fst m). k' < k \<Longrightarrow> json_insert k v m = m @ [(k, v)]"
  by (induction k v m rule: json_insert.induct) auto

lemma to_json_from_json:
  "plain_json j \<Longrightarrow> to_json lib expr (from_json j) = Inr j"
  "sorted_wrt (<) (map fst (acc @ m)) \<Longrightarrow> \<forall>j \<in> set (map snd m). plain_json j \<Longrightarrow>
     to_json_members lib expr (from_json_members m) acc = Inr (acc @ m)"
  "\<forall>j \<in> set a. plain_json j \<Longrightarrow> to_json_list lib expr (from_json_list a) = Inr a"
proof (induction j and m and a arbitrary: and acc and rule: from_json_from_json_members_from_json_list.induct)
  case (10 k v m)
  then have "\<forall>k' \<in> set (map fst acc). k' < k" by (auto simp: sorted_wrt_append)
  with 10 show ?case
    by (simp add: json_insert_last del: set_map)
qed (auto simp: json_of_i64_def)

lemma midnight_dates_from_json:
  "midnight_dates lib (from_json j) = from_json j"
  "map (\<lambda>(k, v). (k, midnight_dates lib v)) (from_json_members m) = from_json_members m"
  "map (midnight_dates lib) (from_json_list a) = from_json_list a"
  by (induction j and m and a rule: from_json_from_json_members_from_json_list.induct) auto

text \<open>
  What the development relies on of the engine where an expression is a name: it evaluates to the
  variable's value, and an unbound name is an undeclared reference.
\<close>

definition looks_up :: "'d cel_env \<Rightarrow> string \<Rightarrow> bool" where
  "looks_up env name \<longleftrightarrow>
     (\<forall>vars fs. env_execute env name vars fs =
        (case map_of vars name of Some v \<Rightarrow> Inr v | None \<Rightarrow> Inl (UndeclaredReference name)))"

lemma evaluate_variable:
  assumes "looks_up env name"
  shows "evaluate env (add_variable (env_lib env) name v ctx) name = Inr (midnight_dates (env_lib env) v)"
  using assms by (simp add: looks_up_def evaluate_def add_variable_def from_into_cel)

text \<open>
  A variable bound in a context is what an expression naming it evaluates to, through the
  conversions into and out of the engine: every value comes back as it was, but a date, which
  comes back as its midnight and is the date again for an expression expected to be a date. The
  latest binding of a name wins, and an unbound name is an \<open>UnknownIdent\<close> error that names it.
\<close>

theorem variable_roundtrip:
  assumes "looks_up env name" "\<And>d. lib_date_of (env_lib env) (lib_midnight (env_lib env) d) = d"
    and "map_of (ctx_vars ctx0) name = None"
  shows "evaluate env (add_variable (env_lib env) name v ctx) name =
           Inr (midnight_dates (env_lib env) v)
    \<and> try_evaluate env (add_variable (env_lib env) name (CDate d) ctx)
           (coerce_date (env_lib env)) name = Inr d
    \<and> evaluate env ctx0 name = Inl (EvaluationError name (UnknownIdent name))"
proof -
  have "evaluate env ctx0 name = Inl (EvaluationError name (UnknownIdent name))"
    using assms(1,3) by (simp add: looks_up_def evaluate_def)
  then show ?thesis
    using assms(1,2) by (simp add: evaluate_variable try_evaluate_def)
qed

text \<open>
  C39: A JSON document without floats that is passed as a variable and read back as JSON by an
  expression is unchanged: the conversions between JSON, CEL values and engine values lose nothing.
\<close>

theorem json_variable_roundtrip:
  assumes "looks_up env name" "plain_json j"
  shows "try_evaluate env (add_variable (env_lib env) name (from_json j) ctx)
           (to_json (env_lib env)) name = Inr j"
  using assms
  by (simp add: try_evaluate_def evaluate_variable midnight_dates_from_json to_json_from_json)

section \<open>A sample environment\<close>

text \<open>
  An instance of the parameters for the concrete examples: whole-number decimals, days of 86400
  units, an engine that evaluates names, quoted strings and members of \<open>params\<close>.
\<close>

definition sample_lib :: "int cel_lib" where
  "sample_lib =
     \<lparr> lib_parse_decimal = (\<lambda>s. if s = ''7'' then Inr 7 else Inl (ParseError ''invalid'' ''Invalid'')),
       lib_show_decimal = (\<lambda>d. ''n''), lib_decimal_of_int = (\<lambda>i. i),
       lib_checked_add = (\<lambda>a b. Some (a + b)), lib_checked_sub = (\<lambda>a b. Some (a - b)),
       lib_checked_mul = (\<lambda>a b. Some (a * b)),
       lib_parse_uuid = (\<lambda>s. if s = ''u'' then Inr 1 else Inl (ParseError ''invalid'' ''Invalid'')),
       lib_show_uuid = (\<lambda>u. ''u''),
       lib_parse_date_format = (\<lambda>f s. Inl (ParseError ''invalid'' ''Invalid'')),
       lib_parse_date = (\<lambda>s. if s = ''d'' then Inr 5 else Inl (ParseError ''invalid'' ''Invalid'')),
       lib_show_date = (\<lambda>d. ''d''), lib_date_of = (\<lambda>t. t div 86400), lib_midnight = (\<lambda>d. d * 86400),
       lib_rfc3339 = (\<lambda>t. ''t''), lib_format_time = (\<lambda>f t. Some f), lib_show_double = (\<lambda>f. ''f''),
       lib_show_duration = (\<lambda>d. ''s''), lib_debug_string = (\<lambda>s. s), lib_debug_val = (\<lambda>v. ''v''),
       lib_debug_value = (\<lambda>v. ''v''), lib_debug_key = (\<lambda>k. ''k'') \<rparr>"

lemma sample_lib_sel [simp]:
  "lib_parse_decimal sample_lib =
     (\<lambda>s. if s = ''7'' then Inr 7 else Inl (ParseError ''invalid'' ''Invalid''))"
  "lib_parse_uuid sample_lib =
     (\<lambda>s. if s = ''u'' then Inr 1 else Inl (ParseError ''invalid'' ''Invalid''))"
  "lib_parse_date sample_lib =
     (\<lambda>s. if s = ''d'' then Inr 5 else Inl (ParseError ''invalid'' ''Invalid''))"
  "lib_date_of sample_lib = (\<lambda>t. t div 86400)"
  "lib_midnight sample_lib = (\<lambda>d. d * 86400)"
  "lib_show_uuid sample_lib = (\<lambda>u. ''u'')"
  by (simp_all add: sample_lib_def)

definition sample_execute :: "'d engine" where
  "sample_execute source vars fs =
     (case map_of vars source of
        Some v \<Rightarrow> Inr v
      | None \<Rightarrow>
          (if source \<noteq> [] \<and> hd source = CHR 39 then Inr (VString (butlast (tl source)))
           else if take 7 source = ''params.'' then
             (case map_of vars ''params'' of
                Some (VMap m) \<Rightarrow> ok_or (NoSuchKey (drop 7 source)) (map_of m (KString (drop 7 source)))
              | _ \<Rightarrow> Inl (UndeclaredReference ''params''))
           else Inl (UndeclaredReference source)))"

definition sample_env :: "int cel_env" where
  "sample_env =
     \<lparr> env_lib = sample_lib, env_compile = (\<lambda>s. if s = [] then Some ''empty'' else None),
       env_execute = sample_execute, env_show_error = (\<lambda>e. ''error''), env_show = (\<lambda>e. ''error'') \<rparr>"

lemma sample_env_lib [simp]: "env_lib sample_env = sample_lib"
  by (simp add: sample_env_def)

lemma sample_looks_up:
  "name = [] \<or> hd name \<noteq> CHR 39 \<Longrightarrow> take 7 name \<noteq> ''params.'' \<Longrightarrow> looks_up sample_env name"
  by (auto simp: looks_up_def sample_env_def sample_execute_def split: option.split)

lemma sample_midnight: "lib_date_of sample_lib (lib_midnight sample_lib d) = d"
  by (simp add: sample_lib_def)

lemma variable_roundtrip_witness:
  "evaluate sample_env (add_variable sample_lib ''x'' (CList [CDate 3, CUuid 9]) (new_with_clock 0)) ''x''
     = Inr (CList [CTimestamp 259200, CUuid 9])
   \<and> try_evaluate sample_env (add_variable sample_lib ''x'' (CDate 3) (new_with_clock 0))
       (coerce_date sample_lib) ''x'' = Inr 3
   \<and> evaluate sample_env (new_with_clock 0) ''y'' = Inl (EvaluationError ''y'' (UnknownIdent ''y''))"
  using variable_roundtrip[OF sample_looks_up, unfolded sample_env_lib, OF _ _ sample_midnight,
      of "''x''" "new_with_clock 0" "CList [CDate 3, CUuid 9]" "new_with_clock 0" 3]
    variable_roundtrip[OF sample_looks_up, unfolded sample_env_lib, OF _ _ sample_midnight,
      of "''y''" "new_with_clock 0" CNull "new_with_clock 0" 3]
  by (simp add: new_with_clock_def sample_lib_def)

lemma json_variable_roundtrip_witness:
  "try_evaluate sample_env
     (add_variable sample_lib ''meta''
        (from_json (JObject [(''a'', JArray [JNull, JNumber (PosInt 2)]), (''b'', JBool True)]))
        (new_with_clock 0))
     (to_json sample_lib) ''meta''
   = Inr (JObject [(''a'', JArray [JNull, JNumber (PosInt 2)]), (''b'', JBool True)])"
  using json_variable_roundtrip[OF sample_looks_up,
      of "''meta''" "JObject [(''a'', JArray [JNull, JNumber (PosInt 2)]), (''b'', JBool True)]"
        "new_with_clock 0"]
  by simp

end
