(* ===== verification/Params.thy ===== *)
theory Params imports Cel begin

text \<open>
  Parameters of templates and velocity limits: their declared types and the coercion of a value
  to one (\<open>core-types/src/param.rs\<close>), the evaluation context built from the parameters of a call
  (\<open>param/mod.rs\<close>), and the builder of a definition with its validation of the default
  expression (\<open>param/definition.rs\<close>).
\<close>

section \<open>Types of parameters\<close>

datatype param_data_type =
    PString | PInteger | PDecimal | PBoolean | PUuid | PDate | PTimestamp | PJson

fun debug_param_type :: "param_data_type \<Rightarrow> string" where
  "debug_param_type PString = ''String''"
| "debug_param_type PInteger = ''Integer''"
| "debug_param_type PDecimal = ''Decimal''"
| "debug_param_type PBoolean = ''Boolean''"
| "debug_param_type PUuid = ''Uuid''"
| "debug_param_type PDate = ''Date''"
| "debug_param_type PTimestamp = ''Timestamp''"
| "debug_param_type PJson = ''Json''"

definition could_not_parse :: "string \<Rightarrow> string \<Rightarrow> parse_error \<Rightarrow> string" where
  "could_not_parse s as_type e =
     ''Could not parse '' @ [CHR 39] @ s @ [CHR 39] @ '' as '' @ as_type @ '' - '' @ error_display e"

definition type_mismatch :: "'d cel_lib \<Rightarrow> param_data_type \<Rightarrow> 'd cel_value \<Rightarrow> string" where
  "type_mismatch lib t v =
     ''Type mismatch: expected '' @ debug_param_type t @ '', got '' @ lib_debug_value lib v"

text \<open>
  \<open>match CelType::from(&value)\<close>: the arms by the type of the value, each with the declared types its
  guards name; everything else falls through to the last arm.
\<close>

fun coerce_value :: "'d cel_lib \<Rightarrow> param_data_type \<Rightarrow> 'd cel_value \<Rightarrow> string + 'd cel_value" where
  "coerce_value lib t (CUInt n) =
     (if t = PInteger then Inr (CUInt n) else Inl (type_mismatch lib t (CUInt n)))"
| "coerce_value lib t (CInt n) =
     (if t = PInteger then Inr (CInt n) else Inl (type_mismatch lib t (CInt n)))"
| "coerce_value lib t (CMap m) =
     (if t = PJson then Inr (CMap m) else Inl (type_mismatch lib t (CMap m)))"
| "coerce_value lib t (CDate d) =
     (if t = PDate then Inr (CDate d) else Inl (type_mismatch lib t (CDate d)))"
| "coerce_value lib t (CTimestamp ts) =
     (if t = PDate then Inr (CDate (lib_date_of lib ts)) else Inl (type_mismatch lib t (CTimestamp ts)))"
| "coerce_value lib t (CUuid u) =
     (if t = PUuid then Inr (CUuid u) else Inl (type_mismatch lib t (CUuid u)))"
| "coerce_value lib t (CDecimal d) =
     (if t = PDecimal then Inr (CDecimal d) else Inl (type_mismatch lib t (CDecimal d)))"
| "coerce_value lib t (CBool b) =
     (if t = PBoolean then Inr (CBool b) else Inl (type_mismatch lib t (CBool b)))"
| "coerce_value lib t (CString s) =
     (if t = PString then Inr (CString s)
      else if t = PUuid then rmap CUuid (map_err (could_not_parse s ''Uuid'') (lib_parse_uuid lib s))
      else if t = PDecimal then rmap CDecimal (map_err (could_not_parse s ''Decimal'') (lib_parse_decimal lib s))
      else if t = PDate then rmap CDate (map_err (could_not_parse s ''Date'') (lib_parse_date lib s))
      else Inl (type_mismatch lib t (CString s)))"
| "coerce_value lib t v = Inl (type_mismatch lib t v)"

fun param_type_of :: "'d cel_lib \<Rightarrow> 'd cel_value \<Rightarrow> string + param_data_type" where
  "param_type_of lib (CInt _) = Inr PInteger"
| "param_type_of lib (CString _) = Inr PString"
| "param_type_of lib (CMap _) = Inr PJson"
| "param_type_of lib (CDate _) = Inr PDate"
| "param_type_of lib (CUuid _) = Inr PUuid"
| "param_type_of lib (CDecimal _) = Inr PDecimal"
| "param_type_of lib (CBool _) = Inr PBoolean"
| "param_type_of lib v = Inl (''Unsupported type: '' @ lib_debug_value lib v)"

text \<open>The types of the values a parameter of a declared type stands for.\<close>

fun cel_types :: "param_data_type \<Rightarrow> cel_type list" where
  "cel_types PString = [TString]"
| "cel_types PInteger = [TInt, TUInt]"
| "cel_types PDecimal = [TDecimal]"
| "cel_types PBoolean = [TBool]"
| "cel_types PUuid = [TUuid]"
| "cel_types PDate = [TDate]"
| "cel_types PTimestamp = [TTimestamp]"
| "cel_types PJson = [TMap]"

lemma coerce_value_type:
  "coerce_value lib t v = Inr w \<Longrightarrow> cel_type_of w \<in> set (cel_types t)"
  by (cases v) (auto simp: rmap_Inr_iff split: if_splits)

lemma coerce_value_accepts:
  "t \<noteq> PTimestamp \<Longrightarrow> cel_type_of v \<in> set (cel_types t) \<Longrightarrow> coerce_value lib t v = Inr v"
  by (cases t; cases v) auto

text \<open>No arm names \<open>Timestamp\<close>: a parameter of that type accepts no value, a timestamp included.\<close>

lemma coerce_value_timestamp: "coerce_value lib PTimestamp v = Inl (type_mismatch lib PTimestamp v)"
  by (cases v) simp_all

lemma coerce_value_not_timestamp: "coerce_value lib t v = Inr w \<Longrightarrow> t \<noteq> PTimestamp"
  by (auto simp: coerce_value_timestamp)

text \<open>
  C38: Coercion is sound and stable: a value it returns has the declared type of the parameter and
  coerces to itself, and the type inferred from a value accepts that value unchanged.
\<close>

theorem coerced_value_has_type:
  "(coerce_value lib t v = Inr w \<longrightarrow>
      cel_type_of w \<in> set (cel_types t) \<and> coerce_value lib t w = Inr w)
   \<and> (param_type_of lib v = Inr t' \<longrightarrow> coerce_value lib t' v = Inr v)"
proof -
  have "param_type_of lib v = Inr t' \<Longrightarrow> coerce_value lib t' v = Inr v"
    by (cases v) auto
  then show ?thesis
    using coerce_value_type coerce_value_accepts coerce_value_not_timestamp by blast
qed

lemma coerced_value_has_type_witness:
  "cel_type_of (CDate 5 :: int cel_value) \<in> set (cel_types PDate)
   \<and> coerce_value sample_lib PDate (CDate 5) = Inr (CDate 5)
   \<and> coerce_value sample_lib PDate (CString ''d'') = Inr (CDate 5)"
  using coerced_value_has_type[of sample_lib PDate "CString ''d''" "CDate 5" PString]
  by (simp add: sample_lib_def)

section \<open>Definitions and contexts\<close>

record param_definition =
  pd_name :: string
  pd_type :: param_data_type
  pd_default :: "cel_expression option"
  pd_description :: "string option"

datatype param_error = ParamTypeMismatch string | ParamCelError cel_error

text \<open>The parameters of a call are the map \<open>values\<close>; \<open>insert\<close> sets one.\<close>

type_synonym 'd params = "string \<Rightarrow> 'd cel_value option"

definition params_new :: "'d params" where
  "params_new = Map.empty"

definition params_insert :: "string \<Rightarrow> 'd cel_value \<Rightarrow> 'd params \<Rightarrow> 'd params" where
  "params_insert k v ps = ps(k \<mapsto> v)"

definition add_param ::
  "'d::linorder cel_env \<Rightarrow> 'd cel_context \<Rightarrow> 'd params \<times> (cel_key \<times> 'd cel_value) list \<Rightarrow> param_definition
     \<Rightarrow> param_error + 'd params \<times> (cel_key \<times> 'd cel_value) list" where
  "add_param env ctx = (\<lambda>(ps, cel_map) d.
     (case ps (pd_name d) of
        Some v \<Rightarrow>
          rbind (map_err ParamTypeMismatch (coerce_value (env_lib env) (pd_type d) v)) (\<lambda>w.
            Inr (ps(pd_name d := None), cel_map_insert (pd_name d) w cel_map))
      | None \<Rightarrow>
          (case pd_default d of
             Some expr \<Rightarrow>
               rbind (map_err ParamCelError (evaluate env ctx expr)) (\<lambda>w.
                 Inr (ps, cel_map_insert (pd_name d) w cel_map))
           | None \<Rightarrow> Inr (ps, cel_map))))"

definition into_context ::
  "'d::linorder cel_env \<Rightarrow> date_time \<Rightarrow> 'd params \<Rightarrow> param_definition list option \<Rightarrow> param_error + 'd cel_context" where
  "into_context env now ps defs =
     (let ctx = initialize (env_lib env) now
      in case defs of
           None \<Rightarrow> Inr ctx
         | Some defs \<Rightarrow>
             rbind (rfold (add_param env ctx) (ps, []) defs) (\<lambda>(ps, cel_map).
               Inr (add_variable (env_lib env) ''params'' (CMap cel_map) ctx)))"

text \<open>What one declared parameter contributes: its coerced value, its default, or nothing.\<close>

definition param_value ::
  "'d::linorder cel_env \<Rightarrow> 'd cel_context \<Rightarrow> 'd params \<Rightarrow> param_definition \<Rightarrow> param_error + 'd cel_value option" where
  "param_value env ctx ps d =
     (case ps (pd_name d) of
        Some v \<Rightarrow> rmap Some (map_err ParamTypeMismatch (coerce_value (env_lib env) (pd_type d) v))
      | None \<Rightarrow> transpose_opt (map_option (\<lambda>e. map_err ParamCelError (evaluate env ctx e)) (pd_default d)))"

lemma add_param_eq:
  "add_param env ctx (ps, m) d =
     rmap (\<lambda>x. (case ps (pd_name d) of Some _ \<Rightarrow> ps(pd_name d := None) | None \<Rightarrow> ps,
                case x of Some w \<Rightarrow> cel_map_insert (pd_name d) w m | None \<Rightarrow> m))
       (param_value env ctx ps d)"
  by (auto simp: add_param_def param_value_def transpose_opt_def rbind_def rmap_def
      split: option.splits sum.splits)

lemma param_value_cong:
  "ps (pd_name d) = ps' (pd_name d) \<Longrightarrow> param_value env ctx ps d = param_value env ctx ps' d"
  by (simp add: param_value_def)

lemma map_of_cel_map_insert [simp]:
  "map_of (cel_map_insert n w m) = (map_of m)(KString n \<mapsto> w)"
  by (simp add: cel_map_insert_def)

lemma add_params_Inr:
  assumes "rfold (add_param env ctx) (ps, m) defs = Inr (ps', m')" "distinct (map pd_name defs)"
  shows "(\<forall>d \<in> set defs. \<exists>x. param_value env ctx ps d = Inr x \<and>
            (map_of m' (KString (pd_name d)) = (if x = None then map_of m (KString (pd_name d)) else x)))
    \<and> (\<forall>k. k \<notin> KString ` pd_name ` set defs \<longrightarrow> map_of m' k = map_of m k)"
  using assms
proof (induction defs arbitrary: ps m)
  case (Cons d defs)
  from Cons.prems(1) obtain x where x: "param_value env ctx ps d = Inr x"
    and rest: "rfold (add_param env ctx)
      (case ps (pd_name d) of Some _ \<Rightarrow> ps(pd_name d := None) | None \<Rightarrow> ps,
       case x of Some w \<Rightarrow> cel_map_insert (pd_name d) w m | None \<Rightarrow> m) defs = Inr (ps', m')"
    by (auto simp: add_param_eq rbind_Inr_iff rmap_Inr_iff)
  let ?ps = "case ps (pd_name d) of Some _ \<Rightarrow> ps(pd_name d := None) | None \<Rightarrow> ps"
  have same: "param_value env ctx ?ps e = param_value env ctx ps e" if "e \<in> set defs" for e
    using that Cons.prems(2) by (intro param_value_cong) (auto simp: image_iff split: option.split)
  have fresh: "pd_name d \<notin> pd_name ` set defs" using Cons.prems(2) by auto
  have distinct: "distinct (map pd_name defs)" using Cons.prems(2) by simp
  note IH = Cons.IH[OF rest distinct]
  have "KString (pd_name d) \<notin> KString ` pd_name ` set defs" using fresh by auto
  with IH have "map_of m' (KString (pd_name d)) =
      map_of (case x of Some w \<Rightarrow> cel_map_insert (pd_name d) w m | None \<Rightarrow> m) (KString (pd_name d))"
    by blast
  then have "map_of m' (KString (pd_name d)) = (if x = None then map_of m (KString (pd_name d)) else x)"
    by (auto split: option.splits)
  moreover have other: "map_of (case x of Some w \<Rightarrow> cel_map_insert (pd_name d) w m | None \<Rightarrow> m) k = map_of m k"
    if "k \<noteq> KString (pd_name d)" for k
    using that by (auto split: option.split)
  moreover have "\<exists>x. param_value env ctx ps e = Inr x
      \<and> map_of m' (KString (pd_name e)) = (if x = None then map_of m (KString (pd_name e)) else x)"
    if e: "e \<in> set defs" for e
  proof -
    have "pd_name e \<noteq> pd_name d" using fresh imageI[OF e, of pd_name] by metis
    then have same_key: "map_of (case x of Some w \<Rightarrow> cel_map_insert (pd_name d) w m | None \<Rightarrow> m)
        (KString (pd_name e)) = map_of m (KString (pd_name e))" by (simp add: other)
    show ?thesis using bspec[OF conjunct1[OF IH] e] unfolding same[OF e] same_key .
  qed
  ultimately show ?case using IH x by auto
qed auto

lemma add_params_Inl:
  assumes "rfold (add_param env ctx) (ps, m) defs = Inl e" "distinct (map pd_name defs)"
  shows "\<exists>n < length defs. param_value env ctx ps (defs ! n) = Inl e
    \<and> (\<forall>i < n. \<exists>x. param_value env ctx ps (defs ! i) = Inr x)"
  using assms
proof (induction defs arbitrary: ps m)
  case (Cons d defs)
  show ?case
  proof (cases "param_value env ctx ps d")
    case (Inl f)
    with Cons.prems(1) show ?thesis by (intro exI[of _ 0]) (simp add: add_param_eq)
  next
    case (Inr x)
    let ?ps = "case ps (pd_name d) of Some _ \<Rightarrow> ps(pd_name d := None) | None \<Rightarrow> ps"
    have same: "param_value env ctx ?ps (defs ! i) = param_value env ctx ps (defs ! i)"
      if "i < length defs" for i
      using imageI[OF nth_mem[OF that], of pd_name] Cons.prems(2)
      by (intro param_value_cong) (auto simp del: image_eqI split: option.split)
    have rest: "rfold (add_param env ctx)
        (?ps, case x of Some w \<Rightarrow> cel_map_insert (pd_name d) w m | None \<Rightarrow> m) defs = Inl e"
      using Cons.prems(1) Inr by (simp add: add_param_eq)
    have distinct: "distinct (map pd_name defs)" using Cons.prems(2) by simp
    from Cons.IH[OF rest distinct] obtain n where "n < length defs"
      "param_value env ctx ?ps (defs ! n) = Inl e"
      "\<forall>i < n. \<exists>x. param_value env ctx ?ps (defs ! i) = Inr x"
      by blast
    with same Inr show ?thesis
      by (intro exI[of _ "Suc n"]) (auto simp: nth_Cons split: nat.split)
  qed
qed auto

text \<open>
  C37: For definitions with distinct names, the context of a call binds \<open>params\<close> to exactly the
  declared parameters: a supplied one has its coerced value, a missing one its default evaluated
  without the parameters, one with neither is absent, and a parameter that is not declared is
  dropped. When it fails, it is with the error of the first declared parameter that fails.
\<close>

theorem into_context_params:
  assumes "distinct (map pd_name defs)"
  shows "case into_context env now ps (Some defs) of
      Inr ctx \<Rightarrow> \<exists>m.
        ctx = add_variable (env_lib env) ''params'' (CMap m) (initialize (env_lib env) now)
        \<and> (\<forall>d \<in> set defs. param_value env (initialize (env_lib env) now) ps d
              = Inr (map_of m (KString (pd_name d))))
        \<and> (\<forall>k. k \<notin> KString ` pd_name ` set defs \<longrightarrow> map_of m k = None)
    | Inl e \<Rightarrow> \<exists>n < length defs.
        param_value env (initialize (env_lib env) now) ps (defs ! n) = Inl e
        \<and> (\<forall>i < n. \<exists>x. param_value env (initialize (env_lib env) now) ps (defs ! i) = Inr x)"
proof (cases "rfold (add_param env (initialize (env_lib env) now)) (ps, []) defs")
  case (Inl e)
  with add_params_Inl[OF Inl assms] show ?thesis by (simp add: into_context_def)
next
  case (Inr r)
  obtain ps' m where r: "r = (ps', m)" by (cases r)
  have "\<forall>d \<in> set defs. param_value env (initialize (env_lib env) now) ps d
              = Inr (map_of m (KString (pd_name d)))"
    and "\<forall>k. k \<notin> KString ` pd_name ` set defs \<longrightarrow> map_of m k = None"
    using add_params_Inr[OF Inr[unfolded r] assms] by (fastforce split: if_splits)+
  with Inr r show ?thesis by (auto simp: into_context_def)
qed

text \<open>Three definitions and the parameters of a call, for the examples.\<close>

definition sample_defs :: "param_definition list" where
  "sample_defs =
     [\<lparr> pd_name = ''amount'', pd_type = PDecimal, pd_default = None, pd_description = None \<rparr>,
      \<lparr> pd_name = ''layer'', pd_type = PString, pd_default = Some ''SETTLED'', pd_description = None \<rparr>,
      \<lparr> pd_name = ''note'', pd_type = PString, pd_default = None, pd_description = None \<rparr>]"

definition sample_params :: "int params" where
  "sample_params = params_insert ''other'' CNull (params_insert ''amount'' (CString ''7'') params_new)"

lemma evaluate_settled:
  "evaluate sample_env (initialize sample_lib now) ''SETTLED'' = Inr (CString ''SETTLED'')"
  by (simp add: evaluate_def sample_env_def sample_execute_def initialize_def add_variable_def
      new_with_clock_def)

lemma into_context_params_witness:
  "\<exists>m. into_context sample_env 0 sample_params (Some sample_defs)
         = Inr (add_variable sample_lib ''params'' (CMap m) (initialize sample_lib 0))
     \<and> map_of m (KString ''amount'') = Some (CDecimal 7)
     \<and> map_of m (KString ''layer'') = Some (CString ''SETTLED'')
     \<and> map_of m (KString ''note'') = None \<and> map_of m (KString ''other'') = None"
proof -
  have ok: "into_context sample_env 0 sample_params (Some sample_defs) \<noteq> Inl e" for e
    by (simp add: into_context_def sample_defs_def sample_params_def params_insert_def params_new_def
        add_param_def evaluate_settled Let_def)
  have "distinct (map pd_name sample_defs)" by (simp add: sample_defs_def)
  from into_context_params[OF this, of sample_env 0 sample_params] ok
  obtain m where m: "into_context sample_env 0 sample_params (Some sample_defs)
         = Inr (add_variable sample_lib ''params'' (CMap m) (initialize sample_lib 0))"
    and vals: "\<forall>d \<in> set sample_defs. param_value sample_env (initialize sample_lib 0) sample_params d
              = Inr (map_of m (KString (pd_name d)))"
    and other: "\<forall>k. k \<notin> KString ` pd_name ` set sample_defs \<longrightarrow> map_of m k = None"
    by (auto split: sum.splits)
  have "map_of m (KString ''amount'') = Some (CDecimal 7)"
    and "map_of m (KString ''layer'') = Some (CString ''SETTLED'')"
    and "map_of m (KString ''note'') = None"
    using vals by (simp_all add: sample_defs_def sample_params_def params_insert_def params_new_def
        param_value_def transpose_opt_def evaluate_settled)
  moreover have "map_of m (KString ''other'') = None"
    using other by (simp add: sample_defs_def)
  ultimately show ?thesis using m by blast
qed

section \<open>Building a definition\<close>

record new_param_definition =
  npd_name :: string
  npd_type :: param_data_type
  npd_default :: "string option"
  npd_description :: "string option"

text \<open>
  The state of \<open>NewParamDefinitionBuilder\<close>: a field that was set. \<open>build\<close> validates first and then
  reports the first mandatory field that is not set, as \<open>derive_builder\<close> generates it. \<open>None\<close> is
  the panic of \<open>unwrap\<close> or \<open>expect\<close>.
\<close>

record param_builder =
  pb_name :: "string option"
  pb_type :: "param_data_type option"
  pb_default :: "string option option"
  pb_description :: "string option option"

datatype builder_error = UninitializedField string | ValidationError string

definition param_default_matches ::
  "'d::linorder cel_env \<Rightarrow> date_time \<Rightarrow> string \<Rightarrow> param_data_type \<Rightarrow> string + unit" where
  "param_default_matches env now source t =
     rbind (map_err (env_show env) (cel_expression_try_from env source)) (\<lambda>expr.
     rbind (map_err (env_show env) (evaluate env (initialize (env_lib env) now) expr)) (\<lambda>v.
     rbind (map_err (\<lambda>e. ''Default expression does not match parameter type ''
                        @ debug_param_type t @ '': '' @ e) (coerce_value (env_lib env) t v)) (\<lambda>_.
     Inr ())))"

definition param_validate ::
  "'d::linorder cel_env \<Rightarrow> date_time \<Rightarrow> param_builder \<Rightarrow> (string + unit) option" where
  "param_validate env now b =
     (case pb_default b of
        Some (Some source) \<Rightarrow>
          (case cel_expression_try_from env source of
             Inl e \<Rightarrow> Some (Inl (env_show env e))
           | Inr _ \<Rightarrow>
              (case pb_type b of
                 None \<Rightarrow> None
               | Some t \<Rightarrow> Some (param_default_matches env now source t)))
      | _ \<Rightarrow> Some (Inr ()))"

definition param_build ::
  "'d::linorder cel_env \<Rightarrow> date_time \<Rightarrow> param_builder \<Rightarrow> (builder_error + new_param_definition) option" where
  "param_build env now b =
     map_option (\<lambda>r. rbind (map_err ValidationError r) (\<lambda>_.
       rbind (ok_or (UninitializedField ''name'') (pb_name b)) (\<lambda>name.
       rbind (ok_or (UninitializedField ''type'') (pb_type b)) (\<lambda>t.
         Inr \<lparr> npd_name = name, npd_type = t,
               npd_default = (case pb_default b of Some d \<Rightarrow> d | None \<Rightarrow> None),
               npd_description = (case pb_description b of Some d \<Rightarrow> d | None \<Rightarrow> None) \<rparr>))))
       (param_validate env now b)"

text \<open>An optional expression, parsed with \<open>expect\<close>: the outer \<open>None\<close> is the panic.\<close>

definition expect_expression :: "'d cel_env \<Rightarrow> string \<Rightarrow> cel_expression option" where
  "expect_expression env source =
     (case cel_expression_try_from env source of Inl _ \<Rightarrow> None | Inr e \<Rightarrow> Some e)"

definition expect_optional :: "'d cel_env \<Rightarrow> string option \<Rightarrow> cel_expression option option" where
  "expect_optional env x =
     (case x of None \<Rightarrow> Some None | Some source \<Rightarrow> map_option Some (expect_expression env source))"

definition param_definition_from ::
  "'d cel_env \<Rightarrow> new_param_definition \<Rightarrow> param_definition option" where
  "param_definition_from env p =
     map_option (\<lambda>d. \<lparr> pd_name = npd_name p, pd_type = npd_type p, pd_default = d,
                       pd_description = npd_description p \<rparr>)
       (expect_optional env (npd_default p))"

lemma param_build_converts:
  assumes "param_build env now b = Some (Inr p)"
  shows "\<exists>d. param_definition_from env p = Some d
    \<and> pd_type d = npd_type p \<and> pd_default d = npd_default p
    \<and> (\<forall>e. pd_default d = Some e \<longrightarrow> pd_type d \<noteq> PTimestamp \<and>
          (\<exists>v w. evaluate env (initialize (env_lib env) now) e = Inr v
                \<and> coerce_value (env_lib env) (pd_type d) v = Inr w))"
proof -
  have p: "npd_default p = (case pb_default b of Some d \<Rightarrow> d | None \<Rightarrow> None)"
    "pb_type b = Some (npd_type p)" "param_validate env now b = Some (Inr ())"
    using assms by (auto simp: param_build_def rbind_Inr_iff map_err_Inr_iff ok_or_Inr_iff)
  show ?thesis
  proof (cases "npd_default p")
    case None
    then show ?thesis by (simp add: param_definition_from_def expect_optional_def)
  next
    case (Some e)
    with p have "param_default_matches env now e (npd_type p) = Inr ()"
      by (auto simp: param_validate_def split: option.splits sum.splits)
    then obtain v w where "cel_expression_try_from env e = Inr e"
      "evaluate env (initialize (env_lib env) now) e = Inr v"
      "coerce_value (env_lib env) (npd_type p) v = Inr w"
      by (auto simp: param_default_matches_def rbind_Inr_iff map_err_Inr_iff
          cel_expression_try_from_def split: option.splits)
    with Some coerce_value_not_timestamp show ?thesis
      by (fastforce simp: param_definition_from_def expect_optional_def expect_expression_def)
  qed
qed

lemma param_conversion:
  "\<exists>now b. param_build env now b = Some (Inr p) \<Longrightarrow> \<exists>d. param_definition_from env p = Some d"
  using param_build_converts by blast

text \<open>
  A definition that was built never panics when it is converted to the stored form, and its
  default, evaluated at build time, coerces to its declared type. In particular a \<open>Timestamp\<close>
  parameter with a default cannot be built.
\<close>

theorem built_param_converts:
  assumes "param_build env now b = Some (Inr p)"
  shows "\<exists>d. param_definition_from env p = Some d
    \<and> pd_type d = npd_type p \<and> pd_default d = npd_default p
    \<and> (\<forall>e. pd_default d = Some e \<longrightarrow> pd_type d \<noteq> PTimestamp \<and>
          (\<exists>v w. evaluate env (initialize (env_lib env) now) e = Inr v
                \<and> coerce_value (env_lib env) (pd_type d) v = Inr w))"
  using assms by (rule param_build_converts)

lemma cel_expression_sample: "s \<noteq> [] \<Longrightarrow> cel_expression_try_from sample_env s = Inr s"
  by (simp add: cel_expression_try_from_def sample_env_def)

lemma built_param_converts_witness:
  "\<exists>d. param_definition_from sample_env
     \<lparr> npd_name = ''layer'', npd_type = PString, npd_default = Some ''SETTLED'', npd_description = None \<rparr>
     = Some d \<and> pd_default d = Some ''SETTLED''"
proof -
  have "param_build sample_env 0
      \<lparr> pb_name = Some ''layer'', pb_type = Some PString, pb_default = Some (Some ''SETTLED''),
        pb_description = None \<rparr>
    = Some (Inr \<lparr> npd_name = ''layer'', npd_type = PString, npd_default = Some ''SETTLED'',
                  npd_description = None \<rparr>)"
    by (simp add: param_build_def param_validate_def param_default_matches_def evaluate_settled
        cel_expression_sample)
  from built_param_converts[OF this] show ?thesis by auto
qed

end
