(* ===== verification/Entities.thy ===== *)
theory Entities imports Cel begin

text \<open>
  The event-sourced entities of the ledger: the values of accounts, account sets, journals and
  transactions with their conversions to CEL, the creation of each entity, its hydration from its
  events and its update (\<open>entity.rs\<close> of each module). An entity keeps its current values and the
  list of events that led to them. The builders that \<open>derive_builder\<close> generates are the records
  of the values they build; the persistence that \<open>es_entity\<close> generates is outside the model.
\<close>

section \<open>Values\<close>

record account_config =
  acfg_is_account_set :: bool
  acfg_eventually_consistent :: bool

record account_values =
  av_id :: account_id
  av_version :: u32
  av_code :: string
  av_name :: string
  av_normal_balance_type :: debit_or_credit
  av_status :: status
  av_external_id :: "string option"
  av_description :: "string option"
  av_metadata :: "json option"
  av_config :: account_config

record account_set_values =
  asv_id :: account_set_id
  asv_version :: u32
  asv_journal_id :: journal_id
  asv_name :: string
  asv_external_id :: "string option"
  asv_description :: "string option"
  asv_metadata :: "json option"
  asv_normal_balance_type :: debit_or_credit

record journal_config =
  jc_enable_effective_balances :: bool

record journal_values =
  jv_id :: journal_id
  jv_version :: u32
  jv_name :: string
  jv_code :: "string option"
  jv_status :: status
  jv_description :: "string option"
  jv_config :: journal_config

record transaction_values =
  tv_id :: transaction_id
  tv_version :: u32
  tv_created_at :: date_time
  tv_modified_at :: date_time
  tv_journal_id :: journal_id
  tv_tx_template_id :: tx_template_id
  tv_entry_ids :: "entry_id list"
  tv_effective :: naive_date
  tv_correlation_id :: string
  tv_external_id :: "string option"
  tv_description :: "string option"
  tv_metadata :: "json option"

text \<open>What velocity expressions see of an account or account set.\<close>

record context_account_values =
  cav_id :: account_id
  cav_name :: string
  cav_normal_balance_type :: debit_or_credit
  cav_external_id :: "string option"
  cav_metadata :: "json option"

definition context_of_account :: "account_values \<Rightarrow> context_account_values" where
  "context_of_account v =
     \<lparr> cav_id = av_id v, cav_name = av_name v, cav_normal_balance_type = av_normal_balance_type v,
       cav_external_id = av_external_id v, cav_metadata = av_metadata v \<rparr>"

definition context_of_account_set :: "account_set_values \<Rightarrow> context_account_values" where
  "context_of_account_set v =
     \<lparr> cav_id = account_of_set (asv_id v), cav_name = asv_name v,
       cav_normal_balance_type = asv_normal_balance_type v,
       cav_external_id = asv_external_id v, cav_metadata = asv_metadata v \<rparr>"

section \<open>Conversions to CEL\<close>

definition insert_metadata :: "json option \<Rightarrow> (cel_key \<times> 'd cel_value) list \<Rightarrow> (cel_key \<times> 'd cel_value) list" where
  "insert_metadata md m =
     (case md of Some j \<Rightarrow> cel_map_insert ''metadata'' (from_json j) m | None \<Rightarrow> m)"

definition cel_of_entry :: "'d entry_values \<Rightarrow> 'd cel_value" where
  "cel_of_entry e = CMap (insert_metadata (e_metadata e)
     (foldl (\<lambda>m (k, v). cel_map_insert k v m) []
       [(''id'', CUuid (entry_uuid (e_id e))),
        (''entryType'', CString (e_entry_type e)),
        (''sequence'', CUInt (ucast (e_sequence e))),
        (''layer'', cel_of_layer (e_layer e)),
        (''direction'', cel_of_direction (e_direction e)),
        (''units'', CDecimal (e_units e)),
        (''currency'', cel_of_currency (e_currency e))]))"

definition cel_of_transaction :: "transaction_values \<Rightarrow> 'd cel_value" where
  "cel_of_transaction t = CMap (insert_metadata (tv_metadata t)
     (foldl (\<lambda>m (k, v). cel_map_insert k v m) []
       [(''id'', CUuid (transaction_uuid (tv_id t))),
        (''createdAt'', CTimestamp (tv_created_at t)),
        (''journalId'', CUuid (journal_uuid (tv_journal_id t))),
        (''txTemplateId'', CUuid (tx_template_uuid (tv_tx_template_id t))),
        (''effective'', CDate (tv_effective t)),
        (''correlationId'', CString (tv_correlation_id t))]))"

definition cel_of_context_account :: "context_account_values \<Rightarrow> 'd cel_value" where
  "cel_of_context_account a = CMap (insert_metadata (cav_metadata a)
     (foldl (\<lambda>m (k, v). cel_map_insert k v m) []
       [(''id'', CUuid (account_uuid (cav_id a))),
        (''name'', CString (cav_name a)),
        (''externalId'', CString (case cav_external_id a of Some s \<Rightarrow> s | None \<Rightarrow> '''')),
        (''normalBalanceType'', cel_of_direction (cav_normal_balance_type a))]))"

section \<open>Events and hydration\<close>

datatype 'v entity_event = Initialized 'v | Updated 'v "string list"

record ('k, 'v) entity =
  ent_id :: 'k
  ent_values :: 'v
  ent_events :: "'v entity_event list"

datatype hydration_error = UninitializedFieldError string

fun apply_event :: "('v \<Rightarrow> 'k) \<Rightarrow> 'k option \<times> 'v option \<Rightarrow> 'v entity_event \<Rightarrow> 'k option \<times> 'v option" where
  "apply_event id_of (i, v) (Initialized w) = (Some (id_of w), Some w)"
| "apply_event id_of (i, v) (Updated w _) = (i, Some w)"

definition hydrate :: "'v entity_event list \<Rightarrow> 'k option \<times> 'v option \<Rightarrow> hydration_error + ('k, 'v) entity" where
  "hydrate events b =
     rbind (ok_or (UninitializedFieldError ''id'') (fst b)) (\<lambda>i.
     rbind (ok_or (UninitializedFieldError ''values'') (snd b)) (\<lambda>v.
       Inr \<lparr> ent_id = i, ent_values = v, ent_events = events \<rparr>))"

definition account_try_from_events ::
  "account_values entity_event list \<Rightarrow> hydration_error + (account_id, account_values) entity" where
  "account_try_from_events events = hydrate events (foldl (apply_event av_id) (None, None) events)"

definition account_set_try_from_events ::
  "account_set_values entity_event list \<Rightarrow> hydration_error + (account_set_id, account_set_values) entity" where
  "account_set_try_from_events events = hydrate events (foldl (apply_event asv_id) (None, None) events)"

definition journal_try_from_events ::
  "journal_values entity_event list \<Rightarrow> hydration_error + (journal_id, journal_values) entity" where
  "journal_try_from_events events = hydrate events (foldl (apply_event jv_id) (None, None) events)"

text \<open>A transaction takes its id from every event.\<close>

fun apply_transaction_event ::
  "transaction_id option \<times> transaction_values option \<Rightarrow> transaction_values entity_event
     \<Rightarrow> transaction_id option \<times> transaction_values option" where
  "apply_transaction_event b (Initialized w) = (Some (tv_id w), Some w)"
| "apply_transaction_event b (Updated w _) = (Some (tv_id w), Some w)"

definition transaction_try_from_events ::
  "transaction_values entity_event list \<Rightarrow> hydration_error + (transaction_id, transaction_values) entity" where
  "transaction_try_from_events events =
     hydrate events (foldl apply_transaction_event (None, None) events)"

text \<open>The events of entries are all \<open>Initialized\<close>.\<close>

definition entry_try_from_events ::
  "'d entry_values list \<Rightarrow> hydration_error + (entry_id, 'd entry_values) entity" where
  "entry_try_from_events initialized =
     hydrate (map Initialized initialized)
       (foldl (apply_event e_id) (None, None) (map Initialized initialized))"

section \<open>Updates\<close>

datatype idempotent = AlreadyApplied | Executed

text \<open>One guarded assignment of \<open>update\<close>: a new value that differs is stored and its field noted.\<close>

definition set_field ::
  "string \<Rightarrow> ('v \<Rightarrow> 'a) \<Rightarrow> (('a \<Rightarrow> 'a) \<Rightarrow> 'v \<Rightarrow> 'v) \<Rightarrow> 'a option \<Rightarrow> 'v \<times> string list \<Rightarrow> 'v \<times> string list" where
  "set_field name get upd new = (\<lambda>(v, fields).
     (case new of
        Some x \<Rightarrow> if x \<noteq> get v then (upd (\<lambda>_. x) v, fields @ [name]) else (v, fields)
      | None \<Rightarrow> (v, fields)))"

definition new_metadata :: "json option \<Rightarrow> json option option" where
  "new_metadata md = (case md of Some j \<Rightarrow> if j \<noteq> JNull then Some (Some j) else None | None \<Rightarrow> None)"

definition finish_update ::
  "'v \<times> string list \<Rightarrow> ('k, 'v) entity \<Rightarrow> ('k, 'v) entity \<times> idempotent" where
  "finish_update r e =
     (let (v, fields) = r; e' = e \<lparr> ent_values := v \<rparr>
      in if fields = [] then (e', AlreadyApplied)
         else (e' \<lparr> ent_events := ent_events e' @ [Updated v fields] \<rparr>, Executed))"

record account_update_values =
  au_external_id :: "string option"
  au_code :: "string option"
  au_name :: "string option"
  au_normal_balance_type :: "debit_or_credit option"
  au_description :: "string option"
  au_status :: "status option"
  au_metadata :: "json option"

definition account_changes :: "account_update_values \<Rightarrow> account_values \<Rightarrow> account_values \<times> string list" where
  "account_changes u v =
     (let r = (v, []);
          r = set_field ''code'' av_code av_code_update (au_code u) r;
          r = set_field ''name'' av_name av_name_update (au_name u) r;
          r = set_field ''normal_balance_type'' av_normal_balance_type av_normal_balance_type_update
                (au_normal_balance_type u) r;
          r = set_field ''status'' av_status av_status_update (au_status u) r;
          r = set_field ''external_id'' av_external_id av_external_id_update
                (map_option Some (au_external_id u)) r;
          r = set_field ''description'' av_description av_description_update
                (map_option Some (au_description u)) r;
          r = set_field ''metadata'' av_metadata av_metadata_update (new_metadata (au_metadata u)) r
      in r)"

definition account_update ::
  "account_update_values \<Rightarrow> (account_id, account_values) entity \<Rightarrow> (account_id, account_values) entity \<times> idempotent" where
  "account_update u e = finish_update (account_changes u (ent_values e)) e"

definition account_update_status ::
  "status \<Rightarrow> (account_id, account_values) entity \<Rightarrow> (account_id, account_values) entity \<times> idempotent" where
  "account_update_status s =
     account_update \<lparr> au_external_id = None, au_code = None, au_name = None, au_normal_balance_type = None,
       au_description = None, au_status = Some s, au_metadata = None \<rparr>"

record account_set_update_values =
  asu_external_id :: "string option"
  asu_name :: "string option"
  asu_normal_balance_type :: "debit_or_credit option"
  asu_description :: "string option"
  asu_metadata :: "json option"

definition account_set_changes ::
  "account_set_update_values \<Rightarrow> account_set_values \<Rightarrow> account_set_values \<times> string list" where
  "account_set_changes u v =
     (let r = (v, []);
          r = set_field ''name'' asv_name asv_name_update (asu_name u) r;
          r = set_field ''normal_balance_type'' asv_normal_balance_type asv_normal_balance_type_update
                (asu_normal_balance_type u) r;
          r = set_field ''external_id'' asv_external_id asv_external_id_update
                (map_option Some (asu_external_id u)) r;
          r = set_field ''description'' asv_description asv_description_update
                (map_option Some (asu_description u)) r;
          r = set_field ''metadata'' asv_metadata asv_metadata_update (new_metadata (asu_metadata u)) r
      in r)"

definition account_set_update ::
  "account_set_update_values \<Rightarrow> (account_set_id, account_set_values) entity
     \<Rightarrow> (account_set_id, account_set_values) entity \<times> idempotent" where
  "account_set_update u e = finish_update (account_set_changes u (ent_values e)) e"

record journal_update_values =
  ju_name :: "string option"
  ju_status :: "status option"
  ju_description :: "string option"

definition journal_changes :: "journal_update_values \<Rightarrow> journal_values \<Rightarrow> journal_values \<times> string list" where
  "journal_changes u v =
     (let r = (v, []);
          r = set_field ''name'' jv_name jv_name_update (ju_name u) r;
          r = set_field ''status'' jv_status jv_status_update (ju_status u) r;
          r = set_field ''description'' jv_description jv_description_update
                (map_option Some (ju_description u)) r
      in r)"

definition journal_update ::
  "journal_update_values \<Rightarrow> (journal_id, journal_values) entity \<Rightarrow> (journal_id, journal_values) entity \<times> idempotent" where
  "journal_update u e = finish_update (journal_changes u (ent_values e)) e"

definition is_locked :: "(journal_id, journal_values) entity \<Rightarrow> bool" where
  "is_locked j \<longleftrightarrow> jv_status (ent_values j) = Locked"

definition insert_effective_balances :: "(journal_id, journal_values) entity \<Rightarrow> bool" where
  "insert_effective_balances j \<longleftrightarrow> jc_enable_effective_balances (jv_config (ent_values j))"

text \<open>
  An update rebuilt from the values and fields of an \<open>Updated\<close> event; \<open>None\<close> is the panic of
  \<open>unreachable!\<close> on an unknown field.
\<close>

definition journal_update_field ::
  "journal_values \<Rightarrow> journal_update_values option \<Rightarrow> string \<Rightarrow> journal_update_values option" where
  "journal_update_field v = (\<lambda>u field.
     Option.bind u (\<lambda>u.
       if field = ''name'' then Some (u \<lparr> ju_name := Some (jv_name v) \<rparr>)
       else if field = ''status'' then Some (u \<lparr> ju_status := Some (jv_status v) \<rparr>)
       else if field = ''description'' then
         Some (case jv_description v of Some d \<Rightarrow> u \<lparr> ju_description := Some d \<rparr> | None \<Rightarrow> u)
       else None))"

definition journal_update_from :: "journal_values \<times> string list \<Rightarrow> journal_update_values option" where
  "journal_update_from = (\<lambda>(v, fields).
     foldl (journal_update_field v)
       (Some \<lparr> ju_name = None, ju_status = None, ju_description = None \<rparr>) fields)"

definition account_set_update_field ::
  "account_set_values \<Rightarrow> account_set_update_values option \<Rightarrow> string \<Rightarrow> account_set_update_values option" where
  "account_set_update_field v = (\<lambda>u field.
     Option.bind u (\<lambda>u.
       if field = ''external_id'' then
         Some (case asv_external_id v of Some x \<Rightarrow> u \<lparr> asu_external_id := Some x \<rparr> | None \<Rightarrow> u)
       else if field = ''name'' then Some (u \<lparr> asu_name := Some (asv_name v) \<rparr>)
       else if field = ''normal_balance_type'' then
         Some (u \<lparr> asu_normal_balance_type := Some (asv_normal_balance_type v) \<rparr>)
       else if field = ''description'' then
         Some (case asv_description v of Some d \<Rightarrow> u \<lparr> asu_description := Some d \<rparr> | None \<Rightarrow> u)
       else if field = ''metadata'' then
         Some (case asv_metadata v of Some j \<Rightarrow> u \<lparr> asu_metadata := Some j \<rparr> | None \<Rightarrow> u)
       else None))"

definition account_set_update_from :: "account_set_values \<times> string list \<Rightarrow> account_set_update_values option" where
  "account_set_update_from = (\<lambda>(v, fields).
     foldl (account_set_update_field v)
       (Some \<lparr> asu_external_id = None, asu_name = None, asu_normal_balance_type = None,
               asu_description = None, asu_metadata = None \<rparr>) fields)"

section \<open>New entities\<close>

record new_account =
  na_id :: account_id
  na_code :: string
  na_name :: string
  na_external_id :: "string option"
  na_normal_balance_type :: debit_or_credit
  na_status :: status
  na_eventually_consistent :: bool
  na_is_account_set :: bool
  na_velocity_context_values :: "context_account_values option"
  na_description :: "string option"
  na_metadata :: "json option"
  na_initial_account_set :: "account_set_id option"

definition new_account_values :: "new_account \<Rightarrow> account_values" where
  "new_account_values n =
     \<lparr> av_id = na_id n, av_version = 1, av_code = na_code n, av_name = na_name n,
       av_normal_balance_type = na_normal_balance_type n, av_status = na_status n,
       av_external_id = na_external_id n, av_description = na_description n,
       av_metadata = na_metadata n,
       av_config = \<lparr> acfg_is_account_set = na_is_account_set n,
                     acfg_eventually_consistent = na_eventually_consistent n \<rparr> \<rparr>"

definition new_account_context :: "new_account \<Rightarrow> context_account_values" where
  "new_account_context n =
     (case na_velocity_context_values n of
        Some v \<Rightarrow> v
      | None \<Rightarrow> context_of_account (new_account_values n))"

definition account_into_events :: "new_account \<Rightarrow> account_values entity_event list" where
  "account_into_events n = [Initialized (new_account_values n)]"

definition set_balance_rollup :: "balance_rollup \<Rightarrow> new_account \<Rightarrow> new_account" where
  "set_balance_rollup r n = n \<lparr> na_eventually_consistent := (r = EventuallyConsistent) \<rparr>"

record new_account_set =
  nas_id :: account_set_id
  nas_name :: string
  nas_external_id :: "string option"
  nas_journal_id :: journal_id
  nas_normal_balance_type :: debit_or_credit
  nas_balance_rollup :: balance_rollup
  nas_description :: "string option"
  nas_metadata :: "json option"

definition is_eventually_consistent :: "new_account_set \<Rightarrow> bool" where
  "is_eventually_consistent n \<longleftrightarrow> nas_balance_rollup n = EventuallyConsistent"

definition new_account_set_context :: "new_account_set \<Rightarrow> context_account_values" where
  "new_account_set_context n =
     \<lparr> cav_id = account_of_set (nas_id n), cav_name = nas_name n,
       cav_normal_balance_type = nas_normal_balance_type n,
       cav_external_id = nas_external_id n, cav_metadata = nas_metadata n \<rparr>"

definition new_account_set_values :: "new_account_set \<Rightarrow> account_set_values" where
  "new_account_set_values n =
     \<lparr> asv_id = nas_id n, asv_version = 1, asv_journal_id = nas_journal_id n, asv_name = nas_name n,
       asv_external_id = nas_external_id n, asv_description = nas_description n,
       asv_metadata = nas_metadata n, asv_normal_balance_type = nas_normal_balance_type n \<rparr>"

definition account_set_into_events :: "new_account_set \<Rightarrow> account_set_values entity_event list" where
  "account_set_into_events n = [Initialized (new_account_set_values n)]"

record new_journal =
  nj_id :: journal_id
  nj_name :: string
  nj_code :: "string option"
  nj_status :: status
  nj_description :: "string option"
  nj_enable_effective_balance :: bool

definition new_journal_values :: "new_journal \<Rightarrow> journal_values" where
  "new_journal_values n =
     \<lparr> jv_id = nj_id n, jv_version = 1, jv_name = nj_name n, jv_code = nj_code n,
       jv_status = nj_status n, jv_description = nj_description n,
       jv_config = \<lparr> jc_enable_effective_balances = nj_enable_effective_balance n \<rparr> \<rparr>"

definition journal_into_events :: "new_journal \<Rightarrow> journal_values entity_event list" where
  "journal_into_events n = [Initialized (new_journal_values n)]"

record 'd new_entry =
  ne_id :: entry_id
  ne_transaction_id :: transaction_id
  ne_journal_id :: journal_id
  ne_account_id :: account_id
  ne_entry_type :: string
  ne_sequence :: u32
  ne_layer :: layer
  ne_units :: 'd
  ne_currency :: currency
  ne_direction :: debit_or_credit
  ne_description :: "string option"
  ne_metadata :: "json option"

definition new_entry_values :: "'d new_entry \<Rightarrow> 'd entry_values" where
  "new_entry_values n =
     \<lparr> e_id = ne_id n, e_version = 1, e_transaction_id = ne_transaction_id n,
       e_journal_id = ne_journal_id n, e_account_id = ne_account_id n,
       e_entry_type = ne_entry_type n, e_sequence = ne_sequence n, e_layer = ne_layer n,
       e_units = ne_units n, e_currency = ne_currency n, e_direction = ne_direction n,
       e_description = ne_description n, e_metadata = ne_metadata n \<rparr>"

record new_transaction =
  nt_id :: transaction_id
  nt_created_at :: date_time
  nt_journal_id :: journal_id
  nt_tx_template_id :: tx_template_id
  nt_effective :: naive_date
  nt_correlation_id :: string
  nt_external_id :: "string option"
  nt_description :: "string option"
  nt_metadata :: "json option"
  nt_entry_ids :: "entry_id list"

definition new_transaction_values :: "new_transaction \<Rightarrow> transaction_values" where
  "new_transaction_values n =
     \<lparr> tv_id = nt_id n, tv_version = 1, tv_created_at = nt_created_at n,
       tv_modified_at = nt_created_at n, tv_journal_id = nt_journal_id n,
       tv_tx_template_id = nt_tx_template_id n, tv_entry_ids = nt_entry_ids n,
       tv_effective = nt_effective n, tv_correlation_id = nt_correlation_id n,
       tv_external_id = nt_external_id n, tv_description = nt_description n,
       tv_metadata = nt_metadata n \<rparr>"

text \<open>\<open>NewTransactionBuilder::id\<close>: the correlation id defaults to the printed transaction id.\<close>

definition builder_id ::
  "'d cel_lib \<Rightarrow> transaction_id \<Rightarrow> transaction_id option \<times> string option \<Rightarrow> transaction_id option \<times> string option" where
  "builder_id lib tid = (\<lambda>(_, correlation_id).
     (Some tid,
      if correlation_id = None then Some (lib_show_uuid lib (transaction_uuid tid)) else correlation_id))"

section \<open>The contract of updates\<close>

text \<open>
  A guarded assignment in closed form: the new value or the old one, and the name of the field
  when they differ.
\<close>

definition new_or :: "'a option \<Rightarrow> 'a \<Rightarrow> 'a" where
  "new_or new old = (case new of Some x \<Rightarrow> x | None \<Rightarrow> old)"

definition changed :: "string \<Rightarrow> 'a option \<Rightarrow> 'a \<Rightarrow> string list" where
  "changed name new old = (if new = None \<or> new = Some old then [] else [name])"

lemma set_field_eq:
  assumes "upd (\<lambda>_. get v) v = v" "upd (\<lambda>x. x) v = v"
  shows "set_field name get upd new (v, fs) = (upd (new_or new) v, fs @ changed name new (get v))"
  using assms by (cases new) (auto simp: set_field_def new_or_def[abs_def] changed_def)

lemma new_or_unchanged: "changed name new old = [] \<Longrightarrow> new_or new old = old"
  by (auto simp: changed_def new_or_def split: if_splits)

lemma changed_new_or [simp]: "changed name new (new_or new old) = []"
  by (cases new) (auto simp: changed_def new_or_def)

lemma new_or_new_or [simp]: "new_or new (new_or new old) = new_or new old"
  by (cases new) (simp_all add: new_or_def)

lemma account_changes_eq:
  "account_changes u v =
     (v \<lparr> av_code := new_or (au_code u) (av_code v), av_name := new_or (au_name u) (av_name v),
         av_normal_balance_type := new_or (au_normal_balance_type u) (av_normal_balance_type v),
         av_status := new_or (au_status u) (av_status v),
         av_external_id := new_or (map_option Some (au_external_id u)) (av_external_id v),
         av_description := new_or (map_option Some (au_description u)) (av_description v),
         av_metadata := new_or (new_metadata (au_metadata u)) (av_metadata v) \<rparr>,
      changed ''code'' (au_code u) (av_code v) @ changed ''name'' (au_name u) (av_name v)
      @ changed ''normal_balance_type'' (au_normal_balance_type u) (av_normal_balance_type v)
      @ changed ''status'' (au_status u) (av_status v)
      @ changed ''external_id'' (map_option Some (au_external_id u)) (av_external_id v)
      @ changed ''description'' (map_option Some (au_description u)) (av_description v)
      @ changed ''metadata'' (new_metadata (au_metadata u)) (av_metadata v))"
  by (cases v) (simp add: account_changes_def set_field_eq)

lemma account_set_changes_eq:
  "account_set_changes u v =
     (v \<lparr> asv_name := new_or (asu_name u) (asv_name v),
         asv_normal_balance_type := new_or (asu_normal_balance_type u) (asv_normal_balance_type v),
         asv_external_id := new_or (map_option Some (asu_external_id u)) (asv_external_id v),
         asv_description := new_or (map_option Some (asu_description u)) (asv_description v),
         asv_metadata := new_or (new_metadata (asu_metadata u)) (asv_metadata v) \<rparr>,
      changed ''name'' (asu_name u) (asv_name v)
      @ changed ''normal_balance_type'' (asu_normal_balance_type u) (asv_normal_balance_type v)
      @ changed ''external_id'' (map_option Some (asu_external_id u)) (asv_external_id v)
      @ changed ''description'' (map_option Some (asu_description u)) (asv_description v)
      @ changed ''metadata'' (new_metadata (asu_metadata u)) (asv_metadata v))"
  by (cases v) (simp add: account_set_changes_def set_field_eq)

lemma journal_changes_eq:
  "journal_changes u v =
     (v \<lparr> jv_name := new_or (ju_name u) (jv_name v), jv_status := new_or (ju_status u) (jv_status v),
         jv_description := new_or (map_option Some (ju_description u)) (jv_description v) \<rparr>,
      changed ''name'' (ju_name u) (jv_name v) @ changed ''status'' (ju_status u) (jv_status v)
      @ changed ''description'' (map_option Some (ju_description u)) (jv_description v))"
  by (cases v) (simp add: journal_changes_def set_field_eq)

text \<open>
  \<open>after_updates\<close> is the entity after a sequence of updates.
  What an entity relies on of the changes its update computes: no noted field means no change,
  applying the same update again changes nothing, and the id is never touched.
\<close>

definition after_updates ::
  "('u \<Rightarrow> 'v \<Rightarrow> 'v \<times> string list) \<Rightarrow> ('k, 'v) entity \<Rightarrow> 'u list \<Rightarrow> ('k, 'v) entity" where
  "after_updates changes e us = foldl (\<lambda>e u. fst (finish_update (changes u (ent_values e)) e)) e us"

locale event_sourced =
  fixes changes :: "'u \<Rightarrow> 'v \<Rightarrow> 'v \<times> string list" and id_of :: "'v \<Rightarrow> 'k"
  assumes unchanged: "snd (changes u v) = [] \<Longrightarrow> fst (changes u v) = v"
    and settles: "changes u (fst (changes u v)) = (fst (changes u v), [])"
    and keeps_id: "id_of (fst (changes u v)) = id_of v"
begin

lemma hydrate_Inr_iff:
  "hydrate (ent_events e) (foldl (apply_event id_of) (None, None) (ent_events e)) = Inr e \<longleftrightarrow>
     foldl (apply_event id_of) (None, None) (ent_events e) = (Some (ent_id e), Some (ent_values e))"
  by (cases e; cases "foldl (apply_event id_of) (None, None) (ent_events e)")
    (auto simp: hydrate_def rbind_Inr_iff ok_or_Inr_iff)

lemma hydrate_updated:
  assumes "hydrate (ent_events e) (foldl (apply_event id_of) (None, None) (ent_events e)) = Inr e"
    and "e' = fst (finish_update (changes u (ent_values e)) e)"
  shows "hydrate (ent_events e') (foldl (apply_event id_of) (None, None) (ent_events e')) = Inr e'"
proof -
  obtain v fs where c: "changes u (ent_values e) = (v, fs)" by (cases "changes u (ent_values e)")
  show ?thesis
    using assms unchanged[of u "ent_values e"] c
    unfolding hydrate_Inr_iff by (cases e) (auto simp: finish_update_def Let_def)
qed

lemma hydrate_updates:
  assumes "hydrate (ent_events e) (foldl (apply_event id_of) (None, None) (ent_events e)) = Inr e"
  shows "let e' = after_updates changes e us
         in hydrate (ent_events e') (foldl (apply_event id_of) (None, None) (ent_events e')) = Inr e'"
  using assms
proof (induction us arbitrary: e)
  case (Cons u us)
  from Cons.IH[OF hydrate_updated[OF Cons.prems refl, of u]] show ?case
    by (simp add: after_updates_def)
qed (simp add: after_updates_def)

lemma ids_updates:
  assumes "ent_id e = id_of (ent_values e)"
  shows "let e' = after_updates changes e us in ent_id e' = ent_id e \<and> id_of (ent_values e') = ent_id e"
  using assms
proof (induction us arbitrary: e)
  case (Cons u us)
  let ?e = "fst (finish_update (changes u (ent_values e)) e)"
  have "ent_id ?e = ent_id e" "id_of (ent_values ?e) = id_of (ent_values e)"
    using keeps_id[of u "ent_values e"] by (auto simp: finish_update_def Let_def split: prod.split)
  with Cons.IH[of ?e] Cons.prems show ?case by (simp add: after_updates_def)
qed (simp add: after_updates_def)

lemma history:
  "\<exists>a. hydrate [Initialized v] (foldl (apply_event id_of) (None, None) [Initialized v]) = Inr a
     \<and> (\<forall>us. let e = after_updates changes a us
             in hydrate (ent_events e) (foldl (apply_event id_of) (None, None) (ent_events e)) = Inr e
                \<and> ent_id e = id_of v \<and> id_of (ent_values e) = id_of v)"
proof -
  let ?a = "\<lparr> ent_id = id_of v, ent_values = v, ent_events = [Initialized v] \<rparr>"
  have "hydrate [Initialized v] (foldl (apply_event id_of) (None, None) [Initialized v]) = Inr ?a"
    by (simp add: hydrate_def)
  moreover have "hydrate (ent_events ?a) (foldl (apply_event id_of) (None, None) (ent_events ?a)) = Inr ?a"
    by (simp add: hydrate_def)
  ultimately show ?thesis
    using hydrate_updates[of ?a] ids_updates[of ?a] by (metis (no_types, lifting) entity.select_convs(1,2))
qed

lemma update_again:
  assumes "e' = fst (finish_update (changes u (ent_values e)) e)"
  shows "finish_update (changes u (ent_values e')) e' = (e', AlreadyApplied)"
proof -
  have "ent_values e' = fst (changes u (ent_values e))"
    by (simp add: assms finish_update_def Let_def split: prod.split)
  then show ?thesis by (simp add: settles finish_update_def)
qed

lemma executed_iff:
  "snd (finish_update (changes u (ent_values e)) e) = Executed \<longleftrightarrow> fst (changes u (ent_values e)) \<noteq> ent_values e"
proof -
  have "snd (changes u (ent_values e)) = []" if "fst (changes u (ent_values e)) = ent_values e"
    using settles[of u "ent_values e"] that by (metis snd_conv)
  with unchanged[of u "ent_values e"] show ?thesis
    by (auto simp: finish_update_def Let_def split: prod.splits)
qed

lemma update_contract:
  "let (e', r) = finish_update (changes u (ent_values e)) e
   in finish_update (changes u (ent_values e')) e' = (e', AlreadyApplied)
      \<and> (r = Executed \<longleftrightarrow> ent_values e' \<noteq> ent_values e)
      \<and> (\<exists>fs. ent_events e' = ent_events e @ (if r = Executed then [Updated (ent_values e') fs] else []))"
proof -
  obtain e' r where e': "finish_update (changes u (ent_values e)) e = (e', r)"
    by (cases "finish_update (changes u (ent_values e)) e")
  obtain v fs where c: "changes u (ent_values e) = (v, fs)" by (cases "changes u (ent_values e)")
  have "ent_values e' = v"
    "\<exists>fs. ent_events e' = ent_events e @ (if r = Executed then [Updated (ent_values e') fs] else [])"
    using e' c by (auto simp: finish_update_def Let_def split: if_splits)
  then show ?thesis
    using update_again[of e' u e] executed_iff[of u e] e' c by auto
qed

end

lemma account_values_unchanged: "snd (account_changes u v) = [] \<Longrightarrow> fst (account_changes u v) = v"
  by (cases v) (auto simp: account_changes_eq dest!: new_or_unchanged)

lemma account_set_values_unchanged: "snd (account_set_changes u v) = [] \<Longrightarrow> fst (account_set_changes u v) = v"
  by (cases v) (auto simp: account_set_changes_eq dest!: new_or_unchanged)

lemma journal_values_unchanged: "snd (journal_changes u v) = [] \<Longrightarrow> fst (journal_changes u v) = v"
  by (cases v) (auto simp: journal_changes_eq dest!: new_or_unchanged)

interpretation account_entity: event_sourced account_changes av_id
  by unfold_locales (fact account_values_unchanged, simp_all add: account_changes_eq)

interpretation account_set_entity: event_sourced account_set_changes asv_id
  by unfold_locales (fact account_set_values_unchanged, simp_all add: account_set_changes_eq)

interpretation journal_entity: event_sourced journal_changes jv_id
  by unfold_locales (fact journal_values_unchanged, simp_all add: journal_changes_eq)

end
