(* ===== verification/Tx_Template.thy ===== *)
theory Tx_Template imports Params Entities begin

text \<open>
  Transaction templates: their values (\<open>core-types/src/tx_template.rs\<close>), the builders that validate
  the expressions of a new one (\<open>tx_template/entity.rs\<close>), and the evaluation of a template and the
  parameters of a call to the rows it writes (\<open>tx_template/mod.rs\<close>). The tables of currencies, the
  ids drawn for new entries and the order in which a \<open>HashMap\<close> is iterated are parameters.
\<close>

section \<open>Templates\<close>

record tx_template_entry =
  te_entry_type :: cel_expression
  te_account_id :: cel_expression
  te_layer :: cel_expression
  te_direction :: cel_expression
  te_units :: cel_expression
  te_currency :: cel_expression
  te_description :: "cel_expression option"
  te_metadata :: "cel_expression option"

record tx_template_transaction =
  tt_effective :: cel_expression
  tt_journal_id :: cel_expression
  tt_correlation_id :: "cel_expression option"
  tt_external_id :: "cel_expression option"
  tt_description :: "cel_expression option"
  tt_metadata :: "cel_expression option"

record tx_template_values =
  tmpl_id :: tx_template_id
  tmpl_version :: u32
  tmpl_code :: string
  tmpl_params :: "param_definition list option"
  tmpl_transaction :: tx_template_transaction
  tmpl_entries :: "tx_template_entry list"
  tmpl_description :: "string option"
  tmpl_metadata :: "json option"

section \<open>Building a template\<close>

definition validate_expression :: "'d cel_env \<Rightarrow> string \<Rightarrow> string + unit" where
  "validate_expression env source =
     rbind (map_err (env_show env) (cel_expression_try_from env source)) (\<lambda>_. Inr ())"

definition validate_optional_expression :: "'d cel_env \<Rightarrow> string option option \<Rightarrow> string + unit" where
  "validate_optional_expression env x =
     (case x of
        Some (Some source) \<Rightarrow>
          rbind (map_err (env_show env) (cel_expression_try_from env source)) (\<lambda>_. Inr ())
      | _ \<Rightarrow> Inr ())"

text \<open>A field of a builder that was set; \<open>validate\<close> panics (\<open>None\<close>) on a mandatory one that was not.\<close>

record entry_builder =
  eb_entry_type :: "string option"
  eb_account_id :: "string option"
  eb_layer :: "string option"
  eb_direction :: "string option"
  eb_units :: "string option"
  eb_currency :: "string option"
  eb_description :: "string option option"
  eb_metadata :: "string option option"

text \<open>
  The expressions are validated in turn: the panic of a field that is not set comes before the
  errors of the later ones, and an error before the panics of the later ones.
\<close>

fun validate_mandatory :: "'d cel_env \<Rightarrow> string option list \<Rightarrow> (string + unit) option" where
  "validate_mandatory env [] = Some (Inr ())"
| "validate_mandatory env (None # xs) = None"
| "validate_mandatory env (Some source # xs) =
     (case validate_expression env source of
        Inl e \<Rightarrow> Some (Inl e)
      | Inr _ \<Rightarrow> validate_mandatory env xs)"

definition validate_entry :: "'d cel_env \<Rightarrow> entry_builder \<Rightarrow> (string + unit) option" where
  "validate_entry env b =
     map_option (\<lambda>r. rbind r (\<lambda>_.
       rbind (validate_optional_expression env (eb_description b)) (\<lambda>_.
         validate_optional_expression env (eb_metadata b))))
       (validate_mandatory env
          [eb_entry_type b, eb_account_id b, eb_layer b, eb_direction b, eb_units b, eb_currency b])"

record new_template_entry =
  nte_entry_type :: string
  nte_account_id :: string
  nte_layer :: string
  nte_direction :: string
  nte_units :: string
  nte_currency :: string
  nte_description :: "string option"
  nte_metadata :: "string option"

definition flatten :: "'a option option \<Rightarrow> 'a option" where
  "flatten x = (case x of Some y \<Rightarrow> y | None \<Rightarrow> None)"

definition build_entry :: "'d cel_env \<Rightarrow> entry_builder \<Rightarrow> (builder_error + new_template_entry) option" where
  "build_entry env b =
     map_option (\<lambda>r. rbind (map_err ValidationError r) (\<lambda>_.
       rbind (ok_or (UninitializedField ''entry_type'') (eb_entry_type b)) (\<lambda>entry_type.
       rbind (ok_or (UninitializedField ''account_id'') (eb_account_id b)) (\<lambda>account_id.
       rbind (ok_or (UninitializedField ''layer'') (eb_layer b)) (\<lambda>layer.
       rbind (ok_or (UninitializedField ''direction'') (eb_direction b)) (\<lambda>direction.
       rbind (ok_or (UninitializedField ''units'') (eb_units b)) (\<lambda>units.
       rbind (ok_or (UninitializedField ''currency'') (eb_currency b)) (\<lambda>currency.
         Inr \<lparr> nte_entry_type = entry_type, nte_account_id = account_id, nte_layer = layer,
               nte_direction = direction, nte_units = units, nte_currency = currency,
               nte_description = flatten (eb_description b), nte_metadata = flatten (eb_metadata b) \<rparr>))))))))
       (validate_entry env b)"

text \<open>\<open>From<NewTxTemplateEntry>\<close>, which parses every expression with \<open>expect\<close>.\<close>

definition template_entry_from :: "'d cel_env \<Rightarrow> new_template_entry \<Rightarrow> tx_template_entry option" where
  "template_entry_from env n =
     Option.bind (expect_expression env (nte_entry_type n)) (\<lambda>entry_type.
     Option.bind (expect_expression env (nte_account_id n)) (\<lambda>account_id.
     Option.bind (expect_expression env (nte_layer n)) (\<lambda>layer.
     Option.bind (expect_expression env (nte_direction n)) (\<lambda>direction.
     Option.bind (expect_expression env (nte_units n)) (\<lambda>units.
     Option.bind (expect_expression env (nte_currency n)) (\<lambda>currency.
     Option.bind (expect_optional env (nte_description n)) (\<lambda>description.
     Option.bind (expect_optional env (nte_metadata n)) (\<lambda>metadata.
       Some \<lparr> te_entry_type = entry_type, te_account_id = account_id, te_layer = layer,
              te_direction = direction, te_units = units, te_currency = currency,
              te_description = description, te_metadata = metadata \<rparr>))))))))"

record transaction_builder =
  tb_effective :: "string option"
  tb_journal_id :: "string option"
  tb_correlation_id :: "string option option"
  tb_external_id :: "string option option"
  tb_description :: "string option option"
  tb_metadata :: "string option option"

definition validate_transaction :: "'d cel_env \<Rightarrow> transaction_builder \<Rightarrow> (string + unit) option" where
  "validate_transaction env b =
     map_option (\<lambda>r. rbind r (\<lambda>_.
       rbind (validate_optional_expression env (tb_correlation_id b)) (\<lambda>_.
       rbind (validate_optional_expression env (tb_external_id b)) (\<lambda>_.
       rbind (validate_optional_expression env (tb_description b)) (\<lambda>_.
         validate_optional_expression env (tb_metadata b))))))
       (validate_mandatory env [tb_effective b, tb_journal_id b])"

record new_template_transaction =
  ntt_effective :: string
  ntt_journal_id :: string
  ntt_correlation_id :: "string option"
  ntt_external_id :: "string option"
  ntt_description :: "string option"
  ntt_metadata :: "string option"

definition build_transaction :: "'d cel_env \<Rightarrow> transaction_builder \<Rightarrow> (builder_error + new_template_transaction) option" where
  "build_transaction env b =
     map_option (\<lambda>r. rbind (map_err ValidationError r) (\<lambda>_.
       rbind (ok_or (UninitializedField ''effective'') (tb_effective b)) (\<lambda>effective.
       rbind (ok_or (UninitializedField ''journal_id'') (tb_journal_id b)) (\<lambda>journal_id.
         Inr \<lparr> ntt_effective = effective, ntt_journal_id = journal_id,
               ntt_correlation_id = flatten (tb_correlation_id b),
               ntt_external_id = flatten (tb_external_id b),
               ntt_description = flatten (tb_description b),
               ntt_metadata = flatten (tb_metadata b) \<rparr>))))
       (validate_transaction env b)"

definition template_transaction_from ::
  "'d cel_env \<Rightarrow> new_template_transaction \<Rightarrow> tx_template_transaction option" where
  "template_transaction_from env n =
     Option.bind (expect_expression env (ntt_effective n)) (\<lambda>effective.
     Option.bind (expect_expression env (ntt_journal_id n)) (\<lambda>journal_id.
     Option.bind (expect_optional env (ntt_correlation_id n)) (\<lambda>correlation_id.
     Option.bind (expect_optional env (ntt_external_id n)) (\<lambda>external_id.
     Option.bind (expect_optional env (ntt_description n)) (\<lambda>description.
     Option.bind (expect_optional env (ntt_metadata n)) (\<lambda>metadata.
       Some \<lparr> tt_effective = effective, tt_journal_id = journal_id,
              tt_correlation_id = correlation_id, tt_external_id = external_id,
              tt_description = description, tt_metadata = metadata \<rparr>))))))"

record new_tx_template =
  ntmpl_id :: tx_template_id
  ntmpl_code :: string
  ntmpl_description :: "string option"
  ntmpl_params :: "new_param_definition list option"
  ntmpl_transaction :: new_template_transaction
  ntmpl_entries :: "new_template_entry list"
  ntmpl_metadata :: "json option"

fun expect_all :: "('a \<Rightarrow> 'b option) \<Rightarrow> 'a list \<Rightarrow> 'b list option" where
  "expect_all f [] = Some []"
| "expect_all f (x # xs) =
     Option.bind (f x) (\<lambda>y. Option.bind (expect_all f xs) (\<lambda>ys. Some (y # ys)))"

definition template_into_events ::
  "'d cel_env \<Rightarrow> new_tx_template \<Rightarrow> tx_template_values entity_event list option" where
  "template_into_events env n =
     Option.bind (case ntmpl_params n of
         None \<Rightarrow> Some None
       | Some ps \<Rightarrow> map_option Some (expect_all (param_definition_from env) ps)) (\<lambda>params.
     Option.bind (template_transaction_from env (ntmpl_transaction n)) (\<lambda>transaction.
     Option.bind (expect_all (template_entry_from env) (ntmpl_entries n)) (\<lambda>entries.
       Some [Initialized
         \<lparr> tmpl_id = ntmpl_id n, tmpl_version = 1, tmpl_code = ntmpl_code n, tmpl_params = params,
           tmpl_transaction = transaction, tmpl_entries = entries,
           tmpl_description = ntmpl_description n, tmpl_metadata = ntmpl_metadata n \<rparr>])))"

definition template_try_from_events ::
  "tx_template_values list \<Rightarrow> hydration_error + (tx_template_id, tx_template_values) entity" where
  "template_try_from_events initialized =
     hydrate (map Initialized initialized)
       (foldl (apply_event tmpl_id) (None, None) (map Initialized initialized))"

section \<open>Preparing a transaction\<close>

datatype 'd tx_template_error =
    TmplCelError cel_error
  | TmplNotFound
  | UnbalancedTransaction currency layer 'd
  | TmplParamError param_error

text \<open>What preparation takes from outside: CEL, the currency tables, new ids, hash order.\<close>

record 'd prep_env =
  pe_cel :: "'d cel_env"
  pe_iso_find :: "string \<Rightarrow> string option"
  pe_crypto_find :: "string \<Rightarrow> string option"
  pe_debug_currency_error :: "parse_currency_error \<Rightarrow> string"
  pe_new_entry_id :: "nat \<Rightarrow> entry_id"
  pe_hash_order :: "((currency \<times> layer) \<times> 'd) list \<Rightarrow> ((currency \<times> layer) \<times> 'd) list"

definition coerce_currency ::
  "'d prep_env \<Rightarrow> string \<Rightarrow> 'd cel_value \<Rightarrow> result_coercion_error + currency" where
  "coerce_currency pe expr v =
     (let lib = env_lib (pe_cel pe)
      in case v of
           CString s \<Rightarrow>
             map_err (\<lambda>e. ExternalTypeCoercionError (lib_debug_string lib expr) (lib_debug_string lib s)
                            ''Currency'' (pe_debug_currency_error pe e))
               (currency_from_str (pe_iso_find pe) (pe_crypto_find pe) s)
         | v \<Rightarrow> Inl (BadExternalTypeCoercion (lib_debug_string lib expr) (cel_type_of v) ''Currency''))"

definition add_total ::
  "debit_or_credit \<Rightarrow> 'd::linordered_ab_group_add \<Rightarrow> 'd option \<Rightarrow> 'd" where
  "add_total direction units old =
     (let total = (case old of Some t \<Rightarrow> t | None \<Rightarrow> 0)
      in case direction of Debit \<Rightarrow> total - units | Credit \<Rightarrow> total + units)"

definition tmpl_eval ::
  "'d::linorder prep_env \<Rightarrow> 'd cel_context \<Rightarrow> (string \<Rightarrow> 'd cel_value \<Rightarrow> result_coercion_error + 'a)
     \<Rightarrow> cel_expression \<Rightarrow> 'd tx_template_error + 'a" where
  "tmpl_eval pe ctx coerce e = map_err TmplCelError (try_evaluate (pe_cel pe) ctx coerce e)"

definition prep_entry ::
  "'d::linordered_ab_group_add prep_env \<Rightarrow> transaction_id \<Rightarrow> journal_id \<Rightarrow> 'd cel_context
     \<Rightarrow> 'd new_entry list \<times> ((currency \<times> layer) \<times> 'd) list \<Rightarrow> nat \<times> tx_template_entry
     \<Rightarrow> 'd tx_template_error + 'd new_entry list \<times> ((currency \<times> layer) \<times> 'd) list" where
  "prep_entry pe tid jid ctx = (\<lambda>(new_entries, totals) (zero_based_sequence, entry).
     (let lib = env_lib (pe_cel pe)
      in rbind (tmpl_eval pe ctx coerce_uuid (te_account_id entry)) (\<lambda>account_id.
         rbind (tmpl_eval pe ctx coerce_string (te_entry_type entry)) (\<lambda>entry_type.
         rbind (tmpl_eval pe ctx (coerce_layer lib) (te_layer entry)) (\<lambda>layer.
         rbind (tmpl_eval pe ctx coerce_decimal (te_units entry)) (\<lambda>units.
         rbind (tmpl_eval pe ctx (coerce_currency pe) (te_currency entry)) (\<lambda>currency.
         rbind (tmpl_eval pe ctx (coerce_direction lib) (te_direction entry)) (\<lambda>direction.
         rbind (transpose_opt (map_option (tmpl_eval pe ctx coerce_string) (te_description entry))) (\<lambda>description.
         rbind (transpose_opt (map_option (tmpl_eval pe ctx (to_json lib)) (te_metadata entry))) (\<lambda>metadata.
           Inr (new_entries @
                  [\<lparr> ne_id = pe_new_entry_id pe zero_based_sequence, ne_transaction_id = tid,
                     ne_journal_id = jid, ne_account_id = AccountId account_id, ne_entry_type = entry_type,
                     ne_sequence = of_nat zero_based_sequence + 1, ne_layer = layer, ne_units = units,
                     ne_currency = currency, ne_direction = direction, ne_description = description,
                     ne_metadata = metadata \<rparr>],
                upsert (currency, layer) (add_total direction units) totals)))))))))))"

fun first_unbalanced :: "((currency \<times> layer) \<times> 'd::zero) list \<Rightarrow> 'd tx_template_error + unit" where
  "first_unbalanced [] = Inr ()"
| "first_unbalanced (((c, l), v) # totals) =
     (if v \<noteq> 0 then Inl (UnbalancedTransaction c l v) else first_unbalanced totals)"

definition prep_entries ::
  "'d::linordered_ab_group_add prep_env \<Rightarrow> tx_template_values \<Rightarrow> transaction_id \<Rightarrow> journal_id
     \<Rightarrow> 'd cel_context \<Rightarrow> 'd tx_template_error + 'd new_entry list" where
  "prep_entries pe tmpl tid jid ctx =
     rbind (rfold (prep_entry pe tid jid ctx) ([], []) (enumerate 0 (tmpl_entries tmpl)))
       (\<lambda>(new_entries, totals).
          rbind (first_unbalanced (pe_hash_order pe totals)) (\<lambda>_. Inr new_entries))"

record 'd prepared_transaction =
  pt_tx_id :: transaction_id
  pt_journal_id :: journal_id
  pt_tx_template_id :: tx_template_id
  pt_effective :: naive_date
  pt_correlation_id :: "string option"
  pt_external_id :: "string option"
  pt_description :: "string option"
  pt_metadata :: "json option"
  pt_entries :: "'d new_entry list"

definition prepare_transaction ::
  "'d::linordered_ab_group_add prep_env \<Rightarrow> date_time \<Rightarrow> transaction_id \<Rightarrow> tx_template_values
     \<Rightarrow> 'd params \<Rightarrow> 'd tx_template_error + 'd prepared_transaction" where
  "prepare_transaction pe now tid tmpl ps =
     (let lib = env_lib (pe_cel pe); tt = tmpl_transaction tmpl
      in rbind (map_err TmplParamError (into_context (pe_cel pe) now ps (tmpl_params tmpl))) (\<lambda>ctx.
         rbind (tmpl_eval pe ctx coerce_uuid (tt_journal_id tt)) (\<lambda>journal_id.
         rbind (prep_entries pe tmpl tid (JournalId journal_id) ctx) (\<lambda>entries.
         rbind (tmpl_eval pe ctx (coerce_date lib) (tt_effective tt)) (\<lambda>effective.
         rbind (transpose_opt (map_option (tmpl_eval pe ctx coerce_string) (tt_correlation_id tt))) (\<lambda>correlation_id.
         rbind (transpose_opt (map_option (tmpl_eval pe ctx coerce_string) (tt_external_id tt))) (\<lambda>external_id.
         rbind (transpose_opt (map_option (tmpl_eval pe ctx coerce_string) (tt_description tt))) (\<lambda>description.
         rbind (transpose_opt (map_option (tmpl_eval pe ctx (to_json lib)) (tt_metadata tt))) (\<lambda>metadata.
           Inr \<lparr> pt_tx_id = tid, pt_journal_id = JournalId journal_id, pt_tx_template_id = tmpl_id tmpl,
                 pt_effective = effective, pt_correlation_id = correlation_id,
                 pt_external_id = external_id, pt_description = description, pt_metadata = metadata,
                 pt_entries = entries \<rparr>)))))))))"

definition into_new_transaction ::
  "'d cel_lib \<Rightarrow> 'd prepared_transaction \<Rightarrow> date_time \<Rightarrow> new_transaction \<times> 'd new_entry list" where
  "into_new_transaction lib p created_at =
     (let (tid, default_correlation_id) = builder_id lib (pt_tx_id p) (None, None);
          correlation_id = (case pt_correlation_id p of Some c \<Rightarrow> Some c | None \<Rightarrow> default_correlation_id)
      in (\<lparr> nt_id = pt_tx_id p, nt_created_at = created_at, nt_journal_id = pt_journal_id p,
            nt_tx_template_id = pt_tx_template_id p, nt_effective = pt_effective p,
            nt_correlation_id = (case correlation_id of Some c \<Rightarrow> c | None \<Rightarrow> ''''),
            nt_external_id = pt_external_id p, nt_description = pt_description p,
            nt_metadata = pt_metadata p, nt_entry_ids = map ne_id (pt_entries p) \<rparr>,
          pt_entries p))"

end
