(* ===== verification/Tx_Template_Theorems.thy ===== *)
theory Tx_Template_Theorems imports Tx_Template begin

text \<open>
  The properties of templates: a prepared transaction is balanced in every currency and layer, an
  unbalanced one is refused with its imbalance, and what the builders accept converts to the
  stored template without a panic.
\<close>

section \<open>Evaluated entries and their totals\<close>

text \<open>One entry of the template, evaluated: what \<open>prep_entry\<close> appends.\<close>

definition evaluated_entry ::
  "'d::linordered_ab_group_add prep_env \<Rightarrow> transaction_id \<Rightarrow> journal_id \<Rightarrow> 'd cel_context
     \<Rightarrow> nat \<times> tx_template_entry \<Rightarrow> 'd tx_template_error + 'd new_entry" where
  "evaluated_entry pe tid jid ctx x = rmap (\<lambda>s. hd (fst s)) (prep_entry pe tid jid ctx ([], []) x)"

text \<open>Credits minus debits of one currency and layer.\<close>

definition signed_units :: "debit_or_credit \<Rightarrow> 'd::linordered_ab_group_add \<Rightarrow> 'd" where
  "signed_units direction units = (case direction of Debit \<Rightarrow> - units | Credit \<Rightarrow> units)"

definition imbalance :: "currency \<Rightarrow> layer \<Rightarrow> 'd::linordered_ab_group_add new_entry list \<Rightarrow> 'd" where
  "imbalance c l es =
     (\<Sum>e \<leftarrow> filter (\<lambda>e. ne_currency e = c \<and> ne_layer e = l) es. signed_units (ne_direction e) (ne_units e))"

lemma imbalance_simps [simp]:
  "imbalance c l [] = 0"
  "imbalance c l (e # es) =
     (if ne_currency e = c \<and> ne_layer e = l then signed_units (ne_direction e) (ne_units e) else 0)
       + imbalance c l es"
  by (simp_all add: imbalance_def)

lemma add_total_eq:
  "add_total d u old = (case old of Some t \<Rightarrow> t | None \<Rightarrow> 0) + signed_units d u"
  by (simp add: add_total_def signed_units_def split: debit_or_credit.split)

lemma prep_entry_eq:
  "prep_entry pe tid jid ctx (es, totals) x =
     rmap (\<lambda>e. (es @ [e], upsert (ne_currency e, ne_layer e) (add_total (ne_direction e) (ne_units e)) totals))
       (evaluated_entry pe tid jid ctx x)"
  by (cases x) (simp add: evaluated_entry_def prep_entry_def Let_def rbind_def rmap_def split: sum.split)

lemma evaluated_entry_shape:
  "evaluated_entry pe tid jid ctx (i, t) = Inr e \<Longrightarrow>
     ne_id e = pe_new_entry_id pe i \<and> ne_transaction_id e = tid \<and> ne_journal_id e = jid
     \<and> ne_sequence e = of_nat i + 1"
  by (auto simp: evaluated_entry_def prep_entry_def Let_def rmap_Inr_iff rbind_Inr_iff)

lemma prep_entry_fold:
  "rfold (prep_entry pe tid jid ctx) (es, totals) xs =
     rmap (\<lambda>new. (es @ new,
        foldl (\<lambda>m e. upsert (ne_currency e, ne_layer e) (add_total (ne_direction e) (ne_units e)) m) totals new))
       (rmap_list (evaluated_entry pe tid jid ctx) xs)"
proof (induction xs arbitrary: es totals)
  case (Cons x xs)
  then show ?case
    by (cases "evaluated_entry pe tid jid ctx x"; cases "rmap_list (evaluated_entry pe tid jid ctx) xs")
      (simp_all add: prep_entry_eq)
qed simp

lemma totals_imbalance:
  defines "F \<equiv> foldl (\<lambda>m e. upsert (ne_currency e, ne_layer e) (add_total (ne_direction e) (ne_units e)) m)"
  shows "(case map_of (F totals es) (c, l) of Some t \<Rightarrow> t | None \<Rightarrow> 0) =
      (case map_of totals (c, l) of Some t \<Rightarrow> t | None \<Rightarrow> 0) + imbalance c l es"
  unfolding F_def
  by (induction es arbitrary: totals) (auto simp: add_total_eq algebra_simps split: option.split)

lemma totals_distinct:
  "distinct (map fst totals) \<Longrightarrow> distinct (map fst
     (foldl (\<lambda>m e. upsert (ne_currency e, ne_layer e) (add_total (ne_direction e) (ne_units e)) m) totals es))"
  by (induction es arbitrary: totals) simp_all

lemma first_unbalanced_Inr: "first_unbalanced totals = Inr () \<longleftrightarrow> (\<forall>x \<in> set totals. snd x = 0)"
  by (induction totals rule: first_unbalanced.induct) auto

lemma first_unbalanced_Inl:
  "first_unbalanced totals = Inl e \<Longrightarrow> \<exists>c l v. ((c, l), v) \<in> set totals \<and> v \<noteq> 0 \<and> e = UnbalancedTransaction c l v"
  by (induction totals rule: first_unbalanced.induct) (auto split: if_splits)

lemma prep_entries_cases:
  assumes "\<And>m. set (pe_hash_order pe m) = set m"
  shows "case rmap_list (evaluated_entry pe tid jid ctx) (enumerate 0 (tmpl_entries tmpl)) of
      Inl e \<Rightarrow> prep_entries pe tmpl tid jid ctx = Inl e
    | Inr es \<Rightarrow>
        if \<forall>c l. imbalance c l es = 0 then prep_entries pe tmpl tid jid ctx = Inr es
        else \<exists>c l. imbalance c l es \<noteq> 0
          \<and> prep_entries pe tmpl tid jid ctx = Inl (UnbalancedTransaction c l (imbalance c l es))"
proof (cases "rmap_list (evaluated_entry pe tid jid ctx) (enumerate 0 (tmpl_entries tmpl))")
  case (Inl e)
  then show ?thesis by (simp add: prep_entries_def prep_entry_fold)
next
  case (Inr es)
  let ?t = "foldl (\<lambda>m e. upsert (ne_currency e, ne_layer e) (add_total (ne_direction e) (ne_units e)) m) [] es"
  have total: "v = imbalance c l es" if "((c, l), v) \<in> set ?t" for c l v
    using totals_imbalance[of "[]" es c l] that totals_distinct[of "[]" es]
    by (simp add: map_of_eq_Some_iff)
  have present: "((c, l), imbalance c l es) \<in> set ?t" if "imbalance c l es \<noteq> 0" for c l
    using totals_imbalance[of "[]" es c l] that by (auto split: option.splits dest: map_of_SomeD)
  have p: "prep_entries pe tmpl tid jid ctx = rbind (first_unbalanced (pe_hash_order pe ?t)) (\<lambda>_. Inr es)"
    by (simp add: prep_entries_def prep_entry_fold Inr)
  show ?thesis
  proof (cases "first_unbalanced (pe_hash_order pe ?t)")
    case (Inl e)
    from first_unbalanced_Inl[OF Inl] obtain c l v
      where v: "((c, l), v) \<in> set (pe_hash_order pe ?t)" "v \<noteq> 0" "e = UnbalancedTransaction c l v"
      by blast
    from v(1) have "v = imbalance c l es" by (simp add: assms total)
    with v p Inl have "imbalance c l es \<noteq> 0"
      "prep_entries pe tmpl tid jid ctx = Inl (UnbalancedTransaction c l (imbalance c l es))"
      by simp_all
    with \<open>rmap_list _ _ = Inr es\<close> show ?thesis by (simp del: all_layer) blast
  next
    case (Inr u)
    then have "\<forall>x \<in> set ?t. snd x = 0" using assms first_unbalanced_Inr by auto
    with present have "\<forall>c l. imbalance c l es = 0" by fastforce
    with Inr p \<open>rmap_list _ _ = Inr es\<close> show ?thesis by simp
  qed
qed

text \<open>
  C8: Preparation enforces double entry. The entries of a template are evaluated in order and the
  first error is returned; when they all evaluate, they are accepted exactly if credits equal
  debits in every currency and layer, and otherwise refused with a currency and layer that do not
  balance and the exact difference there, in whatever order the totals are visited.
\<close>

theorem prep_entries_double_entry:
  assumes "\<And>m. set (pe_hash_order pe m) = set m"
  shows "case rmap_list (evaluated_entry pe tid jid ctx) (enumerate 0 (tmpl_entries tmpl)) of
      Inl e \<Rightarrow> prep_entries pe tmpl tid jid ctx = Inl e
    | Inr es \<Rightarrow>
        if \<forall>c l. imbalance c l es = 0 then prep_entries pe tmpl tid jid ctx = Inr es
        else \<exists>c l. imbalance c l es \<noteq> 0
          \<and> prep_entries pe tmpl tid jid ctx = Inl (UnbalancedTransaction c l (imbalance c l es))"
  using assms by (rule prep_entries_cases)

text \<open>A template of a transfer for the examples: a debit and a credit of the same parameter.\<close>

definition sample_prep :: "int prep_env" where
  "sample_prep =
     \<lparr> pe_cel = sample_env, pe_iso_find = (\<lambda>s. if s = ''USD'' then Some s else None),
       pe_crypto_find = (\<lambda>s. None), pe_debug_currency_error = (\<lambda>e. ''error''),
       pe_new_entry_id = (\<lambda>i. EntryId (of_nat i)), pe_hash_order = rev \<rparr>"

definition transfer_leg :: "string \<Rightarrow> string \<Rightarrow> tx_template_entry" where
  "transfer_leg dir units =
     \<lparr> te_entry_type = [CHR 39] @ ''T'' @ [CHR 39], te_account_id = ''params.account'', te_layer = ''SETTLED'',
       te_direction = dir, te_units = units, te_currency = [CHR 39] @ ''USD'' @ [CHR 39],
       te_description = None, te_metadata = None \<rparr>"

definition param :: "string \<Rightarrow> param_data_type \<Rightarrow> param_definition" where
  "param name t = \<lparr> pd_name = name, pd_type = t, pd_default = None, pd_description = None \<rparr>"

definition transfer_template :: "string \<Rightarrow> string \<Rightarrow> tx_template_values" where
  "transfer_template u1 u2 =
     \<lparr> tmpl_id = TxTemplateId 1, tmpl_version = 1, tmpl_code = ''TRANSFER'',
       tmpl_params = Some [param ''account'' PUuid, param ''units'' PDecimal, param ''fee'' PDecimal,
         param ''day'' PDate],
       tmpl_transaction = \<lparr> tt_effective = ''params.day'', tt_journal_id = ''params.account'',
         tt_correlation_id = None, tt_external_id = None, tt_description = None, tt_metadata = None \<rparr>,
       tmpl_entries = [transfer_leg ''DEBIT'' u1, transfer_leg ''CREDIT'' u2],
       tmpl_description = None, tmpl_metadata = None \<rparr>"

definition transfer_params :: "int params" where
  "transfer_params =
     [''account'' \<mapsto> CUuid 9, ''units'' \<mapsto> CDecimal 5, ''fee'' \<mapsto> CString ''7'', ''day'' \<mapsto> CString ''d'']"

definition transfer_context :: "int cel_context" where
  "transfer_context = add_variable sample_lib ''params''
     (CMap [(KString ''account'', CUuid 9), (KString ''units'', CDecimal 5), (KString ''fee'', CDecimal 7),
            (KString ''day'', CDate 5)])
     (initialize sample_lib 0)"

lemma into_transfer_context:
  "into_context sample_env 0 transfer_params (tmpl_params (transfer_template u1 u2)) = Inr transfer_context"
  by (simp add: into_context_def transfer_template_def add_param_def param_def transfer_params_def
      transfer_context_def cel_map_insert_def Let_def)

lemma transfer_values:
  "evaluate sample_env transfer_context ''params.account'' = Inr (CUuid 9)"
  "evaluate sample_env transfer_context ''params.units'' = Inr (CDecimal 5)"
  "evaluate sample_env transfer_context ''params.fee'' = Inr (CDecimal 7)"
  "evaluate sample_env transfer_context ''params.day'' = Inr (CTimestamp 432000)"
  "evaluate sample_env transfer_context ''SETTLED'' = Inr (CString ''SETTLED'')"
  "evaluate sample_env transfer_context ''DEBIT'' = Inr (CString ''DEBIT'')"
  "evaluate sample_env transfer_context ''CREDIT'' = Inr (CString ''CREDIT'')"
  "evaluate sample_env transfer_context [CHR 39, c, CHR 39] = Inr (CString [c])"
  "evaluate sample_env transfer_context [CHR 39, c, c', c'', CHR 39] = Inr (CString [c, c', c''])"
  by (simp_all add: evaluate_def transfer_context_def sample_env_def sample_execute_def
      add_variable_def initialize_def new_with_clock_def)

lemma transfer_legs:
  "rmap_list (evaluated_entry sample_prep tid jid transfer_context)
     (enumerate 0 (tmpl_entries (transfer_template ''params.units'' u2)))
   = rbind (tmpl_eval sample_prep transfer_context coerce_decimal u2) (\<lambda>v.
       Inr [\<lparr> ne_id = EntryId 0, ne_transaction_id = tid, ne_journal_id = jid, ne_account_id = AccountId 9,
              ne_entry_type = ''T'', ne_sequence = 1, ne_layer = Settled, ne_units = 5, ne_currency = USD,
              ne_direction = Debit, ne_description = None, ne_metadata = None \<rparr>,
            \<lparr> ne_id = EntryId 1, ne_transaction_id = tid, ne_journal_id = jid, ne_account_id = AccountId 9,
              ne_entry_type = ''T'', ne_sequence = 2, ne_layer = Settled, ne_units = v, ne_currency = USD,
              ne_direction = Credit, ne_description = None, ne_metadata = None \<rparr>])"
proof -
  have s: "pe_cel sample_prep = sample_env" "pe_new_entry_id sample_prep i = EntryId (of_nat i)" for i
    by (simp_all add: sample_prep_def)
  have c: "coerce_currency sample_prep e (CString ''USD'') = Inr USD" for e
    by (simp add: coerce_currency_def currency_from_str_def sample_prep_def USD_def)
  show ?thesis
    by (simp add: transfer_template_def transfer_leg_def evaluated_entry_def prep_entry_def
        tmpl_eval_def try_evaluate_def transfer_values s c coerce_layer_def coerce_direction_def
        transpose_opt_def rbind_def split: sum.split)
qed

lemma prep_entries_double_entry_witness:
  "(\<exists>es. prep_entries sample_prep (transfer_template ''params.units'' ''params.units'') (TransactionId 1) (JournalId 1)
        transfer_context = Inr es \<and> map ne_units es = [5, 5])
   \<and> prep_entries sample_prep (transfer_template ''params.units'' ''params.fee'') (TransactionId 1) (JournalId 1)
        transfer_context = Inl (UnbalancedTransaction USD Settled 2)"
proof -
  have h: "set (pe_hash_order sample_prep m) = set m" for m by (simp add: sample_prep_def)
  have u: "tmpl_eval sample_prep transfer_context coerce_decimal ''params.units'' = Inr 5"
    "tmpl_eval sample_prep transfer_context coerce_decimal ''params.fee'' = Inr 7"
    by (simp_all add: tmpl_eval_def try_evaluate_def sample_prep_def transfer_values)
  show ?thesis
    using prep_entries_double_entry[OF h, of "transfer_template ''params.units'' ''params.units''"
        "TransactionId 1" "JournalId 1" transfer_context]
      prep_entries_double_entry[OF h, of "transfer_template ''params.units'' ''params.fee''"
        "TransactionId 1" "JournalId 1" transfer_context]
    by (auto simp: transfer_legs u signed_units_def split: if_splits)
qed

section \<open>From a template to the rows of a transaction\<close>

lemma prep_entries_shape:
  assumes "prep_entries pe tmpl tid jid ctx = Inr es"
  shows "map ne_sequence es = map (\<lambda>i. of_nat i + 1) [0..<length (tmpl_entries tmpl)]
    \<and> map ne_id es = map (pe_new_entry_id pe) [0..<length (tmpl_entries tmpl)]
    \<and> (\<forall>e \<in> set es. ne_transaction_id e = tid \<and> ne_journal_id e = jid)"
proof -
  let ?ts = "tmpl_entries tmpl"
  from assms have "rmap_list (evaluated_entry pe tid jid ctx) (enumerate 0 ?ts) = Inr es"
    by (auto simp: prep_entries_def prep_entry_fold rbind_Inr_iff rmap_Inr_iff)
  then have all2: "list_all2 (\<lambda>x y. evaluated_entry pe tid jid ctx x = Inr y) (enumerate 0 ?ts) es"
    by (simp add: rmap_list_Inr_iff)
  then have len: "length es = length ?ts" by (auto dest: list_all2_lengthD)
  have "ne_id (es ! i) = pe_new_entry_id pe i \<and> ne_transaction_id (es ! i) = tid
      \<and> ne_journal_id (es ! i) = jid \<and> ne_sequence (es ! i) = of_nat i + 1" if "i < length es" for i
    using list_all2_nthD2[OF all2 that] that len evaluated_entry_shape
    by (simp add: nth_enumerate_eq)
  note nth = this
  have "map ne_sequence es = map (\<lambda>i. of_nat i + 1) [0..<length ?ts]"
    "map ne_id es = map (pe_new_entry_id pe) [0..<length ?ts]"
    by (rule nth_equalityI; simp add: len nth)+
  with nth show ?thesis by (fastforce simp: in_set_conv_nth)
qed

lemma prep_entries_balanced:
  assumes "\<And>m. set (pe_hash_order pe m) = set m" "prep_entries pe tmpl tid jid ctx = Inr es"
  shows "imbalance c l es = 0"
  using prep_entries_cases[OF assms(1), of tmpl tid jid ctx] assms(2)
  by (auto simp del: all_layer split: sum.splits if_splits)

definition side_total :: "debit_or_credit \<Rightarrow> currency \<Rightarrow> layer \<Rightarrow> 'd::linordered_ab_group_add new_entry list \<Rightarrow> 'd" where
  "side_total d c l es =
     (\<Sum>e \<leftarrow> filter (\<lambda>e. ne_currency e = c \<and> ne_layer e = l \<and> ne_direction e = d) es. ne_units e)"

lemma imbalance_sides: "imbalance c l es = side_total Credit c l es - side_total Debit c l es"
  by (induction es) (auto simp: side_total_def signed_units_def algebra_simps split: debit_or_credit.split)

text \<open>
  C24: A prepared transaction becomes the rows of a balanced transaction: as many entries as the
  template has, numbered from 1 in its order, all of the new transaction and of its journal, whose
  ids are the entry ids of the transaction, with total debits equal to total credits in every
  currency and layer. The correlation id is the evaluated one or the printed transaction id.
\<close>

theorem prepared_transaction_is_balanced:
  assumes "\<And>m. set (pe_hash_order pe m) = set m"
    and "prepare_transaction pe now tid tmpl ps = Inr p"
  shows "let (tx, es) = into_new_transaction lib p created_at
    in nt_id tx = tid \<and> nt_tx_template_id tx = tmpl_id tmpl
       \<and> length es = length (tmpl_entries tmpl) \<and> nt_entry_ids tx = map ne_id es
       \<and> map ne_sequence es = map (\<lambda>i. of_nat i + 1) [0..<length es]
       \<and> (\<forall>e \<in> set es. ne_transaction_id e = nt_id tx \<and> ne_journal_id e = nt_journal_id tx)
       \<and> (\<forall>c l. side_total Debit c l es = side_total Credit c l es)
       \<and> nt_correlation_id tx =
           (case pt_correlation_id p of Some c \<Rightarrow> c | None \<Rightarrow> lib_show_uuid lib (transaction_uuid tid))"
proof -
  from assms(2) obtain ctx where ctx: "prep_entries pe tmpl tid (pt_journal_id p) ctx = Inr (pt_entries p)"
    and p: "pt_tx_id p = tid" "pt_tx_template_id p = tmpl_id tmpl"
    by (auto simp: prepare_transaction_def Let_def rbind_Inr_iff)
  note shape = prep_entries_shape[OF ctx]
  have "side_total Debit c l (pt_entries p) = side_total Credit c l (pt_entries p)" for c l
    using prep_entries_balanced[OF assms(1) ctx, of c l] by (simp add: imbalance_sides)
  moreover have "length (pt_entries p) = length (tmpl_entries tmpl)"
    using arg_cong[OF conjunct1[OF shape], of length] by simp
  ultimately show ?thesis
    using shape p by (auto simp: into_new_transaction_def builder_id_def split: option.split)
qed

lemma prepared_transaction_is_balanced_witness:
  "\<exists>p. prepare_transaction sample_prep 0 (TransactionId 1)
         (transfer_template ''params.units'' ''params.units'') transfer_params = Inr p
     \<and> (let (tx, es) = into_new_transaction sample_lib p 3
         in length es = 2 \<and> nt_entry_ids tx = map ne_id es \<and> nt_correlation_id tx = ''u''
            \<and> side_total Debit USD Settled es = side_total Credit USD Settled es)"
proof -
  have h: "set (pe_hash_order sample_prep m) = set m" for m by (simp add: sample_prep_def)
  have cel: "pe_cel sample_prep = sample_env" by (simp add: sample_prep_def)
  have u: "tmpl_eval sample_prep transfer_context coerce_decimal ''params.units'' = Inr 5"
    by (simp add: tmpl_eval_def try_evaluate_def cel transfer_values)
  obtain p where p: "prepare_transaction sample_prep 0 (TransactionId 1)
      (transfer_template ''params.units'' ''params.units'') transfer_params = Inr p" "pt_correlation_id p = None"
    by (auto simp: prepare_transaction_def cel into_transfer_context prep_entries_def prep_entry_fold
        transfer_legs u, simp_all add: tmpl_eval_def try_evaluate_def cel transfer_values
        transfer_template_def transpose_opt_def sample_prep_def add_total_def)
  show ?thesis
    using prepared_transaction_is_balanced[OF h p(1), of sample_lib 3] p
    by (auto simp: transfer_template_def)
qed

section \<open>Built templates\<close>

lemma validate_expression_expect:
  "validate_expression env s = Inr u \<Longrightarrow> expect_expression env s = Some s"
  by (auto simp: validate_expression_def expect_expression_def cel_expression_try_from_def
      rbind_Inr_iff map_err_Inr_iff split: option.splits)

lemma validate_optional_expect:
  "validate_optional_expression env x = Inr u \<Longrightarrow> expect_optional env (flatten x) = Some (flatten x)"
  by (auto simp: validate_optional_expression_def expect_optional_def expect_expression_def flatten_def
      cel_expression_try_from_def rbind_Inr_iff map_err_Inr_iff split: option.splits)

lemma validate_mandatory_expect:
  "validate_mandatory env xs = Some (Inr u) \<Longrightarrow> Some s \<in> set xs \<Longrightarrow> expect_expression env s = Some s"
  by (induction env xs rule: validate_mandatory.induct)
    (auto dest: validate_expression_expect split: sum.splits)

lemma built_entry_converts:
  assumes "build_entry env b = Some (Inr n)"
  shows "template_entry_from env n =
    Some \<lparr> te_entry_type = nte_entry_type n, te_account_id = nte_account_id n, te_layer = nte_layer n,
           te_direction = nte_direction n, te_units = nte_units n, te_currency = nte_currency n,
           te_description = nte_description n, te_metadata = nte_metadata n \<rparr>"
proof -
  from assms obtain u v w where m: "validate_mandatory env
      [eb_entry_type b, eb_account_id b, eb_layer b, eb_direction b, eb_units b, eb_currency b] = Some (Inr u)"
    and o1: "validate_optional_expression env (eb_description b) = Inr v"
    and o2: "validate_optional_expression env (eb_metadata b) = Inr w"
    by (auto simp: build_entry_def validate_entry_def rbind_Inr_iff map_err_Inr_iff)
  from assms have n: "eb_entry_type b = Some (nte_entry_type n)" "eb_account_id b = Some (nte_account_id n)"
    "eb_layer b = Some (nte_layer n)" "eb_direction b = Some (nte_direction n)"
    "eb_units b = Some (nte_units n)" "eb_currency b = Some (nte_currency n)"
    "nte_description n = flatten (eb_description b)" "nte_metadata n = flatten (eb_metadata b)"
    by (auto simp: build_entry_def rbind_Inr_iff ok_or_Inr_iff)
  show ?thesis
    using validate_optional_expect[OF o1] validate_optional_expect[OF o2]
    by (simp add: template_entry_from_def n(7,8) validate_mandatory_expect[OF m] n(1-6))
qed

lemma built_transaction_converts:
  assumes "build_transaction env b = Some (Inr n)"
  shows "template_transaction_from env n =
    Some \<lparr> tt_effective = ntt_effective n, tt_journal_id = ntt_journal_id n,
           tt_correlation_id = ntt_correlation_id n, tt_external_id = ntt_external_id n,
           tt_description = ntt_description n, tt_metadata = ntt_metadata n \<rparr>"
proof -
  from assms obtain u v1 v2 v3 v4 where m: "validate_mandatory env [tb_effective b, tb_journal_id b] = Some (Inr u)"
    and opt: "validate_optional_expression env (tb_correlation_id b) = Inr v1"
      "validate_optional_expression env (tb_external_id b) = Inr v2"
      "validate_optional_expression env (tb_description b) = Inr v3"
      "validate_optional_expression env (tb_metadata b) = Inr v4"
    by (auto simp: build_transaction_def validate_transaction_def rbind_Inr_iff map_err_Inr_iff)
  from assms have n: "tb_effective b = Some (ntt_effective n)" "tb_journal_id b = Some (ntt_journal_id n)"
    "ntt_correlation_id n = flatten (tb_correlation_id b)" "ntt_external_id n = flatten (tb_external_id b)"
    "ntt_description n = flatten (tb_description b)" "ntt_metadata n = flatten (tb_metadata b)"
    by (auto simp: build_transaction_def rbind_Inr_iff ok_or_Inr_iff)
  show ?thesis
    using opt[THEN validate_optional_expect]
    by (simp add: template_transaction_from_def n(3-6) validate_mandatory_expect[OF m] n(1,2))
qed

lemma expect_all_map: "(\<And>x. x \<in> set xs \<Longrightarrow> f x = Some (g x)) \<Longrightarrow> expect_all f xs = Some (map g xs)"
  by (induction xs) auto

lemma expect_all_Some: "(\<And>x. x \<in> set xs \<Longrightarrow> \<exists>y. f x = Some y) \<Longrightarrow> \<exists>ys. expect_all f xs = Some ys"
  by (induction xs) fastforce+

text \<open>
  A template whose transaction, entries and parameters came out of their builders never panics
  on the way to its event: every expression the conversion parses was validated. The stored
  template has version 1 and, entry by entry, the expressions it was built with, and the event
  hydrates to it.
\<close>

theorem built_template_converts:
  assumes "\<exists>b. build_transaction env b = Some (Inr (ntmpl_transaction n))"
    and "\<And>e. e \<in> set (ntmpl_entries n) \<Longrightarrow> \<exists>b. build_entry env b = Some (Inr e)"
    and "\<And>p. p \<in> set (case ntmpl_params n of Some ps \<Rightarrow> ps | None \<Rightarrow> []) \<Longrightarrow>
           \<exists>now b. param_build env now b = Some (Inr p)"
  shows "\<exists>v. template_into_events env n = Some [Initialized v]
    \<and> template_try_from_events [v] =
        Inr \<lparr> ent_id = ntmpl_id n, ent_values = v, ent_events = [Initialized v] \<rparr>
    \<and> tmpl_version v = 1 \<and> tmpl_code v = ntmpl_code n
    \<and> map te_account_id (tmpl_entries v) = map nte_account_id (ntmpl_entries n)
    \<and> map te_direction (tmpl_entries v) = map nte_direction (ntmpl_entries n)
    \<and> map te_layer (tmpl_entries v) = map nte_layer (ntmpl_entries n)
    \<and> map te_units (tmpl_entries v) = map nte_units (ntmpl_entries n)
    \<and> map te_currency (tmpl_entries v) = map nte_currency (ntmpl_entries n)
    \<and> tt_journal_id (tmpl_transaction v) = ntt_journal_id (ntmpl_transaction n)"
proof -
  let ?g = "\<lambda>n. \<lparr> te_entry_type = nte_entry_type n, te_account_id = nte_account_id n, te_layer = nte_layer n,
           te_direction = nte_direction n, te_units = nte_units n, te_currency = nte_currency n,
           te_description = nte_description n, te_metadata = nte_metadata n \<rparr>"
  have e: "expect_all (template_entry_from env) (ntmpl_entries n) = Some (map ?g (ntmpl_entries n))"
    using assms(2) built_entry_converts by (intro expect_all_map) blast
  obtain b where "build_transaction env b = Some (Inr (ntmpl_transaction n))" using assms(1) by blast
  note t = built_transaction_converts[OF this]
  have "\<exists>params. (case ntmpl_params n of None \<Rightarrow> Some None
       | Some ps \<Rightarrow> map_option Some (expect_all (param_definition_from env) ps)) = Some params"
  proof (cases "ntmpl_params n")
    case (Some ps)
    have "\<exists>ds. expect_all (param_definition_from env) ps = Some ds"
      using assms(3) Some by (intro expect_all_Some param_conversion) simp
    with Some show ?thesis by auto
  qed simp
  then obtain params where "(case ntmpl_params n of None \<Rightarrow> Some None
       | Some ps \<Rightarrow> map_option Some (expect_all (param_definition_from env) ps)) = Some params" ..
  with e t show ?thesis
    by (simp add: template_into_events_def template_try_from_events_def hydrate_def comp_def)
qed

definition sample_new_template :: "new_tx_template" where
  "sample_new_template =
     \<lparr> ntmpl_id = TxTemplateId 1, ntmpl_code = ''C'', ntmpl_description = None,
       ntmpl_params = Some [\<lparr> npd_name = ''p'', npd_type = PUuid, npd_default = None, npd_description = None \<rparr>],
       ntmpl_transaction = \<lparr> ntt_effective = ''date()'', ntt_journal_id = ''params.p'',
         ntt_correlation_id = None, ntt_external_id = Some ''x'', ntt_description = None, ntt_metadata = None \<rparr>,
       ntmpl_entries = [\<lparr> nte_entry_type = ''t'', nte_account_id = ''params.p'', nte_layer = ''SETTLED'',
         nte_direction = ''DEBIT'', nte_units = ''decimal(1)'', nte_currency = ''c'',
         nte_description = None, nte_metadata = Some ''m'' \<rparr>],
       ntmpl_metadata = None \<rparr>"

lemma built_template_converts_witness:
  "\<exists>v. template_into_events sample_env sample_new_template = Some [Initialized v]
     \<and> map te_units (tmpl_entries v) = [''decimal(1)'']"
proof -
  have "build_transaction sample_env \<lparr> tb_effective = Some ''date()'', tb_journal_id = Some ''params.p'',
      tb_correlation_id = None, tb_external_id = Some (Some ''x''), tb_description = None, tb_metadata = Some None \<rparr>
    = Some (Inr (ntmpl_transaction sample_new_template))"
    by (simp add: build_transaction_def validate_transaction_def validate_expression_def flatten_def
        validate_optional_expression_def cel_expression_sample sample_new_template_def)
  then have t: "\<exists>b. build_transaction sample_env b = Some (Inr (ntmpl_transaction sample_new_template))" ..
  have "build_entry sample_env \<lparr> eb_entry_type = Some ''t'', eb_account_id = Some ''params.p'',
      eb_layer = Some ''SETTLED'', eb_direction = Some ''DEBIT'', eb_units = Some ''decimal(1)'',
      eb_currency = Some ''c'', eb_description = None, eb_metadata = Some (Some ''m'') \<rparr>
    = Some (Inr (hd (ntmpl_entries sample_new_template)))"
    by (simp add: build_entry_def validate_entry_def validate_expression_def flatten_def
        validate_optional_expression_def cel_expression_sample sample_new_template_def)
  then have e: "\<exists>b. build_entry sample_env b = Some (Inr e)" if "e \<in> set (ntmpl_entries sample_new_template)" for e
    using that by (auto simp: sample_new_template_def)
  have "param_build sample_env 0 \<lparr> pb_name = Some ''p'', pb_type = Some PUuid, pb_default = None,
      pb_description = None \<rparr>
    = Some (Inr \<lparr> npd_name = ''p'', npd_type = PUuid, npd_default = None, npd_description = None \<rparr>)"
    by (simp add: param_build_def param_validate_def)
  then have pb: "\<exists>now b. param_build sample_env now b = Some (Inr
      \<lparr> npd_name = ''p'', npd_type = PUuid, npd_default = None, npd_description = None \<rparr>)" by blast
  have p: "\<exists>now b. param_build sample_env now b = Some (Inr p)"
    if "p \<in> set (case ntmpl_params sample_new_template of Some ps \<Rightarrow> ps | None \<Rightarrow> [])" for p
  proof -
    have "p = \<lparr> npd_name = ''p'', npd_type = PUuid, npd_default = None, npd_description = None \<rparr>"
      using that by (auto simp: sample_new_template_def)
    with pb show ?thesis by simp
  qed
  have "map nte_units (ntmpl_entries sample_new_template) = [''decimal(1)'']"
    by (simp add: sample_new_template_def)
  with built_template_converts[OF t e p] show ?thesis by auto
qed

end
