(* ===== verification/Entity_Theorems.thy ===== *)
theory Entity_Theorems imports Entities begin

text \<open>
  The properties of the event-sourced entities: hydration gives back the entity that wrote the
  events, updates are idempotent, and an update can be rebuilt from the event it leaves.
\<close>

text \<open>
  C40: Whatever updates an account, an account set or a journal goes through after its creation,
  hydrating the events it has written gives back exactly that entity, under the id it was created
  with.
\<close>

theorem history_rehydrates:
  "(\<exists>a. account_try_from_events (account_into_events n) = Inr a
      \<and> (\<forall>us. let e = foldl (\<lambda>e u. fst (account_update u e)) a us
              in account_try_from_events (ent_events e) = Inr e
                 \<and> ent_id e = na_id n \<and> av_id (ent_values e) = na_id n))
   \<and> (\<exists>a. account_set_try_from_events (account_set_into_events s) = Inr a
      \<and> (\<forall>us. let e = foldl (\<lambda>e u. fst (account_set_update u e)) a us
              in account_set_try_from_events (ent_events e) = Inr e
                 \<and> ent_id e = nas_id s \<and> asv_id (ent_values e) = nas_id s))
   \<and> (\<exists>a. journal_try_from_events (journal_into_events j) = Inr a
      \<and> (\<forall>us. let e = foldl (\<lambda>e u. fst (journal_update u e)) a us
              in journal_try_from_events (ent_events e) = Inr e
                 \<and> ent_id e = nj_id j \<and> jv_id (ent_values e) = nj_id j))"
  using account_entity.history[of "new_account_values n"]
    account_set_entity.history[of "new_account_set_values s"]
    journal_entity.history[of "new_journal_values j"]
  by (simp add: account_try_from_events_def account_set_try_from_events_def
      journal_try_from_events_def account_into_events_def account_set_into_events_def
      journal_into_events_def account_update_def account_set_update_def journal_update_def
      after_updates_def new_account_values_def new_account_set_values_def new_journal_values_def)

text \<open>
  Updates are idempotent. An update is \<open>Executed\<close>, and then one event is appended that carries
  the new values, exactly when it changes the values; applying the same update again is
  \<open>AlreadyApplied\<close> and leaves the entity and its events alone.
\<close>

theorem updates_are_idempotent:
  "(let (a', r) = account_update ua a
    in account_update ua a' = (a', AlreadyApplied)
       \<and> (r = Executed \<longleftrightarrow> ent_values a' \<noteq> ent_values a)
       \<and> (\<exists>fs. ent_events a' =
            ent_events a @ (if r = Executed then [Updated (ent_values a') fs] else [])))
   \<and> (let (s', r) = account_set_update us s
      in account_set_update us s' = (s', AlreadyApplied)
         \<and> (r = Executed \<longleftrightarrow> ent_values s' \<noteq> ent_values s)
         \<and> (\<exists>fs. ent_events s' =
              ent_events s @ (if r = Executed then [Updated (ent_values s') fs] else [])))
   \<and> (let (j', r) = journal_update uj j
      in journal_update uj j' = (j', AlreadyApplied)
         \<and> (r = Executed \<longleftrightarrow> ent_values j' \<noteq> ent_values j)
         \<and> (\<exists>fs. ent_events j' =
              ent_events j @ (if r = Executed then [Updated (ent_values j') fs] else [])))"
  unfolding account_update_def account_set_update_def journal_update_def
  using account_entity.update_contract[of ua a] account_set_entity.update_contract[of us s]
    journal_entity.update_contract[of uj j]
  by blast

text \<open>An update rebuilt from a noted change makes that change again.\<close>

definition rebuilt :: "string \<Rightarrow> 'b option \<Rightarrow> 'a option \<Rightarrow> 'a \<Rightarrow> 'b option" where
  "rebuilt n x new old = (if changed n new old = [] then None else x)"

lemma changed_None [simp]: "changed n None old = []" "new_or None old = old"
  by (simp_all add: changed_def new_or_def)

lemma rebuilt_same [simp]:
  "changed n (rebuilt n new new old) old = changed n new old"
  "new_or (rebuilt n new new old) old = new_or new old"
  by (auto simp: rebuilt_def new_or_unchanged)

lemma rebuilt_map [simp]:
  "map_option Some (rebuilt n x (map_option Some x) old) = rebuilt n (map_option Some x) (map_option Some x) old"
  by (simp add: rebuilt_def)

lemma rebuilt_metadata [simp]:
  "new_metadata (rebuilt n md (new_metadata md) old) = rebuilt n (new_metadata md) (new_metadata md) old"
  by (simp add: rebuilt_def new_metadata_def)

lemma changed_Some: "changed n new old \<noteq> [] \<Longrightarrow> \<exists>x. new = Some x"
  by (cases new) auto

lemma new_or_Some [simp]: "new_or (Some x) old = x"
  by (simp add: new_or_def)

lemma foldl_changed:
  "foldl f u (changed n new old) = (if changed n new old = [] then u else f u n)"
  by (simp add: changed_def)

lemma journal_update_from_changes:
  "journal_update_from (journal_changes u j) =
     Some \<lparr> ju_name = rebuilt ''name'' (ju_name u) (ju_name u) (jv_name j),
            ju_status = rebuilt ''status'' (ju_status u) (ju_status u) (jv_status j),
            ju_description = rebuilt ''description'' (ju_description u)
              (map_option Some (ju_description u)) (jv_description j) \<rparr>"
proof -
  let ?n = "changed ''name'' (ju_name u) (jv_name j)"
  let ?s = "changed ''status'' (ju_status u) (jv_status j)"
  let ?d = "changed ''description'' (map_option Some (ju_description u)) (jv_description j)"
  have "?n \<noteq> [] \<Longrightarrow> \<exists>x. ju_name u = Some x" "?s \<noteq> [] \<Longrightarrow> \<exists>x. ju_status u = Some x"
    "?d \<noteq> [] \<Longrightarrow> \<exists>x. ju_description u = Some x"
    by (auto dest!: changed_Some)
  then show ?thesis
    unfolding journal_changes_eq journal_update_from_def rebuilt_def
    by (cases "?n = []"; cases "?s = []"; cases "?d = []")
      (auto simp: foldl_changed journal_update_field_def)
qed

lemma account_set_update_from_changes:
  "account_set_update_from (account_set_changes u s) =
     Some \<lparr> asu_external_id = rebuilt ''external_id'' (asu_external_id u)
              (map_option Some (asu_external_id u)) (asv_external_id s),
            asu_name = rebuilt ''name'' (asu_name u) (asu_name u) (asv_name s),
            asu_normal_balance_type = rebuilt ''normal_balance_type'' (asu_normal_balance_type u)
              (asu_normal_balance_type u) (asv_normal_balance_type s),
            asu_description = rebuilt ''description'' (asu_description u)
              (map_option Some (asu_description u)) (asv_description s),
            asu_metadata = rebuilt ''metadata'' (asu_metadata u) (new_metadata (asu_metadata u)) (asv_metadata s) \<rparr>"
proof -
  let ?x = "changed ''external_id'' (map_option Some (asu_external_id u)) (asv_external_id s)"
  let ?n = "changed ''name'' (asu_name u) (asv_name s)"
  let ?t = "changed ''normal_balance_type'' (asu_normal_balance_type u) (asv_normal_balance_type s)"
  let ?d = "changed ''description'' (map_option Some (asu_description u)) (asv_description s)"
  let ?m = "changed ''metadata'' (new_metadata (asu_metadata u)) (asv_metadata s)"
  have "?n \<noteq> [] \<Longrightarrow> \<exists>x. asu_name u = Some x" "?t \<noteq> [] \<Longrightarrow> \<exists>x. asu_normal_balance_type u = Some x"
    "?x \<noteq> [] \<Longrightarrow> \<exists>x. asu_external_id u = Some x" "?d \<noteq> [] \<Longrightarrow> \<exists>x. asu_description u = Some x"
    "?m \<noteq> [] \<Longrightarrow> \<exists>x. asu_metadata u = Some x \<and> x \<noteq> JNull"
    by (auto simp: new_metadata_def dest!: changed_Some split: option.splits if_splits)
  then show ?thesis
    unfolding account_set_changes_eq account_set_update_from_def rebuilt_def
    by (cases "?n = []"; cases "?t = []"; cases "?x = []"; cases "?d = []"; cases "?m = []")
      (auto simp: foldl_changed account_set_update_field_def new_metadata_def)
qed

text \<open>
  The update rebuilt from the values and the field names of an \<open>Updated\<close> event never meets an
  unknown field, and applied to the entity before that event it makes the same change and notes
  the same fields.
\<close>

theorem update_replays_from_event:
  "(\<exists>u'. journal_update_from (journal_changes uj j) = Some u' \<and> journal_changes u' j = journal_changes uj j)
   \<and> (\<exists>u'. account_set_update_from (account_set_changes us s) = Some u'
        \<and> account_set_changes u' s = account_set_changes us s)"
  unfolding journal_update_from_changes account_set_update_from_changes
  by (simp add: journal_changes_eq account_set_changes_eq)

end
