(* ===== verification/Velocity.thy ===== *)
theory Velocity imports Params Entities Account_Balance begin

text \<open>
  Velocity controls: the controls and limits attached to accounts, the evaluation of conditions
  and windows for an entry, the check of a balance against a limit, and the enforcement of a
  batch of postings up to the snapshots it writes (\<open>velocity/account_control\<close>,
  \<open>velocity/context.rs\<close>, \<open>velocity/balance/mod.rs\<close>). A panic is \<open>None\<close>. The order in which the map
  of pending balances is iterated is the parameter \<open>hash_order\<close>.
\<close>

section \<open>Controls and limits\<close>

datatype velocity_enforcement_action = Reject

record partition_key =
  pk_alias :: string
  pk_value :: cel_expression

record 'd account_balance_limit =
  abl_layer :: layer
  abl_amount :: 'd
  abl_enforcement_direction :: debit_or_credit
  abl_start :: date_time
  abl_end :: "date_time option"

record 'd account_limit =
  al_timestamp_source :: "cel_expression option"
  al_balance :: "'d account_balance_limit list"

record 'd account_velocity_limit =
  avl_limit_id :: velocity_limit_id
  avl_window :: "partition_key list"
  avl_condition :: "cel_expression option"
  avl_currency :: "currency option"
  avl_limit :: "'d account_limit"

record 'd account_velocity_control =
  avc_account_id :: account_id
  avc_control_id :: velocity_control_id
  avc_enforcement :: velocity_enforcement_action
  avc_condition :: "cel_expression option"
  avc_velocity_limits :: "'d account_velocity_limit list"

record 'd limit_exceeded_error =
  le_account_id :: account_id
  le_currency :: currency
  le_limit_id :: velocity_limit_id
  le_layer :: layer
  le_direction :: debit_or_credit
  le_limit :: 'd
  le_requested :: 'd

datatype 'd velocity_error =
    VelSqlx
  | VelCelError cel_error
  | VelParamError param_error
  | CouldNotFindControlById velocity_control_id
  | Enforcement "'d limit_exceeded_error"
  | VelHydrationError hydration_error
  | ControlIdAlreadyExists string
  | LimitIdAlreadyExists string
  | LimitAlreadyAddedToControl

section \<open>Evaluation contexts\<close>

record 'd eval_context =
  ec_clock :: date_time
  ec_transaction :: "'d cel_value"
  ec_entry_values :: "entry_id \<rightharpoonup> 'd cel_value"
  ec_account_values :: "account_id \<rightharpoonup> 'd cel_value"

definition eval_context_new ::
  "date_time \<Rightarrow> transaction_values \<Rightarrow> context_account_values list \<Rightarrow> 'd eval_context" where
  "eval_context_new clock transaction accounts =
     \<lparr> ec_clock = clock, ec_transaction = cel_of_transaction transaction,
       ec_entry_values = Map.empty,
       ec_account_values =
         foldl (\<lambda>m a. m(cav_id a \<mapsto> cel_of_context_account a)) Map.empty accounts \<rparr>"

definition context_for_entry ::
  "'d cel_env \<Rightarrow> 'd eval_context \<Rightarrow> account_id \<Rightarrow> 'd entry_values \<Rightarrow> ('d cel_context \<times> 'd eval_context) option" where
  "context_for_entry env self account_id entry =
     (let cel_entry = (case ec_entry_values self (e_id entry) of
                         Some v \<Rightarrow> v | None \<Rightarrow> cel_of_entry entry);
          self = self \<lparr> ec_entry_values := (ec_entry_values self)(e_id entry \<mapsto> cel_entry) \<rparr>
      in map_option (\<lambda>account.
           (let vars = cel_map_insert ''account'' account
                         (cel_map_insert ''entry'' cel_entry
                           (cel_map_insert ''transaction'' (ec_transaction self) []));
                context = cel_map_insert ''vars'' (CMap vars) []
            in (add_variable (env_lib env) ''context'' (CMap context)
                  (initialize (env_lib env) (ec_clock self)), self)))
         (ec_account_values self account_id))"

section \<open>Conditions, windows and limits\<close>

type_synonym window = json

definition vel_eval ::
  "'d::linorder cel_env \<Rightarrow> 'd cel_context \<Rightarrow> (string \<Rightarrow> 'd cel_value \<Rightarrow> result_coercion_error + 'a)
     \<Rightarrow> cel_expression \<Rightarrow> 'd velocity_error + 'a" where
  "vel_eval env ctx coerce e = map_err VelCelError (try_evaluate env ctx coerce e)"

definition needs_enforcement ::
  "'d::linorder cel_env \<Rightarrow> 'd account_velocity_control \<Rightarrow> 'd cel_context \<Rightarrow> 'd velocity_error + bool" where
  "needs_enforcement env self ctx =
     (case avc_condition self of
        Some condition \<Rightarrow> vel_eval env ctx (coerce_bool (env_lib env)) condition
      | None \<Rightarrow> Inr True)"

definition window_for_enforcement ::
  "'d::linorder cel_env \<Rightarrow> 'd account_velocity_limit \<Rightarrow> 'd cel_context \<Rightarrow> 'd entry_values
     \<Rightarrow> 'd velocity_error + window option" where
  "window_for_enforcement env self ctx entry =
     (if (case avl_currency self of Some currency \<Rightarrow> currency \<noteq> e_currency entry | None \<Rightarrow> False)
      then Inr None
      else
        rbind (case avl_condition self of
                 Some condition \<Rightarrow> vel_eval env ctx (coerce_bool (env_lib env)) condition
               | None \<Rightarrow> Inr True) (\<lambda>result.
          if \<not> result then Inr None
          else
            rmap (Some \<circ> JObject)
              (rfold (\<lambda>map key.
                 rbind (vel_eval env ctx (to_json (env_lib env)) (pk_value key)) (\<lambda>v.
                   Inr (json_insert (pk_alias key) v map))) [] (avl_window self))))"

definition limit_active :: "date_time \<Rightarrow> 'd account_balance_limit \<Rightarrow> bool" where
  "limit_active time l \<longleftrightarrow>
     \<not> abl_start l > time \<and> (case abl_end l of Some end_time \<Rightarrow> \<not> end_time \<le> time | None \<Rightarrow> True)"

fun check_limits ::
  "velocity_limit_id \<Rightarrow> date_time \<Rightarrow> 'd::linordered_ab_group_add balance_snapshot
     \<Rightarrow> 'd account_balance_limit list \<Rightarrow> 'd velocity_error + unit" where
  "check_limits limit_id time snapshot [] = Inr ()"
| "check_limits limit_id time snapshot (l # limits) =
     (if \<not> limit_active time l then check_limits limit_id time snapshot limits
      else
        (let requested = directed_available (abl_enforcement_direction l) snapshot (abl_layer l)
         in if requested > abl_amount l
            then Inl (Enforcement
              \<lparr> le_account_id = bs_account_id snapshot, le_currency = bs_currency snapshot,
                le_limit_id = limit_id, le_layer = abl_layer l,
                le_direction = abl_enforcement_direction l, le_limit = abl_amount l,
                le_requested = requested \<rparr>)
            else check_limits limit_id time snapshot limits))"

definition enforce ::
  "'d::linordered_ab_group_add cel_env \<Rightarrow> 'd account_velocity_limit \<Rightarrow> 'd cel_context \<Rightarrow> date_time
     \<Rightarrow> 'd balance_snapshot \<Rightarrow> 'd velocity_error + unit" where
  "enforce env self ctx time snapshot =
     (if (case avl_currency self of Some currency \<Rightarrow> currency \<noteq> bs_currency snapshot | None \<Rightarrow> False)
      then Inr ()
      else
        rbind (case al_timestamp_source (avl_limit self) of
                 Some source \<Rightarrow> vel_eval env ctx coerce_timestamp source
               | None \<Rightarrow> Inr time) (\<lambda>time.
          check_limits (avl_limit_id self) time snapshot (al_balance (avl_limit self))))"

section \<open>Enforcing a batch\<close>

record velocity_balance_key =
  vk_window :: window
  vk_currency :: currency
  vk_journal_id :: journal_id
  vk_account_id :: account_id
  vk_control_id :: velocity_control_id
  vk_limit_id :: velocity_limit_id

type_synonym 'd controls = "(account_id \<times> (context_account_values \<times> 'd account_velocity_control list)) list"

type_synonym 'd to_check =
  "(velocity_balance_key \<times> ('d account_velocity_limit \<times> 'd entry_values) list) list"

type_synonym ancestor_mappings = "journal_id \<rightharpoonup> (account_id \<rightharpoonup> account_set_id list)"

definition collect_limit ::
  "'d::linorder cel_env \<Rightarrow> 'd cel_context \<Rightarrow> account_id \<Rightarrow> 'd entry_values \<Rightarrow> velocity_control_id
     \<Rightarrow> 'd to_check \<Rightarrow> 'd account_velocity_limit \<Rightarrow> 'd velocity_error + 'd to_check" where
  "collect_limit env ctx account_id entry control_id balances_to_check limit =
     rmap (\<lambda>w. case w of
                 Some window \<Rightarrow>
                   push_to \<lparr> vk_window = window, vk_currency = e_currency entry,
                             vk_journal_id = e_journal_id entry, vk_account_id = account_id,
                             vk_control_id = control_id, vk_limit_id = avl_limit_id limit \<rparr>
                     (limit, entry) balances_to_check
               | None \<Rightarrow> balances_to_check)
       (window_for_enforcement env limit ctx entry)"

definition collect_control ::
  "'d::linorder cel_env \<Rightarrow> 'd cel_context \<Rightarrow> account_id \<Rightarrow> 'd entry_values
     \<Rightarrow> 'd to_check \<Rightarrow> 'd account_velocity_control \<Rightarrow> 'd velocity_error + 'd to_check" where
  "collect_control env ctx account_id entry balances_to_check control =
     rbind (needs_enforcement env control ctx) (\<lambda>needed.
       if \<not> needed then Inr balances_to_check
       else rfold (collect_limit env ctx account_id entry (avc_control_id control)) balances_to_check
              (avc_velocity_limits control))"

definition collect_account ::
  "'d::linorder cel_env \<Rightarrow> 'd controls \<Rightarrow> 'd entry_values \<Rightarrow> 'd eval_context \<times> 'd to_check \<Rightarrow> account_id
     \<Rightarrow> ('d velocity_error + 'd eval_context \<times> 'd to_check) option" where
  "collect_account env controls entry = (\<lambda>(context, balances_to_check) account_id.
     (case map_of controls account_id of
        None \<Rightarrow> Some (Inr (context, balances_to_check))
      | Some (_, account_controls) \<Rightarrow>
          pbind (expect (context_for_entry env context account_id entry)) (\<lambda>(ctx, context).
            Some (rmap (Pair context)
              (rfold (collect_control env ctx account_id entry) balances_to_check account_controls)))))"

definition collect_entry ::
  "'d::linorder cel_env \<Rightarrow> 'd controls \<Rightarrow> (account_id \<rightharpoonup> account_set_id list)
     \<Rightarrow> 'd eval_context \<times> 'd to_check \<Rightarrow> 'd entry_values
     \<Rightarrow> ('d velocity_error + 'd eval_context \<times> 'd to_check) option" where
  "collect_entry env controls mappings state entry =
     pfold (collect_account env controls entry) state
       (map account_of_set (get_list mappings (e_account_id entry)) @ [e_account_id entry])"

definition collect_balances_to_check ::
  "'d::linorder cel_env \<Rightarrow> 'd controls \<Rightarrow> (account_id \<rightharpoonup> account_set_id list)
     \<Rightarrow> 'd eval_context \<times> 'd to_check \<Rightarrow> 'd entry_values list
     \<Rightarrow> ('d velocity_error + 'd eval_context \<times> 'd to_check) option" where
  "collect_balances_to_check env controls mappings state entries =
     pfold (collect_entry env controls mappings) state entries"

type_synonym 'd contexts = "transaction_id \<rightharpoonup> 'd eval_context"

definition build_contexts ::
  "date_time \<Rightarrow> 'd controls \<Rightarrow> (transaction_values \<times> 'd entry_values list) list \<Rightarrow> 'd contexts" where
  "build_contexts clock controls postings =
     foldl (\<lambda>m (transaction, _).
              m(tv_id transaction \<mapsto>
                  eval_context_new clock transaction (map (fst \<circ> snd) controls))) Map.empty postings"

definition collect_posting ::
  "'d::linorder cel_env \<Rightarrow> 'd controls \<Rightarrow> ancestor_mappings \<Rightarrow> 'd contexts \<times> 'd to_check
     \<Rightarrow> transaction_values \<times> 'd entry_values list
     \<Rightarrow> ('d velocity_error + 'd contexts \<times> 'd to_check) option" where
  "collect_posting env controls account_set_mappings = (\<lambda>(contexts, to_check) (transaction, entries).
     pbind (expect (contexts (tv_id transaction))) (\<lambda>context.
     pbind (collect_balances_to_check env controls
              (case account_set_mappings (tv_journal_id transaction) of
                 Some m \<Rightarrow> m | None \<Rightarrow> Map.empty) (context, to_check) entries)
       (\<lambda>(context, to_check). Some (Inr (contexts(tv_id transaction \<mapsto> context), to_check)))))"

text \<open>One entry of a key: the next snapshot of the key, checked against the limit.\<close>

definition enforce_entry ::
  "'d::linordered_ab_group_add cel_env \<Rightarrow> date_time \<Rightarrow> velocity_balance_key
     \<Rightarrow> 'd contexts \<times> 'd balance_snapshot option \<times> 'd balance_snapshot list
     \<Rightarrow> 'd account_velocity_limit \<times> 'd entry_values
     \<Rightarrow> ('d velocity_error + 'd contexts \<times> 'd balance_snapshot option \<times> 'd balance_snapshot list) option" where
  "enforce_entry env time key = (\<lambda>(contexts, latest_balance, new_balances) (limit, entry).
     (let new_balance = next_snapshot time (vk_account_id key) latest_balance entry
      in pbind (expect (contexts (e_transaction_id entry))) (\<lambda>context.
         pbind (expect (context_for_entry env context (vk_account_id key) entry)) (\<lambda>(ctx, context).
         pbind (Some (enforce env limit ctx time new_balance)) (\<lambda>_.
           Some (Inr (contexts(e_transaction_id entry \<mapsto> context), Some new_balance,
                      new_balances @ [new_balance])))))))"

definition enforce_key ::
  "'d::linordered_ab_group_add cel_env \<Rightarrow> date_time
     \<Rightarrow> 'd contexts \<times> (velocity_balance_key \<rightharpoonup> 'd balance_snapshot option)
          \<times> (velocity_balance_key \<times> 'd balance_snapshot list) list
     \<Rightarrow> velocity_balance_key \<times> ('d account_velocity_limit \<times> 'd entry_values) list
     \<Rightarrow> ('d velocity_error + 'd contexts \<times> (velocity_balance_key \<rightharpoonup> 'd balance_snapshot option)
          \<times> (velocity_balance_key \<times> 'd balance_snapshot list) list) option" where
  "enforce_key env time = (\<lambda>(contexts, current_balances, res) (key, entries).
     pbind (expect (current_balances key)) (\<lambda>latest_balance.
     pbind (pfold (enforce_entry env time key) (contexts, latest_balance, []) entries)
       (\<lambda>(contexts, _, new_balances).
          Some (Inr (contexts, current_balances(key := None), res @ [(key, new_balances)])))))"

definition new_snapshots_with_limit_enforcement ::
  "'d::linordered_ab_group_add cel_env \<Rightarrow> date_time \<Rightarrow> 'd contexts
     \<Rightarrow> (velocity_balance_key \<rightharpoonup> 'd balance_snapshot option) \<Rightarrow> 'd to_check
     \<Rightarrow> ('d velocity_error + (velocity_balance_key \<times> 'd balance_snapshot list) list) option" where
  "new_snapshots_with_limit_enforcement env time contexts current_balances entries_to_add =
     pbind (pfold (enforce_key env time) (contexts, current_balances, []) entries_to_add)
       (\<lambda>(_, _, res). Some (Inr res))"

end
