(* ===== verification/Velocity_Store.thy ===== *)
theory Velocity_Store imports Velocity Versioned_Store begin

text \<open>
  The velocity tables and the operations over them: \<open>cala_velocity_balance_history\<close> and
  \<open>cala_velocity_current_balances\<close> with the read and the single write statement of a batch
  (\<open>velocity/balance/repo.rs\<close>), the driver \<open>enforce_batch_in_op\<close> (\<open>velocity/balance/mod.rs\<close>), and the
  controls, limits and attachments (\<open>velocity/mod.rs\<close>, \<open>account_control\<close>, \<open>limit/repo.rs\<close>).
\<close>

section \<open>Balances\<close>

record 'd velocity_tables =
  vt_history :: "(velocity_balance_key, 'd balance_snapshot) version_row list"
  vt_current :: "(velocity_balance_key, 'd balance_snapshot) version_row list"

text \<open>
  The order in which the locks of the keys are taken, and in which they are read; \<open>show_json\<close>
  prints a window.
\<close>

definition lock_order :: "(json \<Rightarrow> string) \<Rightarrow> velocity_balance_key list \<Rightarrow> velocity_balance_key list" where
  "lock_order show_json keys =
     sort_key (\<lambda>k. (vk_account_id k, vk_control_id k, vk_limit_id k, vk_currency k, vk_journal_id k,
                    show_json (vk_window k))) keys"

definition velocity_find_for_update ::
  "(json \<Rightarrow> string) \<Rightarrow> 'd velocity_tables \<Rightarrow> velocity_balance_key list
     \<Rightarrow> (velocity_balance_key \<rightharpoonup> 'd balance_snapshot option)" where
  "velocity_find_for_update show_json vt keys =
     foldl (\<lambda>ret k. ret(k \<mapsto> map_option snd (map_of (vt_current vt) k))) Map.empty
       (lock_order show_json keys)"

definition velocity_rows ::
  "(velocity_balance_key \<times> 'd balance_snapshot list) list
     \<Rightarrow> (velocity_balance_key, 'd balance_snapshot) version_row list" where
  "velocity_rows new_balances =
     concat (map (\<lambda>(key, snapshots). map (\<lambda>s. (key, as_i32 (bs_version s), s)) snapshots) new_balances)"

text \<open>
  \<open>ROW_NUMBER() OVER (PARTITION BY key ORDER BY version)\<close> and \<open>MAX(version) OVER (PARTITION BY key)\<close>
  of a row among the new ones, whose (key, version) pairs are distinct.
\<close>

definition row_number :: "('k, 'v) version_row list \<Rightarrow> ('k, 'v) version_row \<Rightarrow> int" where
  "row_number new r = int (length (filter (\<lambda>(v, _). v < fst (snd r)) (rows_of (fst r) new))) + 1"

definition max_version :: "('k, 'v) version_row list \<Rightarrow> ('k, 'v) version_row \<Rightarrow> int" where
  "max_version new r = (case latest (rows_of (fst r) new) of Some (v, _) \<Rightarrow> v | None \<Rightarrow> 0)"

definition initial_balances ::
  "('k, 'v) version_row list \<Rightarrow> ('k, 'v) version_row list \<Rightarrow> ('k, 'v) version_row list" where
  "initial_balances current new =
     filter (\<lambda>r. fst (snd r) = row_number new r \<and> row_number new r = max_version new r
                \<and> map_of current (fst r) = None) new"

definition updated_current ::
  "('k, 'v) version_row list \<Rightarrow> ('k, 'v) version_row list \<Rightarrow> ('k, 'v) version_row list" where
  "updated_current current new =
     map (\<lambda>(k, c). case filter (\<lambda>r. fst r = k \<and> fst (snd r) = max_version new r
                                   \<and> fst (snd r) \<noteq> row_number new r) new of
                    [] \<Rightarrow> (k, c)
                  | r # _ \<Rightarrow> (k, snd r)) current"

text \<open>
  The statement: the history insert under its unique key, the insert of initial balances, and the
  update, which sees \<open>current\<close> as it was; the foreign key of the history is checked at the end.
\<close>

definition write_rows ::
  "'d velocity_tables \<Rightarrow> (velocity_balance_key, 'd balance_snapshot) version_row list
     \<Rightarrow> 'd velocity_error + 'd velocity_tables" where
  "write_rows vt new =
     (let history = vt_history vt @ new;
          current = updated_current (vt_current vt) new @ initial_balances (vt_current vt) new
      in if distinct (map (\<lambda>(k, v, _). (k, v)) history) \<and> fst ` set new \<subseteq> fst ` set current
         then Inr (vt \<lparr> vt_history := history, vt_current := current \<rparr>)
         else Inl VelSqlx)"

definition velocity_insert_new_snapshots ::
  "'d velocity_tables \<Rightarrow> (velocity_balance_key \<times> 'd balance_snapshot list) list
     \<Rightarrow> 'd velocity_error + 'd velocity_tables" where
  "velocity_insert_new_snapshots vt new_balances = write_rows vt (velocity_rows new_balances)"

record 'd velocity_env =
  ve_cel :: "'d cel_env"
  ve_clock :: date_time
  ve_show_json :: "json \<Rightarrow> string"
  ve_hash_order :: "'d to_check \<Rightarrow> 'd to_check"

definition enforce_batch_in_op ::
  "'d::linordered_ab_group_add velocity_env \<Rightarrow> 'd velocity_tables \<Rightarrow> date_time
     \<Rightarrow> (transaction_values \<times> 'd entry_values list) list \<Rightarrow> 'd controls \<Rightarrow> ancestor_mappings
     \<Rightarrow> ('d velocity_error + 'd velocity_tables) option" where
  "enforce_batch_in_op ve vt created_at postings controls account_set_mappings =
     (if controls = [] then Some (Inr vt)
      else
        pbind (pfold (collect_posting (ve_cel ve) controls account_set_mappings)
                 (build_contexts (ve_clock ve) controls postings, []) postings)
          (\<lambda>(contexts, entries_to_enforce).
             if entries_to_enforce = [] then Some (Inr vt)
             else
               (let current_balances = velocity_find_for_update (ve_show_json ve) vt
                      (map fst entries_to_enforce)
                in pbind (new_snapshots_with_limit_enforcement (ve_cel ve) created_at contexts
                            current_balances (ve_hash_order ve entries_to_enforce))
                     (\<lambda>new_balances. Some (velocity_insert_new_snapshots vt new_balances)))))"

section \<open>The statement provides the contract of a versioned store\<close>

text \<open>The rows of every key continue the version of its current row without a gap.\<close>

definition contiguous :: "'d velocity_tables \<Rightarrow> (velocity_balance_key, 'd balance_snapshot) version_row list \<Rightarrow> bool" where
  "contiguous vt new \<longleftrightarrow>
     (\<forall>k. \<exists>n. map fst (rows_of k new) = [n + 1 .. n + int (length (rows_of k new))]
        \<and> (case map_of (vt_current vt) k of None \<Rightarrow> n = 0 | Some (v, _) \<Rightarrow> n = v \<and> 0 < v))"

lemma contiguous_append:
  "map fst (rs @ [r]) = [n + 1 .. n + int (length (rs @ [r]))] \<longleftrightarrow>
     map fst rs = [n + 1 .. n + int (length rs)] \<and> fst r = n + int (length rs) + 1"
proof -
  have "[n + 1 .. n + int (length (rs @ [r]))] = [n + 1 .. n + int (length rs)] @ [n + int (length rs) + 1]"
    using upto_rec2[of "n + 1" "n + int (length (rs @ [r]))"] by (simp add: algebra_simps)
  then show ?thesis by auto
qed

lemma contiguous_last:
  assumes "map fst rs = [n + 1 .. n + int (length rs)]" "rs \<noteq> []"
  shows "latest rs = Some (last rs) \<and> fst (last rs) = n + int (length rs)
    \<and> filter (\<lambda>p. fst p = n + int (length rs)) rs = [last rs]"
  using assms
proof (induction rs rule: rev_induct)
  case (snoc r rs)
  from snoc.prems(1) have rs: "map fst rs = [n + 1 .. n + int (length rs)]"
    and r: "fst r = n + int (length rs) + 1" by (simp_all only: contiguous_append)
  have below: "fst p < fst r" if "p \<in> set rs" for p
    using arg_cong[OF rs, of set] that r by auto
  then have "filter (\<lambda>p. fst p = fst r) rs = []" by (fastforce simp: filter_empty_conv)
  moreover have "latest (rs @ [r]) = Some r"
  proof (cases "rs = []")
    case False
    then have "fst (last rs) < fst r" by (intro below) simp
    with False snoc.IH[OF rs] show ?thesis
      by (cases r; cases "last rs") (simp add: latest_append later_def max_def)
  qed (simp add: later_def)
  moreover have "n + int (length (rs @ [r])) = fst r" using r by simp
  ultimately show ?case by simp
qed simp

lemma contiguous_rank:
  assumes "map fst rs = [n + 1 .. n + int (length rs)]" "p \<in> set rs"
  shows "int (length (filter (\<lambda>(v, _). v < fst p) rs)) + 1 = fst p - n"
proof -
  have p: "n + 1 \<le> fst p" "fst p \<le> n + int (length rs)"
    using arg_cong[OF assms(1), of set] assms(2) by auto
  have "length (filter (\<lambda>(v, _). v < fst p) rs) = length (filter (\<lambda>v. v < fst p) (map fst rs))"
    by (simp add: filter_map comp_def case_prod_unfold)
  also have "\<dots> = card {v \<in> {n + 1 .. n + int (length rs)}. v < fst p}"
    using assms(1) by (simp add: distinct_card[symmetric])
  also have "{v \<in> {n + 1 .. n + int (length rs)}. v < fst p} = {n + 1 .. fst p - 1}"
    using p by auto
  finally show ?thesis using p by simp
qed

lemma filter_key_rows:
  "filter (\<lambda>r. fst r = k \<and> P r) new = map (Pair k) (filter (\<lambda>p. P (k, p)) (rows_of k new))"
  by (induction new) (auto simp: rows_of_def)

lemma map_of_filter_rows:
  "map_of (filter P new) k = (case filter (\<lambda>p. P (k, p)) (rows_of k new) of [] \<Rightarrow> None | p # _ \<Rightarrow> Some p)"
  by (induction new) (auto simp: rows_of_def)

lemma map_of_updated_current:
  "map_of (updated_current current new) k =
     map_option (\<lambda>c. case filter (\<lambda>p. fst p = max_version new (k, p) \<and> fst p \<noteq> row_number new (k, p)) (rows_of k new)
                       of [] \<Rightarrow> c | p # _ \<Rightarrow> p) (map_of current k)"
  unfolding updated_current_def filter_key_rows
  by (induction current) (auto split: list.split)

text \<open>Under the hypothesis the statement leaves the latest version of every key current.\<close>

lemma written_current:
  assumes "contiguous vt new"
  shows "map_of (updated_current (vt_current vt) new @ initial_balances (vt_current vt) new) k =
    later (map_of (vt_current vt) k) (latest (rows_of k new))"
proof -
  let ?rs = "rows_of k new"
  from assms obtain n where rs: "map fst ?rs = [n + 1 .. n + int (length ?rs)]"
    and n: "case map_of (vt_current vt) k of None \<Rightarrow> n = 0 | Some (v, _) \<Rightarrow> n = v \<and> 0 < v"
    unfolding contiguous_def by blast
  show ?thesis
  proof (cases "?rs = []")
    case True
    then show ?thesis
      by (simp add: map_add_def map_of_updated_current initial_balances_def map_of_filter_rows
          option.map_ident split: option.split)
  next
    case False
    note last = contiguous_last[OF rs False]
    have mx: "max_version new (k, p) = n + int (length ?rs)" for p
      using last by (simp add: max_version_def split: option.splits prod.splits) (metis fst_conv)
    have rn: "row_number new (k, p) = fst p - n" if "p \<in> set ?rs" for p
      using contiguous_rank[OF rs that] by (simp add: row_number_def)
    show ?thesis
    proof (cases "map_of (vt_current vt) k")
      case None
      with n have "n = 0" by simp
      with rn mx have "filter (\<lambda>p. fst (snd (k, p)) = row_number new (k, p) \<and> row_number new (k, p) = max_version new (k, p)
            \<and> map_of (vt_current vt) (fst (k, p)) = None) ?rs = filter (\<lambda>p. fst p = n + int (length ?rs)) ?rs"
        using None by (intro filter_cong) auto
      then show ?thesis
        using None last by (simp add: map_add_def map_of_updated_current initial_balances_def map_of_filter_rows)
    next
      case (Some c)
      obtain v s where c: "c = (v, s)" by (cases c)
      with n Some have nv: "n = v" "0 < v" by auto
      with rn mx have "filter (\<lambda>p. fst p = max_version new (k, p) \<and> fst p \<noteq> row_number new (k, p)) ?rs
            = filter (\<lambda>p. fst p = n + int (length ?rs)) ?rs"
        by (intro filter_cong) auto
      then have "map_of (updated_current (vt_current vt) new) k = Some (last ?rs)"
        using last Some by (simp add: map_of_updated_current)
      moreover have "later (Some c) (Some (last ?rs)) = Some (last ?rs)"
        using last nv c False by (cases "last ?rs") (auto simp: later_def max_def)
      ultimately show ?thesis using Some last by (simp add: map_add_def split: option.split)
    qed
  qed
qed

interpretation velocity_store: versioned_store write_rows vt_history "\<lambda>vt. map_of (vt_current vt)"
    "\<lambda>r. r" contiguous
proof unfold_locales
  fix vt vt' :: "'a velocity_tables" and new k
  assume "write_rows vt new = Inr vt'"
  then have vt': "vt' = vt \<lparr> vt_history := vt_history vt @ new,
      vt_current := updated_current (vt_current vt) new @ initial_balances (vt_current vt) new \<rparr>"
    by (auto simp: write_rows_def Let_def split: if_splits)
  then show "vt_history vt' = vt_history vt @ map (\<lambda>r. r) new" by simp
  assume "contiguous vt new"
  from written_current[OF this] vt'
  show "map_of (vt_current vt') k = later (map_of (vt_current vt) k) (latest (rows_of k (map (\<lambda>r. r) new)))"
    by simp
qed

end
