(* ===== verification/Velocity_Correct.thy ===== *)
theory Velocity_Correct imports Velocity_Store begin

text \<open>
  What a batch enforces, without the evaluation caches: the list of (key, limit, entry) hits of its
  postings in order, and for each key the chain of snapshots checked one by one. The driver
  computes exactly this and never panics.
\<close>

section \<open>Pushing lists of hits\<close>

definition pushes :: "('k \<times> 'v list) list \<Rightarrow> ('k \<times> 'v) list \<Rightarrow> ('k \<times> 'v list) list" where
  "pushes m hits = foldl (\<lambda>m (k, v). push_to k v m) m hits"

lemma pushes_simps [simp]:
  "pushes m [] = m"
  "pushes m (h # hs) = pushes (push_to (fst h) (snd h) m) hs"
  "pushes m (xs @ ys) = pushes (pushes m xs) ys"
  by (simp_all add: pushes_def case_prod_unfold)

definition rconcat :: "('a \<Rightarrow> 'e + 'b list) \<Rightarrow> 'a list \<Rightarrow> 'e + 'b list" where
  "rconcat f xs = rmap concat (rmap_list f xs)"

lemma rconcat_simps [simp]:
  "rconcat f [] = Inr []"
  "rconcat f (x # xs) = rbind (f x) (\<lambda>h. rmap (\<lambda>hs. h @ hs) (rconcat f xs))"
  by (auto simp: rconcat_def rbind_def rmap_def split: sum.split)

lemma rconcat_append: "rconcat f (xs @ ys) = rbind (rconcat f xs) (\<lambda>h. rmap (\<lambda>hs. h @ hs) (rconcat f ys))"
  by (induction xs) (auto simp: rbind_def rmap_def split: sum.splits)

lemma rconcat_cong: "(\<And>x. x \<in> set xs \<Longrightarrow> f x = g x) \<Longrightarrow> rconcat f xs = rconcat g xs"
  by (induction xs) simp_all

lemma rconcat_elem: "rconcat f xs = Inr hs \<Longrightarrow> h \<in> set hs \<Longrightarrow> \<exists>x ys. x \<in> set xs \<and> f x = Inr ys \<and> h \<in> set ys"
proof (induction xs arbitrary: hs)
  case (Cons x xs)
  then show ?case by (auto simp: rbind_Inr_iff rmap_Inr_iff) (metis+)?
qed simp

lemma rfold_push:
  assumes "\<And>m x. F m x = rmap (pushes m) (f x)"
  shows "rfold F m xs = rmap (pushes m) (rconcat f xs)"
proof (induction xs arbitrary: m)
  case (Cons x xs)
  then show ?case by (cases "f x"; cases "rconcat f xs") (simp_all add: assms)
qed simp

lemma pfold_push:
  assumes "\<And>c m x. good c \<Longrightarrow> x \<in> set xs \<Longrightarrow>
      \<exists>c'. good c' \<and> F (c, m) x = Some (rmap (\<lambda>h. (c', pushes m h)) (f x))"
    and "good c"
  shows "\<exists>c'. good c' \<and> pfold F (c, m) xs = Some (rmap (\<lambda>h. (c', pushes m h)) (rconcat f xs))"
  using assms
proof (induction xs arbitrary: c m)
  case (Cons x xs)
  obtain c' where c': "good c'" "F (c, m) x = Some (rmap (\<lambda>h. (c', pushes m h)) (f x))"
    using Cons.prems(1)[OF Cons.prems(2), of x m] by auto
  show ?case
  proof (cases "f x")
    case (Inl e)
    with c' show ?thesis by auto
  next
    case (Inr h)
    have "\<exists>c''. good c'' \<and> pfold F (c', pushes m h) xs =
        Some (rmap (\<lambda>h'. (c'', pushes (pushes m h) h')) (rconcat f xs))"
      by (rule Cons.IH) (use Cons.prems(1) c'(1) in auto)
    then obtain c'' where "good c''"
      "pfold F (c', pushes m h) xs = Some (rmap (\<lambda>h'. (c'', pushes (pushes m h) h')) (rconcat f xs))"
      by blast
    with c' Inr show ?thesis by (cases "rconcat f xs") auto
  qed
qed auto

section \<open>The reference\<close>

definition entry_context ::
  "'d velocity_env \<Rightarrow> context_account_values \<Rightarrow> transaction_values \<Rightarrow> 'd entry_values \<Rightarrow> 'd cel_context" where
  "entry_context ve cav t e =
     (let vars = cel_map_insert ''account'' (cel_of_context_account cav)
                   (cel_map_insert ''entry'' (cel_of_entry e)
                     (cel_map_insert ''transaction'' (cel_of_transaction t) []))
      in add_variable (env_lib (ve_cel ve)) ''context'' (CMap (cel_map_insert ''vars'' (CMap vars) []))
           (initialize (env_lib (ve_cel ve)) (ve_clock ve)))"

type_synonym 'd hit = "velocity_balance_key \<times> 'd account_velocity_limit \<times> 'd entry_values"

definition limit_hits ::
  "'d::linorder velocity_env \<Rightarrow> 'd cel_context \<Rightarrow> account_id \<Rightarrow> 'd entry_values \<Rightarrow> velocity_control_id
     \<Rightarrow> 'd account_velocity_limit \<Rightarrow> 'd velocity_error + 'd hit list" where
  "limit_hits ve ctx a e cid limit =
     rmap (\<lambda>w. case w of
                 Some window \<Rightarrow>
                   [(\<lparr> vk_window = window, vk_currency = e_currency e, vk_journal_id = e_journal_id e,
                       vk_account_id = a, vk_control_id = cid, vk_limit_id = avl_limit_id limit \<rparr>, limit, e)]
               | None \<Rightarrow> [])
       (window_for_enforcement (ve_cel ve) limit ctx e)"

definition control_hits ::
  "'d::linorder velocity_env \<Rightarrow> 'd cel_context \<Rightarrow> account_id \<Rightarrow> 'd entry_values
     \<Rightarrow> 'd account_velocity_control \<Rightarrow> 'd velocity_error + 'd hit list" where
  "control_hits ve ctx a e control =
     rbind (needs_enforcement (ve_cel ve) control ctx) (\<lambda>needed.
       if needed then rconcat (limit_hits ve ctx a e (avc_control_id control)) (avc_velocity_limits control)
       else Inr [])"

definition account_hits ::
  "'d::linorder velocity_env \<Rightarrow> 'd controls \<Rightarrow> transaction_values \<Rightarrow> 'd entry_values \<Rightarrow> account_id
     \<Rightarrow> 'd velocity_error + 'd hit list" where
  "account_hits ve controls t e a =
     (case map_of controls a of
        None \<Rightarrow> Inr []
      | Some (cav, cs) \<Rightarrow> rconcat (control_hits ve (entry_context ve cav t e) a e) cs)"

text \<open>The accounts an entry is enforced against: the ancestors of its account, then itself.\<close>

definition targets :: "ancestor_mappings \<Rightarrow> transaction_values \<Rightarrow> 'd entry_values \<Rightarrow> account_id list" where
  "targets mappings t e =
     map account_of_set (get_list (case mappings (tv_journal_id t) of Some m \<Rightarrow> m | None \<Rightarrow> Map.empty)
       (e_account_id e)) @ [e_account_id e]"

definition posting_hits ::
  "'d::linorder velocity_env \<Rightarrow> 'd controls \<Rightarrow> ancestor_mappings
     \<Rightarrow> transaction_values \<times> 'd entry_values list \<Rightarrow> 'd velocity_error + 'd hit list" where
  "posting_hits ve controls mappings = (\<lambda>(t, es).
     rconcat (\<lambda>e. rconcat (account_hits ve controls t e) (targets mappings t e)) es)"

definition batch_hits ::
  "'d::linorder velocity_env \<Rightarrow> 'd controls \<Rightarrow> ancestor_mappings
     \<Rightarrow> (transaction_values \<times> 'd entry_values list) list \<Rightarrow> 'd velocity_error + 'd hit list" where
  "batch_hits ve controls mappings postings = rconcat (posting_hits ve controls mappings) postings"

text \<open>The transaction of an entry, and the context of an account for it.\<close>

definition transaction_of ::
  "(transaction_values \<times> 'd entry_values list) list \<Rightarrow> transaction_id \<Rightarrow> transaction_values" where
  "transaction_of postings i = the (map_of (map (\<lambda>(t, _). (tv_id t, t)) postings) i)"

definition hit_context ::
  "'d velocity_env \<Rightarrow> 'd controls \<Rightarrow> (transaction_values \<times> 'd entry_values list) list
     \<Rightarrow> account_id \<Rightarrow> 'd entry_values \<Rightarrow> 'd cel_context" where
  "hit_context ve controls postings a e =
     entry_context ve (fst (the (map_of controls a))) (transaction_of postings (e_transaction_id e)) e"

fun enforced_chain ::
  "'d::linordered_ab_group_add velocity_env \<Rightarrow> (account_id \<Rightarrow> 'd entry_values \<Rightarrow> 'd cel_context) \<Rightarrow> date_time
     \<Rightarrow> account_id \<Rightarrow> 'd balance_snapshot option \<Rightarrow> ('d account_velocity_limit \<times> 'd entry_values) list
     \<Rightarrow> 'd velocity_error + 'd balance_snapshot list" where
  "enforced_chain ve ctx time a base [] = Inr []"
| "enforced_chain ve ctx time a base ((limit, e) # hits) =
     (let s = next_snapshot time a base e
      in rbind (enforce (ve_cel ve) limit (ctx a e) time s) (\<lambda>_.
           rmap (Cons s) (enforced_chain ve ctx time a (Some s) hits)))"

definition batch_snapshots ::
  "'d::linordered_ab_group_add velocity_env \<Rightarrow> (account_id \<Rightarrow> 'd entry_values \<Rightarrow> 'd cel_context) \<Rightarrow> date_time
     \<Rightarrow> 'd velocity_tables \<Rightarrow> 'd to_check
     \<Rightarrow> 'd velocity_error + (velocity_balance_key \<times> 'd balance_snapshot list) list" where
  "batch_snapshots ve ctx time vt to_check =
     rmap_list (\<lambda>(k, hits). rmap (Pair k)
        (enforced_chain ve ctx time (vk_account_id k) (map_option snd (map_of (vt_current vt) k)) hits)) to_check"

section \<open>Well-formed batches\<close>

text \<open>
  What the posting flow hands over: transactions with distinct ids and their own entries with
  distinct ids, one control list per account, with the context values of that account.
\<close>

definition batch_ok :: "'d controls \<Rightarrow> (transaction_values \<times> 'd entry_values list) list \<Rightarrow> bool" where
  "batch_ok controls postings \<longleftrightarrow>
     distinct (map (tv_id \<circ> fst) postings)
     \<and> distinct (map e_id (concat (map snd postings)))
     \<and> (\<forall>(t, es) \<in> set postings. \<forall>e \<in> set es.
          e_transaction_id e = tv_id t \<and> e_journal_id e = tv_journal_id t)
     \<and> distinct (map fst controls) \<and> (\<forall>(a, cav, _) \<in> set controls. cav_id cav = a)"

definition good_context ::
  "'d velocity_env \<Rightarrow> 'd controls \<Rightarrow> (transaction_values \<times> 'd entry_values list) list
     \<Rightarrow> transaction_values \<Rightarrow> 'd eval_context \<Rightarrow> bool" where
  "good_context ve controls postings t ec \<longleftrightarrow>
     ec_clock ec = ve_clock ve \<and> ec_transaction ec = cel_of_transaction t
     \<and> ec_account_values ec = map_option (cel_of_context_account \<circ> fst) \<circ> map_of controls
     \<and> (\<forall>e \<in> set (concat (map snd postings)). \<forall>v. ec_entry_values ec (e_id e) = Some v \<longrightarrow> v = cel_of_entry e)"

lemma good_context_new:
  assumes "batch_ok controls postings"
  shows "good_context ve controls postings t (eval_context_new (ve_clock ve) t (map (fst \<circ> snd) controls))"
proof -
  have fold: "foldl (\<lambda>m a. m(cav_id a \<mapsto> cel_of_context_account a)) m (map (fst \<circ> snd) cs) =
      m ++ (map_option (cel_of_context_account \<circ> fst) \<circ> map_of cs)"
    if "distinct (map fst cs)" "\<forall>(a, cav, _) \<in> set cs. cav_id cav = a" for cs :: "'a controls" and m
    using that
  proof (induction cs arbitrary: m)
    case (Cons c cs)
    obtain a cav l where c: "c = (a, cav, l)" by (metis prod.collapse)
    with Cons.prems have a: "cav_id cav = a" "map_of cs a = None" by (auto simp: map_of_eq_None_iff)
    have "foldl (\<lambda>m a. m(cav_id a \<mapsto> cel_of_context_account a)) m (map (fst \<circ> snd) (c # cs)) =
      foldl (\<lambda>m a. m(cav_id a \<mapsto> cel_of_context_account a)) (m(a \<mapsto> cel_of_context_account cav))
        (map (fst \<circ> snd) cs)"
      by (simp add: c a(1))
    also have "\<dots> = m(a \<mapsto> cel_of_context_account cav)
        ++ (map_option (cel_of_context_account \<circ> fst) \<circ> map_of cs)"
      by (rule Cons.IH) (use Cons.prems in auto)
    also have "\<dots> = m ++ (map_option (cel_of_context_account \<circ> fst) \<circ> map_of (c # cs))"
      using a c by (auto simp: fun_eq_iff map_add_def split: option.split)
    finally show ?case .
  qed (simp add: fun_eq_iff map_add_def)
  show ?thesis
    using fold[of controls Map.empty] assms
    by (auto simp: good_context_def eval_context_new_def batch_ok_def)
qed

lemma same_entry:
  assumes "batch_ok controls postings" "e \<in> set (concat (map snd postings))"
    "e' \<in> set (concat (map snd postings))" "e_id e = e_id e'"
  shows "e = e'"
  using assms by (auto simp only: batch_ok_def distinct_map inj_on_def)

lemma context_for_entry_good:
  assumes ok: "batch_ok controls postings" and good: "good_context ve controls postings t ec"
    and e: "e \<in> set (concat (map snd postings))" and a: "map_of controls a = Some (cav, cs)"
  shows "\<exists>ec'. good_context ve controls postings t ec'
    \<and> context_for_entry (ve_cel ve) ec a e = Some (entry_context ve cav t e, ec')"
proof -
  have cached: "(case ec_entry_values ec (e_id e) of Some v \<Rightarrow> v | None \<Rightarrow> cel_of_entry e) = cel_of_entry e"
    using good e by (auto simp: good_context_def split: option.split)
  let ?ec = "ec \<lparr> ec_entry_values := (ec_entry_values ec)(e_id e \<mapsto> cel_of_entry e) \<rparr>"
  have "v = cel_of_entry e'"
    if "e' \<in> set (concat (map snd postings))" "ec_entry_values ?ec (e_id e') = Some v" for e' v
  proof (cases "e_id e' = e_id e")
    case True
    have "e = e'" by (rule same_entry[OF ok e that(1) True[symmetric]])
    with that(2) show ?thesis by simp
  next
    case False
    with good that show ?thesis by (auto simp: good_context_def)
  qed
  then have "good_context ve controls postings t ?ec"
    using good unfolding good_context_def by simp
  moreover have "context_for_entry (ve_cel ve) ec a e = Some (entry_context ve cav t e, ?ec)"
    using good a by (simp add: context_for_entry_def cached Let_def good_context_def entry_context_def)
  ultimately show ?thesis by blast
qed

section \<open>Collecting\<close>

lemma collect_limit_push:
  "collect_limit (ve_cel ve) ctx a e cid m limit = rmap (pushes m) (limit_hits ve ctx a e cid limit)"
  by (auto simp: collect_limit_def limit_hits_def rmap_def split: sum.split option.split)

lemma collect_control_push:
  "collect_control (ve_cel ve) ctx a e m control = rmap (pushes m) (control_hits ve ctx a e control)"
  by (auto simp: collect_control_def control_hits_def rbind_def
      rfold_push[OF collect_limit_push] split: sum.split)

lemma collect_account_push:
  assumes "batch_ok controls postings" "good_context ve controls postings t ec"
    "e \<in> set (concat (map snd postings))"
  shows "\<exists>ec'. good_context ve controls postings t ec' \<and>
    collect_account (ve_cel ve) controls e (ec, m) a =
      Some (rmap (\<lambda>h. (ec', pushes m h)) (account_hits ve controls t e a))"
proof (cases "map_of controls a")
  case None
  with assms(2) show ?thesis by (auto simp: collect_account_def account_hits_def)
next
  case (Some c)
  obtain cav cs where c: "c = (cav, cs)" by (cases c)
  from context_for_entry_good[OF assms Some[unfolded c]] obtain ec' where
    "good_context ve controls postings t ec'"
    "context_for_entry (ve_cel ve) ec a e = Some (entry_context ve cav t e, ec')" by blast
  with Some c show ?thesis
    by (intro exI[of _ ec'])
      (simp add: collect_account_def account_hits_def
        rfold_push[OF collect_control_push] rmap_def split: sum.split)
qed

lemma collect_entry_push:
  assumes "batch_ok controls postings" "good_context ve controls postings t ec"
    "e \<in> set (concat (map snd postings))"
  shows "\<exists>ec'. good_context ve controls postings t ec' \<and>
    collect_entry (ve_cel ve) controls
        (case mappings (tv_journal_id t) of Some m \<Rightarrow> m | None \<Rightarrow> Map.empty) (ec, m) e =
      Some (rmap (\<lambda>h. (ec', pushes m h)) (rconcat (account_hits ve controls t e) (targets mappings t e)))"
  unfolding collect_entry_def targets_def
  by (rule pfold_push[OF collect_account_push[OF assms(1) _ assms(3)] assms(2)])

lemma collect_balances_push:
  assumes "batch_ok controls postings" "good_context ve controls postings t ec" "(t, es) \<in> set postings"
  shows "\<exists>ec'. good_context ve controls postings t ec' \<and>
    collect_balances_to_check (ve_cel ve) controls
        (case mappings (tv_journal_id t) of Some m \<Rightarrow> m | None \<Rightarrow> Map.empty) (ec, m) es =
      Some (rmap (\<lambda>h. (ec', pushes m h)) (posting_hits ve controls mappings (t, es)))"
  unfolding collect_balances_to_check_def posting_hits_def prod.case
  by (rule pfold_push[OF collect_entry_push[OF assms(1)] assms(2)]) (auto intro!: bexI[OF _ assms(3)])

definition good_contexts ::
  "'d velocity_env \<Rightarrow> 'd controls \<Rightarrow> (transaction_values \<times> 'd entry_values list) list \<Rightarrow> 'd contexts \<Rightarrow> bool" where
  "good_contexts ve controls postings cs \<longleftrightarrow>
     (\<forall>(t, es) \<in> set postings. \<exists>ec. cs (tv_id t) = Some ec \<and> good_context ve controls postings t ec)"

lemma same_transaction:
  assumes "batch_ok controls postings" "(t, es) \<in> set postings" "(t', es') \<in> set postings" "tv_id t = tv_id t'"
  shows "t = t' \<and> es = es'"
proof -
  have "inj_on (tv_id \<circ> fst) (set postings)" using assms(1) by (simp add: batch_ok_def distinct_map)
  from inj_onD[OF this _ assms(2,3)] assms(4) show ?thesis by simp
qed

lemma good_contexts_update:
  assumes "batch_ok controls postings" "good_contexts ve controls postings cs" "(t, es) \<in> set postings"
    "good_context ve controls postings t ec"
  shows "good_contexts ve controls postings (cs(tv_id t \<mapsto> ec))"
  using assms same_transaction[OF assms(1,3)] by (fastforce simp: good_contexts_def)

lemma collect_posting_push:
  assumes "batch_ok controls postings" "good_contexts ve controls postings cs" "p \<in> set postings"
  shows "\<exists>cs'. good_contexts ve controls postings cs' \<and>
    collect_posting (ve_cel ve) controls mappings (cs, m) p =
      Some (rmap (\<lambda>h. (cs', pushes m h)) (posting_hits ve controls mappings p))"
proof -
  obtain t es where p: "p = (t, es)" by (cases p)
  with assms obtain ec where ec: "cs (tv_id t) = Some ec" "good_context ve controls postings t ec"
    by (fastforce simp: good_contexts_def)
  from collect_balances_push[OF assms(1) ec(2), of es mappings m] assms(3) p obtain ec'
    where ec': "good_context ve controls postings t ec'"
      "collect_balances_to_check (ve_cel ve) controls
        (case mappings (tv_journal_id t) of Some m \<Rightarrow> m | None \<Rightarrow> Map.empty) (ec, m) es =
      Some (rmap (\<lambda>h. (ec', pushes m h)) (posting_hits ve controls mappings (t, es)))" by auto
  have "good_contexts ve controls postings (cs(tv_id t \<mapsto> ec'))"
    using good_contexts_update[OF assms(1,2)] assms(3) p ec'(1) by blast
  with ec ec'(2) p show ?thesis
    by (intro exI[of _ "cs(tv_id t \<mapsto> ec')"])
      (cases "posting_hits ve controls mappings (t, es)"; simp add: collect_posting_def)
qed

lemma good_contexts_build:
  assumes "batch_ok controls postings"
  shows "good_contexts ve controls postings (build_contexts (ve_clock ve) controls postings)"
proof -
  let ?new = "\<lambda>t. eval_context_new (ve_clock ve) t (map (fst \<circ> snd) controls)"
  have fold: "foldl (\<lambda>m (t, _). m(tv_id t \<mapsto> ?new t)) m ps (tv_id t) = Some (?new t)"
    if "(t, es) \<in> set ps" "distinct (map (tv_id \<circ> fst) ps)" for m ps t and es :: "'a entry_values list"
  proof -
    have rest: "foldl (\<lambda>m (t, _). m(tv_id t \<mapsto> ?new t)) m ps i = m i"
      if "i \<notin> (tv_id \<circ> fst) ` set ps" for m i and ps :: "(transaction_values \<times> 'a entry_values list) list"
      using that by (induction ps arbitrary: m) auto
    show ?thesis
      using that by (induction ps arbitrary: m) (auto simp: rest)
  qed
  show ?thesis
    using assms fold good_context_new[OF assms]
    unfolding good_contexts_def build_contexts_def by (fastforce simp: batch_ok_def)
qed

section \<open>Enforcing\<close>

lemma transaction_of_entry:
  assumes "batch_ok controls postings" "(t, es) \<in> set postings" "e \<in> set es"
  shows "transaction_of postings (e_transaction_id e) = t" and "e_transaction_id e = tv_id t"
proof -
  show i: "e_transaction_id e = tv_id t" using assms by (auto simp: batch_ok_def)
  have "distinct (map fst (map (\<lambda>(t, _). (tv_id t, t)) postings))"
    using assms(1) by (simp add: batch_ok_def comp_def case_prod_unfold)
  moreover have "(tv_id t, t) \<in> set (map (\<lambda>(t, _). (tv_id t, t)) postings)" using assms(2) by force
  ultimately show "transaction_of postings (e_transaction_id e) = t"
    unfolding transaction_of_def i by simp
qed

lemma enforce_entries:
  assumes "batch_ok controls postings" "map_of controls (vk_account_id key) = Some c"
    and "good_contexts ve controls postings cs"
    and "\<And>h. h \<in> set hits \<Longrightarrow> snd h \<in> set (concat (map snd postings))"
  shows "\<exists>cs' b'. good_contexts ve controls postings cs' \<and>
    pfold (enforce_entry (ve_cel ve) time key) (cs, base, acc) hits =
      Some (rmap (\<lambda>ss. (cs', b', acc @ ss))
        (enforced_chain ve (hit_context ve controls postings) time (vk_account_id key) base hits))"
  using assms(3,4)
proof (induction hits arbitrary: cs base acc)
  case (Cons h hits)
  obtain limit e where h: "h = (limit, e)" by (cases h)
  from Cons.prems(2)[of h] h have e: "e \<in> set (concat (map snd postings))" by simp
  then obtain t es where t: "(t, es) \<in> set postings" "e \<in> set es" by auto
  note tx = transaction_of_entry[OF assms(1) t]
  from Cons.prems(1) t(1) obtain ec where ec: "cs (tv_id t) = Some ec" "good_context ve controls postings t ec"
    by (fastforce simp: good_contexts_def)
  obtain cav l where c: "c = (cav, l)" by (cases c)
  from context_for_entry_good[OF assms(1) ec(2) e assms(2)[unfolded c]] obtain ec' where
    ec': "good_context ve controls postings t ec'"
      "context_for_entry (ve_cel ve) ec (vk_account_id key) e = Some (entry_context ve cav t e, ec')" by blast
  have ctx: "hit_context ve controls postings (vk_account_id key) e = entry_context ve cav t e"
    unfolding hit_context_def tx(1) by (simp add: assms(2) c)
  let ?s = "next_snapshot time (vk_account_id key) base e"
  show ?case
  proof (cases "enforce (ve_cel ve) limit (entry_context ve cav t e) time ?s")
    case (Inl x)
    with h ec(1) ec' tx ctx Cons.prems(1) show ?thesis
      by (intro exI[of _ cs]) (simp add: enforce_entry_def Let_def)
  next
    case (Inr u)
    let ?cs = "cs(tv_id t \<mapsto> ec')"
    have "good_contexts ve controls postings ?cs"
      by (rule good_contexts_update[OF assms(1) Cons.prems(1) t(1) ec'(1)])
    then have "\<exists>cs' b'. good_contexts ve controls postings cs' \<and>
      pfold (enforce_entry (ve_cel ve) time key) (?cs, Some ?s, acc @ [?s]) hits =
        Some (rmap (\<lambda>ss. (cs', b', (acc @ [?s]) @ ss))
          (enforced_chain ve (hit_context ve controls postings) time (vk_account_id key) (Some ?s) hits))"
      by (rule Cons.IH) (use Cons.prems(2) in simp)
    then obtain cs' b' where IH: "good_contexts ve controls postings cs'"
      "pfold (enforce_entry (ve_cel ve) time key) (?cs, Some ?s, acc @ [?s]) hits =
        Some (rmap (\<lambda>ss. (cs', b', (acc @ [?s]) @ ss))
          (enforced_chain ve (hit_context ve controls postings) time (vk_account_id key) (Some ?s) hits))"
      by blast
    then show ?thesis using h ec(1) ec'(2) tx ctx Inr
      by (intro exI[of _ cs'] exI[of _ b'] conjI)
        (auto simp: enforce_entry_def Let_def rmap_def split: sum.split)
  qed
qed auto

definition checked :: "'d controls \<Rightarrow> (transaction_values \<times> 'd entry_values list) list \<Rightarrow> 'd to_check \<Rightarrow> bool" where
  "checked controls postings to_check \<longleftrightarrow>
     (\<forall>(k, hits) \<in> set to_check. map_of controls (vk_account_id k) \<noteq> None
        \<and> (\<forall>h \<in> set hits. snd h \<in> set (concat (map snd postings))))"

lemma enforce_keys:
  assumes "batch_ok controls postings" and "good_contexts ve controls postings cs"
    and "checked controls postings tc" "distinct (map fst tc)"
    and "\<And>k. k \<in> fst ` set tc \<Longrightarrow> cb k = Some (map_option snd (map_of (vt_current vt) k))"
  shows "\<exists>cs' cb'. pfold (enforce_key (ve_cel ve) time) (cs, cb, res) tc =
      Some (rmap (\<lambda>r. (cs', cb', res @ r))
        (batch_snapshots ve (hit_context ve controls postings) time vt tc))"
  using assms(2-5)
proof (induction tc arbitrary: cs cb res)
  case (Cons x tc)
  obtain k hits where x: "x = (k, hits)" by (cases x)
  let ?base = "map_option snd (map_of (vt_current vt) k)"
  let ?ch = "enforced_chain ve (hit_context ve controls postings) time (vk_account_id k) ?base hits"
  from Cons.prems(2) x obtain c where c: "map_of controls (vk_account_id k) = Some c"
    and hits: "\<And>h. h \<in> set hits \<Longrightarrow> snd h \<in> set (concat (map snd postings))"
    by (auto simp: checked_def)
  have base: "cb k = Some ?base" using Cons.prems(4)[of k] x by simp
  from enforce_entries[where time = time and base = ?base and acc = "[]", OF assms(1) c Cons.prems(1) hits] obtain cs' b' where
    e: "good_contexts ve controls postings cs'"
      "pfold (enforce_entry (ve_cel ve) time k) (cs, ?base, []) hits = Some (rmap (\<lambda>ss. (cs', b', [] @ ss)) ?ch)"
    by blast
  show ?case
  proof (cases ?ch)
    case (Inl err)
    with x base e(2) show ?thesis by (simp add: enforce_key_def batch_snapshots_def)
  next
    case (Inr ss)
    have "\<exists>cs'' cb''. pfold (enforce_key (ve_cel ve) time) (cs', cb(k := None), res @ [(k, ss)]) tc =
      Some (rmap (\<lambda>r. (cs'', cb'', (res @ [(k, ss)]) @ r))
        (batch_snapshots ve (hit_context ve controls postings) time vt tc))"
    proof (rule Cons.IH[OF e(1)])
      show "checked controls postings tc" "distinct (map fst tc)"
        using Cons.prems(2,3) x by (auto simp: checked_def)
      show "(cb(k := None)) k' = Some (map_option snd (map_of (vt_current vt) k'))" if "k' \<in> fst ` set tc" for k'
        using that Cons.prems(3,4) x by auto
    qed
    with x base e(2) Inr show ?thesis
      by (cases "batch_snapshots ve (hit_context ve controls postings) time vt tc")
        (auto simp: enforce_key_def batch_snapshots_def)
  qed
qed (simp add: batch_snapshots_def)

lemma velocity_find_for_update_eq:
  "k \<in> set keys \<Longrightarrow> velocity_find_for_update show vt keys k = Some (map_option snd (map_of (vt_current vt) k))"
proof -
  have "foldl (\<lambda>ret k. ret(k \<mapsto> map_option snd (map_of (vt_current vt) k))) m ks k =
      (if k \<in> set ks then Some (map_option snd (map_of (vt_current vt) k)) else m k)" for m ks
    by (induction ks arbitrary: m) auto
  moreover have "set (lock_order show keys) = set keys" by (simp add: lock_order_def)
  ultimately show "k \<in> set keys \<Longrightarrow> ?thesis" by (simp add: velocity_find_for_update_def)
qed

section \<open>Hits\<close>

definition hit_of :: "account_id \<Rightarrow> 'd entry_values \<Rightarrow> 'd hit \<Rightarrow> bool" where
  "hit_of a e h \<longleftrightarrow> vk_account_id (fst h) = a \<and> snd (snd h) = e
     \<and> vk_currency (fst h) = e_currency e \<and> vk_journal_id (fst h) = e_journal_id e
     \<and> (avl_currency (fst (snd h)) = None \<or> avl_currency (fst (snd h)) = Some (e_currency e))"

lemma limit_hits_elem: "limit_hits ve ctx a e cid limit = Inr hs \<Longrightarrow> h \<in> set hs \<Longrightarrow> hit_of a e h"
proof -
  assume "limit_hits ve ctx a e cid limit = Inr hs" "h \<in> set hs"
  then obtain w where w: "window_for_enforcement (ve_cel ve) limit ctx e = Inr (Some w)"
    and h: "h = (\<lparr> vk_window = w, vk_currency = e_currency e, vk_journal_id = e_journal_id e,
      vk_account_id = a, vk_control_id = cid, vk_limit_id = avl_limit_id limit \<rparr>, limit, e)"
    unfolding limit_hits_def rmap_Inr_iff by (force split: option.splits)
  from w have "avl_currency limit = None \<or> avl_currency limit = Some (e_currency e)"
    by (auto simp: window_for_enforcement_def split: if_splits option.splits)
  with h show ?thesis by (simp add: hit_of_def)
qed

lemma control_hits_elem: "control_hits ve ctx a e c = Inr hs \<Longrightarrow> h \<in> set hs \<Longrightarrow> hit_of a e h"
proof -
  assume "control_hits ve ctx a e c = Inr hs" and h: "h \<in> set hs"
  then obtain needed where
    "(if needed then rconcat (limit_hits ve ctx a e (avc_control_id c)) (avc_velocity_limits c) else Inr []) = Inr hs"
    unfolding control_hits_def rbind_Inr_iff by blast
  with h have "rconcat (limit_hits ve ctx a e (avc_control_id c)) (avc_velocity_limits c) = Inr hs"
    by (cases needed) auto
  with h show ?thesis by (blast dest: rconcat_elem intro: limit_hits_elem)
qed

lemma account_hits_elem:
  "account_hits ve controls t e a = Inr hs \<Longrightarrow> h \<in> set hs \<Longrightarrow> hit_of a e h \<and> map_of controls a \<noteq> None"
  unfolding account_hits_def
  by (cases "map_of controls a") (auto dest!: rconcat_elem dest: control_hits_elem)

lemma batch_hits_elem:
  assumes "batch_hits ve controls mappings postings = Inr hs" "h \<in> set hs"
  shows "map_of controls (vk_account_id (fst h)) \<noteq> None"
    and "snd (snd h) \<in> set (concat (map snd postings))"
    and "hit_of (vk_account_id (fst h)) (snd (snd h)) h"
proof -
  from assms obtain p hs' where p: "p \<in> set postings" "posting_hits ve controls mappings p = Inr hs'" "h \<in> set hs'"
    unfolding batch_hits_def by (blast dest: rconcat_elem)
  obtain t es where es: "p = (t, es)" by (cases p)
  with p(2,3) obtain e a hs'' where e: "e \<in> set es" "account_hits ve controls t e a = Inr hs''" "h \<in> set hs''"
    by (auto simp: posting_hits_def dest!: rconcat_elem)
  have "hit_of a e h" "map_of controls a \<noteq> None" using account_hits_elem[OF e(2,3)] by auto
  then show "map_of controls (vk_account_id (fst h)) \<noteq> None"
    "snd (snd h) \<in> set (concat (map snd postings))" "hit_of (vk_account_id (fst h)) (snd (snd h)) h"
    using bexI[OF _ p(1), of "\<lambda>x. snd (snd h) \<in> set (snd x)"] e(1) es by (auto simp: hit_of_def)
qed

lemma no_controls_no_hits:
  assumes "controls = []"
  shows "batch_hits ve controls mappings postings = Inr []"
proof -
  have const: "rconcat f xs = Inr []" if "\<And>x. f x = Inr []" for f :: "'x \<Rightarrow> 'e + 'y list" and xs
    by (induction xs) (simp_all add: that)
  show ?thesis
    by (auto simp: batch_hits_def posting_hits_def account_hits_def assms const intro!: const)
qed

lemma checked_group:
  assumes "batch_hits ve controls mappings postings = Inr hs"
  shows "checked controls postings (group_pairs hs)"
  unfolding checked_def
proof (clarify, rule conjI)
  fix k vs assume kv: "(k, vs) \<in> set (group_pairs hs)"
  have vs: "vs = map snd (filter (\<lambda>h. fst h = k) hs)"
  proof -
    have "map_of (group_pairs hs) k = Some vs" using kv by (simp add: map_of_eq_Some_iff)
    then show ?thesis using get_list_group_pairs[of hs k] by (simp add: get_list_def)
  qed
  have "k \<in> fst ` set hs" using kv keys_group_pairs[of hs] by (metis fst_conv image_eqI)
  then obtain h where "h \<in> set hs" "fst h = k" by auto
  with batch_hits_elem(1)[OF assms] show "map_of controls (vk_account_id k) \<noteq> None" by blast
  show "\<forall>h \<in> set vs. snd h \<in> set (concat (map snd postings))"
  proof
    fix h assume "h \<in> set vs"
    then obtain x where "x \<in> set hs" "h = snd x" by (auto simp: vs)
    with batch_hits_elem(2)[OF assms] show "snd h \<in> set (concat (map snd postings))" by blast
  qed
qed

lemma group_pairs_empty_iff [simp]: "group_pairs hs = [] \<longleftrightarrow> hs = []"
  using keys_group_pairs[of hs] by (metis group_pairs_def foldl_Nil image_is_empty set_empty)

lemma write_no_rows:
  assumes "distinct (map (\<lambda>(k, v, _). (k, v)) (vt_history vt))"
  shows "velocity_insert_new_snapshots vt [] = Inr vt"
proof -
  have "updated_current (vt_current vt) [] = vt_current vt"
    by (simp add: updated_current_def case_prod_unfold)
  with assms show ?thesis
    by (simp add: velocity_insert_new_snapshots_def velocity_rows_def write_rows_def initial_balances_def)
qed

text \<open>The driver, as a function of its inputs.\<close>

lemma enforce_batch_eq:
  assumes ok: "batch_ok controls postings"
    and unique: "distinct (map (\<lambda>(k, v, _). (k, v)) (vt_history vt))"
    and order: "\<And>m. mset (ve_hash_order ve m) = mset m"
  shows "enforce_batch_in_op ve vt time postings controls mappings =
    Some (rbind (batch_hits ve controls mappings postings) (\<lambda>hits.
          rbind (batch_snapshots ve (hit_context ve controls postings) time vt
                   (ve_hash_order ve (group_pairs hits)))
            (velocity_insert_new_snapshots vt)))"
proof -
  have empty: "ve_hash_order ve [] = []" using order[of "[]"] by simp
  have none: "rbind (batch_snapshots ve (hit_context ve controls postings) time vt
      (ve_hash_order ve (group_pairs []))) (velocity_insert_new_snapshots vt) = Inr vt"
    by (simp add: empty group_pairs_def batch_snapshots_def write_no_rows[OF unique])
  show ?thesis
  proof (cases "controls = []")
    case True
    then show ?thesis
      using none by (simp add: enforce_batch_in_op_def no_controls_no_hits)
  next
    case False
    from pfold_push[where good = "good_contexts ve controls postings" and xs = postings and m = "[]"
        and F = "collect_posting (ve_cel ve) controls mappings" and f = "posting_hits ve controls mappings",
        OF collect_posting_push[OF ok] good_contexts_build[OF ok]]
    obtain cs where cs: "good_contexts ve controls postings cs"
      "pfold (collect_posting (ve_cel ve) controls mappings)
         (build_contexts (ve_clock ve) controls postings, []) postings =
       Some (rmap (\<lambda>h. (cs, group_pairs h)) (batch_hits ve controls mappings postings))"
      unfolding batch_hits_def group_pairs_def pushes_def by blast
    show ?thesis
    proof (cases "batch_hits ve controls mappings postings")
      case (Inl e)
      with False cs(2) show ?thesis by (simp add: enforce_batch_in_op_def)
    next
      case (Inr hits)
      show ?thesis
      proof (cases "hits = []")
        case True
        with False cs(2) Inr none show ?thesis
          by (simp add: enforce_batch_in_op_def del: group_pairs_empty_iff) (simp add: group_pairs_def)
      next
        case nonempty: False
        let ?tc = "ve_hash_order ve (group_pairs hits)"
        have set_tc: "set ?tc = set (group_pairs hits)" by (rule mset_eq_setD[OF order])
        have "checked controls postings ?tc"
          using checked_group[OF Inr] unfolding checked_def set_tc .
        moreover have "distinct (map fst ?tc)"
          using order[of "group_pairs hits"] distinct_keys_group_pairs[of hits]
          by (metis mset_eq_imp_distinct_iff mset_map)
        moreover have "velocity_find_for_update (ve_show_json ve) vt (map fst (group_pairs hits)) k =
            Some (map_option snd (map_of (vt_current vt) k))" if "k \<in> fst ` set ?tc" for k
          using that unfolding set_tc by (intro velocity_find_for_update_eq) simp
        ultimately have "\<exists>cs' cb'. pfold (enforce_key (ve_cel ve) time)
            (cs, velocity_find_for_update (ve_show_json ve) vt (map fst (group_pairs hits)), []) ?tc =
          Some (rmap (\<lambda>r. (cs', cb', [] @ r)) (batch_snapshots ve (hit_context ve controls postings) time vt ?tc))"
          by (rule enforce_keys[OF ok cs(1)])
        then show ?thesis
          using False cs(2) Inr nonempty
          by (cases "batch_snapshots ve (hit_context ve controls postings) time vt ?tc")
            (auto simp: enforce_batch_in_op_def new_snapshots_with_limit_enforcement_def)
      qed
    qed
  qed
qed

end
