(* ===== verification/Velocity_Theorems.thy ===== *)
theory Velocity_Theorems imports Velocity_Correct begin

text \<open>
  The velocity tables stay consistent, and a batch is accepted exactly when every snapshot it
  would write respects the limit that produced it.
\<close>

section \<open>Limits\<close>

text \<open>What a limit asks of a snapshot.\<close>

definition within_limit ::
  "'d::linordered_ab_group_add cel_env \<Rightarrow> 'd account_velocity_limit \<Rightarrow> 'd cel_context \<Rightarrow> date_time
     \<Rightarrow> 'd balance_snapshot \<Rightarrow> bool" where
  "within_limit env limit ctx time s \<longleftrightarrow>
     (\<exists>t. (case al_timestamp_source (avl_limit limit) of
             None \<Rightarrow> t = time
           | Some source \<Rightarrow> vel_eval env ctx coerce_timestamp source = Inr t)
        \<and> (\<forall>l \<in> set (al_balance (avl_limit limit)). limit_active t l \<longrightarrow>
             directed_available (abl_enforcement_direction l) s (abl_layer l) \<le> abl_amount l))"

lemma check_limits_Inr_iff:
  "check_limits i t s ls = Inr () \<longleftrightarrow>
     (\<forall>l \<in> set ls. limit_active t l \<longrightarrow>
        directed_available (abl_enforcement_direction l) s (abl_layer l) \<le> abl_amount l)"
  by (induction ls) (auto simp: Let_def)

lemma enforce_Inr_iff:
  assumes "avl_currency limit = None \<or> avl_currency limit = Some (bs_currency s)"
  shows "enforce env limit ctx time s = Inr () \<longleftrightarrow> within_limit env limit ctx time s"
proof -
  have "enforce env limit ctx time s =
      rbind (case al_timestamp_source (avl_limit limit) of
               Some source \<Rightarrow> vel_eval env ctx coerce_timestamp source
             | None \<Rightarrow> Inr time) (\<lambda>t.
        check_limits (avl_limit_id limit) t s (al_balance (avl_limit limit)))"
    using assms by (auto simp: enforce_def split: option.split)
  then show ?thesis
    by (simp add: rbind_Inr_iff check_limits_Inr_iff within_limit_def split: option.split)
qed

section \<open>Chains\<close>

lemma enforced_chain_Inr_iff:
  "enforced_chain ve ctx time a base hits = Inr ss \<longleftrightarrow>
     ss = chain (next_snapshot time a) base (map snd hits)
     \<and> list_all2 (\<lambda>h s. enforce (ve_cel ve) (fst h) (ctx a (snd h)) time s = Inr ()) hits
         (chain (next_snapshot time a) base (map snd hits))"
proof (induction hits arbitrary: base ss)
  case (Cons h hits)
  then show ?case by (cases h) (auto simp: Let_def rbind_Inr_iff rmap_Inr_iff)
qed auto

text \<open>The chain of a key, and the demands on it.\<close>

definition key_chain ::
  "date_time \<Rightarrow> 'd::linordered_ab_group_add velocity_tables \<Rightarrow> velocity_balance_key
     \<Rightarrow> ('d account_velocity_limit \<times> 'd entry_values) list \<Rightarrow> 'd balance_snapshot list" where
  "key_chain time vt k hits =
     chain (next_snapshot time (vk_account_id k)) (map_option snd (map_of (vt_current vt) k)) (map snd hits)"

definition key_enforced ::
  "'d::linordered_ab_group_add velocity_env \<Rightarrow> (account_id \<Rightarrow> 'd entry_values \<Rightarrow> 'd cel_context) \<Rightarrow> date_time
     \<Rightarrow> 'd velocity_tables \<Rightarrow> velocity_balance_key \<Rightarrow> ('d account_velocity_limit \<times> 'd entry_values) list \<Rightarrow> bool" where
  "key_enforced ve ctx time vt k hits \<longleftrightarrow>
     list_all2 (\<lambda>h s. enforce (ve_cel ve) (fst h) (ctx (vk_account_id k) (snd h)) time s = Inr ()) hits
       (key_chain time vt k hits)"

lemma batch_snapshots_Inr_iff:
  "batch_snapshots ve ctx time vt tc = Inr res \<longleftrightarrow>
     (\<forall>(k, hits) \<in> set tc. key_enforced ve ctx time vt k hits)
     \<and> res = map (\<lambda>(k, hits). (k, key_chain time vt k hits)) tc"
  unfolding batch_snapshots_def
proof (induction tc arbitrary: res)
  case (Cons x tc)
  then show ?case
    by (cases x) (auto simp: rbind_Inr_iff rmap_Inr_iff enforced_chain_Inr_iff key_enforced_def key_chain_def)
qed auto

lemma rows_of_keyed:
  assumes "distinct (map fst m)"
  shows "rows_of k (velocity_rows m) =
    map (\<lambda>s. (as_i32 (bs_version s), s)) (get_list (map_of m) k)"
  using assms
proof (induction m)
  case (Cons x m)
  obtain k' ss where x: "x = (k', ss)" by (cases x)
  have "rows_of k (map (\<lambda>s. (k', as_i32 (bs_version s), s)) ss) =
      (if k' = k then map (\<lambda>s. (as_i32 (bs_version s), s)) ss else [])"
    by (induction ss) (auto simp: rows_of_def)
  moreover have "k' = k \<Longrightarrow> map_of m k = None"
    using Cons.prems x by (auto simp: map_of_eq_None_iff)
  ultimately show ?case using Cons x by (auto simp: velocity_rows_def get_list_def)
qed (simp add: velocity_rows_def rows_of_def get_list_def)

section \<open>The tables\<close>

definition velocity_ok :: "'d velocity_tables \<Rightarrow> bool" where
  "velocity_ok vt \<longleftrightarrow>
     distinct (map (\<lambda>(k, v, _). (k, v)) (vt_history vt))
     \<and> (\<forall>k. map_of (vt_current vt) k = latest (rows_of k (vt_history vt)))
     \<and> (\<forall>k v s. map_of (vt_current vt) k = Some (v, s) \<longrightarrow>
          0 < v \<and> v = uint (bs_version s) \<and> bs_account_id s = vk_account_id k
          \<and> bs_currency s = vk_currency k \<and> bs_journal_id s = vk_journal_id k)"

lemma velocity_okD:
  assumes "velocity_ok vt"
  shows "distinct (map (\<lambda>(k, v, _). (k, v)) (vt_history vt))"
    and "map_of (vt_current vt) k = latest (rows_of k (vt_history vt))"
    and "map_of (vt_current vt) k = Some (v, s) \<Longrightarrow>
          0 < v \<and> v = uint (bs_version s) \<and> bs_account_id s = vk_account_id k
          \<and> bs_currency s = vk_currency k \<and> bs_journal_id s = vk_journal_id k"
  using assms unfolding velocity_ok_def by blast+

text \<open>Room for the versions of a batch below the largest \<open>int4\<close>.\<close>

definition has_room :: "'d velocity_tables \<Rightarrow> nat \<Rightarrow> bool" where
  "has_room vt n \<longleftrightarrow> n < 2 ^ 31 \<and> (\<forall>(_, v, _) \<in> set (vt_current vt). v + int n < 2 ^ 31)"

definition current_version :: "'d velocity_tables \<Rightarrow> velocity_balance_key \<Rightarrow> int" where
  "current_version vt k = (case map_of (vt_current vt) k of None \<Rightarrow> 0 | Some (v, _) \<Rightarrow> v)"

lemma chain_versions:
  assumes "velocity_ok vt" "has_room vt n" "length hits \<le> n"
  shows "map (\<lambda>s. as_i32 (bs_version s)) (key_chain time vt k hits) =
    [current_version vt k + 1 .. current_version vt k + int (length hits)]"
proof (rule nth_equalityI)
  show "length (map (\<lambda>s. as_i32 (bs_version s)) (key_chain time vt k hits)) =
      length [current_version vt k + 1 .. current_version vt k + int (length hits)]"
    by (simp add: key_chain_def)
next
  fix i assume "i < length (map (\<lambda>s. as_i32 (bs_version s)) (key_chain time vt k hits))"
  then have i: "i < length hits" by (simp add: key_chain_def)
  let ?base = "map_option snd (map_of (vt_current vt) k)"
  have v: "uint (base_version bs_version ?base) = current_version vt k"
    using velocity_okD(3)[OF assms(1)]
    by (auto simp: base_version_def current_version_def split: option.split)
  have room: "current_version vt k + int n < 2 ^ 31"
    using assms(2) by (auto simp: has_room_def current_version_def split: option.split dest: map_of_SomeD)
  have ver: "bs_version (key_chain time vt k hits ! i) = base_version bs_version ?base + of_nat (Suc i)"
    unfolding key_chain_def by (rule balance_step.chain_version) (simp add: i)
  have nat: "int (unat (base_version bs_version ?base)) = current_version vt k" using v by simp
  with room i assms(3) have "int (unat (base_version bs_version ?base) + Suc i) < int (2 ^ 31)" by simp
  then have "unat (base_version bs_version ?base) + Suc i < 2 ^ 31" by (simp only: of_nat_less_iff)
  then have u: "unat (base_version bs_version ?base + of_nat (Suc i)) = unat (base_version bs_version ?base) + Suc i"
    "unat (base_version bs_version ?base) + Suc i < 2 ^ 31"
    by (simp_all add: unat_u32_add_of_nat del: of_nat_Suc)
  then have "as_i32 (bs_version (key_chain time vt k hits ! i)) = int (unat (base_version bs_version ?base) + Suc i)"
    unfolding ver using as_i32_uint[of "base_version bs_version ?base + of_nat (Suc i)"]
    by (simp only: uint_nat)
  also have "\<dots> = current_version vt k + int (Suc i)" using nat by simp
  finally show "map (\<lambda>s. as_i32 (bs_version s)) (key_chain time vt k hits) ! i =
      [current_version vt k + 1 .. current_version vt k + int (length hits)] ! i"
    using i by (simp add: key_chain_def algebra_simps)
qed

text \<open>The rows a batch writes for the grouped hits of its keys.\<close>

definition key_hits :: "velocity_balance_key \<Rightarrow> 'd hit list \<Rightarrow> ('d account_velocity_limit \<times> 'd entry_values) list" where
  "key_hits k hits = map snd (filter (\<lambda>h. fst h = k) hits)"

lemma length_key_hits: "length (key_hits k hits) \<le> length hits"
  by (simp add: key_hits_def)

lemma current_version_nonneg:
  "velocity_ok vt \<Longrightarrow> (k, v, s) \<in> set (vt_history vt) \<Longrightarrow> v \<le> current_version vt k"
proof -
  assume ok: "velocity_ok vt" and "(k, v, s) \<in> set (vt_history vt)"
  then have s: "(v, s) \<in> set (rows_of k (vt_history vt))" by simp
  then obtain w t where wt: "latest (rows_of k (vt_history vt)) = Some (w, t)"
    by (cases "latest (rows_of k (vt_history vt))") (auto simp del: set_rows_of)
  with latest_Some[OF wt] s velocity_okD(2)[OF ok] show ?thesis
    by (fastforce simp: current_version_def)
qed

lemma rows_unique:
  "distinct (map (\<lambda>(k, v, _). (k, v)) rows) \<longleftrightarrow> (\<forall>k. distinct (map fst (rows_of k rows)))"
proof (induction rows)
  case (Cons r rows)
  obtain k v s where r: "r = (k, v, s)" by (cases r)
  have "(k, v) \<in> set (map (\<lambda>(k, v, _). (k, v)) rows) \<longleftrightarrow> v \<in> set (map fst (rows_of k rows))"
    by (force simp: rows_of_def)
  moreover have "(\<forall>k'. distinct (map fst (rows_of k' (r # rows)))) \<longleftrightarrow>
      (\<forall>k'. distinct (map fst (rows_of k' rows))) \<and> v \<notin> set (map fst (rows_of k rows))"
    using r by (auto simp: rows_of_def)
  ultimately show ?case using Cons r by auto
qed (simp add: rows_of_def)

definition groups :: "'d to_check \<Rightarrow> 'd hit list \<Rightarrow> bool" where
  "groups tc hits \<longleftrightarrow> distinct (map fst tc) \<and> (\<forall>k. get_list (map_of tc) k = key_hits k hits)"

lemma groups_order:
  assumes "mset tc = mset (group_pairs hits)"
  shows "groups tc hits"
proof -
  have d: "distinct (map fst tc)"
    using assms distinct_keys_group_pairs[of hits] by (metis mset_eq_imp_distinct_iff mset_map)
  then have "map_of tc = map_of (group_pairs hits)"
    using map_of_inject_set[OF d distinct_keys_group_pairs] mset_eq_setD[OF assms] by blast
  with d show ?thesis by (simp add: groups_def key_hits_def)
qed

definition new_velocity_rows ::
  "date_time \<Rightarrow> 'd::linordered_ab_group_add velocity_tables \<Rightarrow> 'd to_check
     \<Rightarrow> (velocity_balance_key, 'd balance_snapshot) version_row list" where
  "new_velocity_rows time vt tc = velocity_rows (map (\<lambda>(k, hits). (k, key_chain time vt k hits)) tc)"

lemma new_rows:
  assumes "groups tc hits"
  shows "rows_of k (new_velocity_rows time vt tc) =
     map (\<lambda>s. (as_i32 (bs_version s), s)) (key_chain time vt k (key_hits k hits))"
proof -
  let ?f = "\<lambda>(k, hits). (k, key_chain time vt k hits)"
  have empty: "key_chain time vt k [] = []" by (simp add: key_chain_def)
  have "get_list (map_of (map ?f tc)) k = key_chain time vt k (get_list (map_of tc) k)"
    using empty by (induction tc) (auto simp: get_list_def)
  moreover have "distinct (map fst (map ?f tc))"
    using assms by (simp add: groups_def comp_def case_prod_unfold)
  ultimately show ?thesis using assms by (simp add: new_velocity_rows_def rows_of_keyed groups_def)
qed

lemma new_versions:
  assumes "velocity_ok vt" "has_room vt (length hits)" "groups tc hits"
  shows "map fst (rows_of k (new_velocity_rows time vt tc)) =
    [current_version vt k + 1 .. current_version vt k + int (length (key_hits k hits))]"
  using chain_versions[OF assms(1,2) length_key_hits, of time k]
  by (simp add: new_rows[OF assms(3)] comp_def)

lemma new_rows_contiguous:
  assumes "velocity_ok vt" "has_room vt (length hits)" "groups tc hits"
  shows "contiguous vt (new_velocity_rows time vt tc)"
  unfolding contiguous_def
proof
  fix k
  have "length (rows_of k (new_velocity_rows time vt tc)) = length (key_hits k hits)"
    by (simp add: new_rows[OF assms(3)] key_chain_def)
  with new_versions[OF assms, of k time] velocity_okD(3)[OF assms(1), of k]
  show "\<exists>n. map fst (rows_of k (new_velocity_rows time vt tc)) =
      [n + 1 .. n + int (length (rows_of k (new_velocity_rows time vt tc)))]
    \<and> (case map_of (vt_current vt) k of None \<Rightarrow> n = 0 | Some (v, _) \<Rightarrow> n = v \<and> 0 < v)"
    by (intro exI[of _ "current_version vt k"]) (auto simp: current_version_def split: option.split)
qed

lemma write_succeeds:
  assumes "velocity_ok vt" "has_room vt (length hits)" "groups tc hits"
  shows "\<exists>vt'. write_rows vt (new_velocity_rows time vt tc) = Inr vt'"
proof -
  let ?new = "new_velocity_rows time vt tc"
  have "distinct (map fst (rows_of k (vt_history vt @ ?new)))" for k
  proof -
    have "distinct (map fst (rows_of k (vt_history vt)))"
      using velocity_okD(1)[OF assms(1)] unfolding rows_unique by (rule spec)
    moreover have "fst r \<le> current_version vt k" if "r \<in> set (rows_of k (vt_history vt))" for r
      by (rule current_version_nonneg[OF assms(1), where s = "snd r"])
        (use that in \<open>metis prod.collapse set_rows_of\<close>)
    ultimately show ?thesis
      unfolding rows_of_append map_append new_versions[OF assms] distinct_append by force
  qed
  then have "distinct (map (\<lambda>(k, v, _). (k, v)) (vt_history vt @ ?new))"
    unfolding rows_unique by (rule allI)
  moreover have "k \<in> fst ` set (updated_current (vt_current vt) ?new @ initial_balances (vt_current vt) ?new)"
    if "k \<in> fst ` set ?new" for k
  proof -
    from that have "rows_of k ?new \<noteq> []" by (force simp: rows_of_def filter_empty_conv)
    then obtain p where "latest (rows_of k ?new) = Some p" by (cases "latest (rows_of k ?new)") auto
    then have "later c (latest (rows_of k ?new)) \<noteq> None" for c
      by (auto simp: later_def split: option.split prod.split)
    then show ?thesis
      using written_current[where k = k, OF new_rows_contiguous[OF assms, of time]] map_of_eq_None_iff by metis
  qed
  ultimately show ?thesis by (auto simp: write_rows_def Let_def)
qed

section \<open>The batch\<close>

lemma enforced_batch:
  assumes ok: "batch_ok controls postings" and vt: "velocity_ok vt"
    and order: "\<And>m. mset (ve_hash_order ve m) = mset m"
    and hits: "batch_hits ve controls mappings postings = Inr hits"
    and room: "has_room vt (length hits)"
  defines "ctx \<equiv> hit_context ve controls postings"
  shows "(\<forall>k. key_enforced ve ctx time vt k (key_hits k hits)) \<longleftrightarrow>
      (\<exists>vt'. enforce_batch_in_op ve vt time postings controls mappings = Some (Inr vt'))"
    and "enforce_batch_in_op ve vt time postings controls mappings = Some (Inr vt') \<Longrightarrow>
      \<exists>tc. groups tc hits \<and> write_rows vt (new_velocity_rows time vt tc) = Inr vt'"
proof -
  let ?tc = "ve_hash_order ve (group_pairs hits)"
  have g: "groups ?tc hits" by (rule groups_order[OF order])
  have all: "(\<forall>(k, hs) \<in> set ?tc. key_enforced ve ctx time vt k hs) \<longleftrightarrow>
      (\<forall>k. key_enforced ve ctx time vt k (key_hits k hits))"
  proof -
    have "key_enforced ve ctx time vt k (key_hits k hits)" if "map_of ?tc k = None" for k
      using that g by (auto simp: groups_def get_list_def key_enforced_def key_chain_def dest!: spec[of _ k])
    moreover have "(k, hs) \<in> set ?tc \<longleftrightarrow> map_of ?tc k = Some hs" for k hs
      using g by (auto simp: groups_def)
    moreover have "map_of ?tc k = Some hs \<Longrightarrow> hs = key_hits k hits" for k hs
      using g by (auto simp: groups_def get_list_def dest!: spec[of _ k])
    ultimately show ?thesis by (metis (no_types, lifting) case_prodD case_prodI2 option.exhaust)
  qed
  have eq: "enforce_batch_in_op ve vt time postings controls mappings =
      Some (rbind (batch_snapshots ve ctx time vt ?tc) (velocity_insert_new_snapshots vt))"
    using enforce_batch_eq[where mappings = mappings and time = time, OF ok velocity_okD(1)[OF vt] order] hits by (simp add: ctx_def)
  have run: "enforce_batch_in_op ve vt time postings controls mappings = Some (Inr vt') \<longleftrightarrow>
      (\<forall>(k, hs) \<in> set ?tc. key_enforced ve ctx time vt k hs)
      \<and> write_rows vt (new_velocity_rows time vt ?tc) = Inr vt'" for vt'
    unfolding eq option.inject rbind_Inr_iff batch_snapshots_Inr_iff
    by (simp add: velocity_insert_new_snapshots_def new_velocity_rows_def)
  then show "(\<forall>k. key_enforced ve ctx time vt k (key_hits k hits)) \<longleftrightarrow>
      (\<exists>vt'. enforce_batch_in_op ve vt time postings controls mappings = Some (Inr vt'))"
    using all write_succeeds[OF vt room g, of time] by simp
  show "enforce_batch_in_op ve vt time postings controls mappings = Some (Inr vt') \<Longrightarrow>
      \<exists>tc. groups tc hits \<and> write_rows vt (new_velocity_rows time vt tc) = Inr vt'"
    using run g by blast
qed

lemma key_hits_elem:
  assumes "batch_hits ve controls mappings postings = Inr hits" "(limit, e) \<in> set (key_hits k hits)"
  shows "e_currency e = vk_currency k \<and> e_journal_id e = vk_journal_id k
    \<and> (avl_currency limit = None \<or> avl_currency limit = Some (vk_currency k))"
proof -
  from assms(2) have "(k, limit, e) \<in> set hits" by (auto simp: key_hits_def)
  from batch_hits_elem(3)[OF assms(1) this] show ?thesis by (auto simp: hit_of_def)
qed

lemma key_chain_ident:
  assumes "velocity_ok vt" "\<And>e. e \<in> snd ` set hits \<Longrightarrow> e_currency e = vk_currency k \<and> e_journal_id e = vk_journal_id k"
    and "s \<in> set (key_chain time vt k hits)"
  shows "bs_account_id s = vk_account_id k \<and> bs_currency s = vk_currency k \<and> bs_journal_id s = vk_journal_id k"
proof -
  have "bs_account_id s = vk_account_id k \<and> bs_currency s = vk_currency k \<and> bs_journal_id s = vk_journal_id k"
    if "s \<in> set (chain (next_snapshot time (vk_account_id k)) base es)"
      and "\<And>b. base = Some b \<Longrightarrow>
        bs_account_id b = vk_account_id k \<and> bs_currency b = vk_currency k \<and> bs_journal_id b = vk_journal_id k"
      and "\<And>e. e \<in> set es \<Longrightarrow> e_currency e = vk_currency k \<and> e_journal_id e = vk_journal_id k" for base es
    using that
  proof (induction es arbitrary: base)
    case (Cons e es)
    let ?s = "next_snapshot time (vk_account_id k) base e"
    have "bs_account_id ?s = vk_account_id k \<and> bs_currency ?s = vk_currency k \<and> bs_journal_id ?s = vk_journal_id k"
      using Cons.prems(2) Cons.prems(3)[of e] by (cases base) (simp_all add: next_snapshot_def)
    then show ?case using Cons.IH[of "Some ?s"] Cons.prems(1,3) by auto
  qed simp
  from this[OF assms(3)[unfolded key_chain_def]] velocity_okD(3)[OF assms(1), of k] assms(2)
  show ?thesis by auto
qed

lemma key_enforced_iff:
  assumes "velocity_ok vt" "batch_hits ve controls mappings postings = Inr hits"
  shows "key_enforced ve ctx time vt k (key_hits k hits) \<longleftrightarrow>
    (\<forall>i < length (key_hits k hits).
       within_limit (ve_cel ve) (fst (key_hits k hits ! i)) (ctx (vk_account_id k) (snd (key_hits k hits ! i)))
         time (key_chain time vt k (key_hits k hits) ! i))"
proof -
  let ?hs = "key_hits k hits" and ?ss = "key_chain time vt k (key_hits k hits)"
  have len: "length ?ss = length ?hs" by (simp add: key_chain_def)
  have "enforce (ve_cel ve) (fst (?hs ! i)) c time (?ss ! i) = Inr () \<longleftrightarrow>
      within_limit (ve_cel ve) (fst (?hs ! i)) c time (?ss ! i)" if "i < length ?hs" for i c
  proof (rule enforce_Inr_iff)
    have "bs_currency (?ss ! i) = vk_currency k"
      using key_chain_ident[OF assms(1), where k = k and hits = ?hs and time = time and s = "?ss ! i"]
        key_hits_elem[OF assms(2), where k = k] that len
      by fastforce
    moreover have "(fst (?hs ! i), snd (?hs ! i)) \<in> set ?hs" using that by simp
    ultimately show "avl_currency (fst (?hs ! i)) = None \<or>
        avl_currency (fst (?hs ! i)) = Some (bs_currency (?ss ! i))"
      using key_hits_elem[OF assms(2)] by metis
  qed
  then show ?thesis unfolding key_enforced_def list_all2_conv_all_nth by (simp add: len)
qed

lemma as_i32_positive: "0 < as_i32 v \<Longrightarrow> as_i32 v = uint v"
proof -
  have take: "take_bit 32 (uint v) = uint v" and lt: "uint v < 2 ^ 32"
    using uint_bounded[of v] by (simp_all add: take_bit_int_eq_self)
  have eq: "as_i32 v = uint v - 2 ^ 32 * of_bool (bit (uint v) 31)"
    using signed_take_bit_eq_take_bit_minus[of 31 "uint v"] take by (simp add: as_i32_def sint_uint)
  assume "0 < as_i32 v"
  with eq lt show ?thesis by (cases "bit (uint v) 31") simp_all
qed

lemma written_ok:
  assumes vt: "velocity_ok vt" and room: "has_room vt (length hits)"
    and hits: "batch_hits ve controls mappings postings = Inr hits"
    and g: "groups tc hits" and run: "write_rows vt (new_velocity_rows time vt tc) = Inr vt'"
  defines "ss \<equiv> \<lambda>k. key_chain time vt k (key_hits k hits)"
  shows "velocity_ok vt'"
    and "rows_of k (vt_history vt') = rows_of k (vt_history vt) @ map (\<lambda>s. (as_i32 (bs_version s), s)) (ss k)"
    and "map_option snd (map_of (vt_current vt') k) =
      (if ss k = [] then map_option snd (map_of (vt_current vt) k) else Some (last (ss k)))"
proof -
  let ?new = "new_velocity_rows time vt tc"
  have rows: "rows_of k ?new = map (\<lambda>s. (as_i32 (bs_version s), s)) (ss k)" for k
    using new_rows[OF g] by (simp add: ss_def)
  have hist: "vt_history vt' = vt_history vt @ ?new"
    using velocity_store.ins_hist[OF run] by simp
  have cons: "velocity_store.consistent vt" using velocity_okD(2)[OF vt] by (simp add: velocity_store.consistent_def)
  note contig = new_rows_contiguous[OF vt room g, of time]
  have cur: "map_of (vt_current vt') k = later (map_of (vt_current vt) k) (latest (rows_of k ?new))" for k
    using velocity_store.ins_cur[OF run contig] velocity_okD(2)[OF vt] by simp
  have latest_rows: "latest (rows_of k ?new) = Some (current_version vt k + int (length (ss k)), last (ss k))"
    if "ss k \<noteq> []" for k
  proof -
    let ?rs = "rows_of k ?new"
    have "map fst ?rs = [current_version vt k + 1 .. current_version vt k + int (length ?rs)]"
      using new_versions[OF vt room g, of k time] by (simp add: rows ss_def key_chain_def)
    from contiguous_last[OF this] that show ?thesis
      by (cases "last ?rs") (auto simp: rows last_map)
  qed
  have last: "later (map_of (vt_current vt) k) (latest (rows_of k ?new)) =
      (if ss k = [] then map_of (vt_current vt) k
       else Some (current_version vt k + int (length (ss k)), last (ss k)))" for k
  proof (cases "ss k = []")
    case False
    with latest_rows[OF False] velocity_okD(3)[OF vt, of k] show ?thesis
      by (auto simp: later_def current_version_def split: option.split)
  qed (simp add: rows)
  show "rows_of k (vt_history vt') = rows_of k (vt_history vt) @ map (\<lambda>s. (as_i32 (bs_version s), s)) (ss k)"
    by (simp add: hist rows)
  show "map_option snd (map_of (vt_current vt') k) =
      (if ss k = [] then map_option snd (map_of (vt_current vt) k) else Some (last (ss k)))"
    by (simp add: cur last)
  have "distinct (map (\<lambda>(k, v, _). (k, v)) (vt_history vt'))"
    using run hist by (auto simp: write_rows_def Let_def split: if_splits)
  moreover have "map_of (vt_current vt') k = latest (rows_of k (vt_history vt'))" for k
    using velocity_store.ins_consistent[OF run contig cons] by (simp add: velocity_store.consistent_def)
  moreover have "0 < v \<and> v = uint (bs_version s) \<and> bs_account_id s = vk_account_id k
      \<and> bs_currency s = vk_currency k \<and> bs_journal_id s = vk_journal_id k"
    if "map_of (vt_current vt') k = Some (v, s)" for k v s
  proof (cases "ss k = []")
    case True
    with that cur last have "map_of (vt_current vt) k = Some (v, s)" by simp
    then show ?thesis by (rule velocity_okD(3)[OF vt])
  next
    case False
    with that cur last have v: "v = current_version vt k + int (length (ss k))" and s: "s = last (ss k)" by auto
    from False s have "s \<in> set (ss k)" by simp
    then have ident: "bs_account_id s = vk_account_id k \<and> bs_currency s = vk_currency k \<and> bs_journal_id s = vk_journal_id k"
      unfolding ss_def by (rule key_chain_ident[OF vt, rotated]) (use key_hits_elem[OF hits] in force)
    have pos: "0 \<le> current_version vt k"
      using velocity_okD(3)[OF vt, of k] by (auto simp: current_version_def split: option.split)
    have "latest (rows_of k ?new) = Some (v, s)"
      using last[of k] False v s pos velocity_okD(3)[OF vt, of k] latest_rows[of k] by simp
    from latest_Some[OF this] rows[of k] have "v = as_i32 (bs_version s)" by auto
    moreover have "0 < v" using v pos False by (cases "ss k") simp_all
    ultimately show ?thesis using ident as_i32_positive[of "bs_version s"] by simp
  qed
  ultimately show "velocity_ok vt'" unfolding velocity_ok_def by blast
qed

section \<open>Properties\<close>

text \<open>A limit of 100 on the settled debit balance of account 1, and a posting of two debits to it.\<close>

definition sample_limit :: "int account_velocity_limit" where
  "sample_limit =
     \<lparr> avl_limit_id = VelocityLimitId 1, avl_window = [], avl_condition = None, avl_currency = Some USD,
       avl_limit = \<lparr> al_timestamp_source = None,
         al_balance = [\<lparr> abl_layer = Settled, abl_amount = 100, abl_enforcement_direction = Debit,
                         abl_start = 0, abl_end = None \<rparr>] \<rparr> \<rparr>"

definition sample_controls :: "int controls" where
  "sample_controls =
     [(AccountId 1, \<lparr> cav_id = AccountId 1, cav_name = ''a'', cav_normal_balance_type = Debit,
         cav_external_id = None, cav_metadata = None \<rparr>,
       [\<lparr> avc_account_id = AccountId 1, avc_control_id = VelocityControlId 1, avc_enforcement = Reject,
          avc_condition = None, avc_velocity_limits = [sample_limit] \<rparr>])]"

definition sample_transaction :: transaction_values where
  "sample_transaction =
     \<lparr> tv_id = TransactionId 1, tv_version = 1, tv_created_at = 5, tv_modified_at = 5,
       tv_journal_id = JournalId 1, tv_tx_template_id = TxTemplateId 1,
       tv_entry_ids = [EntryId 1, EntryId 2, EntryId 3], tv_effective = 0, tv_correlation_id = ''c'',
       tv_external_id = None, tv_description = None, tv_metadata = None \<rparr>"

definition sample_postings :: "int \<Rightarrow> (transaction_values \<times> int entry_values list) list" where
  "sample_postings u =
     [(sample_transaction, [sample_entry 1 1 Debit 60, sample_entry 2 1 Debit u, sample_entry 3 2 Credit (60 + u)])]"

definition sample_velocity_env :: "int velocity_env" where
  "sample_velocity_env =
     \<lparr> ve_cel = sample_env, ve_clock = 5, ve_show_json = (\<lambda>j. ''j''), ve_hash_order = (\<lambda>m. m) \<rparr>"

definition sample_velocity :: "int velocity_tables" where
  "sample_velocity = \<lparr> vt_history = [], vt_current = [] \<rparr>"

definition sample_velocity_key :: velocity_balance_key where
  "sample_velocity_key =
     \<lparr> vk_window = JObject [], vk_currency = USD, vk_journal_id = JournalId 1, vk_account_id = AccountId 1,
       vk_control_id = VelocityControlId 1, vk_limit_id = VelocityLimitId 1 \<rparr>"

lemma sample_batch_ok: "batch_ok sample_controls (sample_postings u)"
  by (simp add: batch_ok_def sample_controls_def sample_postings_def sample_transaction_def)

lemma sample_velocity_ok: "velocity_ok sample_velocity" "has_room sample_velocity 2"
  by (simp_all add: velocity_ok_def sample_velocity_def rows_of_def has_room_def)

lemma sample_hits:
  "batch_hits sample_velocity_env sample_controls Map.empty (sample_postings u) =
     Inr [(sample_velocity_key, sample_limit, sample_entry 1 1 Debit 60),
          (sample_velocity_key, sample_limit, sample_entry 2 1 Debit u)]"
  by (simp add: batch_hits_def sample_postings_def posting_hits_def targets_def account_hits_def
      sample_controls_def control_hits_def needs_enforcement_def limit_hits_def window_for_enforcement_def
      sample_limit_def sample_velocity_key_def)

text \<open>
  C25: The caches of a batch are invisible. Whatever controls, mappings and tables a well-formed
  batch meets, \<open>enforce_batch_in_op\<close> never panics (every \<open>expect\<close> of its context and balance
  lookups holds), and its result, error or tables, is the one of the plain reference: collect the
  (key, limit, entry) hits of the postings in order, each in a freshly built context, group them by
  key, fold each key from its current balance checking every snapshot, and write what was folded.
\<close>

theorem enforce_batch_is_cacheless:
  assumes "batch_ok controls postings" and "velocity_ok vt" and "\<And>m. mset (ve_hash_order ve m) = mset m"
  shows "enforce_batch_in_op ve vt time postings controls mappings =
    Some (rbind (batch_hits ve controls mappings postings) (\<lambda>hits.
          rbind (batch_snapshots ve (hit_context ve controls postings) time vt
                   (ve_hash_order ve (group_pairs hits)))
            (velocity_insert_new_snapshots vt)))"
  by (rule enforce_batch_eq[OF assms(1) velocity_okD(1)[OF assms(2)] assms(3)])

lemma enforce_batch_is_cacheless_witness:
  "enforce_batch_in_op sample_velocity_env sample_velocity 5 (sample_postings 50) sample_controls Map.empty =
     Some (Inl (Enforcement
       \<lparr> le_account_id = AccountId 1, le_currency = USD, le_limit_id = VelocityLimitId 1, le_layer = Settled,
         le_direction = Debit, le_limit = 100, le_requested = 110 \<rparr>))"
  using enforce_batch_is_cacheless[where ve = sample_velocity_env and time = 5 and mappings = Map.empty,
      OF sample_batch_ok[of 50] sample_velocity_ok(1), unfolded sample_hits]
  by (simp add: sample_velocity_env_def group_pairs_def push_to_def batch_snapshots_def sample_velocity_def
      Let_def enforce_def sample_limit_def limit_active_def next_snapshot_def settled_def
      update_snapshot_def new_snapshot_def zero_amount_def sample_velocity_key_def)

text \<open>
  C20: No velocity limit is overrun, and none refuses without cause. A batch is accepted exactly
  when every snapshot its hits would write stays within the limit of its hit. When it is accepted,
  every key gains one history row per hit, versions counting on, and those rows are the fold of its
  hits from the balance that was current, each within every active limit at the time the limit
  names; the current row is the last of them, and the tables stay consistent.
\<close>

theorem accepted_batches_stay_within_limits:
  fixes time :: date_time
  assumes ok: "batch_ok controls postings" and vt: "velocity_ok vt"
    and order: "\<And>m. mset (ve_hash_order ve m) = mset m"
    and hits: "batch_hits ve controls mappings postings = Inr hits"
    and room: "has_room vt (length hits)"
  defines "run \<equiv> enforce_batch_in_op ve vt time postings controls mappings"
    and "mine \<equiv> \<lambda>k. key_hits k hits"
    and "within \<equiv> \<lambda>k. \<forall>i < length (key_hits k hits).
       within_limit (ve_cel ve) (fst (key_hits k hits ! i))
         (hit_context ve controls postings (vk_account_id k) (snd (key_hits k hits ! i))) time
         (key_chain time vt k (key_hits k hits) ! i)"
  shows "((\<exists>vt'. run = Some (Inr vt')) \<longleftrightarrow> (\<forall>k. within k)) \<and>
    (\<forall>vt'. run = Some (Inr vt') \<longrightarrow> velocity_ok vt' \<and>
      (\<forall>k. let new = key_chain time vt k (mine k) in
         rows_of k (vt_history vt') = rows_of k (vt_history vt) @ map (\<lambda>s. (as_i32 (bs_version s), s)) new \<and>
         map fst (map (\<lambda>s. (as_i32 (bs_version s), s)) new) =
           [current_version vt k + 1 .. current_version vt k + int (length (mine k))] \<and>
         map_option snd (map_of (vt_current vt') k) =
           (if new = [] then map_option snd (map_of (vt_current vt) k) else Some (last new))))"
proof -
  have "(\<forall>k. within k) \<longleftrightarrow> (\<exists>vt'. run = Some (Inr vt'))"
    using enforced_batch(1)[OF ok vt order hits room, of time]
    unfolding run_def within_def key_enforced_iff[OF vt hits] .
  moreover have "velocity_ok vt' \<and> (\<forall>k. let new = key_chain time vt k (mine k) in
         rows_of k (vt_history vt') = rows_of k (vt_history vt) @ map (\<lambda>s. (as_i32 (bs_version s), s)) new \<and>
         map fst (map (\<lambda>s. (as_i32 (bs_version s), s)) new) =
           [current_version vt k + 1 .. current_version vt k + int (length (mine k))] \<and>
         map_option snd (map_of (vt_current vt') k) =
           (if new = [] then map_option snd (map_of (vt_current vt) k) else Some (last new)))"
    if "run = Some (Inr vt')" for vt'
  proof -
    from enforced_batch(2)[OF ok vt order hits room that[unfolded run_def]] obtain tc
      where "groups tc hits" "write_rows vt (new_velocity_rows time vt tc) = Inr vt'" by blast
    note w = written_ok[OF vt room hits this]
    show ?thesis
      using w(1) w(2,3) chain_versions[OF vt room length_key_hits, of time]
      by (simp add: mine_def Let_def comp_def)
  qed
  ultimately show ?thesis by blast
qed

lemma accepted_batches_stay_within_limits_witness:
  "\<exists>vt'. enforce_batch_in_op sample_velocity_env sample_velocity 5 (sample_postings 40) sample_controls Map.empty
        = Some (Inr vt')
     \<and> map_option (\<lambda>(v, s). (v, settled Debit s)) (map_of (vt_current vt') sample_velocity_key) = Some (2, 100)"
proof -
  let ?hits = "[(sample_velocity_key, sample_limit, sample_entry 1 1 Debit 60),
    (sample_velocity_key, sample_limit, sample_entry 2 1 Debit 40)]"
  have order: "mset (ve_hash_order sample_velocity_env m) = mset m" for m
    by (simp add: sample_velocity_env_def)
  have room: "has_room sample_velocity (length ?hits)" using sample_velocity_ok(2) by (simp add: numeral_2_eq_2)
  note spec = accepted_batches_stay_within_limits[OF sample_batch_ok sample_velocity_ok(1) order sample_hits room, of 5]
  note eval = key_hits_def key_chain_def sample_velocity_def next_snapshot_def settled_def update_snapshot_def
    new_snapshot_def zero_amount_def Let_def
  have "within_limit (ve_cel sample_velocity_env) (fst (key_hits k ?hits ! i)) c 5
      (key_chain 5 sample_velocity k (key_hits k ?hits) ! i)" if "i < length (key_hits k ?hits)" for c i k
    using that less_2_cases[of i] by (cases "k = sample_velocity_key")
      (auto simp: eval within_limit_def sample_limit_def limit_active_def)
  then obtain vt' where vt': "enforce_batch_in_op sample_velocity_env sample_velocity 5 (sample_postings 40)
      sample_controls Map.empty = Some (Inr vt')"
    using spec by blast
  with spec have "velocity_ok vt'"
    and "map_option snd (map_of (vt_current vt') sample_velocity_key) =
      (let new = key_chain 5 sample_velocity sample_velocity_key (key_hits sample_velocity_key ?hits)
       in if new = [] then map_option snd (map_of (vt_current sample_velocity) sample_velocity_key) else Some (last new))"
    unfolding Let_def by blast+
  then have "map_option (\<lambda>(v, s). (v, settled Debit s)) (map_of (vt_current vt') sample_velocity_key) = Some (2, 100)"
    using velocity_okD(3)[of vt' sample_velocity_key] by (auto simp: eval)
  with vt' show ?thesis by blast
qed

end
