(* ===== verification/Velocity_Controls.thy ===== *)
theory Velocity_Controls imports Velocity Tx_Template begin

text \<open>
  The controls and limits of \<open>velocity/limit\<close>, \<open>velocity/control\<close>, \<open>velocity/account_control\<close> and the
  operations of \<open>velocity/mod.rs\<close> over their tables: creating a limit or a control, adding a limit to a
  control, and attaching a control, its limits evaluated with the parameters of the call, to one
  account or many. The panics of \<open>expect\<close> are \<open>None\<close>.
\<close>

section \<open>Values\<close>

datatype balance_limit_type = Available

record balance_limit =
  bl_limit_type :: balance_limit_type
  bl_layer :: cel_expression
  bl_amount :: cel_expression
  bl_enforcement_direction :: cel_expression
  bl_start :: cel_expression
  bl_end :: "cel_expression option"

record limit_definition =
  ld_timestamp_source :: "cel_expression option"
  ld_balance :: "balance_limit list"

record velocity_limit_values =
  vlv_id :: velocity_limit_id
  vlv_name :: string
  vlv_description :: string
  vlv_window :: "partition_key list"
  vlv_condition :: "cel_expression option"
  vlv_currency :: "currency option"
  vlv_params :: "param_definition list option"
  vlv_limit :: limit_definition

record velocity_control_values =
  vcv_id :: velocity_control_id
  vcv_name :: string
  vcv_description :: string
  vcv_enforcement :: velocity_enforcement_action
  vcv_condition :: "cel_expression option"

section \<open>New limits and controls\<close>

record partition_key_builder =
  kb_alias :: "string option"
  kb_value :: "string option"

record new_partition_key =
  npk_alias :: string
  npk_value :: string

definition build_partition_key ::
  "'d cel_env \<Rightarrow> partition_key_builder \<Rightarrow> (builder_error + new_partition_key) option" where
  "build_partition_key env b =
     map_option (\<lambda>r. rbind (map_err ValidationError r) (\<lambda>_.
       rbind (ok_or (UninitializedField ''alias'') (kb_alias b)) (\<lambda>alias.
       rbind (ok_or (UninitializedField ''value'') (kb_value b)) (\<lambda>value.
         Inr \<lparr> npk_alias = alias, npk_value = value \<rparr>))))
       (validate_mandatory env [kb_value b])"

record balance_limit_builder =
  lb_limit_type :: "balance_limit_type option"
  lb_layer :: "string option"
  lb_amount :: "string option"
  lb_enforcement_direction :: "string option"
  lb_start :: "string option"
  lb_end :: "string option option"

record new_balance_limit =
  nbl_limit_type :: balance_limit_type
  nbl_layer :: string
  nbl_amount :: string
  nbl_enforcement_direction :: string
  nbl_start :: string
  nbl_end :: "string option"

definition always_active :: "balance_limit_builder \<Rightarrow> balance_limit_builder" where
  "always_active b = b \<lparr> lb_start := Some ''timestamp('1970-01-01T00:00:00Z')'' \<rparr>"

definition validate_balance_limit :: "'d cel_env \<Rightarrow> balance_limit_builder \<Rightarrow> (string + unit) option" where
  "validate_balance_limit env b =
     map_option (\<lambda>r. rbind r (\<lambda>_. validate_optional_expression env (lb_end b)))
       (validate_mandatory env [lb_layer b, lb_amount b, lb_enforcement_direction b, lb_start b])"

definition build_balance_limit ::
  "'d cel_env \<Rightarrow> balance_limit_builder \<Rightarrow> (builder_error + new_balance_limit) option" where
  "build_balance_limit env b =
     map_option (\<lambda>r. rbind (map_err ValidationError r) (\<lambda>_.
       rbind (ok_or (UninitializedField ''layer'') (lb_layer b)) (\<lambda>layer.
       rbind (ok_or (UninitializedField ''amount'') (lb_amount b)) (\<lambda>amount.
       rbind (ok_or (UninitializedField ''enforcement_direction'') (lb_enforcement_direction b)) (\<lambda>direction.
       rbind (ok_or (UninitializedField ''start'') (lb_start b)) (\<lambda>start.
         Inr \<lparr> nbl_limit_type = (case lb_limit_type b of Some t \<Rightarrow> t | None \<Rightarrow> Available),
               nbl_layer = layer, nbl_amount = amount, nbl_enforcement_direction = direction,
               nbl_start = start, nbl_end = flatten (lb_end b) \<rparr>))))))
       (validate_balance_limit env b)"

record limit_builder =
  lmb_timestamp_source :: "string option option"
  lmb_balance :: "new_balance_limit list option"

record new_limit =
  nl_timestamp_source :: "string option"
  nl_balance :: "new_balance_limit list"

definition build_limit :: "'d cel_env \<Rightarrow> limit_builder \<Rightarrow> builder_error + new_limit" where
  "build_limit env b =
     rbind (map_err ValidationError (validate_optional_expression env (lmb_timestamp_source b))) (\<lambda>_.
     rbind (ok_or (UninitializedField ''balance'') (lmb_balance b)) (\<lambda>balance.
       Inr \<lparr> nl_timestamp_source = flatten (lmb_timestamp_source b), nl_balance = balance \<rparr>))"

record velocity_limit_builder =
  vb_id :: "velocity_limit_id option"
  vb_name :: "string option"
  vb_description :: "string option"
  vb_window :: "new_partition_key list option"
  vb_condition :: "string option option"
  vb_currency :: "currency option option"
  vb_params :: "new_param_definition list option option"
  vb_limit :: "new_limit option"

record new_velocity_limit =
  nvl_id :: velocity_limit_id
  nvl_name :: string
  nvl_description :: string
  nvl_window :: "new_partition_key list"
  nvl_condition :: "string option"
  nvl_currency :: "currency option"
  nvl_params :: "new_param_definition list option"
  nvl_limit :: new_limit

definition build_velocity_limit ::
  "'d cel_env \<Rightarrow> velocity_limit_builder \<Rightarrow> builder_error + new_velocity_limit" where
  "build_velocity_limit env b =
     rbind (map_err ValidationError (validate_optional_expression env (vb_condition b))) (\<lambda>_.
     rbind (ok_or (UninitializedField ''id'') (vb_id b)) (\<lambda>i.
     rbind (ok_or (UninitializedField ''name'') (vb_name b)) (\<lambda>name.
     rbind (ok_or (UninitializedField ''description'') (vb_description b)) (\<lambda>description.
     rbind (ok_or (UninitializedField ''window'') (vb_window b)) (\<lambda>w.
     rbind (ok_or (UninitializedField ''limit'') (vb_limit b)) (\<lambda>limit.
       Inr \<lparr> nvl_id = i, nvl_name = name, nvl_description = description, nvl_window = w,
             nvl_condition = flatten (vb_condition b), nvl_currency = flatten (vb_currency b),
             nvl_params = flatten (vb_params b), nvl_limit = limit \<rparr>))))))"

definition partition_key_from :: "'d cel_env \<Rightarrow> new_partition_key \<Rightarrow> partition_key option" where
  "partition_key_from env n =
     map_option (\<lambda>v. \<lparr> pk_alias = npk_alias n, pk_value = v \<rparr>) (expect_expression env (npk_value n))"

definition balance_limit_from :: "'d cel_env \<Rightarrow> new_balance_limit \<Rightarrow> balance_limit option" where
  "balance_limit_from env n =
     Option.bind (expect_expression env (nbl_layer n)) (\<lambda>layer.
     Option.bind (expect_expression env (nbl_amount n)) (\<lambda>amount.
     Option.bind (expect_expression env (nbl_enforcement_direction n)) (\<lambda>direction.
     Option.bind (expect_expression env (nbl_start n)) (\<lambda>start.
     Option.bind (expect_optional env (nbl_end n)) (\<lambda>e.
       Some \<lparr> bl_limit_type = nbl_limit_type n, bl_layer = layer, bl_amount = amount,
              bl_enforcement_direction = direction, bl_start = start, bl_end = e \<rparr>)))))"

definition limit_into_events :: "'d cel_env \<Rightarrow> new_velocity_limit \<Rightarrow> velocity_limit_values list option" where
  "limit_into_events env n =
     Option.bind (expect_all (partition_key_from env) (nvl_window n)) (\<lambda>w.
     Option.bind (expect_optional env (nvl_condition n)) (\<lambda>condition.
     Option.bind (case nvl_params n of
         None \<Rightarrow> Some None
       | Some ps \<Rightarrow> map_option Some (expect_all (param_definition_from env) ps)) (\<lambda>params.
     Option.bind (expect_optional env (nl_timestamp_source (nvl_limit n))) (\<lambda>source.
     Option.bind (expect_all (balance_limit_from env) (nl_balance (nvl_limit n))) (\<lambda>balance.
       Some [\<lparr> vlv_id = nvl_id n, vlv_name = nvl_name n, vlv_description = nvl_description n,
               vlv_window = w, vlv_condition = condition, vlv_currency = nvl_currency n,
               vlv_params = params,
               vlv_limit = \<lparr> ld_timestamp_source = source, ld_balance = balance \<rparr> \<rparr>])))))"

record velocity_control_builder =
  cb_id :: "velocity_control_id option"
  cb_name :: "string option"
  cb_description :: "string option"
  cb_enforcement :: "velocity_enforcement_action option"
  cb_condition :: "string option option"

record new_velocity_control =
  nvc_id :: velocity_control_id
  nvc_name :: string
  nvc_description :: string
  nvc_enforcement :: velocity_enforcement_action
  nvc_condition :: "string option"

definition build_velocity_control ::
  "'d cel_env \<Rightarrow> velocity_control_builder \<Rightarrow> builder_error + new_velocity_control" where
  "build_velocity_control env b =
     rbind (map_err ValidationError (validate_optional_expression env (cb_condition b))) (\<lambda>_.
     rbind (ok_or (UninitializedField ''id'') (cb_id b)) (\<lambda>i.
     rbind (ok_or (UninitializedField ''name'') (cb_name b)) (\<lambda>name.
     rbind (ok_or (UninitializedField ''description'') (cb_description b)) (\<lambda>description.
       Inr \<lparr> nvc_id = i, nvc_name = name, nvc_description = description,
             nvc_enforcement = (case cb_enforcement b of Some a \<Rightarrow> a | None \<Rightarrow> Reject),
             nvc_condition = flatten (cb_condition b) \<rparr>))))"

definition control_into_events :: "'d cel_env \<Rightarrow> new_velocity_control \<Rightarrow> velocity_control_values list option" where
  "control_into_events env n =
     map_option (\<lambda>condition.
         [\<lparr> vcv_id = nvc_id n, vcv_name = nvc_name n, vcv_description = nvc_description n,
            vcv_enforcement = nvc_enforcement n, vcv_condition = condition \<rparr>])
       (expect_optional env (nvc_condition n))"

section \<open>Hydration\<close>

definition limit_try_from_events ::
  "velocity_limit_values list \<Rightarrow> hydration_error + (velocity_limit_id, velocity_limit_values) entity" where
  "limit_try_from_events initialized =
     hydrate (map Initialized initialized)
       (foldl (apply_event vlv_id) (None, None) (map Initialized initialized))"

definition control_try_from_events ::
  "velocity_control_values list \<Rightarrow> hydration_error + (velocity_control_id, velocity_control_values) entity" where
  "control_try_from_events initialized =
     hydrate (map Initialized initialized)
       (foldl (apply_event vcv_id) (None, None) (map Initialized initialized))"

section \<open>Tables and operations\<close>

text \<open>
  The events of limits and controls under their ids, the limits of controls, the attachments, and
  the ids of \<open>cala_accounts\<close> a foreign key refers to.
\<close>

record 'd control_tables =
  ct_accounts :: "account_id \<Rightarrow> bool"
  ct_limits :: "(velocity_limit_id \<times> velocity_limit_values list) list"
  ct_controls :: "(velocity_control_id \<times> velocity_control_values list) list"
  ct_control_limits :: "(velocity_control_id \<times> velocity_limit_id) list"
  ct_account_controls :: "((account_id \<times> velocity_control_id) \<times> 'd account_velocity_control) list"

text \<open>\<open>show\<close> prints the id of the violated primary key.\<close>

definition create_limit_in_op ::
  "'d cel_env \<Rightarrow> (velocity_limit_id \<Rightarrow> string) \<Rightarrow> 'd control_tables \<Rightarrow> new_velocity_limit
     \<Rightarrow> ('d velocity_error + 'd control_tables \<times> (velocity_limit_id, velocity_limit_values) entity) option" where
  "create_limit_in_op env show ct n =
     map_option (\<lambda>events.
       if nvl_id n \<in> fst ` set (ct_limits ct) then Inl (LimitIdAlreadyExists (show (nvl_id n)))
       else rmap (Pair (ct \<lparr> ct_limits := ct_limits ct @ [(nvl_id n, events)] \<rparr>))
              (map_err VelHydrationError (limit_try_from_events events)))
       (limit_into_events env n)"

definition create_control_in_op ::
  "'d cel_env \<Rightarrow> (velocity_control_id \<Rightarrow> string) \<Rightarrow> 'd control_tables \<Rightarrow> new_velocity_control
     \<Rightarrow> ('d velocity_error + 'd control_tables \<times> (velocity_control_id, velocity_control_values) entity) option" where
  "create_control_in_op env show ct n =
     map_option (\<lambda>events.
       if nvc_id n \<in> fst ` set (ct_controls ct) then Inl (ControlIdAlreadyExists (show (nvc_id n)))
       else rmap (Pair (ct \<lparr> ct_controls := ct_controls ct @ [(nvc_id n, events)] \<rparr>))
              (map_err VelHydrationError (control_try_from_events events)))
       (control_into_events env n)"

definition find_control_by_id ::
  "'d control_tables \<Rightarrow> velocity_control_id
     \<Rightarrow> 'd velocity_error + (velocity_control_id, velocity_control_values) entity" where
  "find_control_by_id ct i =
     (case map_of (ct_controls ct) i of
        None \<Rightarrow> Inl (CouldNotFindControlById i)
      | Some events \<Rightarrow> map_err VelHydrationError (control_try_from_events events))"

definition insert_control_limit ::
  "'d control_tables \<Rightarrow> velocity_control_id \<Rightarrow> velocity_limit_id \<Rightarrow> 'd velocity_error + 'd control_tables" where
  "insert_control_limit ct control limit =
     (if (control, limit) \<in> set (ct_control_limits ct) then Inl LimitAlreadyAddedToControl
      else if control \<in> fst ` set (ct_controls ct) \<and> limit \<in> fst ` set (ct_limits ct)
      then Inr (ct \<lparr> ct_control_limits := ct_control_limits ct @ [(control, limit)] \<rparr>)
      else Inl VelSqlx)"

definition add_limit_to_control_in_op ::
  "'d control_tables \<Rightarrow> velocity_control_id \<Rightarrow> velocity_limit_id
     \<Rightarrow> 'd velocity_error + 'd control_tables \<times> (velocity_control_id, velocity_control_values) entity" where
  "add_limit_to_control_in_op ct control limit =
     rbind (insert_control_limit ct control limit) (\<lambda>ct. rmap (Pair ct) (find_control_by_id ct control))"

text \<open>\<open>ORDER BY l.id\<close>, every limit from its own events.\<close>

definition list_for_control ::
  "'d control_tables \<Rightarrow> velocity_control_id
     \<Rightarrow> 'd velocity_error + (velocity_limit_id, velocity_limit_values) entity list" where
  "list_for_control ct control =
     rmap_list (\<lambda>i. map_err VelHydrationError (limit_try_from_events (get_list (map_of (ct_limits ct)) i)))
       (sort (filter (\<lambda>i. map_of (ct_limits ct) i \<noteq> None)
                (map snd (filter (\<lambda>cl. fst cl = control) (ct_control_limits ct)))))"

section \<open>Attaching a control\<close>

definition evaluate_balance_limit ::
  "'d::linorder cel_env \<Rightarrow> 'd cel_context \<Rightarrow> balance_limit \<Rightarrow> 'd velocity_error + 'd account_balance_limit" where
  "evaluate_balance_limit env ctx limit =
     rbind (vel_eval env ctx (coerce_layer (env_lib env)) (bl_layer limit)) (\<lambda>layer.
     rbind (vel_eval env ctx coerce_decimal (bl_amount limit)) (\<lambda>amount.
     rbind (vel_eval env ctx (coerce_direction (env_lib env)) (bl_enforcement_direction limit)) (\<lambda>direction.
     rbind (vel_eval env ctx coerce_timestamp (bl_start limit)) (\<lambda>start.
     rbind (transpose_opt (map_option (vel_eval env ctx coerce_timestamp) (bl_end limit))) (\<lambda>e.
       Inr \<lparr> abl_layer = layer, abl_amount = amount, abl_enforcement_direction = direction,
             abl_start = start, abl_end = e \<rparr>)))))"

definition evaluate_velocity_limit ::
  "'d::linorder cel_env \<Rightarrow> date_time \<Rightarrow> 'd params \<Rightarrow> velocity_limit_values
     \<Rightarrow> 'd velocity_error + 'd account_velocity_limit" where
  "evaluate_velocity_limit env now params velocity =
     rbind (map_err VelParamError (into_context env now params (vlv_params velocity))) (\<lambda>ctx.
     rbind (rmap_list (evaluate_balance_limit env ctx) (ld_balance (vlv_limit velocity))) (\<lambda>limits.
       Inr \<lparr> avl_limit_id = vlv_id velocity, avl_window = vlv_window velocity,
             avl_condition = vlv_condition velocity, avl_currency = vlv_currency velocity,
             avl_limit = \<lparr> al_timestamp_source = ld_timestamp_source (vlv_limit velocity),
                           al_balance = limits \<rparr> \<rparr>))"

definition evaluate_velocity_limits ::
  "'d::linorder cel_env \<Rightarrow> date_time \<Rightarrow> 'd params \<Rightarrow> velocity_limit_values list
     \<Rightarrow> 'd velocity_error + 'd account_velocity_limit list" where
  "evaluate_velocity_limits env now params limits = rmap_list (evaluate_velocity_limit env now params) limits"

definition account_control_row ::
  "'d account_velocity_control \<Rightarrow> (account_id \<times> velocity_control_id) \<times> 'd account_velocity_control" where
  "account_control_row c = ((avc_account_id c, avc_control_id c), c)"

text \<open>The unique key over accounts and controls, and the two foreign keys.\<close>

definition insert_account_controls ::
  "'d control_tables \<Rightarrow> 'd account_velocity_control list \<Rightarrow> 'd velocity_error + 'd control_tables" where
  "insert_account_controls ct controls =
     (let rows = ct_account_controls ct @ map account_control_row controls
      in if distinct (map fst rows)
            \<and> (\<forall>c \<in> set controls. ct_accounts ct (avc_account_id c)
                 \<and> avc_control_id c \<in> fst ` set (ct_controls ct))
         then Inr (ct \<lparr> ct_account_controls := rows \<rparr>) else Inl VelSqlx)"

definition create_in_op ::
  "'d control_tables \<Rightarrow> 'd account_velocity_control \<Rightarrow> 'd velocity_error + 'd control_tables" where
  "create_in_op ct control = insert_account_controls ct [control]"

definition create_all_in_op ::
  "'d control_tables \<Rightarrow> 'd account_velocity_control list \<Rightarrow> 'd velocity_error + 'd control_tables" where
  "create_all_in_op ct controls =
     (if controls = [] then Inr ct
      else insert_account_controls ct (sort_key avc_account_id controls))"

definition account_velocity_control_of ::
  "velocity_control_values \<Rightarrow> 'd account_velocity_limit list \<Rightarrow> account_id \<Rightarrow> 'd account_velocity_control" where
  "account_velocity_control_of control velocity_limits account_id =
     \<lparr> avc_account_id = account_id, avc_control_id = vcv_id control, avc_enforcement = vcv_enforcement control,
       avc_condition = vcv_condition control, avc_velocity_limits = velocity_limits \<rparr>"

definition attach_control_in_op ::
  "'d::linorder cel_env \<Rightarrow> date_time \<Rightarrow> 'd control_tables \<Rightarrow> velocity_control_values \<Rightarrow> account_id
     \<Rightarrow> velocity_limit_values list \<Rightarrow> 'd params \<Rightarrow> 'd velocity_error + 'd control_tables" where
  "attach_control_in_op env now ct control account_id limits params =
     rbind (evaluate_velocity_limits env now params limits) (\<lambda>velocity_limits.
       create_in_op ct (account_velocity_control_of control velocity_limits account_id))"

definition attach_to_accounts ::
  "'d::linorder cel_env \<Rightarrow> date_time \<Rightarrow> 'd control_tables \<Rightarrow> velocity_control_values \<Rightarrow> account_id list
     \<Rightarrow> velocity_limit_values list \<Rightarrow> 'd params \<Rightarrow> 'd velocity_error + 'd control_tables" where
  "attach_to_accounts env now ct control account_ids limits params =
     (if account_ids = [] then Inr ct
      else rbind (evaluate_velocity_limits env now params limits) (\<lambda>velocity_limits.
        create_all_in_op ct (map (account_velocity_control_of control velocity_limits) account_ids)))"

definition attach_control_to_account_or_account_set_in_op ::
  "'d::linorder cel_env \<Rightarrow> date_time \<Rightarrow> 'd control_tables \<Rightarrow> velocity_control_id \<Rightarrow> account_id
     \<Rightarrow> 'd params \<Rightarrow> 'd velocity_error + 'd control_tables \<times> (velocity_control_id, velocity_control_values) entity" where
  "attach_control_to_account_or_account_set_in_op env now ct control_id account_id params =
     rbind (find_control_by_id ct control_id) (\<lambda>control.
     rbind (list_for_control ct control_id) (\<lambda>limits.
     rbind (attach_control_in_op env now ct (ent_values control) account_id (map ent_values limits) params) (\<lambda>ct.
       Inr (ct, control))))"

definition attach_control_to_accounts_in_op ::
  "'d::linorder cel_env \<Rightarrow> date_time \<Rightarrow> 'd control_tables \<Rightarrow> velocity_control_id \<Rightarrow> account_id list
     \<Rightarrow> 'd params \<Rightarrow> 'd velocity_error + 'd control_tables \<times> (velocity_control_id, velocity_control_values) entity" where
  "attach_control_to_accounts_in_op env now ct control_id account_ids params =
     rbind (find_control_by_id ct control_id) (\<lambda>control.
     rbind (list_for_control ct control_id) (\<lambda>limits.
     rbind (attach_to_accounts env now ct (ent_values control) account_ids (map ent_values limits) params) (\<lambda>ct.
       Inr (ct, control))))"

definition attach_control_to_account_in_op ::
  "'d::linorder cel_env \<Rightarrow> date_time \<Rightarrow> 'd control_tables \<Rightarrow> velocity_control_id \<Rightarrow> account_id
     \<Rightarrow> 'd params \<Rightarrow> 'd velocity_error + 'd control_tables \<times> (velocity_control_id, velocity_control_values) entity" where
  "attach_control_to_account_in_op env now ct control_id account_id params =
     attach_control_to_accounts_in_op env now ct control_id [account_id] params"

section \<open>Batched attachment\<close>

lemma insert_one_then_rest:
  assumes "cs \<noteq> []"
  shows "insert_account_controls ct (c # cs) =
    rbind (insert_account_controls ct [c]) (\<lambda>ct. insert_account_controls ct cs)"
proof (cases "insert_account_controls ct [c]")
  case (Inl e)
  then have "\<not> distinct (map fst (ct_account_controls ct @ map account_control_row (c # cs))) \<or>
      \<not> (ct_accounts ct (avc_account_id c) \<and> avc_control_id c \<in> fst ` set (ct_controls ct))" and "e = VelSqlx"
    by (auto simp: insert_account_controls_def Let_def split: if_splits)
  with Inl show ?thesis by (auto simp: insert_account_controls_def Let_def)
next
  case (Inr ct')
  then have ct': "ct' = ct \<lparr> ct_account_controls := ct_account_controls ct @ [account_control_row c] \<rparr>"
    and ok: "ct_accounts ct (avc_account_id c)" "avc_control_id c \<in> fst ` set (ct_controls ct)"
    by (auto simp: insert_account_controls_def Let_def split: if_splits)
  from ok show ?thesis unfolding Inr rbind_simps by (simp add: insert_account_controls_def Let_def ct')
qed

lemma insert_one_by_one:
  "cs \<noteq> [] \<Longrightarrow> insert_account_controls ct cs = rfold create_in_op ct cs"
proof (induction cs arbitrary: ct)
  case (Cons c cs)
  show ?case
  proof (cases "cs = []")
    case True
    then show ?thesis by (cases "insert_account_controls ct [c]") (simp_all add: create_in_op_def)
  next
    case False
    then show ?thesis using Cons.IH insert_one_then_rest[OF False] by (simp add: create_in_op_def)
  qed
qed simp

lemma create_in_op_keeps:
  assumes "create_in_op ct c = Inr ct'"
  shows "find_control_by_id ct' = find_control_by_id ct" and "list_for_control ct' = list_for_control ct"
  using assms
  by (auto simp: create_in_op_def insert_account_controls_def Let_def find_control_by_id_def[abs_def]
      list_for_control_def[abs_def] split: if_splits)

text \<open>One attachment, with the control looked up and its limits evaluated again.\<close>

definition attach_single ::
  "'d::linorder cel_env \<Rightarrow> date_time \<Rightarrow> velocity_control_id \<Rightarrow> 'd params \<Rightarrow> 'd control_tables \<Rightarrow> account_id
     \<Rightarrow> 'd velocity_error + 'd control_tables" where
  "attach_single env now control_id params ct a =
     rmap fst (attach_control_to_account_or_account_set_in_op env now ct control_id a params)"

lemma attach_single_eq:
  assumes "find_control_by_id ct control_id = Inr control" "list_for_control ct control_id = Inr limits"
    and "evaluate_velocity_limits env now params (map ent_values limits) = Inr vls"
  shows "rfold (attach_single env now control_id params) ct as =
    rfold create_in_op ct (map (account_velocity_control_of (ent_values control) vls) as)"
  using assms
proof (induction as arbitrary: ct)
  case (Cons a as)
  let ?c = "account_velocity_control_of (ent_values control) vls a"
  have one: "attach_single env now control_id params ct a = create_in_op ct ?c"
    using Cons.prems by (cases "create_in_op ct ?c")
      (simp_all add: attach_single_def attach_control_to_account_or_account_set_in_op_def attach_control_in_op_def)
  show ?case
  proof (cases "create_in_op ct ?c")
    case (Inr ct')
    have "rfold (attach_single env now control_id params) ct' as =
        rfold create_in_op ct' (map (account_velocity_control_of (ent_values control) vls) as)"
      by (rule Cons.IH) (simp_all add: create_in_op_keeps[OF Inr] Cons.prems)
    with one Inr show ?thesis by simp
  qed (simp add: one)
qed simp

lemma attach_batch_eq:
  assumes "account_ids \<noteq> []"
  shows "rmap fst (attach_control_to_accounts_in_op env now ct control_id account_ids params) =
    rfold (attach_single env now control_id params) ct (sort account_ids)"
proof -
  from assms obtain a as where as: "sort account_ids = a # as"
    by (metis list.exhaust set_empty2 set_sort)
  show ?thesis
  proof (cases "find_control_by_id ct control_id")
    case (Inl e)
    then show ?thesis
      by (simp add: attach_control_to_accounts_in_op_def as attach_single_def
          attach_control_to_account_or_account_set_in_op_def)
  next
    case (Inr control)
    note control = this
    show ?thesis
    proof (cases "list_for_control ct control_id")
      case (Inl e)
      with control show ?thesis
        by (simp add: attach_control_to_accounts_in_op_def as attach_single_def
            attach_control_to_account_or_account_set_in_op_def)
    next
      case (Inr limits)
      note limits = this
      show ?thesis
      proof (cases "evaluate_velocity_limits env now params (map ent_values limits)")
        case (Inl e)
        with control limits assms show ?thesis
          by (simp add: attach_control_to_accounts_in_op_def as attach_single_def attach_to_accounts_def
              attach_control_to_account_or_account_set_in_op_def attach_control_in_op_def)
      next
        case (Inr vls)
        let ?f = "account_velocity_control_of (ent_values control) vls"
        have key: "avc_account_id \<circ> ?f = (\<lambda>x. x)" by (auto simp: account_velocity_control_of_def)
        have "create_all_in_op ct (map ?f account_ids) = rfold create_in_op ct (map ?f (sort account_ids))"
          using assms by (subst insert_one_by_one[symmetric]) (simp_all add: create_all_in_op_def sort_key_map key as)
        moreover have "rmap fst (rbind r (\<lambda>ct. Inr (ct, control))) = r" for r :: "'a velocity_error + 'a control_tables"
          by (cases r) simp_all
        ultimately show ?thesis
          using control limits Inr assms
          by (simp add: attach_single_eq[OF control limits Inr] attach_control_to_accounts_in_op_def attach_to_accounts_def)
      qed
    qed
  qed
qed

section \<open>Properties\<close>

text \<open>
  Attaching a control to many accounts in one call is attaching it to each of them, one call
  after the other, in the order of the account ids: the same rows, and the same error if any account
  fails, in which case nothing is written. This holds for every set of tables, missing controls,
  failing expressions, unknown accounts and accounts that already have the control included.
\<close>

theorem batched_attach_is_repeated_attach:
  assumes "account_ids \<noteq> []"
  shows "rmap fst (attach_control_to_accounts_in_op env now ct control_id account_ids params) =
    rfold (\<lambda>ct a. rmap fst (attach_control_to_account_or_account_set_in_op env now ct control_id a params))
      ct (sort account_ids)"
  using attach_batch_eq[OF assms, of env now ct control_id params] by (simp only: attach_single_def[abs_def])

definition sample_control_tables :: "int control_tables" where
  "sample_control_tables =
     \<lparr> ct_accounts = (\<lambda>a. a \<in> {AccountId 1, AccountId 2}), ct_limits = [],
       ct_controls = [(VelocityControlId 1,
         [\<lparr> vcv_id = VelocityControlId 1, vcv_name = ''c'', vcv_description = ''d'', vcv_enforcement = Reject,
            vcv_condition = None \<rparr>])],
       ct_control_limits = [], ct_account_controls = [] \<rparr>"

lemma batched_attach_is_repeated_attach_witness:
  "map_option (\<lambda>ct. map fst (ct_account_controls ct))
     (case rmap fst (attach_control_to_accounts_in_op sample_env 0 sample_control_tables (VelocityControlId 1)
        [AccountId 2, AccountId 1] params_new) of Inl _ \<Rightarrow> None | Inr ct \<Rightarrow> Some ct) =
   Some [(AccountId 1, VelocityControlId 1), (AccountId 2, VelocityControlId 1)]"
proof -
  have "sort [AccountId 2, AccountId 1] = [AccountId 1, AccountId 2]"
    by (simp add: less_eq_account_id_def word_le_nat_alt)
  then show ?thesis
    by (simp add: batched_attach_is_repeated_attach[of "[AccountId 2, AccountId 1]"]
        attach_control_to_account_or_account_set_in_op_def find_control_by_id_def sample_control_tables_def
        control_try_from_events_def hydrate_def list_for_control_def attach_control_in_op_def
        evaluate_velocity_limits_def create_in_op_def insert_account_controls_def Let_def
        account_velocity_control_of_def account_control_row_def)
qed

end
