(* ===== verification/Template_Cache.thy ===== *)
theory Template_Cache imports Tx_Template Versioned_Store begin

text \<open>
  The per-process cache of template bodies (\<open>posting/template_cache.rs\<close>) over the two template
  tables, and the statements that read them (\<open>posting/repo.rs\<close>). The cache assumes its versions;
  \<open>assert_up_to_date\<close> compares them with those of the locking statement.

  An event is stored as the value it decodes to, so the deserialization error is not modelled.
\<close>

section \<open>The template tables\<close>

record template_tables =
  tmt_templates :: "(string \<times> tx_template_id) list"
  tmt_events :: "(tx_template_id, tx_template_values) version_row list"

text \<open>\<open>MAX(e.sequence)\<close> of every template with one of the codes, with the event of that sequence.\<close>

definition latest_templates ::
  "template_tables \<Rightarrow> string list \<Rightarrow> (string \<times> tx_template_id \<times> int \<times> tx_template_values) list" where
  "latest_templates tt codes =
     List.map_filter (\<lambda>(code, i).
        if code \<in> set codes
        then map_option (\<lambda>(version, body). (code, i, version, body)) (latest (rows_of i (tmt_events tt)))
        else None) (tmt_templates tt)"

definition resolve_templates ::
  "template_tables \<Rightarrow> string list \<Rightarrow> (string \<rightharpoonup> tx_template_id \<times> int \<times> tx_template_values)" where
  "resolve_templates tt codes =
     foldl (\<lambda>m (code, r). m(code \<mapsto> r)) Map.empty (latest_templates tt codes)"

section \<open>The cache\<close>

record resolved_template =
  rt_id :: tx_template_id
  rt_version :: int
  rt_values :: tx_template_values

type_synonym template_cache = "string \<rightharpoonup> resolved_template"

definition install :: "template_cache \<Rightarrow> (string \<times> resolved_template) list \<Rightarrow> template_cache" where
  "install snapshot resolved = foldl (\<lambda>next (code, t). next(code \<mapsto> t)) snapshot resolved"

text \<open>A code is removed from what was fetched when it is resolved.\<close>

definition resolve_code ::
  "(string \<rightharpoonup> tx_template_id \<times> int \<times> tx_template_values) \<times> (string \<times> resolved_template) list \<Rightarrow> string
     \<Rightarrow> 'd tx_template_error
        + (string \<rightharpoonup> tx_template_id \<times> int \<times> tx_template_values) \<times> (string \<times> resolved_template) list" where
  "resolve_code = (\<lambda>(fetched, resolved) code.
     case fetched code of
       None \<Rightarrow> Inl TmplNotFound
     | Some (i, version, body) \<Rightarrow>
         Inr (fetched(code := None),
              upsert code (\<lambda>_. \<lparr> rt_id = i, rt_version = version, rt_values = body \<rparr>) resolved))"

definition fetch_and_install ::
  "template_tables \<Rightarrow> template_cache \<Rightarrow> string list
     \<Rightarrow> 'd tx_template_error + (string \<times> resolved_template) list \<times> template_cache" where
  "fetch_and_install tt snapshot codes =
     rbind (rfold resolve_code (resolve_templates tt codes, []) codes)
       (\<lambda>(_, resolved). Inr (resolved, install snapshot resolved))"

definition extend_map :: "('k \<times> 'v) list \<Rightarrow> ('k \<times> 'v) list \<Rightarrow> ('k \<times> 'v) list" where
  "extend_map m new = foldl (\<lambda>m (k, v). upsert k (\<lambda>_. v) m) m new"

definition resolve_in_op ::
  "template_tables \<Rightarrow> template_cache \<Rightarrow> string list
     \<Rightarrow> 'd tx_template_error + (string \<times> resolved_template) list \<times> template_cache" where
  "resolve_in_op tt snapshot codes =
     (let used = foldl (\<lambda>used code. case snapshot code of
                           Some resolved \<Rightarrow> upsert code (\<lambda>_. resolved) used
                         | None \<Rightarrow> used) [] codes;
          missing = filter (\<lambda>code. snapshot code = None) codes
      in if missing = [] then Inr (used, snapshot)
         else rbind (fetch_and_install tt snapshot missing)
                (\<lambda>(fetched, snapshot). Inr (extend_map used fetched, snapshot)))"

definition refresh_in_op ::
  "template_tables \<Rightarrow> template_cache \<Rightarrow> string list
     \<Rightarrow> 'd tx_template_error + (string \<times> resolved_template) list \<times> template_cache" where
  "refresh_in_op tt snapshot codes = fetch_and_install tt snapshot codes"

text \<open>The stale codes, in the order of \<open>used\<close>.\<close>

definition assert_up_to_date ::
  "(string \<times> resolved_template) list \<Rightarrow> (string \<rightharpoonup> tx_template_id \<times> int) \<Rightarrow> string list + unit" where
  "assert_up_to_date used observed =
     (let stale = map fst (filter (\<lambda>(code, r). observed code \<noteq> Some (rt_id r, rt_version r)) used)
      in if stale = [] then Inr () else Inl stale)"

end
