(* ===== verification/Graph_Repo.thy ===== *)
theory Graph_Repo imports Graph_Validation begin

text \<open>
  The statements over the membership graph (\<open>account_set/repo.rs\<close>): the epoch, the edges, the
  probe of direct memberships, the two recursive walks that resolve ancestors and count
  containment paths, the reads of graph nodes, and the two writes of set-to-set edges, each of
  which raises the epoch. Every function takes the tables as the operation sees them.

  Advisory locks are not modelled; the keys that are locked are a result. A full scan of
  \<open>cala_account_sets\<close> takes the order of its rows as the parameter \<open>scan\<close>.
\<close>

section \<open>What the reads return\<close>

record direct_membership_probe =
  dmp_epoch :: int
  dmp_seeds :: "account_membership list"

record set_graph_node =
  sgn_id :: account_set_id
  sgn_journal_id :: journal_id
  sgn_eventually_consistent :: bool
  sgn_parent_id :: "account_set_id option"

record set_graph_data =
  sgd_epoch :: int
  sgd_nodes :: "set_graph_node list"

datatype account_set_member_id = MemberAccount account_id | MemberSet account_set_id

datatype membership_event =
    AccountSetMemberCreated account_set_id account_set_member_id
  | AccountSetMemberRemoved account_set_id account_set_member_id

definition to_set_membership :: "account_set_id \<times> account_set_id \<Rightarrow> set_membership" where
  "to_set_membership r = \<lparr> sm_account_set_id = fst r, sm_member_account_set_id = snd r \<rparr>"

definition to_account_membership :: "account_set_id \<times> account_id \<Rightarrow> account_membership" where
  "to_account_membership r = \<lparr> am_account_set_id = fst r, am_account_id = snd r \<rparr>"

lemma to_set_membership_simps [simp]:
  "sm_account_set_id (to_set_membership r) = fst r" "sm_member_account_set_id (to_set_membership r) = snd r"
  by (simp_all add: to_set_membership_def)

lemma to_account_membership_simps [simp]:
  "am_account_set_id (to_account_membership r) = fst r" "am_account_id (to_account_membership r) = snd r"
  by (simp_all add: to_account_membership_def)

section \<open>Reads\<close>

definition fetch_set_graph_epoch :: "membership_tables \<Rightarrow> int" where
  "fetch_set_graph_epoch mt = mt_graph_epoch mt"

definition fetch_set_membership_edges :: "membership_tables \<Rightarrow> set_membership list" where
  "fetch_set_membership_edges mt = map to_set_membership (mt_member_sets mt)"

text \<open>
  The epoch's row is always there, so a probe without memberships still carries the epoch; its
  rows come in the order of the table.
\<close>

definition probe_direct_memberships :: "membership_tables \<Rightarrow> account_id list \<Rightarrow> direct_membership_probe" where
  "probe_direct_memberships mt account_ids =
     \<lparr> dmp_epoch = mt_graph_epoch mt,
       dmp_seeds = map to_account_membership (filter (\<lambda>r. snd r \<in> set account_ids) (mt_member_accounts mt)) \<rparr>"

definition parents_in :: "membership_tables \<Rightarrow> account_set_id \<Rightarrow> account_set_id list" where
  "parents_in mt s = map fst (filter (\<lambda>r. snd r = s) (mt_member_sets mt))"

text \<open>One row for every parent, or a single one without: the left join of the edges.\<close>

definition set_nodes :: "membership_tables \<Rightarrow> account_set_id \<Rightarrow> set_graph_node list" where
  "set_nodes mt s =
     (case (mt_account_sets mt s, mt_accounts mt (account_of_set s)) of
        (Some journal_id, Some acc) \<Rightarrow>
          map (\<lambda>p. \<lparr> sgn_id = s, sgn_journal_id = journal_id,
                    sgn_eventually_consistent = ac_eventually_consistent acc, sgn_parent_id = p \<rparr>)
            (case parents_in mt s of [] \<Rightarrow> [None] | ps \<Rightarrow> map Some ps)
      | _ \<Rightarrow> [])"

definition fetch_set_graph_nodes :: "membership_tables \<Rightarrow> account_set_id list \<Rightarrow> set_graph_node list" where
  "fetch_set_graph_nodes mt set_ids = concat (map (set_nodes mt) (remdups set_ids))"

definition fetch_set_graph :: "account_set_id list \<Rightarrow> membership_tables \<Rightarrow> set_graph_data" where
  "fetch_set_graph scan mt =
     \<lparr> sgd_epoch = mt_graph_epoch mt, sgd_nodes = concat (map (set_nodes mt) scan) \<rparr>"

section \<open>The walks\<close>

text \<open>
  The fallback of ancestor resolution. \<open>resolved\<close> holds the ancestors in the journal, walked to
  through the sets of all journals; the second component lists the locked (set, currency) pairs:
  for every ancestor that is not eventually consistent the currencies of the entries below it.
\<close>

definition walk_mappings_and_lock ::
  "membership_tables \<Rightarrow> journal_id \<Rightarrow> (account_id \<times> currency) list
     \<Rightarrow> (account_id \<times> account_set_id list) list \<times> (account_set_id \<times> currency) list" where
  "walk_mappings_and_lock mt journal_id entry_pairs =
     (let account_ids = map fst entry_pairs;
          seed = map (\<lambda>(s, a). (a, s)) (filter (\<lambda>(s, a). a \<in> set account_ids) (mt_member_accounts mt));
          edges = concat (map (\<lambda>a. map (\<lambda>(p, c). ((a, c), (a, p))) (mt_member_sets mt)) account_ids);
          resolved = filter (\<lambda>(a, s). mt_account_sets mt s = Some journal_id) (union_walk edges seed);
          locks = sort_dedup (concat (map (\<lambda>(a, s).
                    case mt_accounts mt (account_of_set s) of
                      None \<Rightarrow> []
                    | Some acc \<Rightarrow> if ac_eventually_consistent acc then []
                                  else map (\<lambda>(_, c). (s, c)) (filter (\<lambda>(b, _). b = a) entry_pairs)) resolved))
      in (group_pairs resolved, locks))"

text \<open>
  \<open>seeds UNION ALL step\<close> keeps duplicate rows: a row of a round stands for one path. On a graph
  with a cycle above the seeds the statement does not return, which is \<open>None\<close>.
\<close>

partial_function (option) union_all_walk ::
  "('a \<Rightarrow> 'a list) \<Rightarrow> 'a list \<Rightarrow> 'a list \<Rightarrow> 'a list option" where
  "union_all_walk step result work =
     (if work = [] then Some result
      else let new = concat (map step work) in union_all_walk step (result @ new) new)"

definition containment_step :: "membership_tables \<Rightarrow> account_id \<times> account_set_id \<Rightarrow> (account_id \<times> account_set_id) list" where
  "containment_step mt r = map (Pair (fst r)) (parents_in mt (snd r))"

definition all_seeds :: "membership_tables \<Rightarrow> account_membership list \<Rightarrow> (account_id \<times> account_set_id) list" where
  "all_seeds mt members =
     map (\<lambda>m. (am_account_id m, am_account_set_id m)) members @
     map (\<lambda>(s, a). (a, s)) (filter (\<lambda>(s, a). a \<in> am_account_id ` set members) (mt_member_accounts mt))"

definition assert_no_double_membership ::
  "membership_tables \<Rightarrow> account_membership list \<Rightarrow> (account_set_error + unit) option" where
  "assert_no_double_membership mt members =
     map_option (\<lambda>containments. if distinct containments then Inr () else Inl MemberAlreadyAdded)
       (let seeds = all_seeds mt members in union_all_walk (containment_step mt) seeds seeds)"

section \<open>Memberships affected by new edges\<close>

text \<open>
  The descendants of the proposed members in the combined graph, found with a stack whose top is
  the head of the list here.
\<close>

function affected_loop ::
  "(account_set_id \<times> account_set_id list) list \<Rightarrow> account_set_id list \<Rightarrow> account_set_id list \<Rightarrow> account_set_id list" where
  "affected_loop kids affected [] = affected"
| "affected_loop kids affected (s # pending) =
     (if s \<in> set affected then affected_loop kids affected pending
      else affected_loop kids (affected @ [s]) (rev (get_list (map_of kids) s) @ pending))"
  by pat_completeness auto

text \<open>A set that is not a key pushes nothing, so the stack shrinks; a key is taken once.\<close>

lemma worklist_decreases:
  assumes "s \<notin> set seen"
  shows "((m, seen @ [s], rev (get_list (map_of m) s) @ pending), (m, seen, s # pending)) \<in>
    measures [\<lambda>(m, seen, _). card (fst ` set m - set seen), \<lambda>(_, _, pending). length pending]"
proof (cases "s \<in> fst ` set m")
  case True
  then have "fst ` set m - set (seen @ [s]) \<subset> fst ` set m - set seen" using assms by auto
  then have "card (fst ` set m - set (seen @ [s])) < card (fst ` set m - set seen)" by (simp add: psubset_card_mono)
  then show ?thesis by simp
next
  case False
  then have "map_of m s = None" by (simp add: map_of_eq_None_iff)
  moreover from False have "fst ` set m - set (seen @ [s]) = fst ` set m - set seen" by auto
  ultimately show ?thesis by (simp add: get_list_def)
qed

termination affected_loop
  by (relation "measures [\<lambda>(m, seen, _). card (fst ` set m - set seen), \<lambda>(_, _, pending). length pending]")
    (simp, simp, rule worklist_decreases)

definition edge_children :: "set_membership list \<Rightarrow> (account_set_id \<times> account_set_id list) list" where
  "edge_children edges = group_pairs (map (\<lambda>e. (sm_account_set_id e, sm_member_account_set_id e)) edges)"

definition fetch_affected_account_memberships ::
  "membership_tables \<Rightarrow> set_membership list \<Rightarrow> set_membership list \<Rightarrow> account_membership list" where
  "fetch_affected_account_memberships mt existing_edges members =
     (let affected = affected_loop (edge_children (existing_edges @ members)) []
                       (rev (map sm_member_account_set_id members));
          candidates = sort_dedup (map snd (filter (\<lambda>r. fst r \<in> set affected) (mt_member_accounts mt)))
      in if candidates = [] then []
         else map to_account_membership
                (sort_key (\<lambda>r. (snd r, fst r)) (filter (\<lambda>r. snd r \<in> set candidates) (mt_member_accounts mt))))"

section \<open>Writes of set-to-set edges\<close>

text \<open>
  The insert fails on a repeated pair, whose constraint name \<open>AccountSetError::from\<close> knows, and
  on an end that is no account set.
\<close>

definition insert_member_sets ::
  "membership_tables \<Rightarrow> set_membership list \<Rightarrow> account_set_error + membership_tables \<times> membership_event list" where
  "insert_member_sets mt members =
     (if members = [] then Inr (mt, [])
      else
        let rows = mt_member_sets mt @ map (\<lambda>e. (sm_account_set_id e, sm_member_account_set_id e)) members
        in if \<not> distinct rows then Inl MemberAlreadyAdded
           else if list_ex (\<lambda>e. mt_account_sets mt (sm_account_set_id e) = None \<or>
                                mt_account_sets mt (sm_member_account_set_id e) = None) members
           then Inl Sqlx
           else Inr (mt \<lparr> mt_member_sets := rows, mt_graph_epoch := mt_graph_epoch mt + 1 \<rparr>,
                     map (\<lambda>e. AccountSetMemberCreated (sm_account_set_id e) (MemberSet (sm_member_account_set_id e)))
                       members))"

definition remove_member_set ::
  "membership_tables \<Rightarrow> account_set_id \<Rightarrow> account_set_id \<Rightarrow> membership_tables \<times> membership_event list" where
  "remove_member_set mt account_set_id member_account_set_id =
     (mt \<lparr> mt_member_sets := filter (\<lambda>r. r \<noteq> (account_set_id, member_account_set_id)) (mt_member_sets mt),
           mt_graph_epoch := mt_graph_epoch mt + 1 \<rparr>,
      [AccountSetMemberRemoved account_set_id (MemberSet member_account_set_id)])"

end
