(* ===== verification/Graph_Cache.thy ===== *)
theory Graph_Cache imports Graph_Repo begin

text \<open>
  The epoch-validated cache of the set graph (\<open>account_set/graph_cache.rs\<close>): the snapshot and
  its indexes, the refresh with its install guard, the in-memory expansion of ancestors, and the
  three entry points, each with its fallback to the statements of \<open>Graph_Repo\<close>.

  Hash maps are association lists. The refresh that a stale snapshot triggers runs in its own
  task, so the entry points only say, in their second component, whether they start one.
\<close>

section \<open>Snapshots\<close>

record set_meta =
  sme_journal_id :: journal_id
  sme_eventually_consistent :: bool

record graph_snapshot =
  gs_epoch :: int
  gs_parents :: "(account_set_id \<times> account_set_id list) list"
  gs_children :: "(account_set_id \<times> account_set_id list) list"
  gs_meta :: "(account_set_id \<times> set_meta) list"

record overlay =
  ov_parents :: "(account_set_id \<times> account_set_id list) list"
  ov_meta :: "(account_set_id \<times> set_meta) list"

record indexed_nodes =
  in_parents :: "(account_set_id \<times> account_set_id list) list"
  in_children :: "(account_set_id \<times> account_set_id list) list"
  in_meta :: "(account_set_id \<times> set_meta) list"

definition COLD_EPOCH :: int where
  "COLD_EPOCH = -1"

definition cold :: graph_snapshot where
  "cold = \<lparr> gs_epoch = COLD_EPOCH, gs_parents = [], gs_children = [], gs_meta = [] \<rparr>"

definition index_node :: "indexed_nodes \<Rightarrow> set_graph_node \<Rightarrow> indexed_nodes" where
  "index_node ix node =
     (let meta = upsert (sgn_id node) (\<lambda>_. \<lparr> sme_journal_id = sgn_journal_id node,
                   sme_eventually_consistent = sgn_eventually_consistent node \<rparr>) (in_meta ix)
      in case sgn_parent_id node of
           None \<Rightarrow> ix \<lparr> in_meta := meta \<rparr>
         | Some parent_id \<Rightarrow>
             \<lparr> in_parents = push_to (sgn_id node) parent_id (in_parents ix),
               in_children = push_to parent_id (sgn_id node) (in_children ix),
               in_meta = meta \<rparr>)"

definition index_nodes :: "set_graph_node list \<Rightarrow> indexed_nodes" where
  "index_nodes nodes = foldl index_node \<lparr> in_parents = [], in_children = [], in_meta = [] \<rparr> nodes"

definition snapshot_of :: "set_graph_data \<Rightarrow> graph_snapshot" where
  "snapshot_of data =
     (let ix = index_nodes (sgd_nodes data)
      in \<lparr> gs_epoch = sgd_epoch data, gs_parents = in_parents ix, gs_children = in_children ix,
           gs_meta = in_meta ix \<rparr>)"

text \<open>The installing half of a refresh: an older graph never replaces a newer one.\<close>

definition install_graph :: "graph_snapshot \<Rightarrow> set_graph_data \<Rightarrow> graph_snapshot" where
  "install_graph current data =
     (let new = snapshot_of data in if gs_epoch current \<le> gs_epoch new then new else current)"

text \<open>
  The overlay holds the sets the snapshot does not know; it is read inside the operation and
  never installed.
\<close>

definition missing_sets :: "graph_snapshot \<Rightarrow> account_membership list \<Rightarrow> account_set_id list" where
  "missing_sets snapshot memberships =
     sort_dedup (filter (\<lambda>s. map_of (gs_meta snapshot) s = None) (map am_account_set_id memberships))"

definition load_overlay :: "membership_tables \<Rightarrow> account_set_id list \<Rightarrow> overlay option" where
  "load_overlay mt missing =
     (if missing = [] then None
      else let ix = index_nodes (fetch_set_graph_nodes mt missing)
           in Some \<lparr> ov_parents = in_parents ix, ov_meta = in_meta ix \<rparr>)"

text \<open>\<open>snapshot.get(id).or_else(|| overlay.get(id))\<close>\<close>

definition view_meta :: "graph_snapshot \<Rightarrow> overlay option \<Rightarrow> (account_set_id \<times> set_meta) list" where
  "view_meta snapshot ov = gs_meta snapshot @ (case ov of None \<Rightarrow> [] | Some ov \<Rightarrow> ov_meta ov)"

definition view_parents :: "graph_snapshot \<Rightarrow> overlay option \<Rightarrow> (account_set_id \<times> account_set_id list) list" where
  "view_parents snapshot ov = gs_parents snapshot @ (case ov of None \<Rightarrow> [] | Some ov \<Rightarrow> ov_parents ov)"

section \<open>Ancestor expansion\<close>

text \<open>
  The breadth-first walk of one account: the ancestors in the journal and, among them, those
  that are not eventually consistent. An unknown set ends it with \<open>None\<close>.
\<close>

function expand_loop ::
  "(account_set_id \<times> set_meta) list \<Rightarrow> (account_set_id \<times> account_set_id list) list \<Rightarrow> journal_id
     \<Rightarrow> account_set_id list \<Rightarrow> account_set_id list \<Rightarrow> account_set_id list \<Rightarrow> account_set_id list
     \<Rightarrow> (account_set_id list \<times> account_set_id list) option" where
  "expand_loop meta parents j visited ancestors non_ec [] = Some (ancestors, non_ec)"
| "expand_loop meta parents j visited ancestors non_ec (s # queue) =
     (if s \<in> set visited then expand_loop meta parents j visited ancestors non_ec queue
      else case map_of meta s of
             None \<Rightarrow> None
           | Some m \<Rightarrow>
               expand_loop meta parents j (s # visited)
                 (if sme_journal_id m = j then ancestors @ [s] else ancestors)
                 (if sme_journal_id m = j \<and> \<not> sme_eventually_consistent m then non_ec @ [s] else non_ec)
                 (queue @ get_list (map_of parents) s))"
  by pat_completeness auto
termination
proof (relation "measures [\<lambda>(meta, parents, j, visited, anc, ne, queue). card (fst ` set meta - set visited),
    \<lambda>(meta, parents, j, visited, anc, ne, queue). length queue]")
  fix meta :: "(account_set_id \<times> set_meta) list" and parents j visited anc ne s queue m
  assume "s \<notin> set visited" "map_of meta s = Some m"
  then have "s \<in> fst ` set meta - set visited" by (force dest: map_of_SomeD)
  then have "fst ` set meta - set (s # visited) \<subset> fst ` set meta - set visited" by auto
  then have "card (fst ` set meta - set (s # visited)) < card (fst ` set meta - set visited)"
    by (simp add: psubset_card_mono)
  then show "((meta, parents, j, s # visited, (if sme_journal_id m = j then anc @ [s] else anc),
      (if sme_journal_id m = j \<and> \<not> sme_eventually_consistent m then ne @ [s] else ne),
      queue @ get_list (map_of parents) s), (meta, parents, j, visited, anc, ne, s # queue))
      \<in> measures [\<lambda>(meta, parents, j, visited, anc, ne, queue). card (fst ` set meta - set visited),
        \<lambda>(meta, parents, j, visited, anc, ne, queue). length queue]" by simp
qed auto

definition expand_account ::
  "(account_set_id \<times> set_meta) list \<Rightarrow> (account_set_id \<times> account_set_id list) list \<Rightarrow> journal_id
     \<Rightarrow> account_set_id list \<Rightarrow> (account_set_id list \<times> account_set_id list) option" where
  "expand_account meta parents j seed_sets = expand_loop meta parents j [] [] [] seed_sets"

fun expand_accounts ::
  "(account_set_id list \<Rightarrow> (account_set_id list \<times> account_set_id list) option)
     \<Rightarrow> (account_id \<times> account_set_id list) list
     \<Rightarrow> ((account_id \<times> account_set_id list) list \<times> (account_id \<times> account_set_id list) list) option" where
  "expand_accounts f [] = Some ([], [])"
| "expand_accounts f ((a, seed_sets) # rest) =
     (case f seed_sets of
        None \<Rightarrow> None
      | Some (ancestors, non_ec) \<Rightarrow>
          map_option (\<lambda>(mappings, non_ecs).
              (if ancestors = [] then mappings else (a, ancestors) # mappings,
               if non_ec = [] then non_ecs else (a, non_ec) # non_ecs))
            (expand_accounts f rest))"

definition expand ::
  "graph_snapshot \<Rightarrow> overlay option \<Rightarrow> journal_id \<Rightarrow> account_membership list \<Rightarrow> (account_id \<times> currency) list
     \<Rightarrow> ((account_id \<times> account_set_id list) list \<times> (account_set_id \<times> currency) list) option" where
  "expand snapshot ov journal_id memberships entry_pairs =
     (let per_account = group_pairs (map (\<lambda>m. (am_account_id m, am_account_set_id m)) memberships)
      in map_option (\<lambda>(mappings, non_ec).
           (mappings,
            sort_dedup (concat (map (\<lambda>(a, c). map (\<lambda>s. (s, c)) (get_list (map_of non_ec) a)) entry_pairs))))
         (expand_accounts (expand_account (view_meta snapshot ov) (view_parents snapshot ov) journal_id) per_account))"

definition resolve_from_probe ::
  "graph_snapshot \<Rightarrow> membership_tables \<Rightarrow> journal_id \<Rightarrow> int \<Rightarrow> account_membership list \<Rightarrow> (account_id \<times> currency) list
     \<Rightarrow> ((account_id \<times> account_set_id list) list \<times> (account_set_id \<times> currency) list) \<times> bool" where
  "resolve_from_probe snapshot mt journal_id probe_epoch probe_seeds entry_pairs =
     (if probe_seeds = [] then (([], []), False)
      else if gs_epoch snapshot \<noteq> probe_epoch then (walk_mappings_and_lock mt journal_id entry_pairs, True)
      else
        case expand snapshot (load_overlay mt (missing_sets snapshot probe_seeds)) journal_id probe_seeds entry_pairs of
          Some r \<Rightarrow> (r, False)
        | None \<Rightarrow> (walk_mappings_and_lock mt journal_id entry_pairs, False))"

section \<open>The path check of account members\<close>

text \<open>The lookup of \<open>parents_of\<close>: every known set with its parents.\<close>

definition known_parents :: "graph_snapshot \<Rightarrow> overlay option \<Rightarrow> (account_set_id \<times> account_set_id list) list" where
  "known_parents snapshot ov =
     map (\<lambda>(s, _). (s, get_list (map_of (view_parents snapshot ov)) s)) (view_meta snapshot ov)"

definition assert_no_double_membership_in_op ::
  "graph_snapshot \<Rightarrow> membership_tables \<Rightarrow> account_membership list \<Rightarrow> (account_set_error + unit) option \<times> bool" where
  "assert_no_double_membership_in_op snapshot mt members =
     (let probe = probe_direct_memberships mt (sort_dedup (map am_account_id members))
      in if gs_epoch snapshot \<noteq> dmp_epoch probe then (assert_no_double_membership mt members, True)
         else
           let ov = load_overlay mt (missing_sets snapshot (members @ dmp_seeds probe))
           in case has_duplicate_account_membership_paths members (dmp_seeds probe) (known_parents snapshot ov) of
                Some False \<Rightarrow> (Some (Inr ()), False)
              | Some True \<Rightarrow> (Some (Inl MemberAlreadyAdded), False)
              | None \<Rightarrow> (assert_no_double_membership mt members, False))"

section \<open>Validation of set memberships\<close>

text \<open>
  The edges of the components the proposed edges touch. The stack's top is the head of the list;
  the visited sets carry the edges found at each: their parents and their children.
\<close>

function connected_loop ::
  "graph_snapshot \<Rightarrow> account_set_id list \<Rightarrow> set_membership list \<Rightarrow> account_set_id list \<Rightarrow> set_membership list" where
  "connected_loop snapshot visited edges [] = edges"
| "connected_loop snapshot visited edges (s # pending) =
     (if s \<in> set visited then connected_loop snapshot visited edges pending
      else
        let parents = get_list (map_of (gs_parents snapshot)) s;
            kids = get_list (map_of (gs_children snapshot)) s
        in connected_loop snapshot (s # visited)
             (edges @ map (\<lambda>p. \<lparr> sm_account_set_id = p, sm_member_account_set_id = s \<rparr>) parents @
                map (\<lambda>c. \<lparr> sm_account_set_id = s, sm_member_account_set_id = c \<rparr>) kids)
             (rev (parents @ kids) @ pending))"
  by pat_completeness auto
termination
proof (relation "measures
    [\<lambda>(sn, visited, edges, pending). card (fst ` set (gs_parents sn @ gs_children sn) - set visited),
     \<lambda>(sn, visited, edges, pending). length pending]")
  fix sn visited edges and s :: account_set_id and pending and parents kids
  assume new: "s \<notin> set visited" and p: "parents = get_list (map_of (gs_parents sn)) s"
    and c: "kids = get_list (map_of (gs_children sn)) s"
  let ?E = "edges @ map (\<lambda>p. \<lparr> sm_account_set_id = p, sm_member_account_set_id = s \<rparr>) parents @
                map (\<lambda>c. \<lparr> sm_account_set_id = s, sm_member_account_set_id = c \<rparr>) kids"
  let ?K = "fst ` set (gs_parents sn @ gs_children sn)"
  show "((sn, s # visited, ?E, rev (parents @ kids) @ pending), (sn, visited, edges, s # pending)) \<in> measures
    [\<lambda>(sn, visited, edges, pending). card (fst ` set (gs_parents sn @ gs_children sn) - set visited),
     \<lambda>(sn, visited, edges, pending). length pending]"
  proof (cases "s \<in> ?K")
    case True
    then have "?K - set (s # visited) \<subset> ?K - set visited" using new by auto
    then have "card (?K - set (s # visited)) < card (?K - set visited)" by (simp add: psubset_card_mono)
    then show ?thesis by simp
  next
    case False
    then have "map_of (gs_parents sn) s = None" "map_of (gs_children sn) s = None"
      by (auto simp: map_of_eq_None_iff)
    moreover from False have "?K - set (s # visited) = ?K - set visited" by auto
    ultimately show ?thesis by (simp add: p c get_list_def)
  qed
qed auto

text \<open>The edges leave a hash set: \<open>ord\<close> is the order of its iteration.\<close>

definition edges_connected_to ::
  "(set_membership list \<Rightarrow> set_membership list) \<Rightarrow> graph_snapshot \<Rightarrow> set_membership list \<Rightarrow> set_membership list" where
  "edges_connected_to ord snapshot members =
     ord (remdups (connected_loop snapshot [] []
       (rev (concat (map (\<lambda>e. [sm_account_set_id e, sm_member_account_set_id e]) members)))))"

definition assert_valid_set_memberships_in_op ::
  "(set_membership list \<Rightarrow> set_membership list) \<Rightarrow> graph_snapshot \<Rightarrow> membership_tables \<Rightarrow> set_membership list
     \<Rightarrow> (account_set_error + unit) option \<times> bool" where
  "assert_valid_set_memberships_in_op ord snapshot mt members =
     (let epoch = fetch_set_graph_epoch mt;
          hit = gs_epoch snapshot = epoch;
          existing_edges = if hit then edges_connected_to ord snapshot members else fetch_set_membership_edges mt;
          account_members = fetch_affected_account_memberships mt existing_edges members
      in (validate_set_memberships existing_edges members account_members, \<not> hit))"

end
