(* ===== verification/Posting_Repo.thy ===== *)
theory Posting_Repo
  imports Template_Cache Velocity_Store Effective_Store Graph_Cache Entities
begin

text \<open>
  The statements of the posting flow (\<open>posting/repo.rs\<close>): the fence, which takes the locks of a
  batch and reads the template versions, the read of everything a batch needs, the read of its
  ancestors, and the write of transactions, entries, events and balances.

  \<open>ledger_db\<close> is the part of the database the flow touches. Vectors that are pushed in lockstep
  are one list of rows. Aggregated rows are stored as the values they decode to.
\<close>

section \<open>The database\<close>

datatype ('k, 'v) event_row = EventRow (evr_id: 'k) (evr_sequence: int) (evr_type: string) (evr_event: "'v entity_event")

record transaction_row =
  tr_id :: transaction_id
  tr_journal_id :: journal_id
  tr_tx_template_id :: tx_template_id
  tr_external_id :: "string option"
  tr_correlation_id :: string
  tr_effective :: naive_date

record entry_row =
  en_id :: entry_id
  en_journal_id :: journal_id
  en_account_id :: account_id
  en_transaction_id :: transaction_id

record 'd ledger_db =
  db_membership :: membership_tables
  db_contexts :: "account_id \<rightharpoonup> context_account_values"
  db_journals :: "(journal_id, journal_values) version_row list"
  db_templates :: template_tables
  db_account_controls :: "'d account_velocity_control list"
  db_transactions :: "transaction_row list"
  db_transaction_events :: "(transaction_id, transaction_values) event_row list"
  db_entries :: "entry_row list"
  db_entry_events :: "(entry_id, 'd entry_values) event_row list"
  db_balances :: "'d balance_tables"
  db_velocity :: "'d velocity_tables"
  db_effective :: "'d effective_row list"

section \<open>Balance keys\<close>

type_synonym balance_keys = "balance_id list"

definition push_key :: "balance_keys \<Rightarrow> journal_id \<Rightarrow> account_id \<Rightarrow> currency \<Rightarrow> balance_keys" where
  "push_key keys j a c = keys @ [(j, a, c)]"

definition sorted_deduped :: "balance_keys \<Rightarrow> balance_keys" where
  "sorted_deduped keys = map (\<lambda>(a, c, j). (j, a, c)) (sort_dedup (map (\<lambda>(j, a, c). (a, c, j)) keys))"

section \<open>The fence\<close>

record lock_outcome =
  lo_now :: date_time
  lo_template_versions :: "string \<rightharpoonup> tx_template_id \<times> int"

text \<open>The shared lock of an account in the attach fence, and the exclusive lock of a balance.\<close>

datatype advisory_lock = AttachFence account_id | BalanceLock balance_id

definition fence_locks :: "membership_tables \<Rightarrow> balance_keys \<Rightarrow> advisory_lock list" where
  "fence_locks mt keys =
     concat (map (\<lambda>(j, a, c). case mt_accounts mt a of
                      None \<Rightarrow> []
                    | Some acc \<Rightarrow> AttachFence a #
                        (if ac_eventually_consistent acc then [] else [BalanceLock (j, a, c)]))
       (sort_key (\<lambda>(j, a, c). (a, c, j)) keys))"

definition lock_balances_and_probe_templates ::
  "'d ledger_db \<Rightarrow> balance_keys \<Rightarrow> string list \<Rightarrow> date_time option \<Rightarrow> date_time \<Rightarrow> lock_outcome \<times> advisory_lock list" where
  "lock_balances_and_probe_templates db keys codes manual_now transaction_now =
     (\<lparr> lo_now = (case manual_now of Some t \<Rightarrow> t | None \<Rightarrow> transaction_now),
        lo_template_versions =
          foldl (\<lambda>m (code, i, version, _). m(code \<mapsto> (i, version))) Map.empty
            (latest_templates (db_templates db) codes) \<rparr>,
      fence_locks (db_membership db) keys)"

section \<open>Reads\<close>

record account_meta =
  am_locked :: bool
  am_eventually_consistent :: bool
  am_is_account_set :: bool

record 'd posting_state =
  ps_epoch :: int
  ps_seeds :: "account_membership list"
  ps_journals :: "journal_id \<rightharpoonup> journal_values"
  ps_accounts :: "account_id \<rightharpoonup> account_meta"
  ps_balances :: "balance_id \<rightharpoonup> 'd balance_snapshot"
  ps_controls :: "'d controls"

record 'd ancestor_state =
  as_accounts :: "account_id \<rightharpoonup> account_meta"
  as_balances :: "balance_id \<rightharpoonup> 'd balance_snapshot"
  as_controls :: "'d controls"

definition account_meta_of :: "account_row \<Rightarrow> account_meta" where
  "account_meta_of r = \<lparr> am_locked = (ac_status r = Locked),
     am_eventually_consistent = ac_eventually_consistent r, am_is_account_set = ac_is_account_set r \<rparr>"

definition read_accounts :: "membership_tables \<Rightarrow> account_id list \<Rightarrow> (account_id \<rightharpoonup> account_meta)" where
  "read_accounts mt ids = (\<lambda>a. if a \<in> set ids then map_option account_meta_of (mt_accounts mt a) else None)"

definition index_balances :: "'d balance_snapshot list \<Rightarrow> (balance_id \<rightharpoonup> 'd balance_snapshot)" where
  "index_balances snapshots = foldl (\<lambda>m s. m(snapshot_id s \<mapsto> s)) Map.empty snapshots"

definition read_balances :: "'d balance_tables \<Rightarrow> balance_keys \<Rightarrow> (balance_id \<rightharpoonup> 'd balance_snapshot)" where
  "read_balances bt keys =
     index_balances (List.map_filter (\<lambda>k. map_option snd (map_of (bt_current bt) k)) keys)"

definition index_controls ::
  "(account_id \<times> 'd account_velocity_control \<times> context_account_values) list \<Rightarrow> 'd controls" where
  "index_controls rows =
     foldl (\<lambda>out (a, control, context).
        upsert a (\<lambda>old. case old of None \<Rightarrow> (context, [control]) | Some (cx, cs) \<Rightarrow> (cx, cs @ [control])) out)
       [] rows"

definition read_controls :: "'d ledger_db \<Rightarrow> account_id list \<Rightarrow> 'd controls" where
  "read_controls db ids =
     index_controls (List.map_filter (\<lambda>vc.
        if avc_account_id vc \<in> set ids
        then map_option (\<lambda>cx. (avc_account_id vc, vc, cx)) (db_contexts db (avc_account_id vc))
        else None) (db_account_controls db))"

definition read_posting_state ::
  "'d ledger_db \<Rightarrow> account_id list \<Rightarrow> journal_id list \<Rightarrow> balance_keys \<Rightarrow> 'd posting_state" where
  "read_posting_state db account_ids journal_ids keys =
     (let mt = db_membership db
      in \<lparr> ps_epoch = mt_graph_epoch mt,
           ps_seeds = map to_account_membership (filter (\<lambda>r. snd r \<in> set account_ids) (mt_member_accounts mt)),
           ps_journals = (\<lambda>j. if j \<in> set journal_ids
                              then map_option snd (latest (rows_of j (db_journals db))) else None),
           ps_accounts = read_accounts mt account_ids,
           ps_balances = read_balances (db_balances db) keys,
           ps_controls = read_controls db account_ids \<rparr>)"

definition read_ancestor_state ::
  "'d ledger_db \<Rightarrow> account_id list \<Rightarrow> balance_keys \<Rightarrow> 'd ancestor_state" where
  "read_ancestor_state db set_account_ids keys =
     \<lparr> as_accounts = read_accounts (db_membership db) set_account_ids,
       as_balances = read_balances (db_balances db) keys,
       as_controls = read_controls db set_account_ids \<rparr>"

section \<open>Rows to write\<close>

record 'd posting_rows =
  pr_transactions :: "transaction_row list"
  pr_tx_events :: "(transaction_id, transaction_values) event_row list"
  pr_entries :: "entry_row list"
  pr_entry_events :: "(entry_id, 'd entry_values) event_row list"

definition no_rows :: "'d posting_rows" where
  "no_rows = \<lparr> pr_transactions = [], pr_tx_events = [], pr_entries = [], pr_entry_events = [] \<rparr>"

fun event_type :: "'v entity_event \<Rightarrow> string" where
  "event_type (Initialized _) = ''initialized''"
| "event_type (Updated _ _) = ''updated''"

text \<open>\<open>push_initial\<close> keeps the first event and panics without one.\<close>

definition push_initial ::
  "('k, 'v) event_row list \<Rightarrow> 'k \<Rightarrow> 'v entity_event list \<Rightarrow> ('k, 'v) event_row list option" where
  "push_initial rows i events =
     (case events of [] \<Rightarrow> None | e # _ \<Rightarrow> Some (rows @ [EventRow i 1 (event_type e) e]))"

definition push_transaction ::
  "'d posting_rows \<Rightarrow> new_transaction \<Rightarrow> ((transaction_id, transaction_values) entity \<times> 'd posting_rows) option" where
  "push_transaction rows new_tx =
     (let events = [Initialized (new_transaction_values new_tx)]
      in case transaction_try_from_events events of
           Inl _ \<Rightarrow> None
         | Inr transaction \<Rightarrow>
             (let v = ent_values transaction
              in map_option (\<lambda>tx_events.
                   (transaction, rows \<lparr>
                      pr_transactions := pr_transactions rows @
                        [\<lparr> tr_id = tv_id v, tr_journal_id = tv_journal_id v, tr_tx_template_id = tv_tx_template_id v,
                           tr_external_id = tv_external_id v, tr_correlation_id = tv_correlation_id v,
                           tr_effective = tv_effective v \<rparr>],
                      pr_tx_events := tx_events \<rparr>))
                   (push_initial (pr_tx_events rows) (tv_id v) events)))"

definition push_entry ::
  "'d posting_rows \<Rightarrow> 'd new_entry \<Rightarrow> ((entry_id, 'd entry_values) entity \<times> 'd posting_rows) option" where
  "push_entry rows new_entry =
     (case entry_try_from_events [new_entry_values new_entry] of
        Inl _ \<Rightarrow> None
      | Inr entry \<Rightarrow>
          (let v = ent_values entry
           in map_option (\<lambda>entry_events.
                (entry, rows \<lparr>
                   pr_entries := pr_entries rows @
                     [\<lparr> en_id = e_id v, en_journal_id = e_journal_id v, en_account_id = e_account_id v,
                        en_transaction_id = e_transaction_id v \<rparr>],
                   pr_entry_events := entry_events \<rparr>))
                (push_initial (pr_entry_events rows) (e_id v) [Initialized (new_entry_values new_entry)])))"

section \<open>The write\<close>

datatype 'd rejection_reason =
    TxTemplate "'d tx_template_error"
  | AccountNotFound account_id
  | EntryTargetsAccountSet account_id
  | RejectedAccountLocked account_id
  | RejectedJournalLocked journal_id
  | JournalNotFound journal_id
  | DuplicateTransactionIdInBatch transaction_id
  | DuplicateExternalIdInBatch string

datatype 'd posting_error =
    PostSqlx
  | DuplicateKey
  | TxTemplateError "'d tx_template_error"
  | VelocityError "'d velocity_error"
  | AccountSetError account_set_error
  | BalanceError balance_error
  | Rejected nat transaction_id "'d rejection_reason"
  | BatchTooManyAccounts nat nat

definition insert_snapshots :: "'d balance_tables \<Rightarrow> 'd balance_snapshot list \<Rightarrow> 'd posting_error + 'd balance_tables" where
  "insert_snapshots bt snapshots =
     (let new_snapshots = map snapshot_row snapshots;
          history = bt_history bt @ new_snapshots
      in if unique_versions history
         then Inr (bt \<lparr> bt_history := history, bt_current := upsert_current new_snapshots (bt_current bt) \<rparr>)
         else Inl DuplicateKey)"

definition unique_rows :: "'d ledger_db \<Rightarrow> bool" where
  "unique_rows db \<longleftrightarrow>
     distinct (map tr_id (db_transactions db)) \<and>
     distinct (List.map_filter tr_external_id (db_transactions db)) \<and>
     distinct (map (\<lambda>r. (evr_id r, evr_sequence r)) (db_transaction_events db)) \<and>
     distinct (map en_id (db_entries db)) \<and>
     distinct (map (\<lambda>r. (evr_id r, evr_sequence r)) (db_entry_events db))"

text \<open>An entry refers to an account that exists and is no account set; an event to its entity.\<close>

definition references_ok :: "'d ledger_db \<Rightarrow> 'd posting_rows \<Rightarrow> bool" where
  "references_ok db rows \<longleftrightarrow>
     evr_id ` set (pr_tx_events rows) \<subseteq> tr_id ` set (db_transactions db) \<and>
     evr_id ` set (pr_entry_events rows) \<subseteq> en_id ` set (db_entries db) \<and>
     (\<forall>r \<in> set (pr_entries rows). case mt_accounts (db_membership db) (en_account_id r) of
        None \<Rightarrow> False | Some acc \<Rightarrow> \<not> ac_is_account_set acc)"

definition insert_postings_and_balances ::
  "'d ledger_db \<Rightarrow> 'd posting_rows \<Rightarrow> 'd balance_snapshot list \<Rightarrow> 'd posting_error + 'd ledger_db" where
  "insert_postings_and_balances db rows snapshots =
     (let head = take INSERT_SNAPSHOT_BATCH_SIZE snapshots;
          rest = drop INSERT_SNAPSHOT_BATCH_SIZE snapshots;
          db = db \<lparr> db_transactions := db_transactions db @ pr_transactions rows,
                    db_transaction_events := db_transaction_events db @ pr_tx_events rows,
                    db_entries := db_entries db @ pr_entries rows,
                    db_entry_events := db_entry_events db @ pr_entry_events rows \<rparr>
      in if \<not> unique_rows db then Inl DuplicateKey
         else rbind (insert_snapshots (db_balances db) head) (\<lambda>bt.
                if \<not> references_ok db rows then Inl PostSqlx
                else rbind (rfold insert_snapshots bt (chunks INSERT_SNAPSHOT_BATCH_SIZE rest)) (\<lambda>bt.
                       Inr (db \<lparr> db_balances := bt \<rparr>))))"

end
