(* ===== verification/Posting.thy ===== *)
theory Posting imports Posting_Repo begin

text \<open>
  The posting flow (\<open>posting/mod.rs\<close>): a batch of transactions is prepared from its templates,
  its balances are locked, everything it needs is read, every posting is validated, the ancestor
  sets are resolved, the balances are folded, velocity limits are enforced, and only then are the
  rows written, the effective balances updated and the events published.

  \<open>posting_env\<close> is what comes from outside: CEL with the fresh entry ids and the clock of every
  preparation (attempt and index), the transaction's timestamp, and the order of the hash sets.
  \<open>None\<close> is a panic.
\<close>

section \<open>Inputs\<close>

record 'd posting_input =
  pi_tx_id :: transaction_id
  pi_tx_template_code :: string
  pi_params :: "'d params"

record 'd posting_env =
  pn_prepare :: "nat \<Rightarrow> nat \<Rightarrow> 'd prep_env"
  pn_clock :: "nat \<Rightarrow> nat \<Rightarrow> date_time"
  pn_lib :: "'d cel_lib"
  pn_velocity :: "'d velocity_env"
  pn_manual_now :: "date_time option"
  pn_transaction_now :: date_time
  pn_pair_order :: "(account_id \<times> currency) list \<Rightarrow> (account_id \<times> currency) list"

definition MAX_DISTINCT_BALANCES_PER_BATCH :: nat where
  "MAX_DISTINCT_BALANCES_PER_BATCH = 1000"

text \<open>Every entry of a batch pushes its key.\<close>

definition push_entry_key :: "balance_keys \<Rightarrow> 'd prepared_transaction \<Rightarrow> balance_keys" where
  "push_entry_key keys p =
     foldl (\<lambda>keys e. push_key keys (pt_journal_id p) (ne_account_id e) (ne_currency e)) keys (pt_entries p)"

definition entry_balance_keys :: "'d prepared_transaction list \<Rightarrow> balance_keys" where
  "entry_balance_keys prepared = sorted_deduped (foldl push_entry_key [] prepared)"

section \<open>Preparation\<close>

type_synonym 'd preparation = "'d prepared_transaction list \<times> transaction_id set \<times> string set"

definition prepare_one ::
  "(nat \<Rightarrow> 'd prep_env) \<Rightarrow> (nat \<Rightarrow> date_time) \<Rightarrow> (string \<times> resolved_template) list
     \<Rightarrow> 'd::linordered_ab_group_add preparation \<Rightarrow> nat \<times> 'd posting_input
     \<Rightarrow> ('d posting_error + 'd preparation) option" where
  "prepare_one pe clock templates = (\<lambda>(prepared, seen_ids, seen_external) (index, input).
     (let rejected = (\<lambda>reason. Some (Inl (Rejected index (pi_tx_id input) reason)))
      in case map_of templates (pi_tx_template_code input) of
           None \<Rightarrow> None
         | Some template \<Rightarrow>
             (case prepare_transaction (pe index) (clock index) (pi_tx_id input) (rt_values template) (pi_params input) of
                Inl e \<Rightarrow> rejected (TxTemplate e)
              | Inr posting \<Rightarrow>
                  if pt_tx_id posting \<in> seen_ids then rejected (DuplicateTransactionIdInBatch (pt_tx_id posting))
                  else
                    (let done = (prepared @ [posting], insert (pt_tx_id posting) seen_ids)
                     in case pt_external_id posting of
                          None \<Rightarrow> Some (Inr (fst done, snd done, seen_external))
                        | Some external_id \<Rightarrow>
                            if external_id \<in> seen_external
                            then rejected (DuplicateExternalIdInBatch external_id)
                            else Some (Inr (fst done, snd done, insert external_id seen_external))))))"

definition prepare_all ::
  "'d::linordered_ab_group_add posting_env \<Rightarrow> nat \<Rightarrow> 'd posting_input list \<Rightarrow> (string \<times> resolved_template) list
     \<Rightarrow> ('d posting_error + 'd prepared_transaction list) option" where
  "prepare_all env attempt batch templates =
     pbind (pfold (prepare_one (pn_prepare env attempt) (pn_clock env attempt) templates) ([], {}, {})
              (enumerate 0 batch))
       (\<lambda>(prepared, _, _). Some (Inr prepared))"

section \<open>Validation\<close>

definition validate_entry_account ::
  "'d posting_state \<Rightarrow> 'd new_entry \<Rightarrow> 'd rejection_reason + unit" where
  "validate_entry_account read entry =
     (let account_id = ne_account_id entry
      in case ps_accounts read account_id of
           None \<Rightarrow> Inl (AccountNotFound account_id)
         | Some meta \<Rightarrow>
             if am_is_account_set meta then Inl (EntryTargetsAccountSet account_id)
             else if am_locked meta then Inl (RejectedAccountLocked account_id)
             else Inr ())"

definition validate_posting ::
  "'d posting_state \<Rightarrow> 'd prepared_transaction \<Rightarrow> 'd rejection_reason + unit" where
  "validate_posting read posting =
     rbind (case ps_journals read (pt_journal_id posting) of
              None \<Rightarrow> Inl (JournalNotFound (pt_journal_id posting))
            | Some journal \<Rightarrow>
                if jv_status journal = Locked then Inl (RejectedJournalLocked (pt_journal_id posting)) else Inr ())
       (\<lambda>_. rfold (\<lambda>_ entry. validate_entry_account read entry) () (pt_entries posting))"

definition validate ::
  "'d posting_input list \<Rightarrow> 'd prepared_transaction list \<Rightarrow> 'd posting_state \<Rightarrow> 'd posting_error + unit" where
  "validate batch prepared read =
     rfold (\<lambda>_ (index, posting).
        map_err (Rejected index (pi_tx_id (batch ! index))) (validate_posting read posting)) ()
       (enumerate 0 prepared)"

section \<open>Ancestors\<close>

definition journals_of :: "'d prepared_transaction list \<Rightarrow> journal_id list" where
  "journals_of prepared = sort_dedup (map pt_journal_id prepared)"

definition entries_in :: "'d prepared_transaction list \<Rightarrow> journal_id \<Rightarrow> 'd new_entry list" where
  "entries_in prepared j = concat (map pt_entries (filter (\<lambda>p. pt_journal_id p = j) prepared))"

text \<open>
  What the loop over the journals accumulates: the mappings, the ancestor keys and ids, and the
  locks taken on resolved ancestors.
\<close>

record resolution =
  rs_mappings :: ancestor_mappings
  rs_keys :: balance_keys
  rs_ids :: "account_id list"
  rs_locks :: "advisory_lock list"

definition resolve_journal ::
  "((account_id \<times> currency) list \<Rightarrow> (account_id \<times> currency) list) \<Rightarrow> graph_snapshot \<Rightarrow> membership_tables
     \<Rightarrow> 'd posting_state \<Rightarrow> 'd prepared_transaction list \<Rightarrow> resolution \<Rightarrow> journal_id \<Rightarrow> resolution" where
  "resolve_journal pair_order snapshot mt read prepared r j =
     (let entries = entries_in prepared j;
          entry_pairs = pair_order (remdups (map (\<lambda>e. (ne_account_id e, ne_currency e)) entries))
      in if entry_pairs = [] then r
         else
           let (resolved, locked) = fst (resolve_from_probe snapshot mt j (ps_epoch read) (ps_seeds read) entry_pairs);
               ancestors = concat (map (\<lambda>e. map (\<lambda>s. (account_of_set s, ne_currency e))
                              (get_list (map_of resolved) (ne_account_id e))) entries);
               per_journal = (case rs_mappings r j of None \<Rightarrow> Map.empty | Some m \<Rightarrow> m)
           in r \<lparr> rs_mappings := (rs_mappings r)
                    (j \<mapsto> foldl (\<lambda>m (a, sets). m(a \<mapsto> get_list m a @ sets)) per_journal resolved),
                  rs_keys := foldl (\<lambda>keys (a, c). push_key keys j a c) (rs_keys r) ancestors,
                  rs_ids := rs_ids r @ map fst ancestors,
                  rs_locks := rs_locks r @ map (\<lambda>(s, c). BalanceLock (j, account_of_set s, c)) locked \<rparr>)"

definition first_locked :: "(account_id \<rightharpoonup> account_meta) \<Rightarrow> account_id list \<Rightarrow> account_id option" where
  "first_locked accounts ids =
     List.find (\<lambda>a. case accounts a of Some meta \<Rightarrow> am_locked meta | None \<Rightarrow> False) ids"

definition merge_ancestors :: "'d posting_state \<Rightarrow> 'd ancestor_state \<Rightarrow> 'd posting_state" where
  "merge_ancestors read supplemental =
     read \<lparr> ps_accounts := ps_accounts read ++ as_accounts supplemental,
            ps_balances := ps_balances read ++ as_balances supplemental,
            ps_controls := extend_map (ps_controls read) (as_controls supplemental) \<rparr>"

definition no_resolution :: resolution where
  "no_resolution = \<lparr> rs_mappings = Map.empty, rs_keys = [], rs_ids = [], rs_locks = [] \<rparr>"

definition resolve_ancestors ::
  "'d posting_env \<Rightarrow> graph_snapshot \<Rightarrow> 'd ledger_db \<Rightarrow> 'd prepared_transaction list \<Rightarrow> 'd posting_state
     \<Rightarrow> 'd posting_error + ancestor_mappings \<times> 'd posting_state \<times> advisory_lock list" where
  "resolve_ancestors env snapshot db prepared read =
     (if ps_seeds read = [] then Inr (Map.empty, read, [])
      else
        let r = foldl (resolve_journal (pn_pair_order env) snapshot (db_membership db) read prepared)
                  no_resolution (journals_of prepared)
        in if rs_keys r = [] then Inr (rs_mappings r, read, rs_locks r)
           else
             let ids = sort_dedup (rs_ids r);
                 read = merge_ancestors read (read_ancestor_state db ids (sorted_deduped (rs_keys r)))
             in case first_locked (ps_accounts read) ids of
                  Some a \<Rightarrow> Inl (BalanceError (AccountLocked a))
                | None \<Rightarrow> Inr (rs_mappings r, read, rs_locks r))"

section \<open>The fold\<close>

text \<open>A posting is its transaction with the values of its entries.\<close>

type_synonym 'd posting = "transaction_values \<times> 'd entry_values list"

definition journal_entries :: "'d posting list \<Rightarrow> journal_id \<Rightarrow> 'd entry_values list" where
  "journal_entries postings j = concat (map snd (filter (\<lambda>(tx, _). tv_journal_id tx = j) postings))"

definition journal_mappings :: "ancestor_mappings \<Rightarrow> journal_id \<Rightarrow> (account_id \<rightharpoonup> account_set_id list)" where
  "journal_mappings mappings j = (case mappings j of None \<Rightarrow> Map.empty | Some m \<Rightarrow> m)"

definition touched :: "(account_id \<rightharpoonup> account_set_id list) \<Rightarrow> 'd entry_values \<Rightarrow> account_id list" where
  "touched mappings entry = map account_of_set (get_list mappings (e_account_id entry)) @ [e_account_id entry]"

definition involved :: "'d posting_state \<Rightarrow> account_id \<Rightarrow> bool" where
  "involved read a \<longleftrightarrow> (case ps_accounts read a of Some meta \<Rightarrow> \<not> am_eventually_consistent meta | None \<Rightarrow> False)"

text \<open>\<open>or_insert_with\<close>: a pair is loaded once, before anything of the batch is folded.\<close>

definition load_current ::
  "'d posting_state \<Rightarrow> journal_id \<Rightarrow> (account_id \<rightharpoonup> account_set_id list) \<Rightarrow> 'd entry_values list
     \<Rightarrow> (account_id \<times> currency \<rightharpoonup> 'd balance_snapshot option)" where
  "load_current read j mappings entries =
     foldl (\<lambda>current entry.
        foldl (\<lambda>current a.
           if \<not> involved read a \<or> current (a, e_currency entry) \<noteq> None then current
           else current((a, e_currency entry) \<mapsto> ps_balances read (j, a, e_currency entry)))
          current (touched mappings entry))
       Map.empty entries"

definition fold_journal ::
  "'d posting_state \<Rightarrow> ancestor_mappings \<Rightarrow> date_time \<Rightarrow> 'd::linordered_ab_group_add posting list
     \<Rightarrow> journal_id \<Rightarrow> 'd balance_snapshot list" where
  "fold_journal read mappings now postings j =
     (let mappings = journal_mappings mappings j;
          entries = journal_entries postings j
      in if entries = [] then []
         else from_entries now (load_current read j mappings entries) entries mappings)"

definition fold_balances ::
  "'d::linordered_ab_group_add posting list \<Rightarrow> 'd posting_state \<Rightarrow> ancestor_mappings \<Rightarrow> date_time
     \<Rightarrow> 'd balance_snapshot list" where
  "fold_balances postings read mappings now =
     concat (map (fold_journal read mappings now postings)
       (sort_dedup (map (tv_journal_id \<circ> fst) postings)))"

section \<open>Effective balances\<close>

text \<open>One group per journal and effective date, in that order.\<close>

definition effective_groups ::
  "'d posting_state \<Rightarrow> 'd posting list \<Rightarrow> ((journal_id \<times> naive_date) \<times> 'd entry_values list) list" where
  "effective_groups read postings =
     sort_key fst (foldl (\<lambda>groups (tx, entries).
        if case ps_journals read (tv_journal_id tx) of
             Some journal \<Rightarrow> jc_enable_effective_balances (jv_config journal) | None \<Rightarrow> False
        then upsert (tv_journal_id tx, tv_effective tx)
               (\<lambda>group. case group of None \<Rightarrow> entries | Some es \<Rightarrow> es @ entries) groups
        else groups) [] postings)"

definition involved_pairs ::
  "'d posting_state \<Rightarrow> (account_id \<rightharpoonup> account_set_id list) \<Rightarrow> 'd entry_values list \<Rightarrow> (account_id \<times> currency) list" where
  "involved_pairs read mappings entries =
     remdups (filter (\<lambda>(a, c). involved read a)
       (concat (map (\<lambda>entry. map (\<lambda>a. (a, e_currency entry)) (touched mappings entry)) entries)))"

definition update_group ::
  "'d::linordered_ab_group_add posting_env \<Rightarrow> membership_tables \<Rightarrow> 'd posting_state \<Rightarrow> ancestor_mappings \<Rightarrow> date_time
     \<Rightarrow> 'd effective_row list \<Rightarrow> (journal_id \<times> naive_date) \<times> 'd entry_values list
     \<Rightarrow> ('d posting_error + 'd effective_row list) option" where
  "update_group env mt read mappings now rows = (\<lambda>((j, effective), entries).
     (let mappings = journal_mappings mappings j;
          pairs = pn_pair_order env (involved_pairs read mappings entries)
      in if pairs = [] then Some (Inr rows)
         else map_option (map_err BalanceError)
                (update_cumulative_balances_in_op mt rows j entries effective now mappings pairs)))"

definition update_effective_balances ::
  "'d::linordered_ab_group_add posting_env \<Rightarrow> 'd ledger_db \<Rightarrow> 'd posting list \<Rightarrow> 'd posting_state
     \<Rightarrow> ancestor_mappings \<Rightarrow> date_time \<Rightarrow> ('d posting_error + 'd ledger_db) option" where
  "update_effective_balances env db postings read mappings now =
     pbind (pfold (update_group env (db_membership db) read mappings now) (db_effective db)
              (effective_groups read postings))
       (\<lambda>rows. Some (Inr (db \<lparr> db_effective := rows \<rparr>)))"

section \<open>The flow\<close>

datatype 'd posting_event = TransactionCreated transaction_values | EntryCreated "'d entry_values"

record 'd posted =
  pd_db :: "'d ledger_db"
  pd_transactions :: "(transaction_id, transaction_values) entity list"
  pd_events :: "'d posting_event list"
  pd_locks :: "advisory_lock list"

record 'd fenced =
  fn_prepared :: "'d prepared_transaction list"
  fn_keys :: balance_keys
  fn_now :: date_time
  fn_locks :: "advisory_lock list"

text \<open>
  Preparation and the fence. A template that moved in between is refreshed, the batch is prepared
  again and the locks of its new keys are taken; the timestamp stays that of the first statement.
\<close>

definition fence ::
  "'d::linordered_ab_group_add posting_env \<Rightarrow> 'd ledger_db \<Rightarrow> template_cache \<Rightarrow> 'd posting_input list
     \<Rightarrow> string list \<Rightarrow> (string \<times> resolved_template) list \<Rightarrow> 'd prepared_transaction list
     \<Rightarrow> template_cache \<times> ('d posting_error + 'd fenced) option" where
  "fence env db cache batch codes used prepared =
     (let keys = entry_balance_keys prepared;
          lock = (\<lambda>keys codes. lock_balances_and_probe_templates db keys codes (pn_manual_now env) (pn_transaction_now env))
      in if length keys > MAX_DISTINCT_BALANCES_PER_BATCH
         then (cache, Some (Inl (BatchTooManyAccounts (length keys) MAX_DISTINCT_BALANCES_PER_BATCH)))
         else
           let (locked, locks) = lock keys codes
           in case assert_up_to_date used (lo_template_versions locked) of
                Inr _ \<Rightarrow> (cache, Some (Inr \<lparr> fn_prepared = prepared, fn_keys = keys, fn_now = lo_now locked, fn_locks = locks \<rparr>))
              | Inl stale \<Rightarrow>
                  (case refresh_in_op (db_templates db) cache stale of
                     Inl e \<Rightarrow> (cache, Some (Inl (TxTemplateError e)))
                   | Inr (refreshed, cache) \<Rightarrow>
                       (cache, pbind (prepare_all env 1 batch (extend_map used refreshed)) (\<lambda>prepared.
                          let new_keys = entry_balance_keys prepared
                          in Some (Inr \<lparr> fn_prepared = prepared, fn_keys = new_keys, fn_now = lo_now locked,
                                        fn_locks = locks @ snd (lock new_keys []) \<rparr>)))))"

definition push_posting ::
  "'d posting_rows \<times> (transaction_id, transaction_values) entity list \<times> 'd posting list
     \<Rightarrow> new_transaction \<times> 'd new_entry list
     \<Rightarrow> ('d posting_error
        + 'd posting_rows \<times> (transaction_id, transaction_values) entity list \<times> 'd posting list) option" where
  "push_posting = (\<lambda>(rows, hydrated, postings) (new_tx, new_entries).
     pbind (expect (push_transaction rows new_tx)) (\<lambda>(transaction, rows).
       pbind (pfold (\<lambda>(rows, values) n. pbind (expect (push_entry rows n))
                       (\<lambda>(entry, rows). Some (Inr (rows, values @ [ent_values entry])))) (rows, []) new_entries)
         (\<lambda>(rows, values).
            Some (Inr (rows, hydrated @ [transaction], postings @ [(ent_values transaction, values)])))))"

definition posting_payloads :: "'d posting list \<Rightarrow> 'd posting_event list" where
  "posting_payloads postings = concat (map (\<lambda>(tx, values). TransactionCreated tx # map EntryCreated values) postings)"

definition apply_fenced ::
  "'d::linordered_ab_group_add posting_env \<Rightarrow> graph_snapshot \<Rightarrow> 'd ledger_db \<Rightarrow> 'd posting_input list \<Rightarrow> 'd fenced
     \<Rightarrow> ('d posting_error + 'd posted) option" where
  "apply_fenced env snapshot db batch fenced =
     (let prepared = fn_prepared fenced; now = fn_now fenced;
          account_ids = sort_dedup (concat (map (map ne_account_id \<circ> pt_entries) prepared));
          read = read_posting_state db account_ids (journals_of prepared) (fn_keys fenced)
      in pbind (Some (validate batch prepared read)) (\<lambda>_.
         pbind (Some (resolve_ancestors env snapshot db prepared read)) (\<lambda>(mappings, read, ancestor_locks).
         pbind (pfold push_posting (no_rows, [], [])
                  (map (\<lambda>p. into_new_transaction (pn_lib env) p now) prepared)) (\<lambda>(rows, hydrated, postings).
           let snapshots = fold_balances postings read mappings now
           in pbind (map_option (map_err VelocityError)
                 (enforce_batch_in_op (pn_velocity env) (db_velocity db) now postings (ps_controls read) mappings))
                (\<lambda>velocity.
              pbind (Some (insert_postings_and_balances (db \<lparr> db_velocity := velocity \<rparr>) rows snapshots)) (\<lambda>db.
              pbind (update_effective_balances env db postings read mappings now) (\<lambda>db.
                Some (Inr \<lparr> pd_db = db, pd_transactions = hydrated, pd_events = posting_payloads postings,
                            pd_locks = fn_locks fenced @ ancestor_locks \<rparr>)))))))) "

definition post_all_in_op ::
  "'d::linordered_ab_group_add posting_env \<Rightarrow> graph_snapshot \<Rightarrow> template_cache \<Rightarrow> 'd ledger_db
     \<Rightarrow> 'd posting_input list \<Rightarrow> template_cache \<times> ('d posting_error + 'd posted) option" where
  "post_all_in_op env snapshot cache db batch =
     (if batch = []
      then (cache, Some (Inr \<lparr> pd_db = db, pd_transactions = [], pd_events = [], pd_locks = [] \<rparr>))
      else
        let codes = sort_dedup (map pi_tx_template_code batch)
        in case resolve_in_op (db_templates db) cache codes of
             Inl e \<Rightarrow> (cache, Some (Inl (TxTemplateError e)))
           | Inr (used, cache) \<Rightarrow>
               (case prepare_all env 0 batch used of
                  None \<Rightarrow> (cache, None)
                | Some (Inl e) \<Rightarrow> (cache, Some (Inl e))
                | Some (Inr prepared) \<Rightarrow>
                    (let (cache, r) = fence env db cache batch codes used prepared
                     in (cache, pbind r (apply_fenced env snapshot db batch)))))"

end
