(* ===== verification/Posting_Fold.thy ===== *)
theory Posting_Fold imports Posting begin

text \<open>
  What the fold of a posted batch writes for one balance: the chain of the entries that touch it,
  from the balance that was read. The reads, the loading of current balances and the writes in
  sub-batches are reduced to statements about single keys.
\<close>

section \<open>Reading balances\<close>

text \<open>Stored snapshots carry the key of their row.\<close>

definition rows_keyed :: "'d balance_tables \<Rightarrow> bool" where
  "rows_keyed bt \<longleftrightarrow> (\<forall>k v s. map_of (bt_current bt) k = Some (v, s) \<longrightarrow> snapshot_id s = k)"

definition stored :: "'d balance_tables \<Rightarrow> balance_id \<Rightarrow> 'd balance_snapshot option" where
  "stored bt k = map_option snd (map_of (bt_current bt) k)"

lemma store_ok_keyed: "store_ok bt \<Longrightarrow> rows_keyed bt"
  unfolding rows_keyed_def
proof (intro allI impI)
  fix k v s
  assume ok: "store_ok bt" and "map_of (bt_current bt) k = Some (v, s)"
  then have "(v, s) \<in> set (rows_of k (bt_history bt))"
    using store_okD(4)[OF ok, of k] latest_Some[of "rows_of k (bt_history bt)" v s] by simp
  then show "snapshot_id s = k" using store_okD(3)[OF ok] by (auto simp: rows_of_def)
qed

lemma stored_keyed: "rows_keyed bt \<Longrightarrow> stored bt k = Some s \<Longrightarrow> snapshot_id s = k"
  unfolding rows_keyed_def stored_def by (cases k) auto

lemma index_balances_lookup:
  fixes g :: "(balance_id \<rightharpoonup> 'd balance_snapshot) \<Rightarrow> 'd balance_snapshot \<Rightarrow> (balance_id \<rightharpoonup> 'd balance_snapshot)"
  assumes g: "\<And>m s k. g m s k = (if k = snapshot_id s then Some s else m k)"
    and f: "\<And>s. s \<in> set ss \<Longrightarrow> f (snapshot_id s) = Some s"
  shows "foldl g m ss k = (if k \<in> snapshot_id ` set ss then f k else m k)"
  using f
proof (induction ss rule: rev_induct)
  case (snoc s ss)
  have IH: "foldl g m ss k = (if k \<in> snapshot_id ` set ss then f k else m k)"
    using snoc.prems by (intro snoc.IH) simp
  have "f (snapshot_id s) = Some s" using snoc.prems by simp
  moreover have "foldl g m (ss @ [s]) k = (if k = snapshot_id s then Some s else foldl g m ss k)"
    by (simp only: foldl_append foldl_Cons foldl_Nil g)
  ultimately show ?case using IH by auto
qed simp

lemma read_balances_lookup:
  assumes "rows_keyed bt"
  shows "read_balances bt keys k = (if k \<in> set keys then stored bt k else None)"
proof -
  let ?ss = "List.map_filter (stored bt) keys"
  have set: "set ?ss = {s. \<exists>k \<in> set keys. stored bt k = Some s}"
    by (induction keys) (auto simp: List.map_filter_simps split: option.splits)
  then have "stored bt (snapshot_id s) = Some s" if "s \<in> set ?ss" for s
    using that stored_keyed[OF assms] by auto
  then have "foldl (\<lambda>m s. m(snapshot_id s \<mapsto> s)) Map.empty ?ss k = (if k \<in> snapshot_id ` set ?ss then stored bt k else None)"
    by (subst index_balances_lookup[of _ ?ss "stored bt"]) auto
  moreover have "(\<lambda>k. map_option snd (map_of (bt_current bt) k)) = stored bt" by (simp add: stored_def fun_eq_iff)
  ultimately have "read_balances bt keys k = (if k \<in> snapshot_id ` set ?ss then stored bt k else None)"
    by (simp only: read_balances_def index_balances_def)
  moreover have "stored bt k = None" if "k \<in> set keys" "k \<notin> snapshot_id ` set ?ss"
    using that stored_keyed[OF assms, of k] unfolding set by (cases "stored bt k") (auto simp: image_iff)
  moreover have "k \<in> set keys" if "k \<in> snapshot_id ` set ?ss"
    using that stored_keyed[OF assms] unfolding set by auto
  ultimately show ?thesis by auto
qed

section \<open>The fold of a journal\<close>

lemma leaf_posts_touched: "leaf_posts m es = concat (map (\<lambda>e. map (\<lambda>a. (a, e)) (touched m e)) es)"
  by (simp add: leaf_posts_def touched_def comp_def)

lemma leaf_posts_append [simp]: "leaf_posts m (es @ fs) = leaf_posts m es @ leaf_posts m fs"
  by (simp add: leaf_posts_def)

lemma load_posts:
  fixes g :: "(account_id \<times> currency \<rightharpoonup> 'b) \<Rightarrow> account_id \<times> 'd entry_values \<Rightarrow> (account_id \<times> currency \<rightharpoonup> 'b)"
  assumes g: "\<And>cur a e k. g cur (a, e) k =
    (if involved read a \<and> cur (a, e_currency e) = None \<and> k = (a, e_currency e) then Some (f k) else cur k)"
  shows "foldl g cur posts k =
    (if cur k \<noteq> None then cur k else if involved read (fst k) \<and> posts_on k posts \<noteq> [] then Some (f k) else None)"
proof (induction posts arbitrary: cur)
  case (Cons p posts)
  obtain a e where p: "p = (a, e)" by fastforce
  show ?case unfolding p foldl_Cons Cons.IH[of "g cur (a, e)"] g[of cur a e k] by auto
qed simp

lemma foldl_concat_map: "foldl (\<lambda>s x. foldl f s (h x)) s xs = foldl f s (concat (map h xs))"
  by (induction xs arbitrary: s) simp_all

lemma load_current_lookup:
  "load_current read j m es (a, c) =
     (if involved read a \<and> posts_on (a, c) (leaf_posts m es) \<noteq> [] then Some (ps_balances read (j, a, c)) else None)"
proof -
  let ?step = "\<lambda>cur (a, e). if \<not> involved read a \<or> cur (a, e_currency e) \<noteq> None then cur
                 else cur((a, e_currency e) \<mapsto> ps_balances read (j, a, e_currency e))"
  have inner: "foldl (\<lambda>current a. if \<not> involved read a \<or> current (a, e_currency e) \<noteq> None then current
        else current((a, e_currency e) \<mapsto> ps_balances read (j, a, e_currency e))) cur as =
      foldl ?step cur (map (\<lambda>a. (a, e)) as)" for cur e as
    by (induction as arbitrary: cur) simp_all
  have "load_current read j m es = foldl ?step Map.empty (leaf_posts m es)"
    unfolding load_current_def inner leaf_posts_touched by (rule foldl_concat_map)
  moreover have "foldl ?step Map.empty (leaf_posts m es) (a, c) =
      (if involved read a \<and> posts_on (a, c) (leaf_posts m es) \<noteq> [] then Some (ps_balances read (j, a, c)) else None)"
    by (subst load_posts[where read = read and f = "\<lambda>k. ps_balances read (j, k)"]) auto
  ultimately show ?thesis by simp
qed

definition read_keyed :: "'d posting_state \<Rightarrow> bool" where
  "read_keyed read \<longleftrightarrow> (\<forall>k s. ps_balances read k = Some s \<longrightarrow> snapshot_id s = k)"

text \<open>The entries of the batch that post on an account in a journal and currency, in order.\<close>

definition batch_posts ::
  "ancestor_mappings \<Rightarrow> 'd posting list \<Rightarrow> balance_id \<Rightarrow> 'd entry_values list" where
  "batch_posts mappings postings = (\<lambda>(j, k).
     posts_on k (leaf_posts (journal_mappings mappings j) (journal_entries postings j)))"

lemma chain_journal:
  assumes "x \<in> set (chain (next_snapshot t a) base es)"
    and "\<And>b. base = Some b \<Longrightarrow> bs_journal_id b = j" and "\<And>e. e \<in> set es \<Longrightarrow> e_journal_id e = j"
  shows "bs_journal_id x = j"
  using assms
proof (induction es arbitrary: base)
  case (Cons e es)
  have "bs_journal_id (next_snapshot t a base e) = j"
    using Cons.prems(2,3) by (auto simp: next_snapshot_def split: option.split)
  then show ?case using Cons by auto
qed simp

lemma fold_journal_by_key:
  assumes "read_keyed read"
  shows "filter (\<lambda>s. snapshot_key s = (a, c)) (fold_journal read mappings now ps j) =
    (if involved read a
     then chain (next_snapshot now a) (ps_balances read (j, a, c)) (batch_posts mappings ps (j, a, c)) else [])"
proof -
  let ?m = "journal_mappings mappings j" and ?es = "journal_entries ps j"
  have keyed: "keyed (load_current read j ?m ?es)"
    unfolding keyed_def
  proof (intro allI impI)
    fix k s
    assume "load_current read j ?m ?es k = Some (Some s)"
    then have "ps_balances read (j, k) = Some s"
      by (cases k) (simp add: load_current_lookup split: if_splits)
    then have "snapshot_id s = (j, k)" using assms unfolding read_keyed_def by blast
    then show "snapshot_key s = k" by (cases k) (simp add: snapshot_id_def snapshot_key_def)
  qed
  show ?thesis
  proof (cases "?es = []")
    case True
    then show ?thesis by (simp add: fold_journal_def batch_posts_def leaf_posts_def)
  next
    case False
    then show ?thesis
      using into_snapshots_by_key[OF keyed, of "(a, c)" now "leaf_posts ?m ?es"]
      by (auto simp: fold_journal_def Let_def from_entries_posts key_written_def load_current_lookup batch_posts_def)
  qed
qed

lemma fold_journal_journal:
  assumes "read_keyed read" and "\<And>e. e \<in> set (journal_entries ps j) \<Longrightarrow> e_journal_id e = j"
    and s: "s \<in> set (fold_journal read mappings now ps j)"
  shows "bs_journal_id s = j"
proof -
  obtain a c where k: "snapshot_key s = (a, c)" by fastforce
  then have "s \<in> set (filter (\<lambda>s. snapshot_key s = (a, c)) (fold_journal read mappings now ps j))" using s by simp
  then have "s \<in> set (chain (next_snapshot now a) (ps_balances read (j, a, c)) (batch_posts mappings ps (j, a, c)))"
    unfolding fold_journal_by_key[OF assms(1)] by (simp split: if_splits)
  then show ?thesis
  proof (rule chain_journal)
    show "\<And>b. ps_balances read (j, a, c) = Some b \<Longrightarrow> bs_journal_id b = j"
      using assms(1) by (auto simp: read_keyed_def snapshot_id_def)
    show "e_journal_id e = j" if "e \<in> set (batch_posts mappings ps (j, a, c))" for e
      using that assms(2) by (auto simp: batch_posts_def set_posts_on leaf_posts_touched)
  qed
qed

lemma concat_single:
  assumes "distinct xs" and "\<And>x. x \<in> set xs \<Longrightarrow> x \<noteq> y \<Longrightarrow> g x = []"
  shows "concat (map g xs) = (if y \<in> set xs then g y else [])"
  using assms by (induction xs) auto

text \<open>The fold of a batch, seen from one balance.\<close>

lemma fold_balances_by_id:
  assumes "read_keyed read" and "\<And>tx es e. (tx, es) \<in> set ps \<Longrightarrow> e \<in> set es \<Longrightarrow> e_journal_id e = tv_journal_id tx"
  shows "filter (\<lambda>s. snapshot_id s = (j, a, c)) (fold_balances ps read mappings now) =
    (if involved read a
     then chain (next_snapshot now a) (ps_balances read (j, a, c)) (batch_posts mappings ps (j, a, c)) else [])"
proof -
  let ?js = "sort_dedup (map (tv_journal_id \<circ> fst) ps)"
  let ?f = "\<lambda>i. filter (\<lambda>s. snapshot_id s = (j, a, c)) (fold_journal read mappings now ps i)"
  have journal: "bs_journal_id s = i" if "s \<in> set (fold_journal read mappings now ps i)" for s i
    using that by (intro fold_journal_journal[OF assms(1), of ps i]) (auto simp: journal_entries_def assms(2))
  have other: "?f i = []" if "i \<noteq> j" for i
    using journal that by (auto simp: filter_empty_conv snapshot_id_def)
  have same: "?f j = filter (\<lambda>s. snapshot_key s = (a, c)) (fold_journal read mappings now ps j)"
    by (rule filter_cong) (use journal in \<open>auto simp: snapshot_id_def snapshot_key_def\<close>)
  have "filter (\<lambda>s. snapshot_id s = (j, a, c)) (fold_balances ps read mappings now) = concat (map ?f ?js)"
    by (simp add: fold_balances_def filter_concat comp_def)
  also have "\<dots> = (if j \<in> set ?js then ?f j else [])" by (rule concat_single) (use other in auto)
  also have "\<dots> = ?f j"
  proof (cases "j \<in> set ?js")
    case False
    then have "journal_entries ps j = []" by (force simp: journal_entries_def)
    then show ?thesis using False by (simp add: fold_journal_def)
  qed simp
  finally show ?thesis unfolding same fold_journal_by_key[OF assms(1)] .
qed

section \<open>Writing in sub-batches\<close>

interpretation posting_store: versioned_store insert_snapshots bt_history "\<lambda>bt. map_of (bt_current bt)"
    snapshot_row "\<lambda>_ _. True"
  by unfold_locales (auto simp: insert_snapshots_def Let_def split: if_splits)

lemma insert_snapshots_chunk:
  "insert_snapshots bt rows = Inr bt' \<longleftrightarrow> insert_chunk bt rows = Inr bt'"
  by (simp add: insert_snapshots_def insert_chunk_def Let_def)

lemma insert_snapshots_ok: "insert_snapshots bt rows = Inr bt' \<Longrightarrow> store_ok bt \<Longrightarrow> store_ok bt'"
  unfolding insert_snapshots_chunk by (rule insert_chunk_ok)

lemma rows_of_snapshots:
  "rows_of k (map snapshot_row ss) = map (\<lambda>s. (as_i32 (bs_version s), s)) (filter (\<lambda>s. snapshot_id s = k) ss)"
  by (induction ss) (auto simp: rows_of_def snapshot_row_def)

text \<open>The write statement touches the balances only through its snapshots.\<close>

lemma insert_postings_inserts:
  assumes "insert_postings_and_balances db rows snapshots = Inr db'" and "store_ok (db_balances db)"
  shows "store_ok (db_balances db')"
    and "bt_history (db_balances db') = bt_history (db_balances db) @ map snapshot_row snapshots"
    and "db_transactions db' = db_transactions db @ pr_transactions rows"
    and "db_transaction_events db' = db_transaction_events db @ pr_tx_events rows"
    and "db_entries db' = db_entries db @ pr_entries rows"
    and "db_entry_events db' = db_entry_events db @ pr_entry_events rows"
    and "db_membership db' = db_membership db" and "db_effective db' = db_effective db"
    and "db_velocity db' = db_velocity db"
proof -
  let ?head = "take INSERT_SNAPSHOT_BATCH_SIZE snapshots" and ?rest = "drop INSERT_SNAPSHOT_BATCH_SIZE snapshots"
  from assms(1) obtain bt bt' where
    head: "insert_snapshots (db_balances db) ?head = Inr bt" and
    rest: "rfold insert_snapshots bt (chunks INSERT_SNAPSHOT_BATCH_SIZE ?rest) = Inr bt'" and
    db': "db' = db \<lparr> db_transactions := db_transactions db @ pr_transactions rows,
            db_transaction_events := db_transaction_events db @ pr_tx_events rows,
            db_entries := db_entries db @ pr_entries rows,
            db_entry_events := db_entry_events db @ pr_entry_events rows, db_balances := bt' \<rparr>"
    by (auto simp: insert_postings_and_balances_def Let_def rbind_Inr_iff split: if_splits)
  have "store_ok bt" by (rule insert_snapshots_ok[OF head assms(2)])
  then have "store_ok bt'" by (rule rfold_invariant[where P = store_ok, OF rest]) (rule insert_snapshots_ok)
  then show "store_ok (db_balances db')" by (simp add: db')
  have "0 < INSERT_SNAPSHOT_BATCH_SIZE" by (simp add: INSERT_SNAPSHOT_BATCH_SIZE_def)
  then have "concat (chunks INSERT_SNAPSHOT_BATCH_SIZE ?rest) = ?rest" by (rule concat_chunks)
  then have "bt_history bt' = bt_history bt @ map snapshot_row ?rest"
    using posting_store.batches_hist[OF rest] by simp
  then show "bt_history (db_balances db') = bt_history (db_balances db) @ map snapshot_row snapshots"
    using posting_store.ins_hist[OF head] by (simp add: db' flip: map_append)
qed (use assms(1) in \<open>auto simp: insert_postings_and_balances_def Let_def rbind_Inr_iff split: if_splits\<close>)

lemma stored_latest: "store_ok bt \<Longrightarrow> stored bt k = map_option snd (latest (rows_of k (bt_history bt)))"
  using store_okD(4)[of bt k] by (simp add: stored_def)

end
