(* ===== verification/Hierarchy.thy ===== *)
theory Hierarchy imports Graph_Theorems Graph_Cache begin

text \<open>
  What it takes for the membership tables to be a sound hierarchy, stated over the relation of
  the set-to-set edges, and the two facts every membership operation rests on: the in-memory
  path count and the counting SQL walk both decide whether the ancestors of an account's direct
  sets are disjoint, and validating new edges against the part of the graph they touch decides
  the soundness of the whole.
\<close>

section \<open>Sound relations\<close>

definition up :: "('a \<times> 'a) set \<Rightarrow> 'a \<Rightarrow> 'a set" where
  "up R x = {a. (a, x) \<in> R\<^sup>*}"

definition no_diamond :: "('a \<times> 'a) set \<Rightarrow> bool" where
  "no_diamond R \<longleftrightarrow> (\<forall>p p' x. (p, x) \<in> R \<longrightarrow> (p', x) \<in> R \<longrightarrow> p \<noteq> p' \<longrightarrow> up R p \<inter> up R p' = {})"

definition sound_rel :: "('a \<times> 'a) set \<Rightarrow> bool" where
  "sound_rel R \<longleftrightarrow> acyclic R \<and> no_diamond R \<and> R ^^ 17 = {}"

lemma ups_up: "ups es = up (edge_rel es)"
  by (simp add: ups_def up_def fun_eq_iff)

lemma self_up [simp]: "x \<in> up R x"
  by (simp add: up_def)

lemma up_ne [simp]: "up R x \<noteq> {}"
  by (metis empty_iff self_up)

lemma up_unfold: "up R x = insert x (\<Union>(up R ` {p. (p, x) \<in> R}))"
  by (auto simp: up_def elim: rtranclE intro: rtrancl_into_rtrancl)

lemma up_step: "(p, x) \<in> R \<Longrightarrow> up R p \<subseteq> up R x"
  by (auto simp: up_def)

lemma acyclic_not_up: "acyclic R \<Longrightarrow> (p, x) \<in> R \<Longrightarrow> x \<notin> up R p"
  by (auto simp: up_def acyclic_def dest: rtrancl_into_trancl1)

lemma up_mono: "R \<subseteq> S \<Longrightarrow> up R x \<subseteq> up S x"
  using rtrancl_mono[of R S] by (auto simp: up_def)

lemma no_diamond_mono: "R \<subseteq> S \<Longrightarrow> no_diamond S \<Longrightarrow> no_diamond R"
  unfolding no_diamond_def using up_mono[of R S] by (meson disjoint_iff subsetD)

lemma sound_rel_mono:
  assumes "R \<subseteq> S" and "sound_rel S"
  shows "sound_rel R"
  using assms no_diamond_mono[of R S] acyclic_subset[of S R] relpow_subset[of R S 17] by (auto simp: sound_rel_def)

text \<open>The list-based notions of the validator, over its relation.\<close>

lemma disjoint_parents_rel:
  "disjoint_parents es \<longleftrightarrow> distinct es \<and> no_diamond (edge_rel es)"
proof
  assume d: "disjoint_parents es"
  have pair: "i = j" if "i < length es" "j < length es"
    "sm_member_account_set_id (es ! i) = sm_member_account_set_id (es ! j)"
    "up (edge_rel es) (sm_account_set_id (es ! i)) \<inter> up (edge_rel es) (sm_account_set_id (es ! j)) \<noteq> {}" for i j
    using d that unfolding disjoint_parents_def ups_up by blast
  have "distinct es"
    unfolding distinct_conv_nth
  proof (intro allI impI notI)
    fix i j assume "i < length es" "j < length es" "i \<noteq> j" "es ! i = es ! j"
    with pair[of i j] show False by simp
  qed
  moreover have "no_diamond (edge_rel es)"
    unfolding no_diamond_def edge_rel_nth using pair by metis
  ultimately show "distinct es \<and> no_diamond (edge_rel es)" ..
next
  assume d: "distinct es \<and> no_diamond (edge_rel es)"
  show "disjoint_parents es"
    unfolding disjoint_parents_def
  proof (intro allI impI)
    fix i j assume ij: "i < length es" "j < length es" "i \<noteq> j"
      "sm_member_account_set_id (es ! i) = sm_member_account_set_id (es ! j)"
    have "es ! i \<noteq> es ! j" using d ij by (simp add: nth_eq_iff_index_eq)
    then have "sm_account_set_id (es ! i) \<noteq> sm_account_set_id (es ! j)"
      using ij(4) by (metis (full_types) old.unit.exhaust set_membership.surjective)
    moreover have "(sm_account_set_id (es ! i), sm_member_account_set_id (es ! i)) \<in> edge_rel es"
      "(sm_account_set_id (es ! j), sm_member_account_set_id (es ! i)) \<in> edge_rel es"
      using ij by (auto simp: edge_rel_nth)
    ultimately show "ups es (sm_account_set_id (es ! i)) \<inter> ups es (sm_account_set_id (es ! j)) = {}"
      using d unfolding no_diamond_def ups_up by blast
  qed
qed

lemma shallow_rel: "shallow es \<longleftrightarrow> edge_rel es ^^ 17 = {}"
  using not_shallow_iff[of es] by auto

lemma sound_rel_lists: "unique_walks es \<and> shallow es \<longleftrightarrow> distinct es \<and> sound_rel (edge_rel es)"
  using unique_walks_acyclic[of es] unique_walks_iff[of es]
  by (auto simp: disjoint_parents_rel sound_rel_def shallow_rel)

text \<open>Distinct memberships of an account have disjoint ancestors.\<close>

definition sound_members :: "(account_set_id \<times> account_set_id) set \<Rightarrow> account_membership list \<Rightarrow> bool" where
  "sound_members R ms \<longleftrightarrow> distinct ms \<and>
     (\<forall>m \<in> set ms. \<forall>m' \<in> set ms. m \<noteq> m' \<longrightarrow> am_account_id m = am_account_id m' \<longrightarrow>
        up R (am_account_set_id m) \<inter> up R (am_account_set_id m') = {})"

lemma account_disjoint_up: "account_disjoint es m m' \<longleftrightarrow>
    (am_account_id m = am_account_id m' \<longrightarrow> up (edge_rel es) (am_account_set_id m) \<inter> up (edge_rel es) (am_account_set_id m') = {})"
  by (simp add: account_disjoint_def ups_up)

lemma sorted_disjoint_members: "sorted_wrt (account_disjoint es) ms \<longleftrightarrow> sound_members (edge_rel es) ms"
proof (induction ms)
  case Nil
  show ?case by (simp add: sound_members_def)
next
  case (Cons m ms)
  have sym: "account_disjoint es m m' \<longleftrightarrow> account_disjoint es m' m" for m m'
    by (auto simp: account_disjoint_up)
  have irrefl: "\<not> account_disjoint es m m" by (simp add: account_disjoint_up)
  have unfold: "sound_members (edge_rel es) ms \<longleftrightarrow> distinct ms \<and>
      (\<forall>m \<in> set ms. \<forall>m' \<in> set ms. m \<noteq> m' \<longrightarrow> account_disjoint es m m')" for ms
    by (simp add: sound_members_def account_disjoint_up)
  have "sound_members (edge_rel es) (m # ms) \<longleftrightarrow>
      (\<forall>m' \<in> set ms. account_disjoint es m m') \<and> sound_members (edge_rel es) ms"
    unfolding unfold using sym irrefl by auto
  then show ?case by (simp add: Cons)
qed

lemma unique_account_walks_rel:
  "unique_walks es \<Longrightarrow> unique_account_walks es ms \<longleftrightarrow> sound_members (edge_rel es) ms"
  by (simp add: unique_account_walks_iff sorted_disjoint_members)

lemma validate_accepts_rel:
  "validate_set_memberships existing proposed ms = Some (Inr ()) \<longleftrightarrow>
     distinct (existing @ proposed) \<and> sound_rel (edge_rel (existing @ proposed)) \<and>
     sound_members (edge_rel (existing @ proposed)) ms"
  using validate_accepts[of existing proposed ms] sound_rel_lists[of "existing @ proposed"]
    unique_account_walks_rel[of "existing @ proposed" ms] by blast

text \<open>The validator panics only on an empty batch over a graph that is too deep already.\<close>

lemma validate_returns:
  assumes "proposed \<noteq> []"
  shows "validate_set_memberships existing proposed ms \<noteq> None"
proof (cases "acyclic (edge_rel (existing @ proposed))")
  case True
  then show ?thesis using validate_acyclic[OF True, of ms] depth_error_first[OF True _ assms] by fastforce
next
  case False
  then show ?thesis using cycle_attribution[OF False, of ms] by auto
qed


section \<open>The hierarchy in the tables\<close>

definition memberships_in :: "membership_tables \<Rightarrow> account_membership list" where
  "memberships_in mt = map to_account_membership (mt_member_accounts mt)"

definition hierarchy_ok :: "membership_tables \<Rightarrow> bool" where
  "hierarchy_ok mt \<longleftrightarrow> unique_walks (fetch_set_membership_edges mt) \<and> shallow (fetch_set_membership_edges mt) \<and>
     unique_account_walks (fetch_set_membership_edges mt) (memberships_in mt)"

text \<open>The foreign keys.\<close>

definition keys_ok :: "membership_tables \<Rightarrow> bool" where
  "keys_ok mt \<longleftrightarrow>
     (\<forall>(p, c) \<in> set (mt_member_sets mt). mt_account_sets mt p \<noteq> None \<and> mt_account_sets mt c \<noteq> None) \<and>
     (\<forall>(s, a) \<in> set (mt_member_accounts mt). mt_account_sets mt s \<noteq> None \<and> mt_accounts mt a \<noteq> None) \<and>
     (\<forall>s. mt_account_sets mt s \<noteq> None \<longrightarrow> mt_accounts mt (account_of_set s) \<noteq> None)"

lemma edge_rel_to [simp]: "edge_rel (map to_set_membership rows) = set rows"
  by (simp add: edge_rel_def image_image)

lemma inj_to_set_membership: "inj to_set_membership"
  by (rule injI) (simp add: to_set_membership_def prod_eq_iff)

lemma inj_to_account_membership: "inj to_account_membership"
  by (rule injI) (simp add: to_account_membership_def prod_eq_iff)

lemma distinct_to_set_membership [simp]: "distinct (map to_set_membership rows) \<longleftrightarrow> distinct rows"
  using inj_to_set_membership by (auto simp: distinct_map intro: inj_on_subset)

lemma hierarchy_rel:
  "hierarchy_ok mt \<longleftrightarrow> distinct (mt_member_sets mt) \<and> sound_rel (set (mt_member_sets mt)) \<and>
     sound_members (set (mt_member_sets mt)) (memberships_in mt)"
  using sound_rel_lists[of "fetch_set_membership_edges mt"] unique_account_walks_rel[of "fetch_set_membership_edges mt"]
  by (auto simp: hierarchy_ok_def fetch_set_membership_edges_def)

lemma mem_account_memberships [simp]:
  "m \<in> to_account_membership ` A \<longleftrightarrow> (am_account_set_id m, am_account_id m) \<in> A"
proof
  assume "(am_account_set_id m, am_account_id m) \<in> A"
  moreover have "m = to_account_membership (am_account_set_id m, am_account_id m)"
    by (simp add: to_account_membership_def)
  ultimately show "m \<in> to_account_membership ` A" by blast
qed auto

lemma set_parents_in [simp]: "set (parents_in mt s) = {p. (p, s) \<in> set (mt_member_sets mt)}"
  by (force simp: parents_in_def)

lemma distinct_parents_in: "distinct (mt_member_sets mt) \<Longrightarrow> distinct (parents_in mt s)"
  by (auto simp: parents_in_def distinct_map inj_on_def)

lemma finite_up [simp]: "finite R \<Longrightarrow> finite (up R x)"
proof -
  assume "finite R"
  have "up R x \<subseteq> insert x (Domain R)" by (auto simp: up_def elim: converse_rtranclE)
  then show ?thesis using \<open>finite R\<close> by (meson finite_Domain finite_insert finite_subset)
qed

section \<open>Counting paths\<close>

text \<open>The rows a seed contributes: one for each ancestor of its set.\<close>

definition path_rows :: "(account_set_id \<times> account_set_id) set \<Rightarrow> account_id \<times> account_set_id \<Rightarrow> (account_id \<times> account_set_id) list" where
  "path_rows R r = map (Pair (fst r)) (sorted_list_of_set (up R (snd r)))"

lemma mset_disjoint_sets:
  assumes "distinct ps" and "\<And>p. p \<in> set ps \<Longrightarrow> finite (f p)"
    and "\<And>p q. p \<in> set ps \<Longrightarrow> q \<in> set ps \<Longrightarrow> p \<noteq> q \<Longrightarrow> f p \<inter> f q = {}"
  shows "mset_set (\<Union>(f ` set ps)) = (\<Sum>p \<leftarrow> ps. mset_set (f p))"
  using assms
proof (induction ps)
  case (Cons p ps)
  have "f p \<inter> \<Union>(f ` set ps) = {}" using Cons.prems(1,3) by fastforce
  then show ?case using Cons by (simp add: mset_set_Union)
qed simp

lemma mset_sorted_set: "finite A \<Longrightarrow> mset (sorted_list_of_set A) = mset_set A"
  by (metis mset_set_set set_sorted_list_of_set sorted_list_of_set.distinct_sorted_key_list_of_set)

lemma path_rows_unfold:
  assumes "finite R" and "acyclic R" and "no_diamond R" and "distinct ps" and "set ps = {p. (p, s) \<in> R}"
  shows "mset (path_rows R (a, s)) = {#(a, s)#} + (\<Sum>p \<leftarrow> ps. mset (path_rows R (a, p)))"
proof -
  have disj: "up R p \<inter> up R q = {}" if "p \<in> set ps" "q \<in> set ps" "p \<noteq> q" for p q
    using assms(3) that unfolding assms(5) no_diamond_def by blast
  have "s \<notin> \<Union>(up R ` set ps)" using acyclic_not_up[OF assms(2)] assms(5) by blast
  moreover have "up R s = insert s (\<Union>(up R ` set ps))" using up_unfold[of R s] assms(5) by simp
  ultimately have "mset_set (up R s) = {#s#} + mset_set (\<Union>(up R ` set ps))"
    using assms(1) by simp
  also have "\<dots> = {#s#} + (\<Sum>p \<leftarrow> ps. mset_set (up R p))"
    using mset_disjoint_sets[of ps "up R", OF assms(4) _ disj] assms(1) by simp
  finally have "image_mset (Pair a) (mset_set (up R s)) = {#(a, s)#} + image_mset (Pair a) (\<Sum>p \<leftarrow> ps. mset_set (up R p))"
    by simp
  moreover have "image_mset (Pair a) (\<Sum>p \<leftarrow> ps. mset_set (up R p)) = (\<Sum>p \<leftarrow> ps. image_mset (Pair a) (mset_set (up R p)))"
    by (induction ps) auto
  ultimately show ?thesis using assms(1) by (simp add: path_rows_def mset_sorted_set)
qed

lemma self_path_row: "finite R \<Longrightarrow> r \<in># mset (path_rows R r)"
  by (cases r) (auto simp: path_rows_def)

lemma sum_split_self:
  assumes "\<And>x. x \<in> set xs \<Longrightarrow> x \<in># f x"
  shows "mset xs + (\<Sum>x \<leftarrow> xs. f x - {#x#}) = (\<Sum>x \<leftarrow> xs. f x)"
  using assms
proof (induction xs)
  case (Cons x xs)
  have one: "add_mset x (f x - {#x#}) = f x" using Cons.prems[of x] by simp
  have "mset (x # xs) + (\<Sum>x \<leftarrow> x # xs. f x - {#x#}) =
      add_mset x (f x - {#x#}) + (mset xs + (\<Sum>x \<leftarrow> xs. f x - {#x#}))"
    by (simp add: ac_simps)
  also have "mset xs + (\<Sum>x \<leftarrow> xs. f x - {#x#}) = (\<Sum>x \<leftarrow> xs. f x)"
    using Cons.prems by (intro Cons.IH) simp
  finally show ?case unfolding one by simp
qed simp

lemma union_all_walk_counts:
  assumes "hierarchy_ok mt" and "\<And>a s x. (a, s) \<in> set work \<Longrightarrow> (x, s) \<notin> set (mt_member_sets mt) ^^ n"
  shows "\<exists>rows. union_all_walk (containment_step mt) result work = Some rows \<and>
    mset rows = mset result + (\<Sum>r \<leftarrow> work. mset (path_rows (set (mt_member_sets mt)) r) - {#r#})"
  using assms(2)
proof (induction n arbitrary: result work)
  case 0
  then have "work = []" by (cases work) auto
  then show ?case by (simp add: union_all_walk.simps)
next
  case (Suc n)
  let ?R = "set (mt_member_sets mt)" and ?step = "containment_step mt"
  let ?new = "concat (map ?step work)" and ?f = "\<lambda>r. mset (path_rows (set (mt_member_sets mt)) r)"
  have ok: "distinct (mt_member_sets mt)" "acyclic ?R" "no_diamond ?R"
    using assms(1) by (auto simp: hierarchy_rel sound_rel_def)
  have new: "(x, p) \<notin> ?R ^^ n" if "(a, p) \<in> set ?new" for a p x
  proof
    assume x: "(x, p) \<in> ?R ^^ n"
    from that obtain s where "(a, s) \<in> set work" "(p, s) \<in> ?R" by (auto simp: containment_step_def)
    with x Suc.prems[of a s x] show False by auto
  qed
  have one: "mset (?step r) + (\<Sum>q \<leftarrow> ?step r. ?f q - {#q#}) = ?f r - {#r#}" for r
  proof -
    obtain a s where r: "r = (a, s)" by (cases r)
    have "mset (?step r) + (\<Sum>q \<leftarrow> ?step r. ?f q - {#q#}) = (\<Sum>q \<leftarrow> ?step r. ?f q)"
      by (rule sum_split_self) (rule self_path_row, simp)
    also have "\<dots> = (\<Sum>p \<leftarrow> parents_in mt s. ?f (a, p))" by (simp add: r containment_step_def comp_def)
    finally show ?thesis
      using path_rows_unfold[OF _ ok(2,3) distinct_parents_in[OF ok(1)] set_parents_in, where s = s and a = a] r by simp
  qed
  have "mset ?new + (\<Sum>q \<leftarrow> ?new. ?f q - {#q#}) = (\<Sum>r \<leftarrow> work. ?f r - {#r#})"
  proof (induction work)
    case (Cons r work)
    have "mset (concat (map ?step (r # work))) + (\<Sum>q \<leftarrow> concat (map ?step (r # work)). ?f q - {#q#}) =
        (mset (?step r) + (\<Sum>q \<leftarrow> ?step r. ?f q - {#q#})) +
        (mset (concat (map ?step work)) + (\<Sum>q \<leftarrow> concat (map ?step work). ?f q - {#q#}))"
      by (simp only: list.map concat.simps map_append sum_list_append mset_append ac_simps)
    then show ?case unfolding one Cons by simp
  qed simp
  moreover obtain rows where "union_all_walk ?step (result @ ?new) ?new = Some rows"
    "mset rows = mset (result @ ?new) + (\<Sum>q \<leftarrow> ?new. ?f q - {#q#})"
    using Suc.IH[where work = ?new and result = "result @ ?new"] new by blast
  ultimately show ?case
    by (cases "work = []") (auto simp: union_all_walk.simps Let_def add.assoc)
qed

text \<open>Distinct rows mean disjoint ancestors.\<close>

lemma distinct_path_rows:
  assumes "finite R"
  shows "distinct (concat (map (path_rows R) rs)) \<longleftrightarrow>
    sorted_wrt (\<lambda>r r'. fst r = fst r' \<longrightarrow> up R (snd r) \<inter> up R (snd r') = {}) rs"
proof (induction rs)
  case (Cons r rs)
  have set: "set (path_rows R q) = Pair (fst q) ` up R (snd q)" for q
    using assms by (simp add: path_rows_def)
  have one: "distinct (path_rows R r)"
    by (simp add: path_rows_def distinct_map inj_on_def)
  have disj: "set (path_rows R r) \<inter> set (concat (map (path_rows R) rs)) = {} \<longleftrightarrow>
      (\<forall>q \<in> set rs. fst r = fst q \<longrightarrow> up R (snd r) \<inter> up R (snd q) = {})"
    unfolding set_concat set_map image_image set by auto
  show ?case
    unfolding list.map concat.simps distinct_append disj Cons sorted_wrt.simps using one by blast
qed simp

lemma sound_members_pairs:
  "sorted_wrt (\<lambda>r r'. fst r = fst r' \<longrightarrow> up (edge_rel es) (snd r) \<inter> up (edge_rel es) (snd r') = {})
     (map (\<lambda>m. (am_account_id m, am_account_set_id m)) ms) \<longleftrightarrow> sound_members (edge_rel es) ms"
  by (simp add: sorted_disjoint_members[symmetric] sorted_wrt_map account_disjoint_up[abs_def])

definition account_rows :: "membership_tables \<Rightarrow> account_id set \<Rightarrow> account_membership list" where
  "account_rows mt A = map to_account_membership (filter (\<lambda>r. snd r \<in> A) (mt_member_accounts mt))"

lemma all_seeds_pairs:
  "all_seeds mt new = map (\<lambda>m. (am_account_id m, am_account_set_id m))
     (new @ account_rows mt (am_account_id ` set new))"
  by (simp add: all_seeds_def account_rows_def comp_def case_prod_unfold)

lemma sql_path_check:
  assumes "hierarchy_ok mt"
  shows "assert_no_double_membership mt new =
    Some (if sound_members (set (mt_member_sets mt)) (new @ account_rows mt (am_account_id ` set new))
          then Inr () else Inl MemberAlreadyAdded)"
proof -
  let ?R = "set (mt_member_sets mt)" and ?seeds = "all_seeds mt new"
  have "(x, s) \<notin> ?R ^^ 17" for x s using assms by (simp add: hierarchy_rel sound_rel_def)
  then obtain rows where rows: "union_all_walk (containment_step mt) ?seeds ?seeds = Some rows"
    "mset rows = mset ?seeds + (\<Sum>r \<leftarrow> ?seeds. mset (path_rows ?R r) - {#r#})"
    using union_all_walk_counts[OF assms, where n = 17 and work = ?seeds and result = ?seeds] by blast
  have "mset rows = (\<Sum>r \<leftarrow> ?seeds. mset (path_rows ?R r))"
    unfolding rows(2) by (rule sum_split_self) (rule self_path_row, simp)
  also have "\<dots> = mset (concat (map (path_rows ?R) ?seeds))"
    by (simp add: mset_concat comp_def)
  finally have "distinct rows \<longleftrightarrow> distinct (concat (map (path_rows ?R) ?seeds))"
    by (rule mset_eq_imp_distinct_iff)
  also have "\<dots> \<longleftrightarrow> sound_members ?R (new @ account_rows mt (am_account_id ` set new))"
    unfolding distinct_path_rows[OF finite_set] all_seeds_pairs
    using sound_members_pairs[of "map to_set_membership (mt_member_sets mt)"] by (simp only: edge_rel_to)
  finally show ?thesis using rows(1) by (simp add: assert_no_double_membership_def Let_def)
qed

section \<open>The in-memory path count\<close>

definition disjoint_ups :: "(account_set_id \<times> account_set_id) set \<Rightarrow> account_set_id list \<Rightarrow> bool" where
  "disjoint_ups R = sorted_wrt (\<lambda>s t. up R s \<inter> up R t = {})"

lemma disjoint_ups_distinct:
  assumes "distinct ps" and "\<And>p q. p \<in> set ps \<Longrightarrow> q \<in> set ps \<Longrightarrow> p \<noteq> q \<Longrightarrow> up R p \<inter> up R q = {}"
  shows "disjoint_ups R ps"
  using assms by (induction ps) (auto simp: disjoint_ups_def)

lemma disjoint_ups_append: "disjoint_ups R (xs @ ys) \<longleftrightarrow>
    disjoint_ups R xs \<and> disjoint_ups R ys \<and> \<Union>(up R ` set xs) \<inter> \<Union>(up R ` set ys) = {}"
  by (auto simp: disjoint_ups_def sorted_wrt_append)

lemma path_loop_disjoint:
  assumes "acyclic R" and "no_diamond R"
    and "\<And>s. s \<in> \<Union>(up R ` set queue) \<Longrightarrow> \<exists>ps. map_of K s = Some ps \<and> distinct ps \<and> set ps = {p. (p, s) \<in> R}"
  shows "path_loop K C queue = Some (\<not> (disjoint_ups R queue \<and> \<Union>(up R ` set queue) \<inter> C = {}))"
  using assms(3)
proof (induction K C queue rule: path_loop.induct)
  case (1 K C)
  then show ?case by (simp add: disjoint_ups_def)
next
  case (2 K C s queue)
  from 2(2)[of s] obtain ps where ps: "map_of K s = Some ps" "distinct ps" "set ps = {p. (p, s) \<in> R}" by auto
  show ?case
  proof (cases "s \<in> C")
    case True
    have "s \<in> \<Union>(up R ` set (s # queue))" by simp
    with True have "\<Union>(up R ` set (s # queue)) \<inter> C \<noteq> {}" by blast
    then show ?thesis using ps(1) True by simp
  next
    case False
    have up_s: "up R s = insert s (\<Union>(up R ` set ps))" unfolding ps(3) by (rule up_unfold)
    have new: "s \<notin> \<Union>(up R ` set ps)" using acyclic_not_up[OF assms(1)] ps(3) by blast
    have around: "Q \<inter> P = {} \<and> (Q \<union> P) \<inter> insert s C = {} \<longleftrightarrow> insert s P \<inter> Q = {} \<and> (insert s P \<union> Q) \<inter> C = {}"
      if "s \<notin> P" "s \<notin> C" for P Q using that by auto
    have par: "disjoint_ups R ps"
      using disjoint_ups_distinct[OF ps(2)] assms(2) unfolding no_diamond_def ps(3) by blast
    have "path_loop K (insert s C) (queue @ ps) =
        Some (\<not> (disjoint_ups R (queue @ ps) \<and> \<Union>(up R ` set (queue @ ps)) \<inter> insert s C = {}))"
      by (rule 2(1)[OF ps(1) False]) (use 2(2) up_s in auto)
    moreover have "disjoint_ups R (queue @ ps) \<and> \<Union>(up R ` set (queue @ ps)) \<inter> insert s C = {} \<longleftrightarrow>
        disjoint_ups R (s # queue) \<and> \<Union>(up R ` set (s # queue)) \<inter> C = {}"
    proof -
      define Q where "Q = \<Union>(up R ` set queue)"
      define P where "P = \<Union>(up R ` set ps)"
      have 1: "disjoint_ups R (s # queue) \<longleftrightarrow> disjoint_ups R queue \<and> insert s P \<inter> Q = {}"
        using disjoint_ups_append[of R "[s]" queue] up_s by (simp add: disjoint_ups_def P_def Q_def)
      have 2: "disjoint_ups R (queue @ ps) \<longleftrightarrow> disjoint_ups R queue \<and> Q \<inter> P = {}"
        using par by (simp add: disjoint_ups_append P_def Q_def)
      have 3: "\<Union>(up R ` set (queue @ ps)) = Q \<union> P" "\<Union>(up R ` set (s # queue)) = insert s P \<union> Q"
        using up_s by (auto simp: P_def Q_def)
      show ?thesis
        unfolding 1 2 3 using around[OF new[folded P_def] False, of Q] by (simp only: conj_assoc)
    qed
    ultimately have "path_loop K (insert s C) (queue @ ps) =
        Some (\<not> (disjoint_ups R (s # queue) \<and> \<Union>(up R ` set (s # queue)) \<inter> C = {}))"
      by (simp only:)
    then show ?thesis using ps(1) False by (simp only: path_loop.simps option.case if_False)
  qed
qed

lemma sorted_by_account:
  "sound_members (edge_rel es) ms \<longleftrightarrow> (\<forall>a. disjoint_ups (edge_rel es) (seeds ms a))"
proof -
  have "sorted_wrt (account_disjoint es) ms \<longleftrightarrow> (\<forall>a. disjoint_ups (edge_rel es) (seeds ms a))"
  proof (induction ms)
    case (Cons m ms)
    have "(\<forall>m' \<in> set ms. account_disjoint es m m') \<longleftrightarrow>
        (\<forall>t \<in> set (seeds ms (am_account_id m)). up (edge_rel es) (am_account_set_id m) \<inter> up (edge_rel es) t = {})"
      by (auto simp: account_disjoint_up seeds_def)
    then show ?case using Cons unfolding seeds_def disjoint_ups_def by (auto simp: seeds_def)
  qed (simp add: seeds_def disjoint_ups_def)
  then show ?thesis by (simp add: sorted_disjoint_members)
qed

lemma any_duplicate_disjoint:
  assumes "\<And>q. q \<in> set qs \<Longrightarrow> path_loop K {} q = Some (\<not> D q)"
  shows "any_duplicate K qs = Some (\<not> (\<forall>q \<in> set qs. D q))"
  using assms by (induction qs) (auto split: bool.split)

lemma memory_path_check:
  assumes "acyclic R" and "no_diamond R" and "R = edge_rel es"
    and "\<And>m s. m \<in> set (proposed @ existing) \<Longrightarrow> s \<in> up R (am_account_set_id m) \<Longrightarrow>
      \<exists>ps. map_of K s = Some ps \<and> distinct ps \<and> set ps = {p. (p, s) \<in> R}"
  shows "has_duplicate_account_membership_paths proposed existing K =
    Some (\<not> sound_members R (proposed @ existing))"
proof -
  let ?g = "group_pairs (map (\<lambda>m. (am_account_id m, am_account_set_id m)) (proposed @ existing))"
  have look: "get_list (map_of ?g) a = seeds (proposed @ existing) a" for a
    by (simp only: get_list_group_pairs seeds_def filter_map comp_def fst_conv map_map snd_conv)
  have mem: "\<exists>a. q = seeds (proposed @ existing) a" if "q \<in> set (map snd ?g)" for q
  proof -
    from that obtain a where "(a, q) \<in> set ?g" by auto
    then have "map_of ?g a = Some q" by (simp add: map_of_eq_Some_iff)
    then show ?thesis using look[of a] by (auto simp: get_list_def)
  qed
  have all: "seeds (proposed @ existing) a \<in> set (map snd ?g) \<or> seeds (proposed @ existing) a = []" for a
    using look[of a] by (cases "map_of ?g a") (force simp: get_list_def dest: map_of_SomeD)+
  have "path_loop K {} q = Some (\<not> disjoint_ups R q)" if q: "q \<in> set (map snd ?g)" for q
  proof -
    from mem[OF q] obtain a where a: "q = seeds (proposed @ existing) a" ..
    have "path_loop K {} q = Some (\<not> (disjoint_ups R q \<and> \<Union>(up R ` set q) \<inter> {} = {}))"
      by (rule path_loop_disjoint[OF assms(1,2)]) (use assms(4) a in \<open>auto simp: seeds_def\<close>)
    then show ?thesis by simp
  qed
  from any_duplicate_disjoint[of "map snd ?g" K "disjoint_ups R", OF this]
  have "has_duplicate_account_membership_paths proposed existing K =
      Some (\<not> (\<forall>q \<in> set (map snd ?g). disjoint_ups R q))"
    by (simp add: has_duplicate_account_membership_paths_def Let_def)
  moreover have "(\<forall>q \<in> set (map snd ?g). disjoint_ups R q) \<longleftrightarrow> (\<forall>a. disjoint_ups R (seeds (proposed @ existing) a))"
  proof -
    have "disjoint_ups R []" by (simp add: disjoint_ups_def)
    then show ?thesis using mem all by metis
  qed
  ultimately show ?thesis unfolding sorted_by_account[of es, folded assms(3)] by (simp only:)
qed

end
