(* ===== verification/Graph_Cache_Correct.thy ===== *)
theory Graph_Cache_Correct imports Hierarchy Balance_Store begin

text \<open>
  A snapshot with the epoch of the tables mirrors them: what indexing stores, what an overlay
  adds, and what the breadth-first expansion collects over the two.
\<close>

section \<open>Indexed nodes\<close>

definition node_meta :: "membership_tables \<Rightarrow> account_set_id \<Rightarrow> set_meta option" where
  "node_meta mt s =
     (case (mt_account_sets mt s, mt_accounts mt (account_of_set s)) of
        (Some j, Some acc) \<Rightarrow> Some \<lparr> sme_journal_id = j, sme_eventually_consistent = ac_eventually_consistent acc \<rparr>
      | _ \<Rightarrow> None)"

lemma node_meta_known: "keys_ok mt \<Longrightarrow> mt_account_sets mt s \<noteq> None \<Longrightarrow> node_meta mt s \<noteq> None"
  by (auto simp: node_meta_def keys_ok_def split: option.splits)

lemma index_nodes_snoc: "index_nodes (nodes @ [n]) = index_node (index_nodes nodes) n"
  by (simp add: index_nodes_def)

lemma index_parents:
  "get_list (map_of (in_parents (index_nodes nodes))) s =
     concat (map (\<lambda>n. if sgn_id n = s then (case sgn_parent_id n of None \<Rightarrow> [] | Some p \<Rightarrow> [p]) else []) nodes)"
proof (induction nodes rule: rev_induct)
  case Nil
  show ?case by (simp add: index_nodes_def)
next
  case (snoc n nodes)
  then show ?case by (simp add: index_nodes_snoc index_node_def Let_def split: option.split)
qed

lemma index_children:
  "set (get_list (map_of (in_children (index_nodes nodes))) p) =
     {sgn_id n |n. n \<in> set nodes \<and> sgn_parent_id n = Some p}"
proof (induction nodes rule: rev_induct)
  case Nil
  show ?case by (simp add: index_nodes_def)
next
  case (snoc n nodes)
  then show ?case by (auto simp: index_nodes_snoc index_node_def Let_def split: option.split)
qed

definition meta_of_node :: "set_graph_node \<Rightarrow> set_meta" where
  "meta_of_node n = \<lparr> sme_journal_id = sgn_journal_id n, sme_eventually_consistent = sgn_eventually_consistent n \<rparr>"

lemma index_meta:
  assumes "\<And>n. n \<in> set nodes \<Longrightarrow> f (sgn_id n) = Some (meta_of_node n)"
  shows "map_of (in_meta (index_nodes nodes)) s = (if \<exists>n \<in> set nodes. sgn_id n = s then f s else None)"
  using assms
proof (induction nodes rule: rev_induct)
  case Nil
  show ?case by (simp add: index_nodes_def)
next
  case (snoc n nodes)
  have "in_meta (index_nodes (nodes @ [n])) = upsert (sgn_id n) (\<lambda>_. meta_of_node n) (in_meta (index_nodes nodes))"
    by (simp add: index_nodes_snoc index_node_def Let_def meta_of_node_def split: option.split)
  moreover have "f (sgn_id n) = Some (meta_of_node n)" using snoc.prems[of n] by simp
  ultimately show ?case using snoc by simp
qed

lemma set_nodes_meta:
  "n \<in> set (set_nodes mt s) \<Longrightarrow> sgn_id n = s \<and> node_meta mt s = Some (meta_of_node n)"
  by (cases "mt_account_sets mt s"; cases "mt_accounts mt (account_of_set s)")
    (auto simp: set_nodes_def node_meta_def meta_of_node_def)

lemma set_nodes_parents:
  "concat (map (\<lambda>n. case sgn_parent_id n of None \<Rightarrow> [] | Some p \<Rightarrow> [p]) (set_nodes mt s)) =
     (if node_meta mt s = None then [] else parents_in mt s)"
proof -
  have "concat (map (\<lambda>p. [p]) ps) = ps" for ps :: "account_set_id list" by (induction ps) auto
  then show ?thesis
    by (cases "parents_in mt s")
      (simp_all add: set_nodes_def node_meta_def comp_def split: option.split)
qed

lemma set_nodes_ne: "set_nodes mt s \<noteq> [] \<longleftrightarrow> node_meta mt s \<noteq> None"
  by (auto simp: set_nodes_def node_meta_def split: option.splits list.splits)

lemma index_tables:
  fixes mt :: membership_tables
  assumes "distinct ids"
  defines "ix \<equiv> index_nodes (concat (map (set_nodes mt) ids))"
  shows "map_of (in_meta ix) s = (if s \<in> set ids then node_meta mt s else None)"
    and "get_list (map_of (in_parents ix)) s = (if s \<in> set ids \<and> node_meta mt s \<noteq> None then parents_in mt s else [])"
    and "set (get_list (map_of (in_children ix)) p) =
      {s \<in> set ids. node_meta mt s \<noteq> None \<and> (p, s) \<in> set (mt_member_sets mt)}"
proof -
  let ?nodes = "concat (map (set_nodes mt) ids)"
  have nodes: "n \<in> set ?nodes \<Longrightarrow> sgn_id n \<in> set ids \<and> node_meta mt (sgn_id n) = Some (meta_of_node n)" for n
    using set_nodes_meta by fastforce
  have occurs: "(\<exists>n \<in> set ?nodes. sgn_id n = s) \<longleftrightarrow> s \<in> set ids \<and> node_meta mt s \<noteq> None"
  proof
    assume "\<exists>n \<in> set ?nodes. sgn_id n = s"
    then obtain n where "n \<in> set ?nodes" "sgn_id n = s" ..
    then show "s \<in> set ids \<and> node_meta mt s \<noteq> None" using nodes[of n] by auto
  next
    assume s: "s \<in> set ids \<and> node_meta mt s \<noteq> None"
    then obtain n where "n \<in> set (set_nodes mt s)" using set_nodes_ne[of mt s] by (meson last_in_set)
    then show "\<exists>n \<in> set ?nodes. sgn_id n = s" using s set_nodes_meta by fastforce
  qed
  have "map_of (in_meta ix) s = (if \<exists>n \<in> set ?nodes. sgn_id n = s then node_meta mt s else None)"
    unfolding ix_def using nodes by (intro index_meta) blast
  then show "map_of (in_meta ix) s = (if s \<in> set ids then node_meta mt s else None)"
    unfolding occurs by simp
  have one: "concat (map (\<lambda>n. if sgn_id n = s then (case sgn_parent_id n of None \<Rightarrow> [] | Some p \<Rightarrow> [p]) else [])
      (set_nodes mt t)) = (if t = s \<and> node_meta mt s \<noteq> None then parents_in mt s else [])" for t
  proof (cases "t = s")
    case True
    have "concat (map (\<lambda>n. if sgn_id n = s then (case sgn_parent_id n of None \<Rightarrow> [] | Some p \<Rightarrow> [p]) else []) (set_nodes mt s)) =
        concat (map (\<lambda>n. case sgn_parent_id n of None \<Rightarrow> [] | Some p \<Rightarrow> [p]) (set_nodes mt s))"
      using set_nodes_meta by (intro arg_cong[of _ _ concat] map_cong) auto
    then show ?thesis unfolding set_nodes_parents using True by simp
  next
    case False
    then have "n \<in> set (set_nodes mt t) \<Longrightarrow> sgn_id n \<noteq> s" for n using set_nodes_meta by blast
    then show ?thesis using False by simp
  qed
  have "get_list (map_of (in_parents ix)) s =
      concat (map (\<lambda>t. if t = s \<and> node_meta mt s \<noteq> None then parents_in mt s else []) ids)"
    unfolding ix_def index_parents one[symmetric] by (simp add: map_concat comp_def) (induction ids; simp)
  also have "\<dots> = (if s \<in> set ids \<and> node_meta mt s \<noteq> None then parents_in mt s else [])"
    using assms(1) by (induction ids) auto
  finally show "get_list (map_of (in_parents ix)) s = (if s \<in> set ids \<and> node_meta mt s \<noteq> None then parents_in mt s else [])" .
  have "Some p \<in> sgn_parent_id ` set (set_nodes mt s) \<longleftrightarrow> node_meta mt s \<noteq> None \<and> p \<in> set (parents_in mt s)" for s
    by (auto simp: set_nodes_def node_meta_def image_image simp del: set_parents_in split: option.split list.split)
  then have kid: "(\<exists>n. n \<in> set (set_nodes mt s) \<and> sgn_parent_id n = Some p) \<longleftrightarrow>
      node_meta mt s \<noteq> None \<and> (p, s) \<in> set (mt_member_sets mt)" for s
    unfolding image_iff by (metis mem_Collect_eq set_parents_in)
  show "set (get_list (map_of (in_children ix)) p) =
      {s \<in> set ids. node_meta mt s \<noteq> None \<and> (p, s) \<in> set (mt_member_sets mt)}"
  proof -
    have id: "n \<in> set (set_nodes mt t) \<Longrightarrow> sgn_id n = t" for n t using set_nodes_meta by blast
    have "set (get_list (map_of (in_children ix)) p) =
        {s. \<exists>t \<in> set ids. \<exists>n. n \<in> set (set_nodes mt t) \<and> sgn_id n = s \<and> sgn_parent_id n = Some p}"
      unfolding ix_def index_children by auto
    also have "\<dots> = {s \<in> set ids. \<exists>n. n \<in> set (set_nodes mt s) \<and> sgn_parent_id n = Some p}"
      using id by blast
    finally show ?thesis unfolding kid .
  qed
qed

section \<open>Snapshots that mirror the tables\<close>

definition snapshot_matches :: "graph_snapshot \<Rightarrow> membership_tables \<Rightarrow> bool" where
  "snapshot_matches snap mt \<longleftrightarrow>
     (\<forall>s. map_of (gs_meta snap) s \<noteq> None \<longrightarrow> map_of (gs_meta snap) s = node_meta mt s) \<and>
     (\<forall>p c. (p, c) \<in> set (mt_member_sets mt) \<longrightarrow> map_of (gs_meta snap) p \<noteq> None \<and> map_of (gs_meta snap) c \<noteq> None) \<and>
     (\<forall>s. get_list (map_of (gs_parents snap)) s = parents_in mt s) \<and>
     (\<forall>s. set (get_list (map_of (gs_children snap)) s) = {c. (s, c) \<in> set (mt_member_sets mt)})"

lemma parents_in_empty: "(\<And>p. (p, s) \<notin> set (mt_member_sets mt)) \<Longrightarrow> parents_in mt s = []"
  by (metis Collect_empty_eq set_empty set_parents_in)

lemma fetched_snapshot_matches:
  assumes "keys_ok mt" and "distinct scan" and "set scan = {s. mt_account_sets mt s \<noteq> None}"
  shows "snapshot_matches (snapshot_of (fetch_set_graph scan mt)) mt"
proof -
  note ix = index_tables[OF assms(2), of mt]
  have known: "(p, c) \<in> set (mt_member_sets mt) \<Longrightarrow>
      p \<in> set scan \<and> c \<in> set scan \<and> node_meta mt p \<noteq> None \<and> node_meta mt c \<noteq> None" for p c
    using assms(1,3) node_meta_known[OF assms(1)] by (auto simp: keys_ok_def)
  have none: "s \<notin> set scan \<or> node_meta mt s = None \<Longrightarrow> parents_in mt s = []" for s
    using known by (intro parents_in_empty) blast
  show ?thesis
    unfolding snapshot_matches_def snapshot_of_def fetch_set_graph_def Let_def
    using known none by (auto simp: ix)
qed

lemma view_matches:
  assumes "snapshot_matches snap mt" and "distinct missing"
    and "\<And>s. s \<in> set missing \<Longrightarrow> map_of (gs_meta snap) s = None"
  defines "ov \<equiv> load_overlay mt missing"
  shows "map_of (view_meta snap ov) s =
      (if map_of (gs_meta snap) s \<noteq> None \<or> s \<in> set missing then node_meta mt s else None)"
    and "get_list (map_of (view_parents snap ov)) s = parents_in mt s"
proof -
  have dedup: "remdups missing = missing" using assms(2) by (simp add: distinct_remdups_id)
  note ix = index_tables[OF assms(2), of mt]
  have meta: "map_of (gs_meta snap) s \<noteq> None \<Longrightarrow> map_of (gs_meta snap) s = node_meta mt s"
    and par: "get_list (map_of (gs_parents snap)) s = parents_in mt s"
    and known: "\<And>p. (p, s) \<in> set (mt_member_sets mt) \<Longrightarrow> map_of (gs_meta snap) s \<noteq> None"
    using assms(1) by (auto simp: snapshot_matches_def)
  show "map_of (view_meta snap ov) s =
      (if map_of (gs_meta snap) s \<noteq> None \<or> s \<in> set missing then node_meta mt s else None)"
    using meta by (auto simp: view_meta_def ov_def load_overlay_def fetch_set_graph_nodes_def dedup ix Let_def
        map_add_def split: option.splits)
  have "get_list (map_of (case ov of None \<Rightarrow> [] | Some ov \<Rightarrow> ov_parents ov)) s = []"
  proof (cases "s \<in> set missing")
    case True
    then have "parents_in mt s = []" using assms(3) known by (intro parents_in_empty) blast
    then show ?thesis by (auto simp: ov_def load_overlay_def fetch_set_graph_nodes_def dedup ix Let_def)
  qed (auto simp: ov_def load_overlay_def fetch_set_graph_nodes_def dedup ix Let_def)
  then show "get_list (map_of (view_parents snap ov)) s = parents_in mt s"
    using par by (auto simp: view_parents_def get_list_def map_add_def split: option.splits)
qed

lemma missing_sets [simp]:
  "s \<in> set (missing_sets snap ms) \<longleftrightarrow> map_of (gs_meta snap) s = None \<and> s \<in> am_account_set_id ` set ms"
  "distinct (missing_sets snap ms)"
  by (auto simp: missing_sets_def)

text \<open>Every ancestor of the sets looked up is known to the view.\<close>

lemma view_known:
  assumes "keys_ok mt" and "snapshot_matches snap mt"
    and "\<And>m. m \<in> set ms \<Longrightarrow> mt_account_sets mt (am_account_set_id m) \<noteq> None"
    and "m \<in> set ms" and "s \<in> up (set (mt_member_sets mt)) (am_account_set_id m)"
  shows "map_of (view_meta snap (load_overlay mt (missing_sets snap ms))) s = node_meta mt s \<and> node_meta mt s \<noteq> None"
proof -
  let ?t = "am_account_set_id m"
  have "mt_account_sets mt s \<noteq> None \<and> (map_of (gs_meta snap) s \<noteq> None \<or> s \<in> set (missing_sets snap ms))"
  proof (cases "s = ?t")
    case True
    then show ?thesis using assms(3)[OF assms(4)] assms(4) by auto
  next
    case False
    then obtain c where "(s, c) \<in> set (mt_member_sets mt)"
      using assms(5) by (auto simp: up_def elim: converse_rtranclE)
    then show ?thesis using assms(1,2) by (auto simp: keys_ok_def snapshot_matches_def)
  qed
  then show ?thesis
    using view_matches(1)[OF assms(2) missing_sets(2), where s = s] node_meta_known[OF assms(1), of s] by auto
qed

section \<open>Expansion\<close>

text \<open>The sets the expansion reports, and those whose balances it locks.\<close>

definition in_journal :: "(account_set_id \<rightharpoonup> set_meta) \<Rightarrow> journal_id \<Rightarrow> account_set_id \<Rightarrow> bool" where
  "in_journal meta j s \<longleftrightarrow> (\<exists>m. meta s = Some m \<and> sme_journal_id m = j)"

definition inline_in :: "(account_set_id \<rightharpoonup> set_meta) \<Rightarrow> journal_id \<Rightarrow> account_set_id \<Rightarrow> bool" where
  "inline_in meta j s \<longleftrightarrow> (\<exists>m. meta s = Some m \<and> sme_journal_id m = j \<and> \<not> sme_eventually_consistent m)"

definition parent_rel :: "(account_set_id \<times> account_set_id list) list \<Rightarrow> (account_set_id \<times> account_set_id) set" where
  "parent_rel parents = {(p, s). p \<in> set (get_list (map_of parents) s)}"

lemma up_closed:
  assumes "x \<in> up R s" and "s \<in> V" and "\<forall>s \<in> V. \<forall>p. (p, s) \<in> R \<longrightarrow> p \<in> V \<union> Q"
  shows "x \<in> V \<union> \<Union>(up R ` Q)"
proof -
  from assms(1) have "(x, s) \<in> R\<^sup>*" by (simp add: up_def)
  then show ?thesis using assms(2)
  proof (induction rule: rtrancl_induct)
    case (step y z)
    show ?case
    proof (cases "y \<in> V")
      case False
      then have "y \<in> Q" using assms(3) step.prems step.hyps(2) by blast
      then show ?thesis using step.hyps(1) by (auto simp: up_def)
    qed (rule step.IH)
  qed simp
qed

lemma expand_loop_spec:
  assumes "\<forall>s \<in> set visited. \<forall>p. (p, s) \<in> parent_rel parents \<longrightarrow> p \<in> set visited \<union> set queue"
    and "\<forall>s \<in> \<Union>(up (parent_rel parents) ` set queue). map_of meta s \<noteq> None"
  shows "\<exists>vs. expand_loop meta parents j visited ancestors non_ec queue =
        Some (ancestors @ filter (in_journal (map_of meta) j) vs, non_ec @ filter (inline_in (map_of meta) j) vs) \<and>
      distinct vs \<and> set vs \<inter> set visited = {} \<and>
      set visited \<union> set vs = set visited \<union> \<Union>(up (parent_rel parents) ` set queue)"
  using assms
proof (induction meta parents j visited ancestors non_ec queue rule: expand_loop.induct)
  case (1 meta parents j visited ancestors non_ec)
  show ?case by (intro exI[of _ "[]"]) simp
next
  case (2 meta parents j visited ancestors non_ec s queue)
  let ?R = "parent_rel parents"
  note closed = 2(3) and known = 2(4)
  show ?case
  proof (cases "s \<in> set visited")
    case True
    have closed': "\<forall>t \<in> set visited. \<forall>p. (p, t) \<in> ?R \<longrightarrow> p \<in> set visited \<union> set queue"
      using closed True by auto
    have known': "\<forall>t \<in> \<Union>(up ?R ` set queue). map_of meta t \<noteq> None" using known by auto
    obtain vs where vs: "expand_loop meta parents j visited ancestors non_ec queue =
        Some (ancestors @ filter (in_journal (map_of meta) j) vs, non_ec @ filter (inline_in (map_of meta) j) vs)"
      "distinct vs" "set vs \<inter> set visited = {}" "set visited \<union> set vs = set visited \<union> \<Union>(up ?R ` set queue)"
      using 2(1)[OF True closed' known'] by blast
    have "up ?R s \<subseteq> set visited \<union> \<Union>(up ?R ` set queue)"
      by (rule subsetI) (rule up_closed[OF _ True closed'])
    then have "set visited \<union> set vs = set visited \<union> \<Union>(up ?R ` set (s # queue))" using vs(4) by auto
    then show ?thesis using vs(1-3) True by (intro exI[of _ vs]) simp
  next
    case False
    from known obtain m where m: "map_of meta s = Some m" by fastforce
    let ?ps = "get_list (map_of parents) s"
    have step: "expand_loop meta parents j visited ancestors non_ec (s # queue) =
        expand_loop meta parents j (s # visited)
          (if sme_journal_id m = j then ancestors @ [s] else ancestors)
          (if sme_journal_id m = j \<and> \<not> sme_eventually_consistent m then non_ec @ [s] else non_ec) (queue @ ?ps)"
      using False m by simp
    have ps: "{p. (p, s) \<in> ?R} = set ?ps" by (simp add: parent_rel_def)
    have up_s: "up ?R s = insert s (\<Union>(up ?R ` set ?ps))" using up_unfold[of ?R s] unfolding ps .
    have "\<forall>t \<in> set (s # visited). \<forall>p. (p, t) \<in> ?R \<longrightarrow> p \<in> set (s # visited) \<union> set (queue @ ?ps)"
      using closed ps by auto
    moreover have "\<forall>t \<in> \<Union>(up ?R ` set (queue @ ?ps)). map_of meta t \<noteq> None"
      using known up_s by auto
    ultimately obtain vs where vs: "expand_loop meta parents j visited ancestors non_ec (s # queue) =
        Some ((if sme_journal_id m = j then ancestors @ [s] else ancestors) @ filter (in_journal (map_of meta) j) vs,
              (if sme_journal_id m = j \<and> \<not> sme_eventually_consistent m then non_ec @ [s] else non_ec) @
                filter (inline_in (map_of meta) j) vs)"
      "distinct vs" "set vs \<inter> set (s # visited) = {}"
      "set (s # visited) \<union> set vs = set (s # visited) \<union> \<Union>(up ?R ` set (queue @ ?ps))"
      using 2(2)[OF False m] unfolding step by blast
    have "set visited \<union> set (s # vs) = set visited \<union> \<Union>(up ?R ` set (s # queue))"
      using vs(4) up_s by auto
    moreover have "distinct (s # vs)" "set (s # vs) \<inter> set visited = {}" using vs(2,3) False by auto
    moreover have "in_journal (map_of meta) j s \<longleftrightarrow> sme_journal_id m = j"
      "inline_in (map_of meta) j s \<longleftrightarrow> sme_journal_id m = j \<and> \<not> sme_eventually_consistent m"
      using m by (simp_all add: in_journal_def inline_in_def)
    ultimately show ?thesis using vs(1) by (intro exI[of _ "s # vs"]) (simp split del: if_split split: if_split)
  qed
qed

lemma expand_account_spec:
  assumes "\<forall>s \<in> \<Union>(up (parent_rel parents) ` set seed_sets). map_of meta s \<noteq> None"
  shows "\<exists>vs. expand_account meta parents j seed_sets =
        Some (filter (in_journal (map_of meta) j) vs, filter (inline_in (map_of meta) j) vs) \<and>
      distinct vs \<and> set vs = \<Union>(up (parent_rel parents) ` set seed_sets)"
  using expand_loop_spec[of "[]" parents seed_sets meta j "[]" "[]"] assms by (auto simp: expand_account_def)

text \<open>Absent accounts and accounts without reported sets look the same.\<close>

lemma expand_accounts_spec:
  assumes "distinct (map fst g)" and "\<And>a q. (a, q) \<in> set g \<Longrightarrow> f q = Some (A q, N q)"
  shows "\<exists>mappings non_ec. expand_accounts f g = Some (mappings, non_ec) \<and>
    (\<forall>a. get_list (map_of mappings) a = (case map_of g a of None \<Rightarrow> [] | Some q \<Rightarrow> A q)) \<and>
    (\<forall>a. get_list (map_of non_ec) a = (case map_of g a of None \<Rightarrow> [] | Some q \<Rightarrow> N q))"
  using assms
proof (induction g)
  case Nil
  then show ?case by simp
next
  case (Cons e g)
  obtain a q where e: "e = (a, q)" by (cases e)
  have "distinct (map fst g)" using Cons.prems(1) by simp
  from Cons.IH[OF this] Cons.prems(2) obtain M N' where
    ih: "expand_accounts f g = Some (M, N')"
      "\<And>a. get_list (map_of M) a = (case map_of g a of None \<Rightarrow> [] | Some q \<Rightarrow> A q)"
      "\<And>a. get_list (map_of N') a = (case map_of g a of None \<Rightarrow> [] | Some q \<Rightarrow> N q)"
    by (metis list.set_intros(2))
  have "map_of g a = None" using Cons.prems(1) e by (simp add: map_of_eq_None_iff)
  then have none: "get_list (map_of M) a = []" "get_list (map_of N') a = []" by (simp_all add: ih(2,3))
  have "f q = Some (A q, N q)" using Cons.prems(2)[of a q] e by simp
  moreover have "get_list (map_of (if A q = [] then M else (a, A q) # M)) b =
      (if b = a then A q else get_list (map_of M) b)" for b
    using none by (auto simp: get_list_def)
  moreover have "get_list (map_of (if N q = [] then N' else (a, N q) # N')) b =
      (if b = a then N q else get_list (map_of N') b)" for b
    using none by (auto simp: get_list_def)
  ultimately show ?case by (auto simp: e ih)
qed

end
