(* ===== verification/Local_Validation.thy ===== *)
theory Local_Validation imports Graph_Cache_Correct begin

text \<open>
  Validating the part of the graph that new edges touch decides the soundness of the whole: the
  rest of the hierarchy is sound already and cannot interact with it.
\<close>

section \<open>Splitting a relation\<close>

text \<open>
  \<open>V\<close> is a union of components of \<open>RE\<close> that holds the ends of the new edges \<open>RP\<close>;
  \<open>RC\<close> are the old edges inside.
\<close>

definition splits :: "'a set \<Rightarrow> ('a \<times> 'a) set \<Rightarrow> ('a \<times> 'a) set \<Rightarrow> ('a \<times> 'a) set \<Rightarrow> bool" where
  "splits V RE RC RP \<longleftrightarrow> (\<forall>p c. (p, c) \<in> RE \<longrightarrow> (p \<in> V \<longleftrightarrow> c \<in> V)) \<and>
     (\<forall>p c. (p, c) \<in> RC \<longleftrightarrow> (p, c) \<in> RE \<and> c \<in> V) \<and> (\<forall>p c. (p, c) \<in> RP \<longrightarrow> p \<in> V \<and> c \<in> V)"

lemma splits_inside:
  assumes "splits V RE RC RP" and "(y, x) \<in> (RE \<union> RP) ^^ n" and "x \<in> V"
  shows "(y, x) \<in> (RC \<union> RP) ^^ n \<and> y \<in> V"
  using assms(2)
proof (induction n arbitrary: y)
  case 0
  then show ?case using assms(3) by simp
next
  case (Suc n)
  from relpow_Suc_D2[OF Suc.prems] obtain z where z: "(y, z) \<in> RE \<union> RP" "(z, x) \<in> (RE \<union> RP) ^^ n" by blast
  with Suc.IH[of z] assms(1) have "(z, x) \<in> (RC \<union> RP) ^^ n" "(y, z) \<in> RC \<union> RP" "y \<in> V"
    unfolding splits_def by blast+
  then show ?case by (meson relpow_Suc_I2)
qed

lemma splits_outside:
  assumes "splits V RE RC RP" and "(y, x) \<in> (RE \<union> RP) ^^ n" and "x \<notin> V"
  shows "(y, x) \<in> RE ^^ n \<and> y \<notin> V"
  using assms(2)
proof (induction n arbitrary: y)
  case 0
  then show ?case using assms(3) by simp
next
  case (Suc n)
  from relpow_Suc_D2[OF Suc.prems] obtain z where z: "(y, z) \<in> RE \<union> RP" "(z, x) \<in> (RE \<union> RP) ^^ n" by blast
  with Suc.IH[of z] assms(1) have "(z, x) \<in> RE ^^ n" "(y, z) \<in> RE" "y \<notin> V"
    unfolding splits_def by blast+
  then show ?case by (meson relpow_Suc_I2)
qed

lemma splits_up:
  assumes "splits V RE RC RP"
  shows "x \<in> V \<Longrightarrow> up (RE \<union> RP) x = up (RC \<union> RP) x \<and> up (RE \<union> RP) x \<subseteq> V"
    and "x \<notin> V \<Longrightarrow> up (RE \<union> RP) x = up RE x \<and> up (RE \<union> RP) x \<inter> V = {}"
proof -
  have sub: "RC \<union> RP \<subseteq> RE \<union> RP" using assms by (auto simp: splits_def)
  show "up (RE \<union> RP) x = up (RC \<union> RP) x \<and> up (RE \<union> RP) x \<subseteq> V" if "x \<in> V"
    using splits_inside[OF assms _ that] up_mono[OF sub, of x] by (auto simp: up_def rtrancl_power)
  show "up (RE \<union> RP) x = up RE x \<and> up (RE \<union> RP) x \<inter> V = {}" if "x \<notin> V"
    using splits_outside[OF assms _ that] up_mono[of RE "RE \<union> RP" x] by (auto simp: up_def rtrancl_power)
qed

lemma splits_sound:
  assumes split: "splits V RE RC RP" and old: "sound_rel RE"
  shows "sound_rel (RE \<union> RP) \<longleftrightarrow> sound_rel (RC \<union> RP)"
proof
  assume "sound_rel (RE \<union> RP)"
  moreover have "RC \<union> RP \<subseteq> RE \<union> RP" using split by (auto simp: splits_def)
  ultimately show "sound_rel (RC \<union> RP)" using sound_rel_mono by blast
next
  assume new: "sound_rel (RC \<union> RP)"
  have path: "(y, x) \<in> (RC \<union> RP) ^^ n \<or> (y, x) \<in> RE ^^ n" if "(y, x) \<in> (RE \<union> RP) ^^ n" for y x n
    using splits_inside[OF split that] splits_outside[OF split that] by blast
  have "acyclic (RE \<union> RP)"
    using path new old unfolding sound_rel_def acyclic_def trancl_power by meson
  moreover have "(RE \<union> RP) ^^ 17 = {}" using path[where n = 17] new old unfolding sound_rel_def by auto
  moreover have "no_diamond (RE \<union> RP)"
    unfolding no_diamond_def
  proof (intro allI impI)
    fix p p' x assume e: "(p, x) \<in> RE \<union> RP" "(p', x) \<in> RE \<union> RP" "p \<noteq> p'"
    show "up (RE \<union> RP) p \<inter> up (RE \<union> RP) p' = {}"
    proof (cases "x \<in> V")
      case True
      then have "p \<in> V" "p' \<in> V" "(p, x) \<in> RC \<union> RP" "(p', x) \<in> RC \<union> RP" using split e unfolding splits_def by blast+
      then show ?thesis using new e(3) splits_up(1)[OF split] unfolding sound_rel_def no_diamond_def by metis
    next
      case False
      then have "p \<notin> V" "p' \<notin> V" "(p, x) \<in> RE" "(p', x) \<in> RE" using split e unfolding splits_def by blast+
      then show ?thesis using old e(3) splits_up(2)[OF split] unfolding sound_rel_def no_diamond_def by metis
    qed
  qed
  ultimately show "sound_rel (RE \<union> RP)" by (simp add: sound_rel_def)
qed

text \<open>
  \<open>D\<close> holds the new members and everything below them; accounts without a direct set in it see
  only old edges.
\<close>

lemma splits_members:
  assumes split: "splits V RE RC RP" and old: "sound_members RE ms"
    and D: "\<And>p c. (p, c) \<in> RP \<Longrightarrow> c \<in> D" "\<And>p c. p \<in> D \<Longrightarrow> (p, c) \<in> RC \<union> RP \<Longrightarrow> c \<in> D"
    and cand: "set part = {m \<in> set ms. \<exists>m' \<in> set ms. am_account_set_id m' \<in> D \<and> am_account_id m' = am_account_id m}"
    and "distinct part"
  shows "sound_members (RE \<union> RP) ms \<longleftrightarrow> sound_members (RC \<union> RP) part"
proof -
  let ?R = "RE \<union> RP" and ?S = "RC \<union> RP"
  have dist: "distinct ms" using old by (simp add: sound_members_def)
  have sub: "up ?S x \<subseteq> up ?R x" for x using split by (intro up_mono) (auto simp: splits_def)
  have away: "up ?R x = up RE x" if "x \<notin> D" for x
  proof (cases "x \<in> V")
    case True
    have "(y, x) \<in> RE\<^sup>*" if "(y, x) \<in> ?S\<^sup>*" for y
    proof -
      have "(y, x) \<in> RE\<^sup>* \<and> y \<notin> D" using that \<open>x \<notin> D\<close>
      proof (induction rule: converse_rtrancl_induct)
        case (step y z)
        then have "y \<notin> D" "(y, z) \<in> RE" using D split unfolding splits_def by blast+
        then show ?case using step by (meson converse_rtrancl_into_rtrancl)
      qed simp
      then show ?thesis ..
    qed
    then show ?thesis using splits_up(1)[OF split True] up_mono[of RE ?R x] by (auto simp: up_def)
  next
    case False
    then show ?thesis using splits_up(2)[OF split] by blast
  qed
  show ?thesis
  proof
    assume "sound_members ?R ms"
    then show "sound_members ?S part"
      using cand assms(6) sub unfolding sound_members_def by (auto simp: disjoint_iff) (meson subsetD)
  next
    assume new: "sound_members ?S part"
    show "sound_members ?R ms"
      unfolding sound_members_def
    proof (intro conjI ballI impI)
      fix m m' assume m: "m \<in> set ms" "m' \<in> set ms" "m \<noteq> m'" "am_account_id m = am_account_id m'"
      let ?s = "am_account_set_id m" and ?t = "am_account_set_id m'"
      have was: "up RE ?s \<inter> up RE ?t = {}" using old m by (auto simp: sound_members_def)
      show "up ?R ?s \<inter> up ?R ?t = {}"
      proof (cases "?s \<in> V \<and> ?t \<in> V")
        case True
        show ?thesis
        proof (cases "m \<in> set part")
          case True
          then have "m' \<in> set part" using m(2,4) unfolding cand by auto
          then have "up ?S ?s \<inter> up ?S ?t = {}" using new True m(3,4) by (auto simp: sound_members_def)
          then show ?thesis using splits_up(1)[OF split] \<open>?s \<in> V \<and> ?t \<in> V\<close> by simp
        next
          case False
          then have "?s \<notin> D" "?t \<notin> D" using m unfolding cand by auto
          then show ?thesis using away was by simp
        qed
      next
        case False
        then show ?thesis using splits_up[OF split] was by (cases "?s \<in> V"; cases "?t \<in> V") auto
      qed
    qed (rule dist)
  qed
qed

section \<open>The part that is loaded\<close>

text \<open>The loop ends with the edges of a union of components.\<close>

lemma connected_loop_spec:
  assumes "snapshot_matches snap mt"
    and "edge_rel edges = {(p, c) \<in> set (mt_member_sets mt). p \<in> set visited \<or> c \<in> set visited}"
    and "\<forall>p c. (p, c) \<in> set (mt_member_sets mt) \<longrightarrow> (p \<in> set visited \<longrightarrow> c \<in> set visited \<union> set todo) \<and>
      (c \<in> set visited \<longrightarrow> p \<in> set visited \<union> set todo)"
  shows "\<exists>V. set visited \<union> set todo \<subseteq> V \<and> (\<forall>p c. (p, c) \<in> set (mt_member_sets mt) \<longrightarrow> (p \<in> V \<longleftrightarrow> c \<in> V)) \<and>
    edge_rel (connected_loop snap visited edges todo) = {(p, c) \<in> set (mt_member_sets mt). c \<in> V}"
  using assms
proof (induction snap visited edges todo rule: connected_loop.induct)
  case (1 snap visited edges)
  then show ?case by (intro exI[of _ "set visited"]) auto
next
  case (2 snap visited edges s todo)
  note snap = 2(3) and edges = 2(4) and closed = 2(5)
  show ?case
  proof (cases "s \<in> set visited")
    case True
    have "\<forall>p c. (p, c) \<in> set (mt_member_sets mt) \<longrightarrow> (p \<in> set visited \<longrightarrow> c \<in> set visited \<union> set todo) \<and>
      (c \<in> set visited \<longrightarrow> p \<in> set visited \<union> set todo)" using closed True by auto
    from 2(1)[OF True snap edges this] obtain V where "set visited \<union> set todo \<subseteq> V"
      "\<forall>p c. (p, c) \<in> set (mt_member_sets mt) \<longrightarrow> (p \<in> V \<longleftrightarrow> c \<in> V)"
      "edge_rel (connected_loop snap visited edges todo) = {(p, c) \<in> set (mt_member_sets mt). c \<in> V}" by blast
    then show ?thesis using True by (intro exI[of _ V]) auto
  next
    case False
    let ?ps = "get_list (map_of (gs_parents snap)) s" and ?cs = "get_list (map_of (gs_children snap)) s"
    have ends: "set ?ps = {p. (p, s) \<in> set (mt_member_sets mt)}" "set ?cs = {c. (s, c) \<in> set (mt_member_sets mt)}"
      using snap by (simp_all add: snapshot_matches_def)
    let ?edges = "edges @ map (\<lambda>p. \<lparr> sm_account_set_id = p, sm_member_account_set_id = s \<rparr>) ?ps @
        map (\<lambda>c. \<lparr> sm_account_set_id = s, sm_member_account_set_id = c \<rparr>) ?cs"
    have "edge_rel ?edges = edge_rel edges \<union> (\<lambda>p. (p, s)) ` set ?ps \<union> Pair s ` set ?cs"
      by (simp add: edge_rel_def image_Un image_image Un_assoc)
    then have "edge_rel ?edges =
        {(p, c) \<in> set (mt_member_sets mt). p \<in> set (s # visited) \<or> c \<in> set (s # visited)}"
      unfolding edges ends by auto
    moreover have "\<forall>p c. (p, c) \<in> set (mt_member_sets mt) \<longrightarrow>
        (p \<in> set (s # visited) \<longrightarrow> c \<in> set (s # visited) \<union> set (rev (?ps @ ?cs) @ todo)) \<and>
        (c \<in> set (s # visited) \<longrightarrow> p \<in> set (s # visited) \<union> set (rev (?ps @ ?cs) @ todo))"
      using closed ends by auto
    ultimately obtain V where V: "set (s # visited) \<union> set (rev (?ps @ ?cs) @ todo) \<subseteq> V"
      "\<forall>p c. (p, c) \<in> set (mt_member_sets mt) \<longrightarrow> (p \<in> V \<longleftrightarrow> c \<in> V)"
      "edge_rel (connected_loop snap (s # visited) ?edges (rev (?ps @ ?cs) @ todo)) =
        {(p, c) \<in> set (mt_member_sets mt). c \<in> V}"
      using 2(2)[OF False refl refl snap] by blast
    have "connected_loop snap visited edges (s # todo) = connected_loop snap (s # visited) ?edges (rev (?ps @ ?cs) @ todo)"
      using False by (simp add: Let_def)
    then show ?thesis using V by (intro exI[of _ V]) auto
  qed
qed

lemma affected_loop_spec:
  assumes "\<forall>p \<in> set affected. set (get_list (map_of kids) p) \<subseteq> set affected \<union> set todo"
  shows "set affected \<union> set todo \<subseteq> set (affected_loop kids affected todo) \<and>
    (\<forall>p \<in> set (affected_loop kids affected todo).
       set (get_list (map_of kids) p) \<subseteq> set (affected_loop kids affected todo))"
  using assms
proof (induction kids affected todo rule: affected_loop.induct)
  case (2 kids affected s todo)
  show ?case
  proof (cases "s \<in> set affected")
    case True
    then have "\<forall>p \<in> set affected. set (get_list (map_of kids) p) \<subseteq> set affected \<union> set todo" using 2(3) by auto
    from 2(1)[OF True this] show ?thesis using True by auto
  next
    case False
    have "\<forall>p \<in> set (affected @ [s]). set (get_list (map_of kids) p) \<subseteq>
        set (affected @ [s]) \<union> set (rev (get_list (map_of kids) s) @ todo)" using 2(3) by auto
    from 2(2)[OF False this] show ?thesis using False by auto
  qed
qed simp

lemma get_edge_children: "get_list (map_of (edge_children es)) p = members es p"
  by (simp add: edge_children_def members_def filter_map comp_def)

lemma affected_memberships:
  fixes existing new :: "set_membership list"
  assumes "distinct (mt_member_accounts mt)"
  obtains D where "\<And>p c. (p, c) \<in> edge_rel new \<Longrightarrow> c \<in> D"
    and "\<And>p c. p \<in> D \<Longrightarrow> (p, c) \<in> edge_rel existing \<union> edge_rel new \<Longrightarrow> c \<in> D"
    and "set (fetch_affected_account_memberships mt existing new) = {m \<in> set (memberships_in mt).
      \<exists>m' \<in> set (memberships_in mt). am_account_set_id m' \<in> D \<and> am_account_id m' = am_account_id m}"
    and "distinct (fetch_affected_account_memberships mt existing new)"
proof -
  let ?D = "affected_loop (edge_children (existing @ new)) [] (rev (map sm_member_account_set_id new))"
  let ?cand = "sort_dedup (map snd (filter (\<lambda>r. fst r \<in> set ?D) (mt_member_accounts mt)))"
  have loop: "set (map sm_member_account_set_id new) \<subseteq> set ?D"
    "\<forall>p \<in> set ?D. set (get_list (map_of (edge_children (existing @ new))) p) \<subseteq> set ?D"
    using affected_loop_spec[of "[]" "edge_children (existing @ new)" "rev (map sm_member_account_set_id new)"] by auto
  have rows: "fetch_affected_account_memberships mt existing new =
      map to_account_membership (sort_key (\<lambda>r. (snd r, fst r)) (filter (\<lambda>r. snd r \<in> set ?cand) (mt_member_accounts mt)))"
    unfolding fetch_affected_account_memberships_def Let_def by (cases "?cand = []") simp_all
  have cand: "a \<in> set ?cand \<longleftrightarrow> (\<exists>m' \<in> set (memberships_in mt). am_account_set_id m' \<in> set ?D \<and> am_account_id m' = a)" for a
    by (force simp: memberships_in_def)
  show thesis
  proof (rule that[of "set ?D"])
    show "(p, c) \<in> edge_rel new \<Longrightarrow> c \<in> set ?D" for p c using loop(1) by (auto simp: edge_rel_def)
    show "c \<in> set ?D" if p: "p \<in> set ?D" and e: "(p, c) \<in> edge_rel existing \<union> edge_rel new" for p c
    proof (rule subsetD)
      show "set (members (existing @ new) p) \<subseteq> set ?D" using loop(2)[unfolded get_edge_children] p by (rule bspec)
      show "c \<in> set (members (existing @ new) p)" using e by simp
    qed
    show "set (fetch_affected_account_memberships mt existing new) = {m \<in> set (memberships_in mt).
      \<exists>m' \<in> set (memberships_in mt). am_account_set_id m' \<in> set ?D \<and> am_account_id m' = am_account_id m}"
      unfolding rows cand[symmetric] by (simp add: memberships_in_def image_iff del: set_sort_dedup) force
    show "distinct (fetch_affected_account_memberships mt existing new)"
      unfolding rows using assms inj_to_account_membership by (auto simp: distinct_map intro: inj_on_subset)
  qed
qed

section \<open>The check of set memberships\<close>

definition set_pairs :: "set_membership list \<Rightarrow> (account_set_id \<times> account_set_id) list" where
  "set_pairs es = map (\<lambda>e. (sm_account_set_id e, sm_member_account_set_id e)) es"

lemma to_set_pairs [simp]: "map to_set_membership (set_pairs es) = es"
  by (simp add: set_pairs_def to_set_membership_def comp_def) (rule map_idI, simp)

lemma inj_edge_pair: "inj (\<lambda>e :: set_membership. (sm_account_set_id e, sm_member_account_set_id e))"
  by (rule injI) simp

lemma set_set_pairs [simp]: "set (set_pairs es) = edge_rel es"
  by (simp add: set_pairs_def edge_rel_def)

definition with_sets :: "membership_tables \<Rightarrow> set_membership list \<Rightarrow> membership_tables" where
  "with_sets mt new = mt \<lparr> mt_member_sets := mt_member_sets mt @ set_pairs new, mt_graph_epoch := mt_graph_epoch mt + 1 \<rparr>"

lemma split_check:
  assumes ok: "hierarchy_ok mt" and ne: "new \<noteq> []"
    and ex: "edge_rel existing = {(p, c) \<in> set (mt_member_sets mt). c \<in> V}" "distinct existing"
    and V: "\<forall>p c. (p, c) \<in> set (mt_member_sets mt) \<longrightarrow> (p \<in> V \<longleftrightarrow> c \<in> V)" "\<forall>p c. (p, c) \<in> edge_rel new \<longrightarrow> p \<in> V \<and> c \<in> V"
  shows "\<exists>r. validate_set_memberships existing new (fetch_affected_account_memberships mt existing new) = Some r \<and>
    (r = Inr () \<longleftrightarrow> hierarchy_ok (with_sets mt new))"
proof -
  let ?R = "set (mt_member_sets mt)" and ?part = "fetch_affected_account_memberships mt existing new"
  note ok' = ok[unfolded hierarchy_rel]
  have split: "splits V ?R (edge_rel existing) (edge_rel new)" using V ex(1) by (auto simp: splits_def)
  have "distinct (mt_member_accounts mt)" using ok'
    by (auto simp: sound_members_def memberships_in_def distinct_map)
  from affected_memberships[OF this, of new existing] obtain D where
    D: "\<And>p c. (p, c) \<in> edge_rel new \<Longrightarrow> c \<in> D" "\<And>p c. p \<in> D \<Longrightarrow> (p, c) \<in> edge_rel existing \<union> edge_rel new \<Longrightarrow> c \<in> D"
      "set ?part = {m \<in> set (memberships_in mt).
         \<exists>m' \<in> set (memberships_in mt). am_account_set_id m' \<in> D \<and> am_account_id m' = am_account_id m}"
      "distinct ?part"
    by blast
  have "distinct (mt_member_sets mt @ set_pairs new) \<longleftrightarrow> distinct (existing @ new)"
  proof -
    have "?R \<inter> edge_rel new = edge_rel existing \<inter> edge_rel new" unfolding ex(1) using V(2) by auto
    moreover have "edge_rel existing \<inter> edge_rel new = {} \<longleftrightarrow> set existing \<inter> set new = {}"
      unfolding edge_rel_def image_Int[OF inj_edge_pair, symmetric] by simp
    moreover have "distinct (set_pairs new) \<longleftrightarrow> distinct new"
      using distinct_to_set_membership[of "set_pairs new"] by simp
    ultimately show ?thesis using ok' ex(2) by auto
  qed
  moreover have "sound_rel (?R \<union> edge_rel new) \<longleftrightarrow> sound_rel (edge_rel existing \<union> edge_rel new)"
    using splits_sound[OF split] ok' by simp
  moreover have "sound_members (?R \<union> edge_rel new) (memberships_in mt) \<longleftrightarrow> sound_members (edge_rel existing \<union> edge_rel new) ?part"
    using splits_members[OF split _ D] ok' by simp
  ultimately have "hierarchy_ok (with_sets mt new) \<longleftrightarrow> validate_set_memberships existing new ?part = Some (Inr ())"
    unfolding hierarchy_rel validate_accepts_rel by (simp add: with_sets_def memberships_in_def)
  then show ?thesis using validate_returns[OF ne, of existing ?part] by auto
qed

lemma set_check:
  assumes ok: "hierarchy_ok mt" and snap: "gs_epoch snap = mt_graph_epoch mt \<longrightarrow> snapshot_matches snap mt"
    and ord: "\<And>es. mset (ord es) = mset es" and ne: "new \<noteq> []"
  shows "\<exists>r. fst (assert_valid_set_memberships_in_op ord snap mt new) = Some r \<and>
    (r = Inr () \<longleftrightarrow> hierarchy_ok (with_sets mt new))"
proof (cases "gs_epoch snap = mt_graph_epoch mt")
  case True
  let ?ends = "rev (concat (map (\<lambda>e. [sm_account_set_id e, sm_member_account_set_id e]) new))"
  obtain V where V: "set ?ends \<subseteq> V" "\<forall>p c. (p, c) \<in> set (mt_member_sets mt) \<longrightarrow> (p \<in> V \<longleftrightarrow> c \<in> V)"
    "edge_rel (connected_loop snap [] [] ?ends) = {(p, c) \<in> set (mt_member_sets mt). c \<in> V}"
    using connected_loop_spec[of snap mt "[]" "[]" ?ends] snap True by auto
  let ?ex = "edges_connected_to ord snap new"
  have "set ?ex = set (connected_loop snap [] [] ?ends)" "distinct ?ex"
    unfolding edges_connected_to_def using mset_eq_setD[OF ord] mset_eq_imp_distinct_iff[OF ord] by simp_all
  then have "edge_rel ?ex = {(p, c) \<in> set (mt_member_sets mt). c \<in> V}" using V(3) by (simp add: edge_rel_def)
  moreover have "\<forall>p c. (p, c) \<in> edge_rel new \<longrightarrow> p \<in> V \<and> c \<in> V" using V(1) by (auto simp: edge_rel_def)
  ultimately show ?thesis
    using split_check[OF ok ne _ \<open>distinct ?ex\<close> V(2)] True
    by (simp add: assert_valid_set_memberships_in_op_def fetch_set_graph_epoch_def Let_def)
next
  case False
  have "distinct (fetch_set_membership_edges mt)" using ok by (simp add: hierarchy_rel fetch_set_membership_edges_def)
  moreover have "edge_rel (fetch_set_membership_edges mt) = {(p, c) \<in> set (mt_member_sets mt). c \<in> UNIV}"
    by (simp add: fetch_set_membership_edges_def)
  ultimately show ?thesis
    using split_check[OF ok ne, of "fetch_set_membership_edges mt" UNIV] False
    by (simp add: assert_valid_set_memberships_in_op_def fetch_set_graph_epoch_def Let_def)
qed

end
