(* ===== verification/Graph_Cache_Theorems.thy ===== *)
theory Graph_Cache_Theorems imports Local_Validation begin

text \<open>
  What the set-graph cache promises: it answers like the statements it replaces.
\<close>

section \<open>Ancestor resolution\<close>

lemma ancestor_sets_up:
  "ancestor_sets mt a = \<Union>(up (set (mt_member_sets mt)) ` {s. (s, a) \<in> set (mt_member_accounts mt)})"
proof -
  have "{(c, p). (p, c) \<in> R} = R\<inverse>" for R :: "(account_set_id \<times> account_set_id) set" by auto
  then show ?thesis unfolding ancestor_sets_def up_def by (auto simp: rtrancl_converse)
qed

lemma set_seeds [simp]: "set (seeds ms a) = {s. \<exists>m \<in> set ms. am_account_id m = a \<and> am_account_set_id m = s}"
  by (auto simp: seeds_def)

definition inline_set :: "membership_tables \<Rightarrow> journal_id \<Rightarrow> account_set_id \<Rightarrow> bool" where
  "inline_set mt j s \<longleftrightarrow> mt_account_sets mt s = Some j \<and>
     (\<exists>acc. mt_accounts mt (account_of_set s) = Some acc \<and> \<not> ac_eventually_consistent acc)"

text \<open>What both ways of resolving ancestors have to return.\<close>

definition resolves ::
  "membership_tables \<Rightarrow> journal_id \<Rightarrow> account_id set \<Rightarrow> (account_id \<times> currency) list
     \<Rightarrow> (account_id \<times> account_set_id list) list \<times> (account_set_id \<times> currency) list \<Rightarrow> bool" where
  "resolves mt j accounts pairs r \<longleftrightarrow>
     (\<forall>a. distinct (get_list (map_of (fst r)) a) \<and>
        set (get_list (map_of (fst r)) a) =
          (if a \<in> accounts then {s \<in> ancestor_sets mt a. mt_account_sets mt s = Some j} else {})) \<and>
     snd r = sort_dedup (concat (map (\<lambda>(a, c). map (\<lambda>s. (s, c))
       (filter (inline_set mt j) (get_list (map_of (fst r)) a))) pairs))"

lemma lock_rows:
  "x \<in> set (concat (map (\<lambda>(a, c). map (\<lambda>s. (s, c)) (filter P (f a))) pairs)) \<longleftrightarrow>
     (\<exists>a. (a, snd x) \<in> set pairs \<and> fst x \<in> set (f a) \<and> P (fst x))"
  by (cases x) force

lemma walk_resolves: "resolves mt j (fst ` set pairs) pairs (walk_mappings_and_lock mt j pairs)"
proof -
  define rows where "rows = union_walk
     (concat (map (\<lambda>a. map (\<lambda>(p, c). ((a, c), (a, p))) (mt_member_sets mt)) (map fst pairs)))
     (map (\<lambda>(s, a). (a, s)) (filter (\<lambda>(s, a). a \<in> set (map fst pairs)) (mt_member_accounts mt)))"
  have rows: "(a, s) \<in> set rows \<longleftrightarrow> a \<in> fst ` set pairs \<and> s \<in> ancestor_sets mt a" for a s
    unfolding rows_def using ancestor_rows[of a s mt "map fst pairs"] by simp
  let ?resolved = "filter (\<lambda>(a, s). mt_account_sets mt s = Some j) rows"
  have dist: "distinct rows" by (simp add: rows_def)
  have get: "get_list (map_of (group_pairs ?resolved)) a = map snd (filter (\<lambda>r. fst r = a) ?resolved)" for a
    by simp
  have d: "distinct (get_list (map_of (group_pairs ?resolved)) a)" for a
    unfolding get using dist by (auto simp: distinct_map inj_on_def)
  have s: "set (get_list (map_of (group_pairs ?resolved)) a) =
      (if a \<in> fst ` set pairs then {s \<in> ancestor_sets mt a. mt_account_sets mt s = Some j} else {})" for a
    unfolding get using rows by force
  define lock where "lock a s = (case mt_accounts mt (account_of_set s) of
                      None \<Rightarrow> []
                    | Some acc \<Rightarrow> if ac_eventually_consistent acc then []
                                  else map (\<lambda>(_, c). (s, c)) (filter (\<lambda>(b, _). b = a) pairs))" for a s
  define locks where "locks = concat (map (\<lambda>(a, s). lock a s) ?resolved)"
  have one: "(s', c) \<in> set (lock a s) \<longleftrightarrow> s' = s \<and> (a, c) \<in> set pairs \<and>
      (\<exists>acc. mt_accounts mt (account_of_set s) = Some acc \<and> \<not> ac_eventually_consistent acc)" for a s s' c
    by (cases "mt_accounts mt (account_of_set s)") (auto simp: lock_def image_iff)
  let ?get = "\<lambda>a. get_list (map_of (group_pairs ?resolved)) a"
  have locked: "x \<in> set locks \<longleftrightarrow> (\<exists>a. (a, snd x) \<in> set pairs \<and> (a, fst x) \<in> set rows \<and> inline_set mt j (fst x))" for x
    by (cases x) (auto simp: locks_def one inline_set_def)
  have "t \<in> set (?get a) \<and> inline_set mt j t \<longleftrightarrow> (a, t) \<in> set rows \<and> inline_set mt j t" for a t
    unfolding s rows by (auto simp: inline_set_def)
  then have "sort_dedup locks = sort_dedup (concat (map (\<lambda>(a, c). map (\<lambda>s. (s, c)) (filter (inline_set mt j) (?get a))) pairs))"
    by (intro sort_dedup_cong set_eqI, unfold locked lock_rows) simp
  then show ?thesis
    unfolding resolves_def walk_mappings_and_lock_def Let_def rows_def[symmetric] lock_def[symmetric] locks_def[symmetric]
    using d s by simp
qed

lemma parent_rel_view:
  assumes "snapshot_matches snap mt"
  shows "parent_rel (view_parents snap (load_overlay mt (missing_sets snap ms))) = set (mt_member_sets mt)"
  using view_matches(2)[OF assms missing_sets(2)] by (auto simp: parent_rel_def)

lemma node_meta_tests:
  assumes "meta s = node_meta mt s" and "node_meta mt s \<noteq> None"
  shows "in_journal meta j s \<longleftrightarrow> mt_account_sets mt s = Some j" and "inline_in meta j s \<longleftrightarrow> inline_set mt j s"
  using assms by (cases "mt_account_sets mt s"; cases "mt_accounts mt (account_of_set s)";
      simp add: in_journal_def inline_in_def inline_set_def node_meta_def)+

lemma expand_resolves:
  fixes accounts :: "account_id list"
  assumes keys: "keys_ok mt" and snap: "snapshot_matches snap mt"
  defines "ms \<equiv> dmp_seeds (probe_direct_memberships mt accounts)"
  shows "\<exists>r. expand snap (load_overlay mt (missing_sets snap ms)) j ms pairs = Some r \<and>
    resolves mt j (set accounts) pairs r"
proof -
  let ?ov = "load_overlay mt (missing_sets snap ms)" and ?R = "set (mt_member_sets mt)"
  let ?meta = "view_meta snap ?ov" and ?par = "view_parents snap ?ov"
  let ?g = "group_pairs (map (\<lambda>m. (am_account_id m, am_account_set_id m)) ms)"
  have ms: "m \<in> set ms \<longleftrightarrow> am_account_id m \<in> set accounts \<and>
      (am_account_set_id m, am_account_id m) \<in> set (mt_member_accounts mt)" for m
    by (auto simp: ms_def probe_direct_memberships_def)
  have exists: "m \<in> set ms \<Longrightarrow> mt_account_sets mt (am_account_set_id m) \<noteq> None" for m
    using keys ms by (auto simp: keys_ok_def)
  note known = view_known[OF keys snap exists]
  note R = parent_rel_view[OF snap, of ms]
  have seeds: "get_list (map_of ?g) a = seeds ms a" for a by (simp add: seeds_def filter_map comp_def)
  have group: "q = seeds ms a" if "(a, q) \<in> set ?g" for a q
    using that seeds[of a] by (simp add: get_list_def map_of_is_SomeI)
  have "\<forall>a. \<exists>vs. expand_account ?meta ?par j (seeds ms a) =
      Some (filter (in_journal (map_of ?meta) j) vs, filter (inline_in (map_of ?meta) j) vs) \<and>
      distinct vs \<and> set vs = \<Union>(up ?R ` set (seeds ms a))"
    by (intro allI, rule expand_account_spec[of ?par _ ?meta j, unfolded R]) (use known in fastforce)
  then obtain V where V: "\<And>a. expand_account ?meta ?par j (seeds ms a) =
      Some (filter (in_journal (map_of ?meta) j) (V a), filter (inline_in (map_of ?meta) j) (V a))"
    "\<And>a. distinct (V a)" "\<And>a. set (V a) = \<Union>(up ?R ` set (seeds ms a))" by metis
  have V_anc: "set (V a) = (if a \<in> set accounts then ancestor_sets mt a else {})" for a
  proof -
    have "set (seeds ms a) = (if a \<in> set accounts then {s. (s, a) \<in> set (mt_member_accounts mt)} else {})"
    proof (intro set_eqI iffI)
      fix s assume "s \<in> (if a \<in> set accounts then {s. (s, a) \<in> set (mt_member_accounts mt)} else {})"
      then have "to_account_membership (s, a) \<in> set ms" using ms by (auto split: if_splits)
      then show "s \<in> set (seeds ms a)" by force
    qed (use ms in auto)
    then show ?thesis unfolding V(3) ancestor_sets_up by simp
  qed
  have nodes: "s \<in> set (V a) \<Longrightarrow> map_of ?meta s = node_meta mt s" for a s
    using known unfolding V(3) by fastforce
  have known_nodes: "s \<in> set (V a) \<Longrightarrow> node_meta mt s \<noteq> None" for a s
    using known unfolding V(3) by fastforce
  have "expand_account ?meta ?par j q = Some (fst (the (expand_account ?meta ?par j q)), snd (the (expand_account ?meta ?par j q)))"
    if "(a, q) \<in> set ?g" for a q
    unfolding group[OF that] V(1) by simp
  note expands = expand_accounts_spec[OF distinct_keys_group_pairs this]
  have "\<exists>mappings non_ec. expand_accounts (expand_account ?meta ?par j) ?g = Some (mappings, non_ec) \<and>
      (\<forall>a. get_list (map_of mappings) a = (case map_of ?g a of None \<Rightarrow> [] | Some q \<Rightarrow> fst (the (expand_account ?meta ?par j q)))) \<and>
      (\<forall>a. get_list (map_of non_ec) a = (case map_of ?g a of None \<Rightarrow> [] | Some q \<Rightarrow> snd (the (expand_account ?meta ?par j q))))"
    by (rule expands)
  then obtain M N where M: "expand_accounts (expand_account ?meta ?par j) ?g = Some (M, N)"
    "\<And>a. get_list (map_of M) a = (case map_of ?g a of None \<Rightarrow> [] | Some q \<Rightarrow> fst (the (expand_account ?meta ?par j q)))"
    "\<And>a. get_list (map_of N) a = (case map_of ?g a of None \<Rightarrow> [] | Some q \<Rightarrow> snd (the (expand_account ?meta ?par j q)))"
    by blast
  have absent: "map_of ?g a = None \<Longrightarrow> V a = []" for a
    using seeds[of a] V(3)[of a] by (simp add: get_list_def del: set_seeds)
  have present: "map_of ?g a = Some q \<Longrightarrow> q = seeds ms a" for a q
    using seeds[of a] by (simp add: get_list_def del: get_list_group_pairs map_of_eq_Some_iff)
  have get: "get_list (map_of M) a = filter (in_journal (map_of ?meta) j) (V a) \<and>
      get_list (map_of N) a = filter (inline_in (map_of ?meta) j) (V a)" for a
  proof (cases "map_of ?g a")
    case None
    then show ?thesis unfolding M(2,3) absent[OF None] None by simp
  next
    case (Some q)
    show ?thesis unfolding M(2,3) Some present[OF Some] V(1) option.case option.sel fst_conv snd_conv by simp
  qed
  have meta: "filter (in_journal (map_of ?meta) j) (V a) = filter (\<lambda>s. mt_account_sets mt s = Some j) (V a)"
    "filter (inline_in (map_of ?meta) j) (V a) = filter (inline_set mt j) (V a)" for a
    using node_meta_tests[of "map_of ?meta", OF nodes known_nodes] by (blast intro: filter_cong[OF refl])+
  have "filter (inline_set mt j) (V a) = filter (inline_set mt j) (get_list (map_of M) a)" for a
    unfolding conjunct1[OF get] meta by (auto intro!: filter_cong simp: inline_set_def)
  then have "resolves mt j (set accounts) pairs
      (M, sort_dedup (concat (map (\<lambda>(a, c). map (\<lambda>s. (s, c)) (get_list (map_of N) a)) pairs)))"
    unfolding resolves_def conjunct2[OF get] meta(2) using V(2) V_anc by (auto simp: conjunct1[OF get] meta(1))
  then show ?thesis by (simp add: expand_def Let_def M(1))
qed

section \<open>Path checks\<close>

definition account_pairs :: "account_membership list \<Rightarrow> (account_set_id \<times> account_id) list" where
  "account_pairs ms = map (\<lambda>m. (am_account_set_id m, am_account_id m)) ms"

lemma to_account_pairs [simp]: "map to_account_membership (account_pairs ms) = ms"
  by (simp add: account_pairs_def to_account_membership_def comp_def) (rule map_idI, simp)

definition with_accounts :: "membership_tables \<Rightarrow> account_membership list \<Rightarrow> membership_tables" where
  "with_accounts mt new = mt \<lparr> mt_member_accounts := mt_member_accounts mt @ account_pairs new \<rparr>"

lemma account_rows_filter: "account_rows mt A = filter (\<lambda>m. am_account_id m \<in> A) (memberships_in mt)"
  by (simp add: account_rows_def memberships_in_def filter_map comp_def)

lemma sound_members_new:
  assumes "sound_members R ms"
  shows "sound_members R (new @ filter (\<lambda>m. am_account_id m \<in> am_account_id ` set new) ms) \<longleftrightarrow>
    sound_members R (ms @ new)"
proof -
  let ?own = "filter (\<lambda>m. am_account_id m \<in> am_account_id ` set new) ms"
  have "set new \<inter> set ?own = set new \<inter> set ms" by auto
  then have dist: "distinct (new @ ?own) \<longleftrightarrow> distinct (ms @ new)"
    using assms by (auto simp: sound_members_def)
  let ?D = "\<lambda>m m'. m \<noteq> m' \<longrightarrow> am_account_id m = am_account_id m' \<longrightarrow>
      up R (am_account_set_id m) \<inter> up R (am_account_set_id m') = {}"
  have sub: "set (new @ ?own) \<subseteq> set (ms @ new)" by auto
  have "?D m m'" if m: "m \<in> set (ms @ new)" "m' \<in> set (ms @ new)"
    and own: "\<forall>m \<in> set (new @ ?own). \<forall>m' \<in> set (new @ ?own). ?D m m'" for m m'
  proof (cases "m \<in> set (new @ ?own) \<and> m' \<in> set (new @ ?own)")
    case False
    have "m \<in> set (new @ ?own) \<longleftrightarrow> am_account_id m \<in> am_account_id ` set new"
      "m' \<in> set (new @ ?own) \<longleftrightarrow> am_account_id m' \<in> am_account_id ` set new" using m by auto
    with False have out: "am_account_id m = am_account_id m' \<Longrightarrow> am_account_id m \<notin> am_account_id ` set new" by metis
    have "m \<in> set ms \<and> m' \<in> set ms" if "am_account_id m = am_account_id m'"
      using out[OF that] that m by (metis Un_iff imageI set_append)
    then show ?thesis using assms by (auto simp: sound_members_def)
  qed (use own in blast)
  with sub have "(\<forall>m \<in> set (new @ ?own). \<forall>m' \<in> set (new @ ?own). ?D m m') \<longleftrightarrow>
      (\<forall>m \<in> set (ms @ new). \<forall>m' \<in> set (ms @ new). ?D m m')" by (meson subsetD)
  then show ?thesis unfolding sound_members_def dist by blast
qed

lemma sql_check:
  assumes "hierarchy_ok mt"
  shows "assert_no_double_membership mt new =
    Some (if hierarchy_ok (with_accounts mt new) then Inr () else Inl MemberAlreadyAdded)"
proof -
  have "hierarchy_ok (with_accounts mt new) \<longleftrightarrow> sound_members (set (mt_member_sets mt)) (memberships_in mt @ new)"
    using assms unfolding hierarchy_rel by (simp add: with_accounts_def memberships_in_def)
  also have "\<dots> \<longleftrightarrow> sound_members (set (mt_member_sets mt)) (new @ account_rows mt (am_account_id ` set new))"
    using assms unfolding account_rows_filter hierarchy_rel by (simp add: sound_members_new)
  finally show ?thesis unfolding sql_path_check[OF assms] by simp
qed

lemma map_of_map_fst: "map_of (map (\<lambda>(k, _). (k, f k)) m) k = map_option (\<lambda>_. f k) (map_of m k)"
  by (induction m) auto

lemma known_parents_known:
  assumes "keys_ok mt" and "snapshot_matches snap mt" and "distinct (mt_member_sets mt)"
    and "\<And>m. m \<in> set ms \<Longrightarrow> mt_account_sets mt (am_account_set_id m) \<noteq> None"
    and "m \<in> set ms" and "s \<in> up (set (mt_member_sets mt)) (am_account_set_id m)"
  shows "\<exists>ps. map_of (known_parents snap (load_overlay mt (missing_sets snap ms))) s = Some ps \<and> distinct ps \<and>
    set ps = {p. (p, s) \<in> set (mt_member_sets mt)}"
proof -
  let ?ov = "load_overlay mt (missing_sets snap ms)"
  from view_known[OF assms(1,2,4-6)] obtain x where "map_of (view_meta snap ?ov) s = Some x" by auto
  then have "map_of (known_parents snap ?ov) s = Some (get_list (map_of (view_parents snap ?ov)) s)"
    unfolding known_parents_def by (simp add: map_of_map_fst)
  then show ?thesis
    using view_matches(2)[OF assms(2) missing_sets(2)] distinct_parents_in[OF assms(3)] by auto
qed

lemma member_check:
  assumes ok: "hierarchy_ok mt" and keys: "keys_ok mt"
    and snap: "gs_epoch snap = mt_graph_epoch mt \<longrightarrow> snapshot_matches snap mt"
    and sets: "\<And>m. m \<in> set new \<Longrightarrow> mt_account_sets mt (am_account_set_id m) \<noteq> None"
  shows "fst (assert_no_double_membership_in_op snap mt new) = assert_no_double_membership mt new"
proof (cases "gs_epoch snap = mt_graph_epoch mt")
  case True
  let ?probe = "probe_direct_memberships mt (sort_dedup (map am_account_id new))"
  let ?K = "known_parents snap (load_overlay mt (missing_sets snap (new @ dmp_seeds ?probe)))"
  have rows: "dmp_seeds ?probe = account_rows mt (am_account_id ` set new)"
    by (simp add: probe_direct_memberships_def account_rows_def)
  have "m \<in> set (dmp_seeds ?probe) \<Longrightarrow> mt_account_sets mt (am_account_set_id m) \<noteq> None" for m
    using keys by (auto simp: rows account_rows_def keys_ok_def)
  then have exist: "m \<in> set (new @ dmp_seeds ?probe) \<Longrightarrow> mt_account_sets mt (am_account_set_id m) \<noteq> None" for m
    using sets by auto
  have R: "set (mt_member_sets mt) = edge_rel (map to_set_membership (mt_member_sets mt))" by simp
  have ok': "acyclic (set (mt_member_sets mt))" "no_diamond (set (mt_member_sets mt))" "distinct (mt_member_sets mt)"
    using ok by (auto simp: hierarchy_rel sound_rel_def)
  have "has_duplicate_account_membership_paths new (dmp_seeds ?probe) ?K =
      Some (\<not> sound_members (set (mt_member_sets mt)) (new @ dmp_seeds ?probe))"
    by (rule memory_path_check[OF ok'(1,2) R]) (rule known_parents_known[OF keys _ ok'(3) exist], use snap True in auto)
  then show ?thesis
    unfolding sql_path_check[OF ok] rows[symmetric]
    using True by (simp add: assert_no_double_membership_in_op_def probe_direct_memberships_def Let_def)
next
  case False
  then show ?thesis by (simp add: assert_no_double_membership_in_op_def probe_direct_memberships_def Let_def)
qed

section \<open>Resolution from a probe\<close>

lemma cached_resolves:
  assumes keys: "keys_ok mt" and match: "gs_epoch snap = mt_graph_epoch mt \<longrightarrow> snapshot_matches snap mt"
    and covered: "fst ` set pairs \<subseteq> set accounts"
  shows "\<exists>A. fst ` set pairs \<subseteq> A \<and> resolves mt j A pairs
    (fst (resolve_from_probe snap mt j (mt_graph_epoch mt) (dmp_seeds (probe_direct_memberships mt accounts)) pairs))"
    (is "\<exists>A. _ \<and> resolves mt j A pairs ?r")
proof -
  let ?seeds = "dmp_seeds (probe_direct_memberships mt accounts)"
  have walk: "resolves mt j (fst ` set pairs) pairs (walk_mappings_and_lock mt j pairs)" by (rule walk_resolves)
  consider "?seeds = []" | "?seeds \<noteq> []" "gs_epoch snap \<noteq> mt_graph_epoch mt" | "?seeds \<noteq> []" "gs_epoch snap = mt_graph_epoch mt"
    by blast
  then show ?thesis
  proof cases
    case 1
    have empty: "concat (map (\<lambda>(a, c). []) ps) = []" for ps :: "(account_id \<times> currency) list" by auto
    from 1 have "(s, a) \<notin> set (mt_member_accounts mt)" if "a \<in> set accounts" for s a
      using that by (auto simp: probe_direct_memberships_def filter_empty_conv)
    then have "resolves mt j (set accounts) pairs ([], [])"
      by (auto simp: resolves_def ancestor_sets_up sort_dedup_def get_list_def empty)
    then show ?thesis using 1 covered by (auto simp: resolve_from_probe_def)
  next
    case 2
    then show ?thesis using walk by (auto simp: resolve_from_probe_def)
  next
    case 3
    from expand_resolves[OF keys mp[OF match 3(2)], of accounts j pairs]
    show ?thesis using 3 covered by (intro exI[of _ "set accounts"]) (auto simp: resolve_from_probe_def)
  qed
qed

end
