(* ===== verification/Posting_Correct.thy ===== *)
theory Posting_Correct imports Posting_Fold Graph_Cache_Theorems Tx_Template_Theorems begin

text \<open>
  The stages of the posting flow, each as a statement about the batch: what preparation returns,
  what is read for the accounts the batch touches, which ancestors are resolved in each journal,
  and which rows are staged.
\<close>

section \<open>Preparation\<close>

definition prepares ::
  "'d::linordered_ab_group_add posting_env \<Rightarrow> nat \<Rightarrow> (string \<times> resolved_template) list \<Rightarrow> nat
     \<Rightarrow> 'd posting_input \<Rightarrow> 'd prepared_transaction \<Rightarrow> bool" where
  "prepares env attempt templates i input p \<longleftrightarrow>
     (\<exists>t. map_of templates (pi_tx_template_code input) = Some t \<and>
        prepare_transaction (pn_prepare env attempt i) (pn_clock env attempt i) (pi_tx_id input) (rt_values t)
          (pi_params input) = Inr p)"

lemma prepare_one_Inr:
  assumes "prepare_one (pn_prepare env k) (pn_clock env k) ts (ps, ids, exts) (i, input) = Some (Inr st)"
  shows "\<exists>p. prepares env k ts i input p \<and> pt_tx_id p \<notin> ids \<and>
    (\<forall>x. pt_external_id p = Some x \<longrightarrow> x \<notin> exts) \<and>
    st = (ps @ [p], insert (pt_tx_id p) ids, case pt_external_id p of None \<Rightarrow> exts | Some x \<Rightarrow> insert x exts)"
  using assms by (auto simp: prepare_one_def prepares_def Let_def split: option.splits sum.splits if_splits)

lemma prepare_fold:
  assumes "pfold (prepare_one (pn_prepare env k) (pn_clock env k) ts) (ps0, ids, exts) (enumerate n xs) = Some (Inr (ps, st))"
  shows "\<exists>new. ps = ps0 @ new \<and> length new = length xs \<and> (\<forall>i < length xs. prepares env k ts (n + i) (xs ! i) (new ! i)) \<and>
    distinct (map pt_tx_id new) \<and> pt_tx_id ` set new \<inter> ids = {} \<and>
    distinct (List.map_filter pt_external_id new) \<and> set (List.map_filter pt_external_id new) \<inter> exts = {}"
  using assms
proof (induction xs arbitrary: n ps0 ids exts)
  case (Cons x xs)
  from Cons.prems obtain p ids' exts' where
    p: "prepares env k ts n x p" "pt_tx_id p \<notin> ids" and
    st: "ids' = insert (pt_tx_id p) ids" "exts' = (case pt_external_id p of None \<Rightarrow> exts | Some x \<Rightarrow> insert x exts)"
      "case pt_external_id p of None \<Rightarrow> True | Some x \<Rightarrow> x \<notin> exts" and
    rest: "pfold (prepare_one (pn_prepare env k) (pn_clock env k) ts) (ps0 @ [p], ids', exts') (enumerate (Suc n) xs) = Some (Inr (ps, st))"
    by (auto simp: pbind_Inr_iff dest!: prepare_one_Inr split: option.splits)
  from Cons.IH[OF rest] obtain new where
    new: "ps = (ps0 @ [p]) @ new" "length new = length xs" "\<forall>i < length xs. prepares env k ts (Suc n + i) (xs ! i) (new ! i)"
    "distinct (map pt_tx_id new)" "pt_tx_id ` set new \<inter> ids' = {}"
    "distinct (List.map_filter pt_external_id new)" "set (List.map_filter pt_external_id new) \<inter> exts' = {}" by blast
  have "\<forall>i < length (x # xs). prepares env k ts (n + i) ((x # xs) ! i) ((p # new) ! i)"
    using new(3) p(1) by (auto simp: nth_Cons split: nat.split)
  then show ?case using new p(2) st
    by (intro exI[of _ "p # new"]) (auto simp: List.map_filter_simps split: option.splits)
qed (simp add: List.map_filter_simps)

lemma prepare_all_Inr:
  assumes "prepare_all env k batch ts = Some (Inr ps)"
  shows "length ps = length batch" and "\<And>i. i < length batch \<Longrightarrow> prepares env k ts i (batch ! i) (ps ! i)"
    and "distinct (map pt_tx_id ps)" and "distinct (List.map_filter pt_external_id ps)"
proof -
  from assms obtain st where "pfold (prepare_one (pn_prepare env k) (pn_clock env k) ts) ([], {}, {}) (enumerate 0 batch) = Some (Inr (ps, st))"
    by (auto simp: prepare_all_def pbind_Inr_iff)
  from prepare_fold[OF this] show "length ps = length batch" "\<And>i. i < length batch \<Longrightarrow> prepares env k ts i (batch ! i) (ps ! i)"
    "distinct (map pt_tx_id ps)" "distinct (List.map_filter pt_external_id ps)" by auto
qed

lemma prepared_entries:
  assumes "prepares env k ts i input p"
  shows "pt_tx_id p = pi_tx_id input" and "\<forall>e \<in> set (pt_entries p). ne_journal_id e = pt_journal_id p"
    and "(\<And>m. set (pe_hash_order (pn_prepare env k i) m) = set m) \<Longrightarrow>
      Tx_Template_Theorems.side_total Debit c l (pt_entries p) = Tx_Template_Theorems.side_total Credit c l (pt_entries p)"
proof -
  from assms obtain tmpl pe ctx where pe: "pe = pn_prepare env k i" and
    ctx: "prep_entries pe tmpl (pi_tx_id input) (pt_journal_id p) ctx = Inr (pt_entries p)" and
    p: "pt_tx_id p = pi_tx_id input"
    by (auto simp: prepares_def prepare_transaction_def Let_def rbind_Inr_iff)
  show "pt_tx_id p = pi_tx_id input" by (rule p)
  show "\<forall>e \<in> set (pt_entries p). ne_journal_id e = pt_journal_id p" using prep_entries_shape[OF ctx] by auto
  assume "\<And>m. set (pe_hash_order (pn_prepare env k i) m) = set m"
  from prep_entries_balanced[OF _ ctx, of c l] this
  show "Tx_Template_Theorems.side_total Debit c l (pt_entries p) = Tx_Template_Theorems.side_total Credit c l (pt_entries p)"
    by (simp add: imbalance_sides pe)
qed

section \<open>Staging rows\<close>

definition transaction_row_of :: "transaction_values \<Rightarrow> transaction_row" where
  "transaction_row_of v =
     \<lparr> tr_id = tv_id v, tr_journal_id = tv_journal_id v, tr_tx_template_id = tv_tx_template_id v,
       tr_external_id = tv_external_id v, tr_correlation_id = tv_correlation_id v, tr_effective = tv_effective v \<rparr>"

definition entry_row_of :: "'d entry_values \<Rightarrow> entry_row" where
  "entry_row_of v =
     \<lparr> en_id = e_id v, en_journal_id = e_journal_id v, en_account_id = e_account_id v, en_transaction_id = e_transaction_id v \<rparr>"

definition initial_row :: "'k \<Rightarrow> 'v \<Rightarrow> ('k, 'v) event_row" where
  "initial_row i v = EventRow i 1 ''initialized'' (Initialized v)"

definition posting_of :: "new_transaction \<times> 'd new_entry list \<Rightarrow> 'd posting" where
  "posting_of n = (new_transaction_values (fst n), map new_entry_values (snd n))"

definition stage :: "'d posting_rows \<Rightarrow> 'd posting list \<Rightarrow> 'd posting_rows" where
  "stage rows ps =
     \<lparr> pr_transactions = pr_transactions rows @ map (transaction_row_of \<circ> fst) ps,
       pr_tx_events = pr_tx_events rows @ map (\<lambda>p. initial_row (tv_id (fst p)) (fst p)) ps,
       pr_entries = pr_entries rows @ map entry_row_of (concat (map snd ps)),
       pr_entry_events = pr_entry_events rows @ map (\<lambda>e. initial_row (e_id e) e) (concat (map snd ps)) \<rparr>"

lemma new_ids [simp]: "tv_id (new_transaction_values n) = nt_id n" "e_id (new_entry_values m) = ne_id m"
  by (simp_all add: new_transaction_values_def new_entry_values_def)

lemma push_transaction_total:
  "push_transaction rows n =
     Some (\<lparr> ent_id = nt_id n, ent_values = new_transaction_values n, ent_events = [Initialized (new_transaction_values n)] \<rparr>,
       rows \<lparr> pr_transactions := pr_transactions rows @ [transaction_row_of (new_transaction_values n)],
              pr_tx_events := pr_tx_events rows @ [initial_row (nt_id n) (new_transaction_values n)] \<rparr>)"
  by (simp add: push_transaction_def transaction_try_from_events_def hydrate_def push_initial_def transaction_row_of_def
      initial_row_def Let_def)

lemma push_entry_total:
  "push_entry rows n =
     Some (\<lparr> ent_id = ne_id n, ent_values = new_entry_values n, ent_events = [Initialized (new_entry_values n)] \<rparr>,
       rows \<lparr> pr_entries := pr_entries rows @ [entry_row_of (new_entry_values n)],
              pr_entry_events := pr_entry_events rows @ [initial_row (ne_id n) (new_entry_values n)] \<rparr>)"
  by (simp add: push_entry_def entry_try_from_events_def hydrate_def push_initial_def entry_row_of_def initial_row_def
      Let_def)

lemma push_entries_total:
  "pfold (\<lambda>(rows, values) n. pbind (expect (push_entry rows n))
       (\<lambda>(entry, rows). Some (Inr (rows, values @ [ent_values entry])))) (rows, vs) ns =
     Some (Inr (rows \<lparr> pr_entries := pr_entries rows @ map entry_row_of (map new_entry_values ns),
                       pr_entry_events := pr_entry_events rows @ map (\<lambda>e. initial_row (e_id e) e) (map new_entry_values ns) \<rparr>,
                vs @ map new_entry_values ns))"
  by (induction ns arbitrary: rows vs) (simp_all add: push_entry_total)

definition hydrated_of :: "new_transaction \<times> 'd new_entry list \<Rightarrow> (transaction_id, transaction_values) entity" where
  "hydrated_of n = \<lparr> ent_id = nt_id (fst n), ent_values = new_transaction_values (fst n),
     ent_events = [Initialized (new_transaction_values (fst n))] \<rparr>"

lemma push_posting_total:
  "push_posting (rows, hydrated, ps) n =
     Some (Inr (stage rows [posting_of n], hydrated @ [hydrated_of n], ps @ [posting_of n]))"
  by (cases n) (simp add: push_posting_def push_transaction_total push_entries_total posting_of_def stage_def hydrated_of_def)

lemma stage_append: "stage (stage rows ps) qs = stage rows (ps @ qs)"
  by (simp add: stage_def)

lemma push_postings_total:
  "pfold push_posting (rows, hydrated, ps) ns =
     Some (Inr (stage rows (map posting_of ns), hydrated @ map hydrated_of ns, ps @ map posting_of ns))"
proof (induction ns arbitrary: rows hydrated ps)
  case (Cons n ns)
  show ?case by (simp add: push_posting_total Cons.IH stage_append)
qed (simp add: stage_def)

section \<open>Ancestors\<close>

definition journal_pairs ::
  "((account_id \<times> currency) list \<Rightarrow> (account_id \<times> currency) list) \<Rightarrow> 'd prepared_transaction list \<Rightarrow> journal_id
     \<Rightarrow> (account_id \<times> currency) list" where
  "journal_pairs po prepared j = po (remdups (map (\<lambda>e. (ne_account_id e, ne_currency e)) (entries_in prepared j)))"

definition resolved_in ::
  "((account_id \<times> currency) list \<Rightarrow> (account_id \<times> currency) list) \<Rightarrow> graph_snapshot \<Rightarrow> membership_tables
     \<Rightarrow> 'd posting_state \<Rightarrow> 'd prepared_transaction list \<Rightarrow> journal_id
     \<Rightarrow> (account_id \<times> account_set_id list) list \<times> (account_set_id \<times> currency) list" where
  "resolved_in po snapshot mt read prepared j =
     (if journal_pairs po prepared j = [] then ([], [])
      else fst (resolve_from_probe snapshot mt j (ps_epoch read) (ps_seeds read) (journal_pairs po prepared j)))"

definition ancestor_pairs ::
  "(account_id \<rightharpoonup> account_set_id list) \<Rightarrow> 'd new_entry list \<Rightarrow> (account_id \<times> currency) list" where
  "ancestor_pairs m entries =
     concat (map (\<lambda>e. map (\<lambda>s. (account_of_set s, ne_currency e)) (get_list m (ne_account_id e))) entries)"

lemma set_ancestor_pairs:
  "set (ancestor_pairs m es) = {(account_of_set s, ne_currency e) |s e. e \<in> set es \<and> s \<in> set (get_list m (ne_account_id e))}"
  by (auto simp: ancestor_pairs_def)

lemma push_keys: "foldl (\<lambda>keys (a, c). push_key keys j a c) keys ps = keys @ map (Pair j) ps"
  by (induction ps arbitrary: keys) (auto simp: push_key_def)

lemma extend_lists:
  assumes "distinct (map fst kvs)" and "\<And>k. k \<in> fst ` set kvs \<Longrightarrow> m k = None"
  shows "foldl (\<lambda>m (a, sets). m(a \<mapsto> get_list m a @ sets)) m kvs = m ++ map_of kvs"
  using assms
proof (induction kvs arbitrary: m)
  case (Cons kv kvs)
  obtain k v where kv: "kv = (k, v)" by fastforce
  have "foldl (\<lambda>m (a, sets). m(a \<mapsto> get_list m a @ sets)) (m(k \<mapsto> v)) kvs = m(k \<mapsto> v) ++ map_of kvs"
    by (rule Cons.IH) (use Cons.prems kv in auto)
  moreover have "get_list m k = []" using Cons.prems(2) kv by (simp add: get_list_def)
  moreover have "map_of kvs k = None" using Cons.prems(1) kv by (simp add: map_of_eq_None_iff)
  then have "m(k \<mapsto> v) ++ map_of kvs = m ++ map_of ((k, v) # kvs)"
    by (auto simp: fun_eq_iff map_add_def split: option.split)
  moreover have "(case (k, v) of (a, sets) \<Rightarrow> m(a \<mapsto> get_list m a @ sets)) = m(k \<mapsto> v)"
    using \<open>get_list m k = []\<close> by (simp only: prod.case append_Nil)
  ultimately show ?case by (simp only: kv foldl_Cons)
qed simp

lemma resolve_journal_step:
  assumes "rs_mappings r j = None" and "distinct (map fst (fst (resolved_in po snapshot mt read prepared j)))"
    and po: "\<And>ps. mset (po ps) = mset ps"
  shows "resolve_journal po snapshot mt read prepared r j =
    (let (resolved, locked) = resolved_in po snapshot mt read prepared j; pairs = ancestor_pairs (map_of resolved) (entries_in prepared j)
     in r \<lparr> rs_mappings := (if entries_in prepared j = [] then rs_mappings r else (rs_mappings r)(j \<mapsto> map_of resolved)),
            rs_keys := rs_keys r @ map (Pair j) pairs, rs_ids := rs_ids r @ map fst pairs,
            rs_locks := rs_locks r @ map (\<lambda>(s, c). BalanceLock (j, account_of_set s, c)) locked \<rparr>)"
proof -
  have nil: "po [] = []" using po[of "[]"] by simp
  have some: "po xs \<noteq> []" if "xs \<noteq> []" for xs using po[of xs] that by (metis mset_zero_iff)
  show ?thesis
  proof (cases "entries_in prepared j = []")
    case True
    then show ?thesis by (simp add: resolve_journal_def resolved_in_def journal_pairs_def ancestor_pairs_def nil)
  next
    case False
    then have ne: "journal_pairs po prepared j \<noteq> []" unfolding journal_pairs_def by (intro some) simp
    obtain resolved locked where r: "resolved_in po snapshot mt read prepared j = (resolved, locked)" by fastforce
    then have r': "fst (resolve_from_probe snapshot mt j (ps_epoch read) (ps_seeds read) (journal_pairs po prepared j)) = (resolved, locked)"
      using ne by (simp add: resolved_in_def)
    have "foldl (\<lambda>m (a, sets). m(a \<mapsto> get_list m a @ sets)) Map.empty resolved = map_of resolved"
      using extend_lists[of resolved Map.empty] assms(2) r by simp
    then show ?thesis using False ne assms(1) r'
      by (simp add: resolve_journal_def journal_pairs_def[symmetric] r push_keys ancestor_pairs_def[symmetric] Let_def)
  qed
qed

lemma resolve_journals:
  assumes "distinct js" and "\<And>j. j \<in> set js \<Longrightarrow> rs_mappings r0 j = None"
    and "\<And>j. distinct (map fst (fst (resolved_in po snapshot mt read prepared j)))" and "\<And>ps. mset (po ps) = mset ps"
  defines "pairs \<equiv> \<lambda>j. ancestor_pairs (map_of (fst (resolved_in po snapshot mt read prepared j))) (entries_in prepared j)"
  defines "r \<equiv> foldl (resolve_journal po snapshot mt read prepared) r0 js"
  shows "rs_keys r = rs_keys r0 @ concat (map (\<lambda>j. map (Pair j) (pairs j)) js) \<and>
    rs_ids r = rs_ids r0 @ concat (map (map fst \<circ> pairs) js) \<and>
    rs_locks r = rs_locks r0 @ concat (map (\<lambda>j. map (\<lambda>(s, c). BalanceLock (j, account_of_set s, c))
           (snd (resolved_in po snapshot mt read prepared j))) js) \<and>
    (\<forall>j. rs_mappings r j = (if j \<in> set js \<and> entries_in prepared j \<noteq> []
           then Some (map_of (fst (resolved_in po snapshot mt read prepared j))) else rs_mappings r0 j))"
  using assms(1,2) unfolding r_def
proof (induction js arbitrary: r0)
  case (Cons i js)
  let ?r = "resolve_journal po snapshot mt read prepared r0 i"
  have r: "?r = r0 \<lparr> rs_mappings := (if entries_in prepared i = [] then rs_mappings r0
        else (rs_mappings r0)(i \<mapsto> map_of (fst (resolved_in po snapshot mt read prepared i)))),
      rs_keys := rs_keys r0 @ map (Pair i) (pairs i), rs_ids := rs_ids r0 @ map fst (pairs i),
      rs_locks := rs_locks r0 @ map (\<lambda>(s, c). BalanceLock (i, account_of_set s, c))
        (snd (resolved_in po snapshot mt read prepared i)) \<rparr>"
    using resolve_journal_step[of r0 i po snapshot mt read prepared, OF _ assms(3,4)] Cons.prems(2)[of i]
    by (simp add: case_prod_unfold Let_def pairs_def)
  have "distinct js" "\<And>k. k \<in> set js \<Longrightarrow> rs_mappings ?r k = None" using Cons.prems by (auto simp: r)
  from Cons.IH[OF this] show ?case using Cons.prems(1) by (auto simp: r)
qed simp

lemma expand_accounts_keys:
  assumes "expand_accounts f groups = Some (mappings, non_ec)" and "distinct (map fst groups)"
  shows "distinct (map fst mappings) \<and> fst ` set mappings \<subseteq> fst ` set groups"
  using assms
proof (induction groups arbitrary: mappings non_ec)
  case (Cons g groups)
  obtain a ss where g: "g = (a, ss)" by fastforce
  from Cons.prems g obtain anc ne ms nes where "f ss = Some (anc, ne)" and
    rest: "expand_accounts f groups = Some (ms, nes)" and m: "mappings = (if anc = [] then ms else (a, anc) # ms)"
    by (auto split: option.splits)
  with Cons.IH[OF rest] Cons.prems(2) g show ?case by auto
qed simp

lemma resolve_keys_distinct: "distinct (map fst (fst (fst (resolve_from_probe snap mt j ep ms pairs))))"
proof -
  have walk: "distinct (map fst (fst (walk_mappings_and_lock mt j pairs)))"
    by (simp add: walk_mappings_and_lock_def Let_def)
  show ?thesis
  proof (cases "expand snap (load_overlay mt (missing_sets snap ms)) j ms pairs")
    case None
    then show ?thesis using walk by (simp add: resolve_from_probe_def)
  next
    case (Some r)
    obtain mappings locks where r: "r = (mappings, locks)" by fastforce
    with Some have "distinct (map fst mappings)"
      by (auto simp: expand_def Let_def dest: expand_accounts_keys)
    then show ?thesis using walk Some r by (simp add: resolve_from_probe_def)
  qed
qed

text \<open>What the flow knows of the accounts of a database, and of the balances it reads.\<close>

definition account_facts :: "membership_tables \<Rightarrow> account_id \<Rightarrow> account_meta option" where
  "account_facts mt a = map_option account_meta_of (mt_accounts mt a)"

definition sets_in :: "membership_tables \<Rightarrow> journal_id \<Rightarrow> account_id \<Rightarrow> account_set_id set" where
  "sets_in mt j a = {s \<in> ancestor_sets mt a. mt_account_sets mt s = Some j}"

lemma no_seeds_no_ancestors:
  assumes "filter (\<lambda>r. snd r \<in> set ids) (mt_member_accounts mt) = []" and "a \<in> set ids"
  shows "ancestor_sets mt a = {}"
  using assms by (auto simp: ancestor_sets_def filter_empty_conv)

text \<open>
  The situation the resolution of a batch starts from: sound tables, a snapshot that holds the
  graph of its epoch, and a read that covers the entries of the batch.
\<close>

definition ready ::
  "'d::linordered_ab_group_add posting_env \<Rightarrow> graph_snapshot \<Rightarrow> 'd ledger_db \<Rightarrow> 'd prepared_transaction list
     \<Rightarrow> account_id list \<Rightarrow> balance_keys \<Rightarrow> bool" where
  "ready env snapshot db prepared ids keys \<longleftrightarrow>
     keys_ok (db_membership db) \<and>
     (gs_epoch snapshot = mt_graph_epoch (db_membership db) \<longrightarrow> snapshot_matches snapshot (db_membership db)) \<and>
     (\<forall>ps. mset (pn_pair_order env ps) = mset ps) \<and> rows_keyed (db_balances db) \<and>
     (\<forall>j. \<forall>e \<in> set (entries_in prepared j). ne_account_id e \<in> set ids \<and> (j, ne_account_id e, ne_currency e) \<in> set keys)"

definition answer ::
  "'d::linordered_ab_group_add posting_env \<Rightarrow> graph_snapshot \<Rightarrow> 'd ledger_db \<Rightarrow> 'd posting_state \<Rightarrow> 'd prepared_transaction list
     \<Rightarrow> journal_id \<Rightarrow> (account_id \<times> account_set_id list) list \<times> (account_set_id \<times> currency) list" where
  "answer env snapshot db read prepared = resolved_in (pn_pair_order env) snapshot (db_membership db) read prepared"

lemma pairs_set:
  assumes "ready env snapshot db prepared ids keys"
  shows "set (journal_pairs (pn_pair_order env) prepared j) = (\<lambda>e. (ne_account_id e, ne_currency e)) ` set (entries_in prepared j)"
proof -
  have "set (pn_pair_order env ps) = set ps" for ps
    using assms unfolding ready_def by (metis set_mset_mset)
  then show ?thesis by (simp add: journal_pairs_def)
qed

lemma answer_resolves:
  assumes ready: "ready env snapshot db prepared ids keys" and e: "e \<in> set (entries_in prepared j)"
  shows "\<exists>A. fst ` set (journal_pairs (pn_pair_order env) prepared j) \<subseteq> A \<and>
    resolves (db_membership db) j A (journal_pairs (pn_pair_order env) prepared j)
      (answer env snapshot db (read_posting_state db ids js keys) prepared j)"
proof -
  let ?pairs = "journal_pairs (pn_pair_order env) prepared j"
  have "(ne_account_id e, ne_currency e) \<in> set ?pairs" unfolding pairs_set[OF ready] using e by simp
  then have ne: "?pairs \<noteq> []" by auto
  have sub: "fst ` set ?pairs \<subseteq> set ids" unfolding pairs_set[OF ready] using ready by (auto simp: ready_def)
  have "keys_ok (db_membership db)"
    "gs_epoch snapshot = mt_graph_epoch (db_membership db) \<longrightarrow> snapshot_matches snapshot (db_membership db)"
    using ready by (simp_all add: ready_def)
  from cached_resolves[OF this sub, of j] ne show ?thesis
    by (simp add: answer_def resolved_in_def read_posting_state_def probe_direct_memberships_def Let_def)
qed

lemma answer_sets:
  fixes js :: "journal_id list"
  assumes ready: "ready env snapshot db prepared ids keys" and e: "e \<in> set (entries_in prepared j)"
  defines "sets \<equiv> get_list (map_of (fst (answer env snapshot db (read_posting_state db ids js keys) prepared j))) (ne_account_id e)"
  shows "distinct sets" and "set sets = sets_in (db_membership db) j (ne_account_id e)"
proof -
  from answer_resolves[OF ready e, of js] obtain A where
    A: "fst ` set (journal_pairs (pn_pair_order env) prepared j) \<subseteq> A" and
    res: "resolves (db_membership db) j A (journal_pairs (pn_pair_order env) prepared j)
      (answer env snapshot db (read_posting_state db ids js keys) prepared j)" by blast
  have "ne_account_id e \<in> A" using A e unfolding pairs_set[OF ready] by force
  then show "distinct sets" "set sets = sets_in (db_membership db) j (ne_account_id e)"
    using res by (simp_all add: resolves_def sets_in_def sets_def)
qed

lemma answer_distinct: "distinct (map fst (fst (answer env snapshot db read prepared j)))"
  by (simp add: answer_def resolved_in_def resolve_keys_distinct)

lemma resolved_journals:
  fixes env :: "'d::linordered_ab_group_add posting_env" and read :: "'d posting_state"
  assumes ready: "ready env snapshot db prepared ids keys"
  defines "r \<equiv> foldl (resolve_journal (pn_pair_order env) snapshot (db_membership db) read prepared) no_resolution (journals_of prepared)"
    and "ans \<equiv> answer env snapshot db read prepared"
  shows "rs_keys r = concat (map (\<lambda>j. map (Pair j) (ancestor_pairs (map_of (fst (ans j))) (entries_in prepared j))) (journals_of prepared))"
    and "rs_ids r = concat (map (\<lambda>j. map fst (ancestor_pairs (map_of (fst (ans j))) (entries_in prepared j))) (journals_of prepared))"
    and "rs_locks r = concat (map (\<lambda>j. map (\<lambda>(s, c). BalanceLock (j, account_of_set s, c)) (snd (ans j))) (journals_of prepared))"
    and "\<And>j. rs_mappings r j = (if j \<in> set (journals_of prepared) \<and> entries_in prepared j \<noteq> [] then Some (map_of (fst (ans j))) else None)"
proof -
  have "distinct (journals_of prepared)" "\<And>ps. mset (pn_pair_order env ps) = mset ps" "\<And>j. rs_mappings no_resolution j = None"
    using ready by (simp_all add: journals_of_def ready_def no_resolution_def)
  note all = resolve_journals[where snapshot = snapshot and mt = "db_membership db" and read = read and prepared = prepared,
      OF this(1,3) answer_distinct[unfolded answer_def] this(2)]
  show "rs_keys r = concat (map (\<lambda>j. map (Pair j) (ancestor_pairs (map_of (fst (ans j))) (entries_in prepared j))) (journals_of prepared))"
    "rs_ids r = concat (map (\<lambda>j. map fst (ancestor_pairs (map_of (fst (ans j))) (entries_in prepared j))) (journals_of prepared))"
    "rs_locks r = concat (map (\<lambda>j. map (\<lambda>(s, c). BalanceLock (j, account_of_set s, c)) (snd (ans j))) (journals_of prepared))"
    "\<And>j. rs_mappings r j = (if j \<in> set (journals_of prepared) \<and> entries_in prepared j \<noteq> [] then Some (map_of (fst (ans j))) else None)"
    using all unfolding r_def ans_def answer_def no_resolution_def by (simp_all add: comp_def)
qed

lemma entry_journal: "e \<in> set (entries_in prepared j) \<Longrightarrow> j \<in> set (journals_of prepared)"
  by (auto simp: entries_in_def journals_of_def)

lemma set_sorted_deduped [simp]: "set (sorted_deduped ks) = set ks"
  by (force simp: sorted_deduped_def)

lemma read_accounts_facts: "read_accounts mt as a = (if a \<in> set as then account_facts mt a else None)"
  by (simp add: read_accounts_def account_facts_def)

text \<open>After the ancestor phase, everything the fold looks up is what the database holds.\<close>

definition knows :: "'d ledger_db \<Rightarrow> journal_id \<Rightarrow> account_id \<Rightarrow> currency \<Rightarrow> 'd posting_state \<Rightarrow> bool" where
  "knows db j a c read \<longleftrightarrow> ps_accounts read a = account_facts (db_membership db) a \<and>
     ps_balances read (j, a, c) = stored (db_balances db) (j, a, c)"

lemma knows_entry:
  assumes ready: "ready env snapshot db prepared ids keys" and e: "e \<in> set (entries_in prepared j)"
  shows "knows db j (ne_account_id e) (ne_currency e) (read_posting_state db ids js keys)"
  using assms by (auto simp: knows_def ready_def read_posting_state_def Let_def read_accounts_facts read_balances_lookup)

lemma knows_merged:
  assumes keyed: "rows_keyed (db_balances db)" and read: "read = read_posting_state db ids js keys"
    and a: "a \<in> set ids \<or> a \<in> set ids'" and k: "(j, a, c) \<in> set keys \<or> (j, a, c) \<in> set keys'"
  shows "knows db j a c (merge_ancestors read (read_ancestor_state db ids' keys'))"
  using a k by (auto simp: knows_def merge_ancestors_def read_ancestor_state_def read read_posting_state_def Let_def
      map_add_def read_accounts_facts read_balances_lookup[OF keyed] split: option.split)

lemma read_state_keyed:
  assumes "rows_keyed (db_balances db)"
  shows "read_keyed (read_posting_state db ids js keys)"
    and "read_keyed (merge_ancestors (read_posting_state db ids js keys) (read_ancestor_state db ids' keys'))"
  using assms stored_keyed[OF assms]
  by (auto simp: read_keyed_def merge_ancestors_def read_ancestor_state_def read_posting_state_def Let_def
      read_balances_lookup map_add_def split: option.splits if_splits)

lemma resolve_ancestors_ok:
  fixes js :: "journal_id list"
  assumes ready: "ready env snapshot db prepared ids keys"
  defines "read \<equiv> read_posting_state db ids js keys"
  assumes run: "resolve_ancestors env snapshot db prepared read = Inr (mappings, read', locks)"
  shows "read_keyed read'" and "ps_journals read' = ps_journals read"
    and "e \<in> set (entries_in prepared j) \<Longrightarrow> distinct (get_list (journal_mappings mappings j) (ne_account_id e))"
    and "e \<in> set (entries_in prepared j) \<Longrightarrow>
      set (get_list (journal_mappings mappings j) (ne_account_id e)) = sets_in (db_membership db) j (ne_account_id e)"
    and "e \<in> set (entries_in prepared j) \<Longrightarrow> knows db j (ne_account_id e) (ne_currency e) read'"
    and "e \<in> set (entries_in prepared j) \<Longrightarrow> s \<in> sets_in (db_membership db) j (ne_account_id e) \<Longrightarrow>
      knows db j (account_of_set s) (ne_currency e) read'"
    and "locks = concat (map (\<lambda>j. map (\<lambda>(s, c). BalanceLock (j, account_of_set s, c))
           (snd (answer env snapshot db read prepared j))) (journals_of prepared))"
proof -
  let ?mt = "db_membership db" and ?ans = "answer env snapshot db read prepared"
  have keyed: "rows_keyed (db_balances db)" using ready by (simp add: ready_def)
  define r where "r = foldl (resolve_journal (pn_pair_order env) snapshot ?mt read prepared) no_resolution (journals_of prepared)"
  note r = resolved_journals[OF ready, where read = read, folded r_def]
  have base: "read_keyed read" "knows db j (ne_account_id e) (ne_currency e) read" if "e \<in> set (entries_in prepared j)" for j e
    using read_state_keyed(1)[OF keyed] knows_entry[OF ready that] by (simp_all add: read_def)
  have ancestors: "distinct (get_list (map_of (fst (?ans j))) (ne_account_id e))"
    "set (get_list (map_of (fst (?ans j))) (ne_account_id e)) = sets_in ?mt j (ne_account_id e)"
    if "e \<in> set (entries_in prepared j)" for j e
    using answer_sets[OF ready that, of js] by (simp_all add: read_def)
  consider (no_seeds) "ps_seeds read = []" "mappings = Map.empty" "read' = read" "locks = []"
    | (no_keys) "rs_keys r = []" "mappings = rs_mappings r" "read' = read" "locks = rs_locks r"
    | (merged) "mappings = rs_mappings r" "locks = rs_locks r"
        "read' = merge_ancestors read (read_ancestor_state db (sort_dedup (rs_ids r)) (sorted_deduped (rs_keys r)))"
    using run by (auto simp: resolve_ancestors_def r_def[symmetric] Let_def split: if_splits option.splits)
  then have "read_keyed read' \<and> ps_journals read' = ps_journals read \<and>
    (\<forall>j. \<forall>e \<in> set (entries_in prepared j). distinct (get_list (journal_mappings mappings j) (ne_account_id e)) \<and>
       set (get_list (journal_mappings mappings j) (ne_account_id e)) = sets_in ?mt j (ne_account_id e) \<and>
       knows db j (ne_account_id e) (ne_currency e) read' \<and>
       (\<forall>s \<in> sets_in ?mt j (ne_account_id e). knows db j (account_of_set s) (ne_currency e) read')) \<and>
    locks = concat (map (\<lambda>j. map (\<lambda>(s, c). BalanceLock (j, account_of_set s, c)) (snd (?ans j))) (journals_of prepared))"
  proof cases
    case no_seeds
    then have rows: "filter (\<lambda>r. snd r \<in> set ids) (mt_member_accounts ?mt) = []"
      by (simp add: read_def read_posting_state_def Let_def)
    have "sets_in ?mt j (ne_account_id e) = {}" if "e \<in> set (entries_in prepared j)" for j e
      using no_seeds_no_ancestors[OF rows, of "ne_account_id e"] ready that by (auto simp: sets_in_def ready_def)
    moreover have "snd (?ans j) = []" for j
      using no_seeds(1) by (simp add: answer_def resolved_in_def resolve_from_probe_def)
    ultimately show ?thesis using no_seeds read_state_keyed(1)[OF keyed] base
      by (simp add: journal_mappings_def read_def concat_eq_Nil_conv)
  next
    case no_keys
    have "sets_in ?mt j (ne_account_id e) = {}" if e: "e \<in> set (entries_in prepared j)" for j e
    proof -
      have "ancestor_pairs (map_of (fst (?ans j))) (entries_in prepared j) = []"
        using no_keys(1) entry_journal[OF e] by (auto simp: r(1))
      then have "set (ancestor_pairs (map_of (fst (?ans j))) (entries_in prepared j)) = {}" by simp
      then show ?thesis using e ancestors(2)[OF e] unfolding set_ancestor_pairs by auto
    qed
    moreover have "journal_mappings mappings j = map_of (fst (?ans j))" if "e \<in> set (entries_in prepared j)" for j e
      using entry_journal[OF that] that by (auto simp: journal_mappings_def no_keys(2) r(4))
    ultimately show ?thesis using no_keys read_state_keyed(1)[OF keyed] base ancestors r(3)
      by (auto simp: read_def)
  next
    case merged
    have "knows db j (account_of_set s) (ne_currency e) read'"
      if e: "e \<in> set (entries_in prepared j)" and s: "s \<in> sets_in ?mt j (ne_account_id e)" for j e s
    proof -
      have "(account_of_set s, ne_currency e) \<in> set (ancestor_pairs (map_of (fst (?ans j))) (entries_in prepared j))"
        using e s ancestors(2)[OF e] unfolding set_ancestor_pairs by blast
      then have "account_of_set s \<in> set (rs_ids r)" "(j, account_of_set s, ne_currency e) \<in> set (rs_keys r)"
        using entry_journal[OF e] by (force simp: r(1,2))+
      then show ?thesis unfolding merged(3) by (intro knows_merged[OF keyed read_def[THEN meta_eq_to_obj_eq]]) auto
    qed
    moreover have "knows db j (ne_account_id e) (ne_currency e) read'" if "e \<in> set (entries_in prepared j)" for j e
      unfolding merged(3) by (rule knows_merged[OF keyed read_def[THEN meta_eq_to_obj_eq]])
        (use ready that in \<open>auto simp: ready_def\<close>)
    moreover have "journal_mappings mappings j = map_of (fst (?ans j))" if "e \<in> set (entries_in prepared j)" for j e
      using entry_journal[OF that] that by (auto simp: journal_mappings_def merged(1) r(4))
    moreover have "read_keyed read'" "ps_journals read' = ps_journals read"
      using read_state_keyed(2)[OF keyed] by (simp_all add: merged(3) read_def merge_ancestors_def)
    ultimately show ?thesis using merged(2) ancestors r(3) by (auto simp: read_def)
  qed
  then show "read_keyed read'" "ps_journals read' = ps_journals read"
    "e \<in> set (entries_in prepared j) \<Longrightarrow> distinct (get_list (journal_mappings mappings j) (ne_account_id e))"
    "e \<in> set (entries_in prepared j) \<Longrightarrow>
      set (get_list (journal_mappings mappings j) (ne_account_id e)) = sets_in (db_membership db) j (ne_account_id e)"
    "e \<in> set (entries_in prepared j) \<Longrightarrow> knows db j (ne_account_id e) (ne_currency e) read'"
    "e \<in> set (entries_in prepared j) \<Longrightarrow> s \<in> sets_in (db_membership db) j (ne_account_id e) \<Longrightarrow>
      knows db j (account_of_set s) (ne_currency e) read'"
    "locks = concat (map (\<lambda>j. map (\<lambda>(s, c). BalanceLock (j, account_of_set s, c)) (snd (?ans j))) (journals_of prepared))"
    by blast+
qed

end
