(* ===== verification/Accounts.thy ===== *)
theory Accounts imports Graph_Cache Entities Balance_Store begin

text \<open>
  The service for accounts (\<open>account/mod.rs\<close>, \<open>account/repo.rs\<close>) and the member edges of
  account sets (\<open>account_set_member/repo.rs\<close>): creation with an initial account set, status
  changes, persisting, and the inserts and deletes of direct account memberships.

  \<open>ledger_tables\<close> joins the entity tables with the membership tables. A repository that
  \<open>es_entity\<close> generates is its documented effect: one row per entity, a violated uniqueness
  constraint as its error, the events published when the entity is persisted.
\<close>

record ledger_tables =
  lt_accounts :: "(account_id \<times> account_values) list"
  lt_contexts :: "account_id \<rightharpoonup> context_account_values"
  lt_sets :: "(account_set_id \<times> account_set_values) list"
  lt_journals :: "journal_id list"
  lt_membership :: membership_tables

datatype ledger_event =
    AccountCreated account_values
  | AccountUpdated account_values "string list"
  | AccountSetCreated account_set_values
  | AccountSetUpdated account_set_values "string list"
  | Membership membership_event

text \<open>The variants that wrap errors of other crates carry no payload here.\<close>

datatype account_error =
    AccSqlx
  | AccCreate
  | AccModify
  | AccFind
  | AccQuery
  | CouldNotFindAccountById account_id
  | CouldNotFindAccountByExternalId string
  | CouldNotFindAccountByCode string
  | AccountExternalIdAlreadyExists string
  | AccountCodeAlreadyExists string
  | CannotUpdateAccountSetAccounts
  | InitialAccountSetNotFound account_set_id

section \<open>Member edges\<close>

text \<open>
  \<open>UNIQUE(member_account_id, account_set_id)\<close> and the two foreign keys. Neither violation has
  a name that \<open>AccountSetError::from\<close> matches, so both are \<open>Sqlx\<close>.
\<close>

definition add_in_op ::
  "membership_tables \<Rightarrow> (account_set_id \<times> account_id) list
     \<Rightarrow> account_set_error + membership_tables \<times> membership_event list" where
  "add_in_op mt pairs =
     (if pairs = [] then Inr (mt, [])
      else
        let rows = mt_member_accounts mt @ pairs
        in if \<not> distinct rows \<or>
              list_ex (\<lambda>(s, a). mt_account_sets mt s = None \<or> mt_accounts mt a = None) pairs
           then Inl account_set_error.Sqlx
           else Inr (mt \<lparr> mt_member_accounts := rows \<rparr>,
                     map (\<lambda>(s, a). AccountSetMemberCreated s (MemberAccount a)) pairs))"

definition remove_in_op ::
  "membership_tables \<Rightarrow> account_set_id \<Rightarrow> account_id \<Rightarrow> membership_tables \<times> membership_event list" where
  "remove_in_op mt account_set_id account_id =
     (mt \<lparr> mt_member_accounts := filter (\<lambda>r. r \<noteq> (account_set_id, account_id)) (mt_member_accounts mt) \<rparr>,
      [AccountSetMemberRemoved account_set_id (MemberAccount account_id)])"

text \<open>Read from the pool: \<open>committed\<close>, not the tables of the failed operation.\<close>

definition missing_account_sets :: "membership_tables \<Rightarrow> account_set_id list \<Rightarrow> account_set_id list" where
  "missing_account_sets committed set_ids =
     sort_dedup (filter (\<lambda>s. mt_account_sets committed s = None) set_ids)"

datatype account_set_member_error = MemberSqlx | AccountSetsNotFound "account_set_id list"

definition attach_new_accounts_in_op ::
  "membership_tables \<Rightarrow> membership_tables \<Rightarrow> (account_set_id \<times> account_id) list
     \<Rightarrow> account_set_member_error + membership_tables \<times> membership_event list" where
  "attach_new_accounts_in_op committed mt pairs =
     (if pairs = [] then Inr (mt, [])
      else
        let rows = mt_member_accounts mt @ sort_key snd pairs
        in if \<not> distinct rows then Inl MemberSqlx
           else if list_ex (\<lambda>(s, _). mt_account_sets mt s = None) pairs
           then Inl (AccountSetsNotFound (missing_account_sets committed (map fst pairs)))
           else if list_ex (\<lambda>(_, a). mt_accounts mt a = None) pairs then Inl MemberSqlx
           else Inr (mt \<lparr> mt_member_accounts := rows \<rparr>,
                     map (\<lambda>(s, a). AccountSetMemberCreated s (MemberAccount a)) pairs))"

section \<open>The account table\<close>

definition account_columns :: "account_values \<Rightarrow> account_row" where
  "account_columns v =
     \<lparr> ac_normal_balance_type = av_normal_balance_type v,
       ac_eventually_consistent = acfg_eventually_consistent (av_config v),
       ac_is_account_set = acfg_is_account_set (av_config v),
       ac_status = av_status v \<rparr>"

definition insert_account ::
  "ledger_tables \<Rightarrow> new_account \<Rightarrow> account_error + ledger_tables \<times> ledger_event list" where
  "insert_account lt n =
     (let v = new_account_values n; others = map snd (lt_accounts lt)
      in if map_of (lt_accounts lt) (av_id v) \<noteq> None then Inl AccCreate
         else if av_code v \<in> av_code ` set others then Inl (AccountCodeAlreadyExists (av_code v))
         else if av_external_id v \<noteq> None \<and> av_external_id v \<in> av_external_id ` set others
         then Inl (AccountExternalIdAlreadyExists (the (av_external_id v)))
         else Inr (lt \<lparr> lt_accounts := lt_accounts lt @ [(av_id v, v)],
                        lt_contexts := (lt_contexts lt)(av_id v \<mapsto> new_account_context n),
                        lt_membership := (lt_membership lt)
                          \<lparr> mt_accounts := (mt_accounts (lt_membership lt))(av_id v \<mapsto> account_columns v) \<rparr> \<rparr>,
                   if acfg_is_account_set (av_config v) then [] else [AccountCreated v]))"

text \<open>The columns with \<open>update(persist = false)\<close> keep their values.\<close>

definition update_account ::
  "ledger_tables \<Rightarrow> account_values \<Rightarrow> string list \<Rightarrow> account_error + ledger_tables \<times> ledger_event list" where
  "update_account lt v changes =
     (let others = map snd (filter (\<lambda>r. fst r \<noteq> av_id v) (lt_accounts lt))
      in if av_code v \<in> av_code ` set others \<or>
            av_external_id v \<noteq> None \<and> av_external_id v \<in> av_external_id ` set others
         then Inl AccModify
         else Inr (lt \<lparr> lt_accounts := map (\<lambda>r. if fst r = av_id v then (av_id v, v) else r) (lt_accounts lt),
                        lt_contexts := (lt_contexts lt)(av_id v \<mapsto> context_of_account v),
                        lt_membership := (lt_membership lt)
                          \<lparr> mt_accounts := (\<lambda>a. if a = av_id v
                              then map_option (\<lambda>r. r \<lparr> ac_normal_balance_type := av_normal_balance_type v,
                                                       ac_status := av_status v \<rparr>)
                                     (mt_accounts (lt_membership lt) a)
                              else mt_accounts (lt_membership lt) a) \<rparr> \<rparr>,
                   [AccountUpdated v changes]))"

section \<open>The service\<close>

definition initial_membership_pairs :: "new_account list \<Rightarrow> (account_set_id \<times> account_id) list" where
  "initial_membership_pairs ns =
     concat (map (\<lambda>n. case na_initial_account_set n of None \<Rightarrow> [] | Some s \<Rightarrow> [(s, na_id n)]) ns)"

text \<open>An empty list of missing sets panics.\<close>

definition attach_initial_account_set_in_op ::
  "membership_tables \<Rightarrow> ledger_tables \<Rightarrow> (account_set_id \<times> account_id) list
     \<Rightarrow> (account_error + ledger_tables \<times> ledger_event list) option" where
  "attach_initial_account_set_in_op committed lt pairs =
     (if pairs = [] then Some (Inr (lt, []))
      else case attach_new_accounts_in_op committed (lt_membership lt) pairs of
             Inr (mt, events) \<Rightarrow> Some (Inr (lt \<lparr> lt_membership := mt \<rparr>, map Membership events))
           | Inl (AccountSetsNotFound missing) \<Rightarrow>
               (case missing of [] \<Rightarrow> None | s # _ \<Rightarrow> Some (Inl (InitialAccountSetNotFound s)))
           | Inl MemberSqlx \<Rightarrow> Some (Inl AccSqlx))"

definition insert_accounts ::
  "ledger_tables \<Rightarrow> new_account list \<Rightarrow> account_error + ledger_tables \<times> ledger_event list" where
  "insert_accounts lt ns =
     rfold (\<lambda>(lt, events) n. rmap (\<lambda>(lt', more). (lt', events @ more)) (insert_account lt n)) (lt, []) ns"

definition create_accounts_in_op ::
  "membership_tables \<Rightarrow> ledger_tables \<Rightarrow> new_account list
     \<Rightarrow> (account_error + ledger_tables \<times> ledger_event list) option" where
  "create_accounts_in_op committed lt ns =
     (let pairs = initial_membership_pairs ns
      in pbind (Some (insert_accounts lt ns))
           (\<lambda>(lt, created). pbind (attach_initial_account_set_in_op committed lt pairs)
              (\<lambda>(lt, attached). Some (Inr (lt, created @ attached)))))"

definition create_account_in_op ::
  "membership_tables \<Rightarrow> ledger_tables \<Rightarrow> new_account
     \<Rightarrow> (account_error + ledger_tables \<times> ledger_event list) option" where
  "create_account_in_op committed lt n =
     (let pairs = initial_membership_pairs [n]
      in pbind (Some (insert_account lt n))
           (\<lambda>(lt, created). pbind (attach_initial_account_set_in_op committed lt pairs)
              (\<lambda>(lt, attached). Some (Inr (lt, created @ attached)))))"

definition persist_account_in_op ::
  "ledger_tables \<Rightarrow> account_values \<Rightarrow> string list \<Rightarrow> account_error + ledger_tables \<times> ledger_event list" where
  "persist_account_in_op lt v changes =
     (if acfg_is_account_set (av_config v) then Inl CannotUpdateAccountSetAccounts
      else update_account lt v changes)"

text \<open>\<open>lock_in_op\<close> and \<open>unlock_in_op\<close>: load, change the status, persist what changed.\<close>

definition set_status_in_op ::
  "status \<Rightarrow> ledger_tables \<Rightarrow> account_id \<Rightarrow> account_error + ledger_tables \<times> ledger_event list" where
  "set_status_in_op s lt a =
     rbind (ok_or (CouldNotFindAccountById a) (map_of (lt_accounts lt) a))
       (\<lambda>v. let (account, did) = account_update_status s \<lparr> ent_id = a, ent_values = v, ent_events = [] \<rparr>
            in if did = Executed then persist_account_in_op lt (ent_values account) [''status'']
               else Inr (lt, []))"

definition lock_in_op :: "ledger_tables \<Rightarrow> account_id \<Rightarrow> account_error + ledger_tables \<times> ledger_event list" where
  "lock_in_op lt a = set_status_in_op Locked lt a"

definition unlock_in_op :: "ledger_tables \<Rightarrow> account_id \<Rightarrow> account_error + ledger_tables \<times> ledger_event list" where
  "unlock_in_op lt a = set_status_in_op Active lt a"

definition update_velocity_context_values_in_op :: "ledger_tables \<Rightarrow> context_account_values \<Rightarrow> ledger_tables" where
  "update_velocity_context_values_in_op lt v =
     (if map_of (lt_accounts lt) (cav_id v) = None then lt
      else lt \<lparr> lt_contexts := (lt_contexts lt)(cav_id v \<mapsto> v) \<rparr>)"

end
