(* ===== verification/Account_Sets.thy ===== *)
theory Account_Sets imports Accounts begin

text \<open>
  The service for account sets (\<open>account_set/mod.rs\<close>): creation, persisting, and the four
  operations that change the membership graph. Each of them finds its sets, refuses members that
  have balance history, checks the graph through the cache and writes the edge.

  An operation takes the cache's snapshot; the refresh it may start is a step of its own, in
  \<open>Set_World\<close>. The advisory locks between the steps are not modelled. \<open>None\<close> is a panic.
\<close>

record 'd history_tables =
  ht_balances :: "'d balance_tables"
  ht_entries :: "(journal_id \<times> account_id) list"

section \<open>Creation\<close>

text \<open>\<open>id_string\<close> prints an identifier: the code of the account behind a set.\<close>

definition set_account :: "(account_set_id \<Rightarrow> string) \<Rightarrow> new_account_set \<Rightarrow> new_account" where
  "set_account id_string n =
     \<lparr> na_id = account_of_set (nas_id n), na_code = id_string (nas_id n), na_name = '''',
       na_external_id = None, na_normal_balance_type = nas_normal_balance_type n, na_status = Active,
       na_eventually_consistent = is_eventually_consistent n, na_is_account_set = True,
       na_velocity_context_values = Some (new_account_set_context n), na_description = None,
       na_metadata = None, na_initial_account_set = None \<rparr>"

definition insert_account_set ::
  "ledger_tables \<Rightarrow> new_account_set \<Rightarrow> account_set_error + ledger_tables \<times> ledger_event list" where
  "insert_account_set lt n =
     (let v = new_account_set_values n; others = map snd (lt_sets lt)
      in if map_of (lt_sets lt) (asv_id v) \<noteq> None then Inl Create
         else if asv_external_id v \<noteq> None \<and> asv_external_id v \<in> asv_external_id ` set others
         then Inl (ExternalIdAlreadyExists (the (asv_external_id v)))
         else if asv_journal_id v \<notin> set (lt_journals lt) \<or> map_of (lt_accounts lt) (account_of_set (asv_id v)) = None
         then Inl Create
         else Inr (lt \<lparr> lt_sets := lt_sets lt @ [(asv_id v, v)],
                        lt_membership := (lt_membership lt)
                          \<lparr> mt_account_sets := (mt_account_sets (lt_membership lt))(asv_id v \<mapsto> asv_journal_id v) \<rparr> \<rparr>,
                   [AccountSetCreated v]))"

definition insert_account_sets ::
  "ledger_tables \<Rightarrow> new_account_set list \<Rightarrow> account_set_error + ledger_tables \<times> ledger_event list" where
  "insert_account_sets lt ns =
     rfold (\<lambda>(lt, events) n. rmap (\<lambda>(lt', more). (lt', events @ more)) (insert_account_set lt n)) (lt, []) ns"

definition create_set_in_op ::
  "(account_set_id \<Rightarrow> string) \<Rightarrow> membership_tables \<Rightarrow> ledger_tables \<Rightarrow> new_account_set
     \<Rightarrow> (account_set_error + ledger_tables \<times> ledger_event list) option" where
  "create_set_in_op id_string committed lt n =
     pbind (map_option (map_err (\<lambda>_. AccountError)) (create_account_in_op committed lt (set_account id_string n)))
       (\<lambda>(lt, _). Some (insert_account_set lt n))"

definition create_all_sets_in_op ::
  "(account_set_id \<Rightarrow> string) \<Rightarrow> membership_tables \<Rightarrow> ledger_tables \<Rightarrow> new_account_set list
     \<Rightarrow> (account_set_error + ledger_tables \<times> ledger_event list) option" where
  "create_all_sets_in_op id_string committed lt ns =
     pbind (map_option (map_err (\<lambda>_. AccountError)) (create_accounts_in_op committed lt (map (set_account id_string) ns)))
       (\<lambda>(lt, _). Some (insert_account_sets lt ns))"

section \<open>Persisting\<close>

definition persist_set_in_op ::
  "ledger_tables \<Rightarrow> account_set_values \<Rightarrow> string list \<Rightarrow> account_set_error + ledger_tables \<times> ledger_event list" where
  "persist_set_in_op lt v changes =
     (let others = map snd (filter (\<lambda>r. fst r \<noteq> asv_id v) (lt_sets lt))
      in if asv_external_id v \<noteq> None \<and> asv_external_id v \<in> asv_external_id ` set others then Inl Modify
         else
           let lt = lt \<lparr> lt_sets := map (\<lambda>r. if fst r = asv_id v then (asv_id v, v) else r) (lt_sets lt) \<rparr>
           in Inr (update_velocity_context_values_in_op lt (context_of_account_set v),
                   if changes = [] then [] else [AccountSetUpdated v changes]))"

section \<open>Finding the sets of an operation\<close>

definition find_set :: "ledger_tables \<Rightarrow> account_set_id \<Rightarrow> account_set_error + account_set_values" where
  "find_set lt s = ok_or (CouldNotFindById s) (map_of (lt_sets lt) s)"

text \<open>
  For a set member both sets are loaded into one map and removed from it in turn, so a set that
  is its own member is not found the second time.
\<close>

definition resolve_member ::
  "ledger_tables \<Rightarrow> account_set_id \<Rightarrow> account_set_member_id \<Rightarrow> account_set_error + account_set_values \<times> account_id" where
  "resolve_member lt account_set_id member =
     (case member of
        MemberAccount a \<Rightarrow> rmap (\<lambda>set. (set, a)) (find_set lt account_set_id)
      | MemberSet m \<Rightarrow>
          rbind (find_set lt account_set_id)
            (\<lambda>target. rbind (ok_or (CouldNotFindById m) (if m = account_set_id then None else map_of (lt_sets lt) m))
               (\<lambda>member_set.
                  if asv_journal_id target \<noteq> asv_journal_id member_set then Inl JournalIdMismatch
                  else Inr (target, account_of_set m))))"

definition assert_member_history_empty_in_op ::
  "'d history_tables \<Rightarrow> account_set_id \<Rightarrow> journal_id \<Rightarrow> account_id \<Rightarrow> account_set_error + unit" where
  "assert_member_history_empty_in_op ht account_set_id journal_id member_id =
     (if member_has_balance_history_in_op (ht_balances ht) (ht_entries ht) journal_id member_id
      then Inl (MemberHasBalanceHistory account_set_id member_id)
      else Inr ())"

definition write_membership ::
  "ledger_tables \<Rightarrow> membership_tables \<times> membership_event list \<Rightarrow> ledger_tables \<times> ledger_event list" where
  "write_membership lt r = (lt \<lparr> lt_membership := fst r \<rparr>, map Membership (snd r))"

section \<open>Adding members\<close>

definition add_account_members ::
  "graph_snapshot \<Rightarrow> ledger_tables \<Rightarrow> account_membership list
     \<Rightarrow> (account_set_error + ledger_tables \<times> ledger_event list) option" where
  "add_account_members snapshot lt ms =
     pbind (fst (assert_no_double_membership_in_op snapshot (lt_membership lt) ms))
       (\<lambda>_. Some (rmap (write_membership lt)
          (add_in_op (lt_membership lt) (map (\<lambda>m. (am_account_set_id m, am_account_id m)) ms))))"

definition add_set_members ::
  "(set_membership list \<Rightarrow> set_membership list) \<Rightarrow> graph_snapshot \<Rightarrow> ledger_tables \<Rightarrow> set_membership list
     \<Rightarrow> (account_set_error + ledger_tables \<times> ledger_event list) option" where
  "add_set_members ord snapshot lt edges =
     pbind (fst (assert_valid_set_memberships_in_op ord snapshot (lt_membership lt) edges))
       (\<lambda>_. Some (rmap (write_membership lt) (insert_member_sets (lt_membership lt) edges)))"

definition add_member_in_op ::
  "(set_membership list \<Rightarrow> set_membership list) \<Rightarrow> 'd history_tables \<Rightarrow> graph_snapshot \<Rightarrow> ledger_tables
     \<Rightarrow> account_set_id \<Rightarrow> account_set_member_id
     \<Rightarrow> (account_set_error + ledger_tables \<times> ledger_event list) option" where
  "add_member_in_op ord ht snapshot lt account_set_id member =
     pbind (Some (resolve_member lt account_set_id member))
       (\<lambda>(set, member_id).
          pbind (Some (assert_member_history_empty_in_op ht account_set_id (asv_journal_id set) member_id))
            (\<lambda>_. case member of
                MemberAccount a \<Rightarrow>
                  add_account_members snapshot lt [\<lparr> am_account_set_id = account_set_id, am_account_id = a \<rparr>]
              | MemberSet m \<Rightarrow>
                  add_set_members ord snapshot lt
                    [\<lparr> sm_account_set_id = account_set_id, sm_member_account_set_id = m \<rparr>]))"

definition history_error ::
  "'d history_tables \<Rightarrow> (journal_id \<times> account_id) list \<Rightarrow> (account_set_id \<times> account_id) list
     \<Rightarrow> (account_set_error + unit) option" where
  "history_error ht check_pairs members =
     (case members_with_balance_history_in_op (ht_balances ht) (ht_entries ht) check_pairs of
        [] \<Rightarrow> Some (Inr ())
      | member_id # _ \<Rightarrow>
          (case List.find (\<lambda>m. snd m = member_id) members of
             None \<Rightarrow> None
           | Some m \<Rightarrow> Some (Inl (MemberHasBalanceHistory (fst m) member_id))))"

definition add_members_in_op ::
  "'d history_tables \<Rightarrow> graph_snapshot \<Rightarrow> ledger_tables \<Rightarrow> (account_set_id \<times> account_id) list
     \<Rightarrow> (account_set_error + ledger_tables \<times> ledger_event list) option" where
  "add_members_in_op ht snapshot lt members =
     (if members = [] then Some (Inr (lt, []))
      else
        pbind (Some (rmap_list (\<lambda>(s, a). rmap (\<lambda>set. (asv_journal_id set, a)) (find_set lt s)) members))
          (\<lambda>check_pairs. pbind (history_error ht check_pairs members)
             (\<lambda>_. add_account_members snapshot lt (map to_account_membership members))))"

definition check_edge :: "ledger_tables \<Rightarrow> set_membership \<Rightarrow> account_set_error + journal_id \<times> account_id" where
  "check_edge lt edge =
     rbind (find_set lt (sm_account_set_id edge))
       (\<lambda>account_set. rbind (find_set lt (sm_member_account_set_id edge))
          (\<lambda>member_account_set.
             if asv_journal_id account_set \<noteq> asv_journal_id member_account_set then Inl JournalIdMismatch
             else Inr (asv_journal_id account_set, account_of_set (sm_member_account_set_id edge))))"

definition add_member_sets_in_op ::
  "(set_membership list \<Rightarrow> set_membership list) \<Rightarrow> 'd history_tables \<Rightarrow> graph_snapshot \<Rightarrow> ledger_tables
     \<Rightarrow> (account_set_id \<times> account_set_id) list
     \<Rightarrow> (account_set_error + ledger_tables \<times> ledger_event list) option" where
  "add_member_sets_in_op ord ht snapshot lt members =
     (if members = [] then Some (Inr (lt, []))
      else
        let edges = map to_set_membership members
        in pbind (Some (rmap_list (check_edge lt) edges))
             (\<lambda>check_pairs.
                pbind (history_error ht check_pairs
                         (map (\<lambda>e. (sm_account_set_id e, account_of_set (sm_member_account_set_id e))) edges))
                  (\<lambda>_. add_set_members ord snapshot lt edges)))"

section \<open>Removing a member\<close>

definition remove_member_in_op ::
  "'d history_tables \<Rightarrow> ledger_tables \<Rightarrow> account_set_id \<Rightarrow> account_set_member_id
     \<Rightarrow> account_set_error + ledger_tables \<times> ledger_event list" where
  "remove_member_in_op ht lt account_set_id member =
     rbind (resolve_member lt account_set_id member)
       (\<lambda>(set, member_id).
          rbind (assert_member_history_empty_in_op ht account_set_id (asv_journal_id set) member_id)
            (\<lambda>_. Inr (write_membership lt
               (case member of
                  MemberAccount a \<Rightarrow> remove_in_op (lt_membership lt) account_set_id a
                | MemberSet m \<Rightarrow> remove_member_set (lt_membership lt) account_set_id m))))"

end
