(* ===== verification/Set_World.thy ===== *)
theory Set_World imports Account_Sets Graph_Cache_Theorems begin

text \<open>
  The operations on account sets as a transition system: the committed tables, the one open
  operation that changes them, the shared snapshot and a refresh between its read and its
  installation. The step relation takes every operation of the services; the invariant says that
  the hierarchy stays sound and the snapshot never lies about an epoch it shares with the tables.

  The system serialises the operations that change the graph, as the exclusive lock does.
\<close>

section \<open>Well-formed tables\<close>

definition tables_ok :: "ledger_tables \<Rightarrow> bool" where
  "tables_ok lt \<longleftrightarrow> keys_ok (lt_membership lt) \<and> hierarchy_ok (lt_membership lt) \<and>
     distinct (map fst (lt_sets lt)) \<and>
     (\<forall>s. mt_account_sets (lt_membership lt) s = map_option asv_journal_id (map_of (lt_sets lt) s)) \<and>
     (\<forall>a. mt_accounts (lt_membership lt) a = None \<longleftrightarrow> map_of (lt_accounts lt) a = None) \<and>
     (\<forall>a v. map_of (lt_accounts lt) a = Some v \<longrightarrow> av_id v = a)"

section \<open>Operations\<close>

text \<open>
  The successful operations on the tables of an open operation. An entity that is persisted has
  the identifier, the journal and the configuration it was loaded with.
\<close>

inductive op_step ::
  "(account_set_id \<Rightarrow> string) \<Rightarrow> (set_membership list \<Rightarrow> set_membership list) \<Rightarrow> membership_tables
     \<Rightarrow> graph_snapshot \<Rightarrow> ledger_tables \<Rightarrow> ledger_tables \<Rightarrow> bool"
  for id_string ord committed snapshot
where
  journal_created: "op_step id_string ord committed snapshot lt (lt \<lparr> lt_journals := lt_journals lt @ [j] \<rparr>)"
| account_created:
    "create_account_in_op committed lt n = Some (Inr (lt', events))
      \<Longrightarrow> op_step id_string ord committed snapshot lt lt'"
| accounts_created:
    "create_accounts_in_op committed lt ns = Some (Inr (lt', events))
      \<Longrightarrow> op_step id_string ord committed snapshot lt lt'"
| account_persisted:
    "map_of (lt_accounts lt) (av_id v) = Some v0 \<Longrightarrow> av_config v = av_config v0
      \<Longrightarrow> persist_account_in_op lt v changes = Inr (lt', events)
      \<Longrightarrow> op_step id_string ord committed snapshot lt lt'"
| status_changed:
    "set_status_in_op s lt a = Inr (lt', events) \<Longrightarrow> op_step id_string ord committed snapshot lt lt'"
| set_created:
    "create_set_in_op id_string committed lt m = Some (Inr (lt', events))
      \<Longrightarrow> op_step id_string ord committed snapshot lt lt'"
| sets_created:
    "create_all_sets_in_op id_string committed lt ms = Some (Inr (lt', events))
      \<Longrightarrow> op_step id_string ord committed snapshot lt lt'"
| set_persisted:
    "map_of (lt_sets lt) (asv_id w) = Some w0 \<Longrightarrow> asv_journal_id w = asv_journal_id w0
      \<Longrightarrow> persist_set_in_op lt w changes = Inr (lt', events)
      \<Longrightarrow> op_step id_string ord committed snapshot lt lt'"
| member_added:
    "add_member_in_op ord (ht :: int history_tables) snapshot lt s member = Some (Inr (lt', events))
      \<Longrightarrow> op_step id_string ord committed snapshot lt lt'"
| members_added:
    "add_members_in_op (ht :: int history_tables) snapshot lt new = Some (Inr (lt', events))
      \<Longrightarrow> op_step id_string ord committed snapshot lt lt'"
| member_sets_added:
    "add_member_sets_in_op ord (ht :: int history_tables) snapshot lt pairs = Some (Inr (lt', events))
      \<Longrightarrow> op_step id_string ord committed snapshot lt lt'"
| member_removed:
    "remove_member_in_op (ht :: int history_tables) lt s member = Inr (lt', events)
      \<Longrightarrow> op_step id_string ord committed snapshot lt lt'"

text \<open>What every operation keeps, and how it moves the epoch.\<close>

definition extends :: "membership_tables \<Rightarrow> membership_tables \<Rightarrow> bool" where
  "extends mt mt' \<longleftrightarrow> mt_graph_epoch mt \<le> mt_graph_epoch mt' \<and>
     (mt_graph_epoch mt' = mt_graph_epoch mt \<longrightarrow> mt_member_sets mt' = mt_member_sets mt) \<and>
     (\<forall>s. node_meta mt s \<noteq> None \<longrightarrow> node_meta mt' s = node_meta mt s)"

lemma extends_refl [simp]: "extends mt mt"
  by (simp add: extends_def)

lemma extends_trans: "extends a b \<Longrightarrow> extends b c \<Longrightarrow> extends a c"
  by (auto simp: extends_def)

definition good_step :: "ledger_tables \<Rightarrow> ledger_tables \<Rightarrow> bool" where
  "good_step lt lt' \<longleftrightarrow> tables_ok lt' \<and> extends (lt_membership lt) (lt_membership lt')"

lemma good_step_refl: "tables_ok lt \<Longrightarrow> good_step lt lt"
  by (simp add: good_step_def)

lemma good_step_trans: "good_step a b \<Longrightarrow> good_step b c \<Longrightarrow> good_step a c"
  unfolding good_step_def using extends_trans by blast

lemma hierarchy_ok_cong:
  "mt_member_sets mt' = mt_member_sets mt \<Longrightarrow> mt_member_accounts mt' = mt_member_accounts mt \<Longrightarrow>
    hierarchy_ok mt' \<longleftrightarrow> hierarchy_ok mt"
  by (simp add: hierarchy_rel memberships_in_def)

subsection \<open>Entity tables\<close>

lemma insert_account_good:
  assumes "tables_ok lt" and "insert_account lt n = Inr (lt', events)"
  shows "good_step lt lt' \<and> mt_member_accounts (lt_membership lt') = mt_member_accounts (lt_membership lt) \<and>
    map_of (lt_accounts lt) (na_id n) = None \<and> map_of (lt_accounts lt') (na_id n) \<noteq> None \<and>
    (\<forall>a. map_of (lt_accounts lt) a \<noteq> None \<longrightarrow> map_of (lt_accounts lt') a \<noteq> None) \<and> lt_sets lt' = lt_sets lt"
proof -
  let ?v = "new_account_values n" and ?mt = "lt_membership lt"
  have v: "av_id ?v = na_id n" by (simp add: new_account_values_def)
  have ins: "map_of (lt_accounts lt) (na_id n) = None"
    "lt_accounts lt' = lt_accounts lt @ [(na_id n, ?v)]" "lt_sets lt' = lt_sets lt"
    "lt_membership lt' = ?mt \<lparr> mt_accounts := (mt_accounts ?mt)(na_id n \<mapsto> account_columns ?v) \<rparr>"
    using assms(2) by (auto simp: insert_account_def Let_def v split: if_splits)
  have ok: "keys_ok ?mt" "hierarchy_ok ?mt" "distinct (map fst (lt_sets lt))"
    "\<And>s. mt_account_sets ?mt s = map_option asv_journal_id (map_of (lt_sets lt) s)"
    "\<And>a. mt_accounts ?mt a = None \<longleftrightarrow> map_of (lt_accounts lt) a = None"
    "\<And>a v. map_of (lt_accounts lt) a = Some v \<Longrightarrow> av_id v = a"
    using assms(1) by (simp_all add: tables_ok_def)
  have fresh: "mt_accounts ?mt (na_id n) = None" using ins(1) ok(5) by blast
  have look: "map_of (lt_accounts lt') a = (if a = na_id n then Some ?v else map_of (lt_accounts lt) a)" for a
    using ins(1) by (auto simp: ins(2) map_add_def split: option.splits)
  have "keys_ok (lt_membership lt')" using ok(1) by (fastforce simp: keys_ok_def ins(4))
  moreover have "hierarchy_ok (lt_membership lt')" using ok(2) hierarchy_ok_cong[of "lt_membership lt'" ?mt] by (simp add: ins(4))
  ultimately have "tables_ok lt'"
    using ok fresh unfolding tables_ok_def look ins(3) by (auto simp: ins(4) v)
  moreover have "extends ?mt (lt_membership lt')"
    using fresh by (auto simp: extends_def ins(4) node_meta_def split: option.splits)
  ultimately show ?thesis using ins look by (auto simp: good_step_def)
qed

lemma insert_accounts_good:
  assumes "tables_ok lt" and "insert_accounts lt ns = Inr (lt', events)"
  shows "good_step lt lt' \<and> mt_member_accounts (lt_membership lt') = mt_member_accounts (lt_membership lt) \<and>
    distinct (map na_id ns) \<and>
    (\<forall>a \<in> na_id ` set ns. map_of (lt_accounts lt) a = None \<and> map_of (lt_accounts lt') a \<noteq> None) \<and>
    (\<forall>a. map_of (lt_accounts lt) a \<noteq> None \<longrightarrow> map_of (lt_accounts lt') a \<noteq> None) \<and> lt_sets lt' = lt_sets lt"
proof -
  let ?f = "\<lambda>(lt, events) n. rmap (\<lambda>(lt', more). (lt', events @ more)) (insert_account lt n)"
  have "rfold ?f (lt, e0) ns = Inr (lt', events) \<Longrightarrow> ?thesis" for e0
    using assms(1)
  proof (induction ns arbitrary: lt e0)
    case Nil
    then show ?case by (simp add: good_step_refl)
  next
    case (Cons n ns)
    from Cons.prems(1) obtain lt1 e1 where one: "insert_account lt n = Inr (lt1, e1)"
      and rest: "rfold ?f (lt1, e0 @ e1) ns = Inr (lt', events)"
      by (auto simp: rbind_Inr_iff rmap_Inr_iff split: prod.splits)
    note first = insert_account_good[OF Cons.prems(2) one]
    then have "tables_ok lt1" by (simp add: good_step_def)
    note others = Cons.IH[OF rest this]
    have "na_id n \<notin> na_id ` set ns" using first others by auto
    moreover have "\<forall>a \<in> na_id ` set ns. map_of (lt_accounts lt) a = None" using first others by (metis option.exhaust_sel)
    ultimately show ?case using first others good_step_trans by auto
  qed
  then show ?thesis using assms(2) by (simp add: insert_accounts_def)
qed

lemma persist_account_good:
  assumes "tables_ok lt" and "map_of (lt_accounts lt) (av_id v) = Some v0" and "av_config v = av_config v0"
    and "persist_account_in_op lt v changes = Inr (lt', events)"
  shows "good_step lt lt'"
proof -
  let ?mt = "lt_membership lt"
  let ?acc = "\<lambda>a. if a = av_id v then map_option (\<lambda>r. r \<lparr> ac_normal_balance_type := av_normal_balance_type v,
      ac_status := av_status v \<rparr>) (mt_accounts ?mt a) else mt_accounts ?mt a"
  have upd: "lt_accounts lt' = map (\<lambda>r. if fst r = av_id v then (av_id v, v) else r) (lt_accounts lt)"
    "lt_sets lt' = lt_sets lt" "lt_membership lt' = ?mt \<lparr> mt_accounts := ?acc \<rparr>"
    using assms(4) by (auto simp: persist_account_in_op_def update_account_def Let_def split: if_splits)
  have ok: "keys_ok ?mt" "hierarchy_ok ?mt" "distinct (map fst (lt_sets lt))"
    "\<And>s. mt_account_sets ?mt s = map_option asv_journal_id (map_of (lt_sets lt) s)"
    "\<And>a. mt_accounts ?mt a = None \<longleftrightarrow> map_of (lt_accounts lt) a = None"
    "\<And>a v. map_of (lt_accounts lt) a = Some v \<Longrightarrow> av_id v = a"
    using assms(1) by (simp_all add: tables_ok_def)
  have none: "?acc a = None \<longleftrightarrow> mt_accounts ?mt a = None" for a by simp
  have look: "map_of (lt_accounts lt') a = (if a = av_id v then Some v else map_of (lt_accounts lt) a)" for a
  proof -
    have "map_of (map (\<lambda>r. if fst r = k then (k, x) else r) m) a =
        (if a = k \<and> map_of m k \<noteq> None then Some x else map_of m a)" for k x and m :: "(account_id \<times> account_values) list"
      by (induction m) auto
    then show ?thesis using assms(2) by (simp add: upd(1))
  qed
  have "keys_ok (lt_membership lt')" using ok(1) none unfolding keys_ok_def upd(3) by simp
  moreover have "hierarchy_ok (lt_membership lt')" using ok(2) hierarchy_ok_cong[of "lt_membership lt'" ?mt] by (simp add: upd(3))
  ultimately have "tables_ok lt'"
    using ok assms(2) unfolding tables_ok_def look upd(2) by (auto simp: upd(3))
  moreover have "extends ?mt (lt_membership lt')"
    by (auto simp: extends_def upd(3) node_meta_def split: option.splits)
  ultimately show ?thesis by (simp add: good_step_def)
qed

lemma status_update_keeps:
  "account_update_status s \<lparr> ent_id = i, ent_values = v, ent_events = es \<rparr> = (e, d) \<Longrightarrow>
    av_id (ent_values e) = av_id v \<and> av_config (ent_values e) = av_config v"
  by (auto simp: account_update_status_def account_update_def account_changes_def finish_update_def set_field_def
      new_metadata_def Let_def split: if_splits)

lemma set_status_good:
  assumes "tables_ok lt" and "set_status_in_op s lt a = Inr (lt', events)"
  shows "good_step lt lt'"
proof -
  have ids: "map_of (lt_accounts lt) a = Some v \<Longrightarrow> av_id v = a" for a v using assms(1) by (simp add: tables_ok_def)
  from assms(2) obtain v where v: "map_of (lt_accounts lt) a = Some v" by (auto simp: set_status_in_op_def rbind_Inr_iff ok_or_Inr_iff)
  obtain e d where e: "account_update_status s \<lparr> ent_id = a, ent_values = v, ent_events = [] \<rparr> = (e, d)" by force
  note keeps = status_update_keeps[OF e]
  show ?thesis
  proof (cases "d = Executed")
    case True
    then have "persist_account_in_op lt (ent_values e) [''status''] = Inr (lt', events)"
      using assms(2) v e by (simp add: set_status_in_op_def)
    then show ?thesis using persist_account_good[OF assms(1), of "ent_values e" v] keeps v ids[OF v] by simp
  next
    case False
    then have "lt' = lt" using assms(2) v e by (simp add: set_status_in_op_def)
    then show ?thesis using assms(1) good_step_refl by simp
  qed
qed

lemma persist_set_good:
  assumes "tables_ok lt" and "map_of (lt_sets lt) (asv_id w) = Some w0" and "asv_journal_id w = asv_journal_id w0"
    and "persist_set_in_op lt w changes = Inr (lt', events)"
  shows "good_step lt lt'"
proof -
  have upd: "lt_accounts lt' = lt_accounts lt"
    "lt_sets lt' = map (\<lambda>r. if fst r = asv_id w then (asv_id w, w) else r) (lt_sets lt)"
    "lt_membership lt' = lt_membership lt"
    using assms(4) by (auto simp: persist_set_in_op_def update_velocity_context_values_in_op_def Let_def split: if_splits)
  have "map_of (map (\<lambda>r. if fst r = k then (k, x) else r) m) a =
      (if a = k \<and> map_of m k \<noteq> None then Some x else map_of m a)"
    for a k x and m :: "(account_set_id \<times> account_set_values) list"
    by (induction m) auto
  then have look: "map_of (lt_sets lt') s = (if s = asv_id w then Some w else map_of (lt_sets lt) s)" for s
    using assms(2) by (simp add: upd(2))
  have "map fst (lt_sets lt') = map fst (lt_sets lt)" by (simp add: upd(2) comp_def if_distrib cong: if_cong)
  then have "tables_ok lt'" using assms(1-3) unfolding tables_ok_def upd(1,3) look by auto
  then show ?thesis by (simp add: good_step_def upd(3))
qed

lemma insert_set_good:
  assumes "tables_ok lt" and "insert_account_set lt n = Inr (lt', events)"
  shows "good_step lt lt'"
proof -
  let ?v = "new_account_set_values n" and ?mt = "lt_membership lt"
  have v: "asv_id ?v = nas_id n" by (simp add: new_account_set_values_def)
  have ins: "map_of (lt_sets lt) (nas_id n) = None" "map_of (lt_accounts lt) (account_of_set (nas_id n)) \<noteq> None"
    "lt_accounts lt' = lt_accounts lt" "lt_sets lt' = lt_sets lt @ [(nas_id n, ?v)]"
    "lt_membership lt' = ?mt \<lparr> mt_account_sets := (mt_account_sets ?mt)(nas_id n \<mapsto> asv_journal_id ?v) \<rparr>"
    using assms(2) by (auto simp: insert_account_set_def Let_def v split: if_splits)
  have ok: "keys_ok ?mt" "hierarchy_ok ?mt" "distinct (map fst (lt_sets lt))"
    "\<And>s. mt_account_sets ?mt s = map_option asv_journal_id (map_of (lt_sets lt) s)"
    "\<And>a. mt_accounts ?mt a = None \<longleftrightarrow> map_of (lt_accounts lt) a = None"
    using assms(1) by (simp_all add: tables_ok_def)
  have fresh: "mt_account_sets ?mt (nas_id n) = None" using ins(1) ok(4) by simp
  have look: "map_of (lt_sets lt') s = (if s = nas_id n then Some ?v else map_of (lt_sets lt) s)" for s
    using ins(1) by (auto simp: ins(4) map_add_def split: option.splits)
  have "keys_ok (lt_membership lt')" using ok(1,5) ins(2) by (fastforce simp: keys_ok_def ins(5))
  moreover have "hierarchy_ok (lt_membership lt')" using ok(2) hierarchy_ok_cong[of "lt_membership lt'" ?mt] by (simp add: ins(5))
  moreover have "distinct (map fst (lt_sets lt'))"
    using ok(3) ins(1) by (auto simp: ins(4) map_of_eq_None_iff)
  ultimately have "tables_ok lt'" using assms(1) ok by (auto simp: tables_ok_def look ins(3,5))
  moreover have "extends ?mt (lt_membership lt')"
    using fresh by (auto simp: extends_def ins(5) node_meta_def split: option.splits)
  ultimately show ?thesis by (simp add: good_step_def)
qed

lemma insert_sets_good:
  assumes "tables_ok lt" and "insert_account_sets lt ns = Inr (lt', events)"
  shows "good_step lt lt'"
proof -
  let ?f = "\<lambda>(lt, events) n. rmap (\<lambda>(lt', more). (lt', events @ more)) (insert_account_set lt n)"
  have "rfold ?f (lt, e0) ns = Inr (lt', events) \<Longrightarrow> good_step lt lt'" for e0
    using assms(1)
  proof (induction ns arbitrary: lt e0)
    case (Cons n ns)
    from Cons.prems(1) obtain lt1 e1 where one: "insert_account_set lt n = Inr (lt1, e1)"
      and rest: "rfold ?f (lt1, e0 @ e1) ns = Inr (lt', events)"
      by (auto simp: rbind_Inr_iff rmap_Inr_iff split: prod.splits)
    note first = insert_set_good[OF Cons.prems(2) one]
    then show ?case using Cons.IH[OF rest] good_step_trans by (auto simp: good_step_def)
  qed (simp add: good_step_refl)
  then show ?thesis using assms(2) by (simp add: insert_account_sets_def)
qed

subsection \<open>Account members\<close>

lemma sound_members_fresh:
  assumes "sound_members R ms" and "distinct (map am_account_id new)"
    and "am_account_id ` set new \<inter> am_account_id ` set ms = {}"
  shows "sound_members R (ms @ new)"
proof -
  have "distinct new" using assms(2) by (simp add: distinct_map)
  moreover have "m = m'" if "m \<in> set new" "m' \<in> set new" "am_account_id m = am_account_id m'" for m m'
    using assms(2) that by (simp add: distinct_map inj_on_def)
  moreover have "am_account_id m \<noteq> am_account_id m'" if "m \<in> set new" "m' \<in> set ms" for m m'
    using assms(3) that by blast
  ultimately show ?thesis using assms(1,3) unfolding sound_members_def by (auto simp: disjoint_iff)
qed

lemma initial_pairs:
  "set (map snd (initial_membership_pairs ns)) \<subseteq> na_id ` set ns"
  "distinct (map na_id ns) \<Longrightarrow> distinct (map snd (initial_membership_pairs ns))"
proof -
  show sub: "set (map snd (initial_membership_pairs ns)) \<subseteq> na_id ` set ns" for ns
    by (auto simp: initial_membership_pairs_def split: option.splits)
  show "distinct (map na_id ns) \<Longrightarrow> distinct (map snd (initial_membership_pairs ns))"
  proof (induction ns)
    case (Cons n ns)
    then show ?case using sub[of ns] by (auto simp: initial_membership_pairs_def split: option.splits)
  qed (simp add: initial_membership_pairs_def)
qed

lemma attach_good:
  assumes "tables_ok lt" and "attach_initial_account_set_in_op committed lt pairs = Some (Inr (lt', events))"
    and "distinct (map snd pairs)" and "snd ` set pairs \<inter> snd ` set (mt_member_accounts (lt_membership lt)) = {}"
  shows "good_step lt lt'"
proof (cases "pairs = []")
  case True
  then show ?thesis using assms(1,2) good_step_refl by (simp add: attach_initial_account_set_in_op_def)
next
  case False
  let ?mt = "lt_membership lt" and ?new = "map to_account_membership (sort_key snd pairs)"
  from assms(2) False obtain mt where "attach_new_accounts_in_op committed ?mt pairs = Inr (mt, map (\<lambda>(s, a). AccountSetMemberCreated s (MemberAccount a)) pairs)"
    and lt': "lt' = lt \<lparr> lt_membership := mt \<rparr>"
    by (auto simp: attach_initial_account_set_in_op_def attach_new_accounts_in_op_def Let_def
        split: sum.splits account_set_member_error.splits list.splits if_splits)
  then have mt: "mt = ?mt \<lparr> mt_member_accounts := mt_member_accounts ?mt @ sort_key snd pairs \<rparr>"
    and keys: "\<forall>(s, a) \<in> set pairs. mt_account_sets ?mt s \<noteq> None \<and> mt_accounts ?mt a \<noteq> None"
    using False by (auto simp: attach_new_accounts_in_op_def Let_def list_ex_iff split: if_splits)
  have ok: "keys_ok ?mt" "hierarchy_ok ?mt" using assms(1) by (simp_all add: tables_ok_def)
  have "keys_ok mt" using ok(1) keys by (auto simp: keys_ok_def mt)
  moreover have "hierarchy_ok mt"
  proof -
    have "distinct (map am_account_id ?new)"
    proof -
      have "mset (map snd (sort_key snd pairs)) = mset (map snd pairs)" by (simp add: mset_map)
      then have "distinct (map snd (sort_key snd pairs))" using assms(3) mset_eq_imp_distinct_iff by blast
      then show ?thesis by (simp add: comp_def)
    qed
    moreover have "am_account_id ` set ?new \<inter> am_account_id ` set (memberships_in ?mt) = {}"
      using assms(4) by (simp add: memberships_in_def image_image)
    ultimately have "sound_members (set (mt_member_sets ?mt)) (memberships_in ?mt @ ?new)"
      using ok(2) sound_members_fresh unfolding hierarchy_rel by blast
    then show ?thesis using ok(2) by (simp add: hierarchy_rel mt memberships_in_def)
  qed
  ultimately have "tables_ok lt'" using assms(1) by (simp add: tables_ok_def lt' mt)
  moreover have "extends ?mt mt" by (simp add: extends_def mt node_meta_def)
  ultimately show ?thesis by (simp add: good_step_def lt')
qed

lemma accounts_agree:
  "tables_ok lt \<Longrightarrow> mt_accounts (lt_membership lt) a = None \<longleftrightarrow> map_of (lt_accounts lt) a = None"
  by (simp add: tables_ok_def)

lemma no_members_of_missing:
  "tables_ok lt \<Longrightarrow> map_of (lt_accounts lt) a = None \<Longrightarrow> a \<notin> snd ` set (mt_member_accounts (lt_membership lt))"
proof
  assume ok: "tables_ok lt" and none: "map_of (lt_accounts lt) a = None"
    and "a \<in> snd ` set (mt_member_accounts (lt_membership lt))"
  then obtain s where "(s, a) \<in> set (mt_member_accounts (lt_membership lt))" by auto
  then have "mt_accounts (lt_membership lt) a \<noteq> None" using ok unfolding tables_ok_def keys_ok_def by blast
  then show False using accounts_agree[OF ok, of a] none by simp
qed

lemma create_accounts_good:
  assumes "tables_ok lt" and "create_accounts_in_op committed lt ns = Some (Inr (lt', events))"
  shows "good_step lt lt'"
proof -
  from assms(2) obtain lt1 e1 e2 where one: "insert_accounts lt ns = Inr (lt1, e1)"
    and two: "attach_initial_account_set_in_op committed lt1 (initial_membership_pairs ns) = Some (Inr (lt', e2))"
    by (auto simp: create_accounts_in_op_def Let_def pbind_Inr_iff split: prod.splits)
  note ins = insert_accounts_good[OF assms(1) one]
  then have "tables_ok lt1" by (simp add: good_step_def)
  moreover have "distinct (map snd (initial_membership_pairs ns))" using ins initial_pairs(2) by blast
  moreover have "snd ` set (initial_membership_pairs ns) \<inter> snd ` set (mt_member_accounts (lt_membership lt1)) = {}"
  proof -
    have "a \<notin> snd ` set (mt_member_accounts (lt_membership lt))" if "a \<in> snd ` set (initial_membership_pairs ns)" for a
      using initial_pairs(1)[of ns] that ins by (intro no_members_of_missing[OF assms(1)]) auto
    then show ?thesis using ins by (simp add: disjoint_iff)
  qed
  ultimately show ?thesis using attach_good[OF _ two] ins good_step_trans by blast
qed

lemma create_account_good:
  assumes "tables_ok lt" and "create_account_in_op committed lt n = Some (Inr (lt', events))"
  shows "good_step lt lt'"
proof (rule create_accounts_good[OF assms(1)])
  show "create_accounts_in_op committed lt [n] = Some (Inr (lt', events))"
    using assms(2) by (auto simp: create_account_in_op_def create_accounts_in_op_def insert_accounts_def Let_def
        pbind_Inr_iff rmap_Inr_iff split: prod.splits)
qed

lemma with_membership_good:
  assumes "tables_ok lt" and "keys_ok mt" and "hierarchy_ok mt" and "mt_accounts mt = mt_accounts (lt_membership lt)"
    and "mt_account_sets mt = mt_account_sets (lt_membership lt)"
    and "mt_graph_epoch (lt_membership lt) \<le> mt_graph_epoch mt"
    and "mt_graph_epoch mt = mt_graph_epoch (lt_membership lt) \<Longrightarrow> mt_member_sets mt = mt_member_sets (lt_membership lt)"
  shows "good_step lt (lt \<lparr> lt_membership := mt \<rparr>)"
  using assms by (auto simp: good_step_def tables_ok_def extends_def node_meta_def)

definition coherent :: "graph_snapshot \<Rightarrow> membership_tables \<Rightarrow> bool" where
  "coherent snap mt \<longleftrightarrow> (gs_epoch snap = mt_graph_epoch mt \<longrightarrow> snapshot_matches snap mt)"

lemma add_account_members_good:
  assumes ok: "tables_ok lt" and co: "coherent snap (lt_membership lt)"
    and sets: "\<And>m. m \<in> set ms \<Longrightarrow> map_of (lt_sets lt) (am_account_set_id m) \<noteq> None"
    and run: "add_account_members snap lt ms = Some (Inr (lt', events))"
  shows "good_step lt lt'"
proof -
  let ?mt = "lt_membership lt"
  have ok': "keys_ok ?mt" "hierarchy_ok ?mt" using ok by (simp_all add: tables_ok_def)
  have sets': "m \<in> set ms \<Longrightarrow> mt_account_sets ?mt (am_account_set_id m) \<noteq> None" for m
    using ok sets[of m] by (simp add: tables_ok_def)
  from run obtain mt ev where check: "fst (assert_no_double_membership_in_op snap ?mt ms) = Some (Inr ())"
    and add: "add_in_op ?mt (account_pairs ms) = Inr (mt, ev)" and lt': "lt' = lt \<lparr> lt_membership := mt \<rparr>"
    by (auto simp: add_account_members_def pbind_Inr_iff rmap_Inr_iff write_membership_def account_pairs_def)
  have "hierarchy_ok (with_accounts ?mt ms)"
    using check member_check[OF ok'(2,1) _ sets', of snap] co sql_check[OF ok'(2), of ms]
    by (simp add: coherent_def split: if_splits)
  moreover have "mt = with_accounts ?mt ms"
    and "\<forall>(s, a) \<in> set (account_pairs ms). mt_account_sets ?mt s \<noteq> None \<and> mt_accounts ?mt a \<noteq> None"
    using add by (auto simp: add_in_op_def with_accounts_def Let_def list_ex_iff split: if_splits)
  ultimately have "hierarchy_ok mt" "keys_ok mt" using ok'(1) by (auto simp: keys_ok_def with_accounts_def)
  then show ?thesis unfolding lt' \<open>mt = with_accounts ?mt ms\<close>
    by (intro with_membership_good[OF ok]) (simp_all add: with_accounts_def)
qed

lemma add_set_members_good:
  assumes ok: "tables_ok lt" and co: "coherent snap (lt_membership lt)" and ord: "\<And>es. mset (ord es) = mset es"
    and ne: "edges \<noteq> []" and run: "add_set_members ord snap lt edges = Some (Inr (lt', events))"
  shows "good_step lt lt'"
proof -
  let ?mt = "lt_membership lt"
  have ok': "keys_ok ?mt" "hierarchy_ok ?mt" using ok by (simp_all add: tables_ok_def)
  from run obtain mt ev where check: "fst (assert_valid_set_memberships_in_op ord snap ?mt edges) = Some (Inr ())"
    and ins: "insert_member_sets ?mt edges = Inr (mt, ev)" and lt': "lt' = lt \<lparr> lt_membership := mt \<rparr>"
    by (auto simp: add_set_members_def pbind_Inr_iff rmap_Inr_iff write_membership_def)
  have "hierarchy_ok (with_sets ?mt edges)"
    using set_check[OF ok'(2) co[unfolded coherent_def] ord ne] check by auto
  moreover have mt: "mt = with_sets ?mt edges"
    and ends: "\<forall>e \<in> set edges. mt_account_sets ?mt (sm_account_set_id e) \<noteq> None \<and> mt_account_sets ?mt (sm_member_account_set_id e) \<noteq> None"
    using ins ne by (auto simp: insert_member_sets_def with_sets_def set_pairs_def Let_def list_ex_iff split: if_splits)
  ultimately have "hierarchy_ok mt" "keys_ok mt" using ok'(1) by (auto simp: keys_ok_def with_sets_def edge_rel_def)
  then show ?thesis unfolding lt' mt by (intro with_membership_good[OF ok]) (simp_all add: with_sets_def)
qed

lemma find_set_Inr: "find_set lt s = Inr v \<longleftrightarrow> map_of (lt_sets lt) s = Some v"
  by (simp add: find_set_def ok_or_Inr_iff)

lemma resolve_member_Inr: "resolve_member lt s member = Inr r \<Longrightarrow> map_of (lt_sets lt) s \<noteq> None"
  by (auto simp: resolve_member_def rmap_Inr_iff rbind_Inr_iff find_set_Inr split: account_set_member_id.splits)

lemma add_member_good:
  assumes ok: "tables_ok lt" and co: "coherent snap (lt_membership lt)" and ord: "\<And>es. mset (ord es) = mset es"
    and run: "add_member_in_op ord ht snap lt s member = Some (Inr (lt', events))"
  shows "good_step lt lt'"
proof -
  from run have s: "map_of (lt_sets lt) s \<noteq> None"
    by (auto simp: add_member_in_op_def pbind_Inr_iff dest: resolve_member_Inr)
  show ?thesis
  proof (cases member)
    case (MemberAccount a)
    then have "add_account_members snap lt [\<lparr> am_account_set_id = s, am_account_id = a \<rparr>] = Some (Inr (lt', events))"
      using run by (auto simp: add_member_in_op_def pbind_Inr_iff)
    then show ?thesis using s by (intro add_account_members_good[OF ok co]) auto
  next
    case (MemberSet m)
    then have "add_set_members ord snap lt [\<lparr> sm_account_set_id = s, sm_member_account_set_id = m \<rparr>] = Some (Inr (lt', events))"
      using run by (auto simp: add_member_in_op_def pbind_Inr_iff)
    then show ?thesis by (rule add_set_members_good[OF ok co ord, rotated]) simp
  qed
qed

lemma rmap_list_mem: "rmap_list f xs = Inr ys \<Longrightarrow> x \<in> set xs \<Longrightarrow> \<exists>y. f x = Inr y"
  by (induction xs arbitrary: ys) (auto simp: rbind_Inr_iff rmap_Inr_iff)

lemma add_members_good:
  assumes ok: "tables_ok lt" and co: "coherent snap (lt_membership lt)"
    and run: "add_members_in_op ht snap lt new = Some (Inr (lt', events))"
  shows "good_step lt lt'"
proof (cases "new = []")
  case True
  then show ?thesis using run ok good_step_refl by (simp add: add_members_in_op_def)
next
  case False
  from run False obtain checks where
    found: "rmap_list (\<lambda>(s, a). rmap (\<lambda>set. (asv_journal_id set, a)) (find_set lt s)) new = Inr checks"
    and add: "add_account_members snap lt (map to_account_membership new) = Some (Inr (lt', events))"
    by (auto simp: add_members_in_op_def pbind_Inr_iff)
  have "map_of (lt_sets lt) s \<noteq> None" if "(s, a) \<in> set new" for s a
  proof -
    from rmap_list_mem[OF found that] show ?thesis by (auto simp: rmap_Inr_iff find_set_Inr)
  qed
  then show ?thesis by (intro add_account_members_good[OF ok co _ add]) auto
qed

lemma add_member_sets_good:
  assumes ok: "tables_ok lt" and co: "coherent snap (lt_membership lt)" and ord: "\<And>es. mset (ord es) = mset es"
    and run: "add_member_sets_in_op ord ht snap lt pairs = Some (Inr (lt', events))"
  shows "good_step lt lt'"
proof (cases "pairs = []")
  case True
  then show ?thesis using run ok good_step_refl by (simp add: add_member_sets_in_op_def)
next
  case False
  then have "add_set_members ord snap lt (map to_set_membership pairs) = Some (Inr (lt', events))"
    using run by (auto simp: add_member_sets_in_op_def pbind_Inr_iff Let_def)
  then show ?thesis using False by (intro add_set_members_good[OF ok co ord, of "map to_set_membership pairs"]) simp_all
qed

lemma hierarchy_mono:
  assumes "hierarchy_ok mt" and "set (mt_member_sets mt') \<subseteq> set (mt_member_sets mt)" and "distinct (mt_member_sets mt')"
    and "set (mt_member_accounts mt') \<subseteq> set (mt_member_accounts mt)" and "distinct (mt_member_accounts mt')"
  shows "hierarchy_ok mt'"
proof -
  have up: "up (set (mt_member_sets mt')) x \<subseteq> up (set (mt_member_sets mt)) x" for x by (rule up_mono[OF assms(2)])
  have "distinct (memberships_in mt')"
    using assms(5) inj_to_account_membership by (auto simp: memberships_in_def distinct_map intro: inj_on_subset)
  moreover have "set (memberships_in mt') \<subseteq> set (memberships_in mt)" using assms(4) by (auto simp: memberships_in_def)
  ultimately have "sound_members (set (mt_member_sets mt')) (memberships_in mt')"
    using assms(1) up unfolding hierarchy_rel sound_members_def by (meson disjoint_iff subsetD)
  then show ?thesis using assms(1-3) sound_rel_mono unfolding hierarchy_rel by blast
qed

lemma remove_member_good:
  assumes ok: "tables_ok lt" and run: "remove_member_in_op ht lt s member = Inr (lt', events)"
  shows "good_step lt lt'"
proof -
  let ?mt = "lt_membership lt"
  have ok': "keys_ok ?mt" "hierarchy_ok ?mt" using ok by (simp_all add: tables_ok_def)
  have dist: "distinct (mt_member_sets ?mt)" "distinct (mt_member_accounts ?mt)"
    using ok'(2) by (auto simp: hierarchy_rel sound_members_def memberships_in_def distinct_map)
  define mt where "mt = fst (case member of
                  MemberAccount a \<Rightarrow> remove_in_op ?mt s a
                | MemberSet m \<Rightarrow> remove_member_set ?mt s m)"
  have lt': "lt' = lt \<lparr> lt_membership := mt \<rparr>"
    using run by (auto simp: remove_member_in_op_def rbind_Inr_iff write_membership_def mt_def)
  have "hierarchy_ok mt"
    by (rule hierarchy_mono[OF ok'(2)])
      (use dist in \<open>auto simp: mt_def remove_in_op_def remove_member_set_def split: account_set_member_id.split\<close>)
  moreover have "keys_ok mt"
    using ok'(1) by (cases member) (auto simp: mt_def remove_in_op_def remove_member_set_def keys_ok_def)
  ultimately show ?thesis unfolding lt'
    by (intro with_membership_good[OF ok]; cases member) (simp_all add: mt_def remove_in_op_def remove_member_set_def)
qed

subsection \<open>Every operation\<close>

theorem op_step_good:
  assumes "op_step id_string ord committed snap lt lt'" and "tables_ok lt" and "coherent snap (lt_membership lt)"
    and "\<And>es. mset (ord es) = mset es"
  shows "good_step lt lt'"
  using assms(1)
proof cases
  case (journal_created j)
  then show ?thesis using assms(2) by (simp add: good_step_def tables_ok_def)
next
  case (account_created n events)
  then show ?thesis using create_account_good[OF assms(2)] by blast
next
  case (accounts_created ns events)
  then show ?thesis using create_accounts_good[OF assms(2)] by blast
next
  case (account_persisted v v0 changes events)
  then show ?thesis using persist_account_good[OF assms(2)] by blast
next
  case (status_changed s a events)
  then show ?thesis using set_status_good[OF assms(2)] by blast
next
  case (set_created m events)
  then obtain lt1 e1 where "create_account_in_op committed lt (set_account id_string m) = Some (Inr (lt1, e1))"
    "insert_account_set lt1 m = Inr (lt', events)"
    by (auto simp: create_set_in_op_def pbind_Inr_iff map_err_Inr_iff split: prod.splits)
  then show ?thesis using create_account_good[OF assms(2)] insert_set_good good_step_trans by (metis good_step_def)
next
  case (sets_created ms events)
  then obtain lt1 e1 where "create_accounts_in_op committed lt (map (set_account id_string) ms) = Some (Inr (lt1, e1))"
    "insert_account_sets lt1 ms = Inr (lt', events)"
    by (auto simp: create_all_sets_in_op_def pbind_Inr_iff map_err_Inr_iff split: prod.splits)
  then show ?thesis using create_accounts_good[OF assms(2)] insert_sets_good good_step_trans by (metis good_step_def)
next
  case (set_persisted w w0 changes events)
  then show ?thesis using persist_set_good[OF assms(2)] by blast
next
  case (member_added ht s member events)
  then show ?thesis using add_member_good[OF assms(2,3,4)] by blast
next
  case (members_added ht new events)
  then show ?thesis using add_members_good[OF assms(2,3)] by blast
next
  case (member_sets_added ht pairs events)
  then show ?thesis using add_member_sets_good[OF assms(2,3,4)] by blast
next
  case (member_removed ht s member events)
  then show ?thesis using remove_member_good[OF assms(2)] by blast
qed

end
