(* ===== verification/Set_World_Theorems.thy ===== *)
theory Set_World_Theorems imports Set_World begin

text \<open>
  The transition system of the account-set service with its cache, its invariant and the
  properties that hold in every reachable state: the stored hierarchy is sound, the cache answers
  like the statements it replaces, and a refresh brings the answers back into memory.
\<close>

section \<open>Worlds\<close>

record set_world =
  sw_committed :: ledger_tables
  sw_op :: "ledger_tables option"
  sw_snapshot :: graph_snapshot
  sw_fetch :: "set_graph_data option"

definition init_world :: set_world where
  "init_world =
     \<lparr> sw_committed = \<lparr> lt_accounts = [], lt_contexts = Map.empty, lt_sets = [], lt_journals = [],
         lt_membership = \<lparr> mt_accounts = Map.empty, mt_account_sets = Map.empty, mt_member_accounts = [],
           mt_member_sets = [], mt_graph_epoch = 0 \<rparr> \<rparr>,
       sw_op = None, sw_snapshot = cold, sw_fetch = None \<rparr>"

text \<open>
  A refresh reads the committed graph in one step and installs it in a later one; the refresh
  lock allows one at a time.
\<close>

inductive world_step ::
  "(account_set_id \<Rightarrow> string) \<Rightarrow> (set_membership list \<Rightarrow> set_membership list) \<Rightarrow> set_world \<Rightarrow> set_world \<Rightarrow> bool"
  for id_string ord
where
  op_begins: "sw_op w = None \<Longrightarrow> world_step id_string ord w (w \<lparr> sw_op := Some (sw_committed w) \<rparr>)"
| op_runs:
    "sw_op w = Some lt \<Longrightarrow> op_step id_string ord (lt_membership (sw_committed w)) (sw_snapshot w) lt lt'
      \<Longrightarrow> world_step id_string ord w (w \<lparr> sw_op := Some lt' \<rparr>)"
| op_commits: "sw_op w = Some lt \<Longrightarrow> world_step id_string ord w (w \<lparr> sw_committed := lt, sw_op := None \<rparr>)"
| op_rolls_back: "world_step id_string ord w (w \<lparr> sw_op := None \<rparr>)"
| graph_fetched:
    "sw_fetch w = None \<Longrightarrow> distinct scan \<Longrightarrow> set scan = fst ` set (lt_sets (sw_committed w))
      \<Longrightarrow> world_step id_string ord w
            (w \<lparr> sw_fetch := Some (fetch_set_graph scan (lt_membership (sw_committed w))) \<rparr>)"
| graph_installed:
    "sw_fetch w = Some data
      \<Longrightarrow> world_step id_string ord w (w \<lparr> sw_snapshot := install_graph (sw_snapshot w) data, sw_fetch := None \<rparr>)"

definition reachable ::
  "(account_set_id \<Rightarrow> string) \<Rightarrow> (set_membership list \<Rightarrow> set_membership list) \<Rightarrow> set_world \<Rightarrow> bool" where
  "reachable id_string ord w \<longleftrightarrow> (\<forall>es. mset (ord es) = mset es) \<and> (world_step id_string ord)\<^sup>*\<^sup>* init_world w"

text \<open>The tables a reader may see: the committed ones, or its own operation's.\<close>

definition views :: "set_world \<Rightarrow> ledger_tables set" where
  "views w = insert (sw_committed w) (set_option (sw_op w))"

section \<open>The invariant\<close>

definition tracks :: "graph_snapshot \<Rightarrow> membership_tables \<Rightarrow> bool" where
  "tracks snap mt \<longleftrightarrow> gs_epoch snap \<le> mt_graph_epoch mt \<and> coherent snap mt"

definition world_ok :: "set_world \<Rightarrow> bool" where
  "world_ok w \<longleftrightarrow> tables_ok (sw_committed w) \<and> tracks (sw_snapshot w) (lt_membership (sw_committed w)) \<and>
     (\<forall>data. sw_fetch w = Some data \<longrightarrow> tracks (snapshot_of data) (lt_membership (sw_committed w))) \<and>
     (\<forall>lt. sw_op w = Some lt \<longrightarrow> tables_ok lt \<and> extends (lt_membership (sw_committed w)) (lt_membership lt))"

lemma matches_extends:
  assumes "snapshot_matches snap mt" and "mt_member_sets mt' = mt_member_sets mt" and "extends mt mt'"
  shows "snapshot_matches snap mt'"
proof -
  have "map_of (gs_meta snap) s \<noteq> None \<Longrightarrow> map_of (gs_meta snap) s = node_meta mt' s" for s
    using assms(1,3) unfolding snapshot_matches_def extends_def by metis
  then show ?thesis using assms(1,2) by (simp add: snapshot_matches_def parents_in_def)
qed

lemma tracks_extends: "tracks snap mt \<Longrightarrow> extends mt mt' \<Longrightarrow> tracks snap mt'"
  using matches_extends[of snap mt mt'] by (auto simp: tracks_def coherent_def extends_def)

lemma fetched_tracks:
  assumes "tables_ok lt" and "distinct scan" and "set scan = fst ` set (lt_sets lt)"
  shows "gs_epoch (snapshot_of (fetch_set_graph scan (lt_membership lt))) = mt_graph_epoch (lt_membership lt)"
    and "tracks (snapshot_of (fetch_set_graph scan (lt_membership lt))) (lt_membership lt)"
proof -
  have "fst ` set (lt_sets lt) = {s. mt_account_sets (lt_membership lt) s \<noteq> None}"
    using assms(1) by (auto simp: tables_ok_def map_of_eq_None_iff)
  then have "snapshot_matches (snapshot_of (fetch_set_graph scan (lt_membership lt))) (lt_membership lt)"
    using assms fetched_snapshot_matches[of "lt_membership lt" scan] by (simp add: tables_ok_def)
  moreover show "gs_epoch (snapshot_of (fetch_set_graph scan (lt_membership lt))) = mt_graph_epoch (lt_membership lt)"
    by (simp add: snapshot_of_def fetch_set_graph_def Let_def)
  ultimately show "tracks (snapshot_of (fetch_set_graph scan (lt_membership lt))) (lt_membership lt)"
    by (simp add: tracks_def coherent_def)
qed

lemma init_world_ok: "world_ok init_world"
proof -
  have "({} :: (account_set_id \<times> account_set_id) set) ^^ 17 = {}" by (simp add: numeral_eq_Suc)
  then have "hierarchy_ok (lt_membership (sw_committed init_world))"
    by (simp add: hierarchy_rel init_world_def sound_rel_def no_diamond_def sound_members_def memberships_in_def acyclic_def)
  then show ?thesis
    by (simp add: world_ok_def tables_ok_def keys_ok_def tracks_def coherent_def init_world_def cold_def COLD_EPOCH_def)
qed

lemma world_step_ok:
  assumes "world_step id_string ord w w'" and "world_ok w" and ord: "\<And>es. mset (ord es) = mset es"
  shows "world_ok w'"
  using assms(1)
proof cases
  case op_begins
  then show ?thesis using assms(2) by (simp add: world_ok_def)
next
  case (op_runs lt lt')
  have lt: "tables_ok lt" "extends (lt_membership (sw_committed w)) (lt_membership lt)"
    "tracks (sw_snapshot w) (lt_membership (sw_committed w))" using assms(2) op_runs(2) by (simp_all add: world_ok_def)
  then have "coherent (sw_snapshot w) (lt_membership lt)" using tracks_extends[OF lt(3,2)] by (simp add: tracks_def)
  then have "good_step lt lt'" using op_step_good[OF op_runs(3) lt(1) _ ord] by blast
  then show ?thesis using assms(2) lt(2) op_runs(1) extends_trans by (auto simp: world_ok_def good_step_def)
next
  case (op_commits lt)
  then show ?thesis using assms(2) tracks_extends[of _ "lt_membership (sw_committed w)" "lt_membership lt"]
    by (simp add: world_ok_def)
next
  case op_rolls_back
  then show ?thesis using assms(2) by (simp add: world_ok_def)
next
  case (graph_fetched scan)
  then show ?thesis using assms(2) fetched_tracks(2)[of "sw_committed w" scan] by (simp add: world_ok_def)
next
  case (graph_installed data)
  then show ?thesis using assms(2) by (auto simp: world_ok_def install_graph_def Let_def)
qed

lemma reachable_ok:
  assumes "reachable id_string ord w"
  shows "world_ok w"
proof -
  have "(world_step id_string ord)\<^sup>*\<^sup>* init_world w \<Longrightarrow> world_ok w"
    by (induction rule: rtranclp_induct) (use assms world_step_ok init_world_ok in \<open>auto simp: reachable_def\<close>)
  then show ?thesis using assms by (simp add: reachable_def)
qed

lemma reachable_view:
  assumes "reachable id_string ord w" and "lt \<in> views w"
  shows "tables_ok lt" and "keys_ok (lt_membership lt)" and "hierarchy_ok (lt_membership lt)"
    and "tracks (sw_snapshot w) (lt_membership lt)"
    and "gs_epoch (sw_snapshot w) = mt_graph_epoch (lt_membership lt) \<longrightarrow> snapshot_matches (sw_snapshot w) (lt_membership lt)"
proof -
  note ok = reachable_ok[OF assms(1)]
  show t: "tables_ok lt" using ok assms(2) by (auto simp: world_ok_def views_def)
  then show "keys_ok (lt_membership lt)" "hierarchy_ok (lt_membership lt)" by (simp_all add: tables_ok_def)
  show "tracks (sw_snapshot w) (lt_membership lt)"
    using ok assms(2) tracks_extends by (auto simp: world_ok_def views_def)
  then show "gs_epoch (sw_snapshot w) = mt_graph_epoch (lt_membership lt) \<longrightarrow> snapshot_matches (sw_snapshot w) (lt_membership lt)"
    by (simp add: tracks_def coherent_def)
qed

section \<open>Properties\<close>

text \<open>
  C9: Whatever operations run, commit or roll back and however refreshes interleave with them,
  the stored hierarchy stays sound, in the committed tables and in the open operation: any two
  sets are joined by at most one chain of memberships, no chain has more than 16 edges, and an
  account is contained in a set by at most one path. A snapshot never has a later epoch than the
  tables, and one with the same epoch has exactly their edges.
\<close>

theorem hierarchy_stays_sound:
  assumes "reachable id_string ord w" and "lt \<in> views w"
  defines "mt \<equiv> lt_membership lt"
  shows "unique_walks (fetch_set_membership_edges mt) \<and>
    (\<forall>a p b. is_walk (fetch_set_membership_edges mt) a p b \<longrightarrow> length p \<le> 16) \<and>
    unique_account_walks (fetch_set_membership_edges mt) (map to_account_membership (mt_member_accounts mt)) \<and>
    gs_epoch (sw_snapshot w) \<le> mt_graph_epoch mt \<and>
    (gs_epoch (sw_snapshot w) = mt_graph_epoch mt \<longrightarrow>
      (\<forall>s. get_list (map_of (gs_parents (sw_snapshot w))) s = map fst (filter (\<lambda>e. snd e = s) (mt_member_sets mt))))"
proof -
  have "hierarchy_ok mt" using reachable_view(3)[OF assms(1,2)] by (simp add: mt_def)
  moreover have "gs_epoch (sw_snapshot w) \<le> mt_graph_epoch mt" "coherent (sw_snapshot w) mt"
    using reachable_view(4)[OF assms(1,2)] by (simp_all add: mt_def tracks_def)
  ultimately show ?thesis
    by (auto simp: hierarchy_ok_def shallow_def MAX_MEMBERSHIP_DEPTH_def memberships_in_def coherent_def
        snapshot_matches_def parents_in_def)
qed

text \<open>
  C16: Ancestor resolution through the cache is the recursive walk. In every reachable state, for
  the probe of any accounts that include the posted ones, the answer lists for every posted
  account exactly its ancestors in the journal, each once, as the walk does, and the (set,
  currency) pairs that are locked are the same list: for every ancestor that is not eventually
  consistent the currencies of the entries below it, sorted and without duplicates.
\<close>

theorem cached_resolution_is_the_walk:
  fixes j :: journal_id
  assumes "reachable id_string ord w" and "lt \<in> views w" and "fst ` set entry_pairs \<subseteq> set accounts"
  defines "mt \<equiv> lt_membership lt"
  defines "probe \<equiv> probe_direct_memberships mt accounts"
  defines "cached \<equiv> fst (resolve_from_probe (sw_snapshot w) mt j (dmp_epoch probe) (dmp_seeds probe) entry_pairs)"
  defines "walked \<equiv> walk_mappings_and_lock mt j entry_pairs"
  shows "(\<forall>a \<in> fst ` set entry_pairs.
      distinct (get_list (map_of (fst cached)) a) \<and> distinct (get_list (map_of (fst walked)) a) \<and>
      set (get_list (map_of (fst cached)) a) = {s \<in> ancestor_sets mt a. mt_account_sets mt s = Some j} \<and>
      set (get_list (map_of (fst walked)) a) = {s \<in> ancestor_sets mt a. mt_account_sets mt s = Some j}) \<and>
    snd cached = snd walked \<and>
    set (snd walked) = {(s, c). \<exists>a. (a, c) \<in> set entry_pairs \<and> s \<in> ancestor_sets mt a \<and> inline_set mt j s}"
proof -
  have w: "resolves mt j (fst ` set entry_pairs) entry_pairs walked"
    unfolding walked_def by (rule walk_resolves)
  have "dmp_epoch probe = mt_graph_epoch mt" by (simp add: probe_def probe_direct_memberships_def)
  then have "\<exists>A. fst ` set entry_pairs \<subseteq> A \<and> resolves mt j A entry_pairs cached"
    using cached_resolves[OF reachable_view(2,5)[OF assms(1,2), folded mt_def] assms(3), of j]
    by (simp add: cached_def probe_def)
  then obtain A where A: "fst ` set entry_pairs \<subseteq> A" "resolves mt j A entry_pairs cached" by blast
  have same: "set (get_list (map_of (fst cached)) a) = set (get_list (map_of (fst walked)) a)"
    if "a \<in> fst ` set entry_pairs" for a
    using that w A subsetD[OF A(1) that] by (simp add: resolves_def)
  have "snd cached = snd walked"
  proof -
    let ?rows = "\<lambda>r. concat (map (\<lambda>(a, c). map (\<lambda>s. (s, c)) (filter (inline_set mt j) (get_list (map_of (fst r)) a))) entry_pairs)"
    have "x \<in> set (?rows cached) \<longleftrightarrow> x \<in> set (?rows walked)" for x
      unfolding lock_rows using same by (metis fst_conv image_eqI)
    then have "sort_dedup (?rows cached) = sort_dedup (?rows walked)" by (intro sort_dedup_cong set_eqI)
    then show ?thesis using w A(2) by (simp add: resolves_def)
  qed
  moreover have "set (snd walked) = {(s, c). \<exists>a. (a, c) \<in> set entry_pairs \<and> s \<in> ancestor_sets mt a \<and> inline_set mt j s}"
  proof -
    have "x \<in> set (snd walked) \<longleftrightarrow> (\<exists>a. (a, snd x) \<in> set entry_pairs \<and> fst x \<in> ancestor_sets mt a \<and> inline_set mt j (fst x))" for x
      using w unfolding resolves_def by (simp only: set_sort_dedup lock_rows) (force simp: inline_set_def)
    then show ?thesis by auto
  qed
  ultimately show ?thesis using w A by (auto simp: resolves_def)
qed

text \<open>
  C18: The path check of account members returns, and its two implementations agree. In every
  reachable state, for memberships of existing sets, the counting SQL walk ends, the in-memory
  count over the snapshot gives the same answer, and the answer is acceptance exactly when the
  hierarchy with the new memberships in it is sound.
\<close>

theorem cached_path_check_is_the_walk:
  assumes "reachable id_string ord w" and "lt \<in> views w"
    and "\<forall>m \<in> set ms. mt_account_sets (lt_membership lt) (am_account_set_id m) \<noteq> None"
  shows "fst (assert_no_double_membership_in_op (sw_snapshot w) (lt_membership lt) ms) =
      assert_no_double_membership (lt_membership lt) ms \<and>
    assert_no_double_membership (lt_membership lt) ms =
      Some (if unique_account_walks (fetch_set_membership_edges (lt_membership lt))
                 (map to_account_membership (mt_member_accounts (lt_membership lt)) @ ms)
            then Inr () else Inl MemberAlreadyAdded)"
proof -
  let ?mt = "lt_membership lt"
  note view = reachable_view[OF assms(1,2)]
  have "fst (assert_no_double_membership_in_op (sw_snapshot w) ?mt ms) = assert_no_double_membership ?mt ms"
    by (rule member_check[OF view(3,2,5)]) (use assms(3) in blast)
  moreover have "hierarchy_ok (with_accounts ?mt ms) \<longleftrightarrow>
      unique_account_walks (fetch_set_membership_edges ?mt) (map to_account_membership (mt_member_accounts ?mt) @ ms)"
    using view(3) by (simp add: hierarchy_ok_def with_accounts_def memberships_in_def fetch_set_membership_edges_def)
  ultimately show ?thesis using sql_check[OF view(3), of ms] by simp
qed

text \<open>
  C17: Validating the part of the graph that new edges touch validates the whole. In every
  reachable state and for any batch of proposed edges, with a matching snapshot (the affected
  components, found in memory) or without (all edges), and with only the accounts below the
  proposed members loaded, the check returns and accepts exactly when all walks of the whole
  combined graph are unique, none is longer than 16 edges and every account of the ledger keeps
  a single path to each set.
\<close>

theorem set_membership_check_is_global:
  assumes "reachable id_string ord w" and "lt \<in> views w" and "proposed \<noteq> []"
  defines "mt \<equiv> lt_membership lt"
  shows "\<exists>r. fst (assert_valid_set_memberships_in_op ord (sw_snapshot w) mt proposed) = Some r \<and>
    (r = Inr () \<longleftrightarrow>
       unique_walks (fetch_set_membership_edges mt @ proposed) \<and> shallow (fetch_set_membership_edges mt @ proposed) \<and>
       unique_account_walks (fetch_set_membership_edges mt @ proposed) (map to_account_membership (mt_member_accounts mt)))"
proof -
  note view = reachable_view[OF assms(1,2), folded mt_def]
  have ord: "\<And>es. mset (ord es) = mset es" using assms(1) by (simp add: reachable_def)
  have "fetch_set_membership_edges (with_sets mt proposed) = fetch_set_membership_edges mt @ proposed"
    by (simp add: fetch_set_membership_edges_def with_sets_def)
  moreover have "memberships_in (with_sets mt proposed) = map to_account_membership (mt_member_accounts mt)"
    by (simp add: memberships_in_def with_sets_def)
  ultimately show ?thesis
    using set_check[OF view(3,5) ord assms(3)] by (simp add: hierarchy_ok_def)
qed

text \<open>
  C26: A refresh brings resolution back into memory. From any reachable state, a refresh that
  reads the committed graph and installs it ends in a snapshot of the committed epoch, and every
  probe of committed data is then answered from the snapshot and its overlay: no recursive walk
  runs and no further refresh is triggered.
\<close>

theorem refresh_restores_memory_path:
  assumes "reachable id_string ord w" and "sw_fetch w = None"
  shows "\<exists>w'. (world_step id_string ord)\<^sup>*\<^sup>* w w' \<and> sw_committed w' = sw_committed w \<and> sw_op w' = sw_op w \<and>
    gs_epoch (sw_snapshot w') = mt_graph_epoch (lt_membership (sw_committed w)) \<and>
    (let mt = lt_membership (sw_committed w'); snap = sw_snapshot w' in
     \<forall>accounts j pairs.
       let probe = probe_direct_memberships mt accounts;
           ov = load_overlay mt (missing_sets snap (dmp_seeds probe));
           answer = resolve_from_probe snap mt j (dmp_epoch probe) (dmp_seeds probe) pairs
       in \<not> snd answer \<and> (dmp_seeds probe \<noteq> [] \<longrightarrow> expand snap ov j (dmp_seeds probe) pairs = Some (fst answer)))"
proof -
  let ?lt = "sw_committed w"
  let ?mt = "lt_membership ?lt" and ?scan = "map fst (lt_sets ?lt)"
  let ?data = "fetch_set_graph ?scan ?mt"
  let ?w1 = "w \<lparr> sw_fetch := Some ?data \<rparr>"
  let ?w2 = "?w1 \<lparr> sw_snapshot := install_graph (sw_snapshot ?w1) ?data, sw_fetch := None \<rparr>"
  have ok: "tables_ok ?lt" "keys_ok ?mt" using reachable_view(1,2)[OF assms(1), of ?lt] by (simp_all add: views_def)
  have scan: "distinct ?scan" "set ?scan = fst ` set (lt_sets ?lt)" using ok(1) by (simp_all add: tables_ok_def)
  have "world_step id_string ord w ?w1" by (rule graph_fetched[OF assms(2) scan])
  moreover have "world_step id_string ord ?w1 ?w2" by (rule graph_installed) simp
  ultimately have steps: "(world_step id_string ord)\<^sup>*\<^sup>* w ?w2" by (meson converse_rtranclp_into_rtranclp r_into_rtranclp)
  note fetched = fetched_tracks[OF ok(1) scan]
  have "gs_epoch (sw_snapshot w) \<le> mt_graph_epoch ?mt"
    using reachable_view(4)[OF assms(1), of ?lt] by (simp add: views_def tracks_def)
  then have snap: "sw_snapshot ?w2 = snapshot_of ?data"
    using fetched(1) by (simp add: install_graph_def Let_def)
  have "snapshot_matches (snapshot_of ?data) ?mt" using fetched by (simp add: tracks_def coherent_def)
  note expands = expand_resolves[OF ok(2) this]
  show ?thesis
  proof (intro exI[of _ ?w2] conjI)
    show "let mt = lt_membership (sw_committed ?w2); snap = sw_snapshot ?w2 in
     \<forall>accounts j pairs.
       let probe = probe_direct_memberships mt accounts;
           ov = load_overlay mt (missing_sets snap (dmp_seeds probe));
           answer = resolve_from_probe snap mt j (dmp_epoch probe) (dmp_seeds probe) pairs
       in \<not> snd answer \<and> (dmp_seeds probe \<noteq> [] \<longrightarrow> expand snap ov j (dmp_seeds probe) pairs = Some (fst answer))"
      unfolding snap Let_def
    proof (intro allI)
      fix accounts j pairs
      let ?probe = "probe_direct_memberships (lt_membership (sw_committed ?w2)) accounts"
      obtain r where "expand (snapshot_of ?data) (load_overlay ?mt (missing_sets (snapshot_of ?data) (dmp_seeds ?probe))) j
          (dmp_seeds ?probe) pairs = Some r" using expands[of accounts j pairs] by auto
      moreover have "dmp_epoch ?probe = gs_epoch (snapshot_of ?data)"
        using fetched(1) by (simp add: probe_direct_memberships_def)
      ultimately show "\<not> snd (resolve_from_probe (snapshot_of ?data) (lt_membership (sw_committed ?w2)) j (dmp_epoch ?probe) (dmp_seeds ?probe) pairs) \<and>
         (dmp_seeds ?probe \<noteq> [] \<longrightarrow>
          expand (snapshot_of ?data) (load_overlay (lt_membership (sw_committed ?w2)) (missing_sets (snapshot_of ?data) (dmp_seeds ?probe))) j
            (dmp_seeds ?probe) pairs =
          Some (fst (resolve_from_probe (snapshot_of ?data) (lt_membership (sw_committed ?w2)) j (dmp_epoch ?probe) (dmp_seeds ?probe) pairs)))"
        by (simp add: resolve_from_probe_def)
    qed
  qed (use steps snap fetched(1) in simp_all)
qed

section \<open>A sample world\<close>

text \<open>Two sets of one journal, the second a member of the first, and an account created in it.\<close>

definition sample_id_string :: "account_set_id \<Rightarrow> string" where
  "sample_id_string s = (if account_set_uuid s = 1 then ''one'' else ''two'')"

definition sample_set :: "uuid \<Rightarrow> new_account_set" where
  "sample_set u =
     \<lparr> nas_id = AccountSetId u, nas_name = ''set'', nas_external_id = None, nas_journal_id = JournalId 7,
       nas_normal_balance_type = Debit, nas_balance_rollup = Synchronous, nas_description = None, nas_metadata = None \<rparr>"

definition sample_account :: new_account where
  "sample_account =
     \<lparr> na_id = AccountId 9, na_code = ''acc'', na_name = ''account'', na_external_id = None,
       na_normal_balance_type = Debit, na_status = Active, na_eventually_consistent = False,
       na_is_account_set = False, na_velocity_context_values = None, na_description = None,
       na_metadata = None, na_initial_account_set = Some (AccountSetId 2) \<rparr>"

definition sample_history :: "int history_tables" where
  "sample_history = \<lparr> ht_balances = \<lparr> bt_history = [], bt_current = [] \<rparr>, ht_entries = [] \<rparr>"

definition no_tables :: ledger_tables where
  "no_tables = sw_committed init_world"

definition sample_edge :: set_membership where
  "sample_edge = \<lparr> sm_account_set_id = AccountSetId 1, sm_member_account_set_id = AccountSetId 2 \<rparr>"

lemmas create_evals =
  create_all_sets_in_op_def create_accounts_in_op_def create_account_in_op_def insert_accounts_def insert_account_def
  insert_account_sets_def insert_account_set_def set_account_def sample_set_def sample_account_def no_tables_def
  init_world_def initial_membership_pairs_def attach_initial_account_set_in_op_def attach_new_accounts_in_op_def
  new_account_values_def new_account_set_values_def sample_id_string_def account_of_set_def Let_def
  is_eventually_consistent_def account_columns_def

lemma sample_created:
  "\<exists>lt1 e1 lt2 e2. create_all_sets_in_op sample_id_string (lt_membership no_tables)
       (no_tables \<lparr> lt_journals := [JournalId 7] \<rparr>) [sample_set 1, sample_set 2] = Some (Inr (lt1, e1)) \<and>
     create_account_in_op (lt_membership no_tables) lt1 sample_account = Some (Inr (lt2, e2)) \<and>
     (let mt = lt_membership lt2 in mt_member_accounts mt = [(AccountSetId 2, AccountId 9)] \<and> mt_member_sets mt = [] \<and>
       mt_graph_epoch mt = 0 \<and> mt_account_sets mt (AccountSetId 1) = Some (JournalId 7) \<and>
       mt_account_sets mt (AccountSetId 2) = Some (JournalId 7) \<and> mt_accounts mt (AccountId 1) \<noteq> None \<and>
       map_of (lt_sets lt2) (AccountSetId 1) = Some (new_account_set_values (sample_set 1)) \<and>
       map_of (lt_sets lt2) (AccountSetId 2) = Some (new_account_set_values (sample_set 2)))"
  by (simp add: create_evals)

definition nested :: "membership_tables \<Rightarrow> bool" where
  "nested mt \<longleftrightarrow> mt_member_accounts mt = [(AccountSetId 2, AccountId 9)] \<and>
     mt_member_sets mt = [(AccountSetId 1, AccountSetId 2)] \<and> mt_graph_epoch mt = 1 \<and>
     mt_account_sets mt (AccountSetId 1) = Some (JournalId 7) \<and> mt_account_sets mt (AccountSetId 2) = Some (JournalId 7)"

lemma add_sample_edge:
  assumes ok: "tables_ok lt" and co: "coherent snap (lt_membership lt)"
    and rows: "mt_member_accounts (lt_membership lt) = [(AccountSetId 2, AccountId 9)]" "mt_member_sets (lt_membership lt) = []"
      "mt_graph_epoch (lt_membership lt) = 0"
    and sets: "map_of (lt_sets lt) (AccountSetId 1) = Some (new_account_set_values (sample_set 1))"
      "map_of (lt_sets lt) (AccountSetId 2) = Some (new_account_set_values (sample_set 2))"
  shows "\<exists>lt' e. add_member_sets_in_op (\<lambda>es. es) sample_history snap lt [(AccountSetId 1, AccountSetId 2)] = Some (Inr (lt', e)) \<and>
    nested (lt_membership lt')"
proof -
  let ?mt = "lt_membership lt"
  have exist: "mt_account_sets ?mt (AccountSetId 1) = Some (JournalId 7)" "mt_account_sets ?mt (AccountSetId 2) = Some (JournalId 7)"
    using ok sets by (simp_all add: tables_ok_def new_account_set_values_def sample_set_def)
  have "{(AccountSetId 1, AccountSetId 2)} ^^ 17 = {}"
    by (auto simp: numeral_eq_Suc relcomp_unfold)
  moreover have "acyclic {(AccountSetId 1, AccountSetId 2)}"
    by (rule acyclic_insert[THEN iffD2]) (simp add: acyclic_def)
  ultimately have "hierarchy_ok (with_sets ?mt [sample_edge])"
    by (simp add: hierarchy_rel with_sets_def rows sound_rel_def no_diamond_def sound_members_def memberships_in_def
        set_pairs_def sample_edge_def)
  moreover have "hierarchy_ok ?mt" using ok by (simp add: tables_ok_def)
  ultimately have "fst (assert_valid_set_memberships_in_op (\<lambda>es. es) snap ?mt [sample_edge]) = Some (Inr ())"
    using set_check[of ?mt snap "\<lambda>es. es" "[sample_edge]"] co by (auto simp: coherent_def)
  then have run: "add_set_members (\<lambda>es. es) snap lt [sample_edge] =
      Some (Inr (lt \<lparr> lt_membership := with_sets ?mt [sample_edge] \<rparr>,
        [Membership (AccountSetMemberCreated (AccountSetId 1) (MemberSet (AccountSetId 2)))]))"
    by (simp add: add_set_members_def insert_member_sets_def rows exist sample_edge_def with_sets_def set_pairs_def write_membership_def)
  have check: "rmap_list (check_edge lt) [sample_edge] = Inr [(JournalId 7, AccountId 2)]"
    using sets by (simp add: check_edge_def find_set_def sample_edge_def new_account_set_values_def sample_set_def account_of_set_def)
  have to: "map to_set_membership [(AccountSetId 1, AccountSetId 2)] = [sample_edge]"
    by (simp add: to_set_membership_def sample_edge_def)
  have hist: "history_error sample_history [(JournalId 7, AccountId 2)] ms = Some (Inr ())" for ms
    by (simp add: history_error_def members_with_balance_history_in_op_def sample_history_def)
  have "add_member_sets_in_op (\<lambda>es. es) sample_history snap lt [(AccountSetId 1, AccountSetId 2)] =
      add_set_members (\<lambda>es. es) snap lt [sample_edge]"
    unfolding add_member_sets_in_op_def Let_def to check pbind_simps hist by simp
  then show ?thesis
    using run by (simp add: nested_def with_sets_def rows exist set_pairs_def sample_edge_def)
qed

lemma op_from_init:
  assumes "(world_step id_string ord)\<^sup>*\<^sup>* init_world (init_world \<lparr> sw_op := Some lt \<rparr>)"
    and "op_step id_string ord (lt_membership no_tables) cold lt lt'"
  shows "(world_step id_string ord)\<^sup>*\<^sup>* init_world (init_world \<lparr> sw_op := Some lt' \<rparr>)"
proof -
  have "world_step id_string ord (init_world \<lparr> sw_op := Some lt \<rparr>) (init_world \<lparr> sw_op := Some lt \<rparr> \<lparr> sw_op := Some lt' \<rparr>)"
    by (rule op_runs) (use assms(2) in \<open>simp_all add: no_tables_def init_world_def\<close>)
  then show ?thesis using assms(1) by (simp add: rtranclp.rtrancl_into_rtrancl)
qed

lemma sample_world:
  "\<exists>w. reachable sample_id_string (\<lambda>es. es) w \<and> sw_fetch w = None \<and> nested (lt_membership (sw_committed w)) \<and>
     gs_epoch (sw_snapshot w) = 1"
proof -
  let ?step = "world_step sample_id_string (\<lambda>es. es)"
  obtain lt1 e1 lt2 e2 where
    1: "create_all_sets_in_op sample_id_string (lt_membership no_tables)
       (no_tables \<lparr> lt_journals := [JournalId 7] \<rparr>) [sample_set 1, sample_set 2] = Some (Inr (lt1, e1))" and
    2: "create_account_in_op (lt_membership no_tables) lt1 sample_account = Some (Inr (lt2, e2))" and
    rows: "mt_member_accounts (lt_membership lt2) = [(AccountSetId 2, AccountId 9)]" "mt_member_sets (lt_membership lt2) = []"
      "mt_graph_epoch (lt_membership lt2) = 0"
      "map_of (lt_sets lt2) (AccountSetId 1) = Some (new_account_set_values (sample_set 1))"
      "map_of (lt_sets lt2) (AccountSetId 2) = Some (new_account_set_values (sample_set 2))"
    using sample_created unfolding Let_def by blast
  let ?w = "\<lambda>lt. init_world \<lparr> sw_op := Some lt \<rparr>"
  note run = op_from_init[where id_string = sample_id_string and ord = "\<lambda>es. es"]
  have "?step init_world (?w no_tables)"
    unfolding no_tables_def by (rule op_begins) (simp add: init_world_def)
  then have "?step\<^sup>*\<^sup>* init_world (?w no_tables)" by simp
  from run[OF this op_step.journal_created[of _ _ _ _ _ "JournalId 7"]]
  have "?step\<^sup>*\<^sup>* init_world (?w (no_tables \<lparr> lt_journals := [JournalId 7] \<rparr>))" by (simp add: no_tables_def init_world_def)
  from run[OF this op_step.sets_created[OF 1]] have "?step\<^sup>*\<^sup>* init_world (?w lt1)" .
  from run[OF this op_step.account_created[OF 2]] have at2: "?step\<^sup>*\<^sup>* init_world (?w lt2)" .
  then have "reachable sample_id_string (\<lambda>es. es) (?w lt2)" by (simp add: reachable_def)
  from reachable_view[OF this, of lt2] have ok2: "tables_ok lt2" "coherent cold (lt_membership lt2)"
    by (simp_all add: views_def tracks_def init_world_def)
  from add_sample_edge[OF ok2 rows] obtain lt3 e3 where
    3: "add_member_sets_in_op (\<lambda>es. es) sample_history cold lt2 [(AccountSetId 1, AccountSetId 2)] = Some (Inr (lt3, e3))"
    and nested: "nested (lt_membership lt3)" by blast
  from run[OF at2 op_step.member_sets_added[OF 3]] have "?step\<^sup>*\<^sup>* init_world (?w lt3)" .
  moreover have "?step (?w lt3) (?w lt3 \<lparr> sw_committed := lt3, sw_op := None \<rparr>)" by (rule op_commits) simp
  ultimately have at: "?step\<^sup>*\<^sup>* init_world (?w lt3 \<lparr> sw_committed := lt3, sw_op := None \<rparr>)" (is "?step\<^sup>*\<^sup>* init_world ?c") by simp
  then have "tables_ok lt3" using reachable_view(1)[of sample_id_string "\<lambda>es. es" ?c lt3] by (simp add: reachable_def views_def)
  then have scan: "distinct (map fst (lt_sets lt3))" by (simp add: tables_ok_def)
  let ?data = "fetch_set_graph (map fst (lt_sets lt3)) (lt_membership lt3)"
  have "?step ?c (?c \<lparr> sw_fetch := Some (fetch_set_graph (map fst (lt_sets lt3)) (lt_membership (sw_committed ?c))) \<rparr>)"
    by (rule graph_fetched) (simp_all add: init_world_def scan)
  moreover have "?step (?c \<lparr> sw_fetch := Some ?data \<rparr>)
      (?c \<lparr> sw_fetch := Some ?data, sw_snapshot := install_graph (sw_snapshot (?c \<lparr> sw_fetch := Some ?data \<rparr>)) ?data, sw_fetch := None \<rparr>)"
    by (rule graph_installed) simp
  ultimately have "?step\<^sup>*\<^sup>* init_world (?c \<lparr> sw_fetch := None, sw_snapshot := install_graph cold ?data \<rparr>)"
    using at by (simp add: init_world_def)
  moreover have "gs_epoch (install_graph cold ?data) = 1"
    using nested by (simp add: install_graph_def snapshot_of_def fetch_set_graph_def cold_def COLD_EPOCH_def nested_def Let_def)
  ultimately show ?thesis using nested by (intro exI) (auto simp: reachable_def)
qed

lemma nested_ancestors:
  assumes "nested mt"
  shows "{s \<in> ancestor_sets mt (AccountId 9). mt_account_sets mt s = Some (JournalId 7)} = {AccountSetId 1, AccountSetId 2}"
proof -
  let ?R = "{(AccountSetId 1, AccountSetId 2)}"
  have "up ?R (AccountSetId 1) = {AccountSetId 1}" unfolding up_unfold[of ?R "AccountSetId 1"] by simp
  then have "up ?R (AccountSetId 2) = {AccountSetId 1, AccountSetId 2}" unfolding up_unfold[of ?R "AccountSetId 2"] by auto
  then show ?thesis using assms by (auto simp: ancestor_sets_up nested_def)
qed

lemma hierarchy_stays_sound_witness:
  "\<exists>w. reachable sample_id_string (\<lambda>es. es) w \<and> nested (lt_membership (sw_committed w)) \<and>
     unique_walks (fetch_set_membership_edges (lt_membership (sw_committed w)))"
proof -
  obtain w where "reachable sample_id_string (\<lambda>es. es) w" "nested (lt_membership (sw_committed w))"
    using sample_world by blast
  moreover then have "unique_walks (fetch_set_membership_edges (lt_membership (sw_committed w)))"
    using hierarchy_stays_sound[of sample_id_string "\<lambda>es. es" w "sw_committed w"] by (simp add: views_def)
  ultimately show ?thesis by blast
qed

lemma cached_resolution_is_the_walk_witness:
  "\<exists>w :: set_world. nested (lt_membership (sw_committed w)) \<and>
     (let mt = lt_membership (sw_committed w); probe = probe_direct_memberships mt [AccountId 9];
          cached = fst (resolve_from_probe (sw_snapshot w) mt (JournalId 7) (dmp_epoch probe) (dmp_seeds probe) [(AccountId 9, USD)])
      in set (get_list (map_of (fst cached)) (AccountId 9)) = {AccountSetId 1, AccountSetId 2} \<and>
         snd cached = snd (walk_mappings_and_lock mt (JournalId 7) [(AccountId 9, USD)]))"
proof -
  obtain w where w: "reachable sample_id_string (\<lambda>es. es) w" "nested (lt_membership (sw_committed w))"
    using sample_world by blast
  let ?mt = "lt_membership (sw_committed w)"
  let ?probe = "probe_direct_memberships ?mt [AccountId 9]"
  let ?cached = "fst (resolve_from_probe (sw_snapshot w) ?mt (JournalId 7) (dmp_epoch ?probe) (dmp_seeds ?probe) [(AccountId 9, USD)])"
  note both = cached_resolution_is_the_walk[OF w(1), of "sw_committed w" "[(AccountId 9, USD)]" "[AccountId 9]" "JournalId 7"]
  have view: "sw_committed w \<in> views w" "fst ` set [(AccountId 9, USD)] \<subseteq> set [AccountId 9]" by (simp_all add: views_def)
  note both = both[OF view]
  have "set (get_list (map_of (fst ?cached)) (AccountId 9)) = {s \<in> ancestor_sets ?mt (AccountId 9). mt_account_sets ?mt s = Some (JournalId 7)}"
    using both by simp
  then have "set (get_list (map_of (fst ?cached)) (AccountId 9)) = {AccountSetId 1, AccountSetId 2}"
    unfolding nested_ancestors[OF w(2)] .
  moreover have "snd ?cached = snd (walk_mappings_and_lock ?mt (JournalId 7) [(AccountId 9, USD)])"
    using both by blast
  ultimately show ?thesis using w(2) unfolding Let_def by blast
qed

lemma cached_path_check_is_the_walk_witness:
  "\<exists>w :: set_world. nested (lt_membership (sw_committed w)) \<and>
     fst (assert_no_double_membership_in_op (sw_snapshot w) (lt_membership (sw_committed w))
       [\<lparr> am_account_set_id = AccountSetId 1, am_account_id = AccountId 9 \<rparr>]) =
     assert_no_double_membership (lt_membership (sw_committed w))
       [\<lparr> am_account_set_id = AccountSetId 1, am_account_id = AccountId 9 \<rparr>]"
proof -
  obtain w where w: "reachable sample_id_string (\<lambda>es. es) w" "nested (lt_membership (sw_committed w))"
    using sample_world by blast
  have "sw_committed w \<in> views w" by (simp add: views_def)
  from cached_path_check_is_the_walk[OF w(1) this, of "[\<lparr> am_account_set_id = AccountSetId 1, am_account_id = AccountId 9 \<rparr>]"]
  show ?thesis using w(2) by (intro exI[of _ w]) (simp add: nested_def)
qed

lemma set_membership_check_is_global_witness:
  "\<exists>(w :: set_world) r. nested (lt_membership (sw_committed w)) \<and>
     fst (assert_valid_set_memberships_in_op (\<lambda>es. es) (sw_snapshot w) (lt_membership (sw_committed w)) [sample_edge]) = Some r \<and>
     r \<noteq> Inr ()"
proof -
  obtain w where w: "reachable sample_id_string (\<lambda>es. es) w" "nested (lt_membership (sw_committed w))"
    using sample_world by blast
  let ?es = "fetch_set_membership_edges (lt_membership (sw_committed w)) @ [sample_edge]"
  have "?es = [sample_edge, sample_edge]"
    using w(2) by (simp add: fetch_set_membership_edges_def nested_def to_set_membership_def sample_edge_def)
  then have "\<not> (unique_walks ?es \<and> shallow ?es)" unfolding sound_rel_lists by simp
  have "sw_committed w \<in> views w" by (simp add: views_def)
  note check = set_membership_check_is_global[OF w(1) this, of "[sample_edge]"]
  show ?thesis by (rule exI[of _ w]) (use check w(2) \<open>\<not> (unique_walks ?es \<and> shallow ?es)\<close> in auto)
qed

lemma refresh_restores_memory_path_witness:
  "\<exists>(w :: set_world) w'. nested (lt_membership (sw_committed w)) \<and> (world_step sample_id_string (\<lambda>es. es))\<^sup>*\<^sup>* w w' \<and>
     gs_epoch (sw_snapshot w') = 1"
proof -
  obtain w where w: "reachable sample_id_string (\<lambda>es. es) w" "sw_fetch w = None" "nested (lt_membership (sw_committed w))"
    using sample_world by blast
  then show ?thesis using refresh_restores_memory_path[OF w(1,2)] by (auto simp: nested_def)
qed

end
