(* ===== verification/Set_Flags.thy ===== *)
theory Set_Flags imports Set_World_Theorems begin

text \<open>
  The account behind an account set is flagged as such in every reachable state: creation is the
  only operation that writes the flag, and it writes it before the set exists.
\<close>

definition sets_flagged :: "membership_tables \<Rightarrow> bool" where
  "sets_flagged mt \<longleftrightarrow> (\<forall>s. mt_account_sets mt s \<noteq> None \<longrightarrow>
     (\<exists>r. mt_accounts mt (account_of_set s) = Some r \<and> ac_is_account_set r))"

definition keeps_flags :: "ledger_tables \<Rightarrow> ledger_tables \<Rightarrow> bool" where
  "keeps_flags lt lt' \<longleftrightarrow> (\<forall>a r. mt_accounts (lt_membership lt) a = Some r \<longrightarrow>
     (\<exists>r'. mt_accounts (lt_membership lt') a = Some r' \<and> ac_is_account_set r' = ac_is_account_set r))"

definition keeps_sets :: "ledger_tables \<Rightarrow> ledger_tables \<Rightarrow> bool" where
  "keeps_sets lt lt' \<longleftrightarrow> keeps_flags lt lt' \<and>
     mt_account_sets (lt_membership lt') = mt_account_sets (lt_membership lt)"

lemma keeps_refl [simp]: "keeps_flags lt lt" "keeps_sets lt lt"
  by (simp_all add: keeps_flags_def keeps_sets_def)

lemma keeps_sets_flagged:
  "keeps_sets lt lt' \<Longrightarrow> sets_flagged (lt_membership lt) \<Longrightarrow> sets_flagged (lt_membership lt')"
  unfolding keeps_sets_def keeps_flags_def sets_flagged_def by metis

lemma insert_account_keeps:
  assumes "tables_ok lt" and "insert_account lt n = Inr (lt', events)"
  shows "keeps_sets lt lt' \<and> mt_accounts (lt_membership lt') (na_id n) = Some (account_columns (new_account_values n))"
proof -
  have v: "av_id (new_account_values n) = na_id n" by (simp add: new_account_values_def)
  have ins: "map_of (lt_accounts lt) (na_id n) = None"
    "lt_membership lt' = (lt_membership lt) \<lparr> mt_accounts :=
       (mt_accounts (lt_membership lt))(na_id n \<mapsto> account_columns (new_account_values n)) \<rparr>"
    using assms(2) by (auto simp: insert_account_def Let_def v split: if_splits)
  then have "mt_accounts (lt_membership lt) (na_id n) = None" using accounts_agree[OF assms(1)] by blast
  then show ?thesis by (auto simp: ins(2) keeps_sets_def keeps_flags_def)
qed

lemma insert_accounts_keeps:
  assumes "tables_ok lt" and "insert_accounts lt ns = Inr (lt', events)"
  shows "keeps_sets lt lt' \<and>
    (\<forall>n \<in> set ns. \<exists>r. mt_accounts (lt_membership lt') (na_id n) = Some r \<and> ac_is_account_set r = na_is_account_set n)"
proof -
  let ?f = "\<lambda>(lt, events) n. rmap (\<lambda>(lt', more). (lt', events @ more)) (insert_account lt n)"
  have "rfold ?f (lt, e0) ns = Inr (lt', events) \<Longrightarrow> ?thesis" for e0
    using assms(1)
  proof (induction ns arbitrary: lt e0)
    case (Cons n ns)
    from Cons.prems(1) obtain lt1 e1 where one: "insert_account lt n = Inr (lt1, e1)"
      and rest: "rfold ?f (lt1, e0 @ e1) ns = Inr (lt', events)"
      by (auto simp: rbind_Inr_iff rmap_Inr_iff split: prod.splits)
    have "tables_ok lt1" using insert_account_good[OF Cons.prems(2) one] by (simp add: good_step_def)
    note others = Cons.IH[OF rest this] and first = insert_account_keeps[OF Cons.prems(2) one]
    have "ac_is_account_set (account_columns (new_account_values n)) = na_is_account_set n"
      by (simp add: account_columns_def new_account_values_def)
    then have "\<exists>r. mt_accounts (lt_membership lt') (na_id n) = Some r \<and> ac_is_account_set r = na_is_account_set n"
      using first others unfolding keeps_sets_def keeps_flags_def by metis
    moreover have "keeps_sets lt lt'" using first others unfolding keeps_sets_def keeps_flags_def by metis
    ultimately show ?case using others by simp
  qed simp
  then show ?thesis using assms(2) by (simp add: insert_accounts_def)
qed

lemma attach_keeps:
  assumes "attach_initial_account_set_in_op committed lt pairs = Some (Inr (lt', events))"
  shows "keeps_sets lt lt' \<and> mt_accounts (lt_membership lt') = mt_accounts (lt_membership lt)"
  using assms by (auto simp: attach_initial_account_set_in_op_def attach_new_accounts_in_op_def Let_def keeps_sets_def
      keeps_flags_def split: sum.splits account_set_member_error.splits list.splits if_splits)

lemma create_accounts_keeps:
  assumes "tables_ok lt" and "create_accounts_in_op committed lt ns = Some (Inr (lt', events))"
  shows "keeps_sets lt lt' \<and>
    (\<forall>n \<in> set ns. \<exists>r. mt_accounts (lt_membership lt') (na_id n) = Some r \<and> ac_is_account_set r = na_is_account_set n)"
proof -
  from assms(2) obtain lt1 e1 e2 where one: "insert_accounts lt ns = Inr (lt1, e1)"
    and two: "attach_initial_account_set_in_op committed lt1 (initial_membership_pairs ns) = Some (Inr (lt', e2))"
    by (auto simp: create_accounts_in_op_def Let_def pbind_Inr_iff split: prod.splits)
  show ?thesis using insert_accounts_keeps[OF assms(1) one] attach_keeps[OF two] by (auto simp: keeps_sets_def keeps_flags_def)
qed

lemma create_account_keeps:
  assumes "tables_ok lt" and "create_account_in_op committed lt n = Some (Inr (lt', events))"
  shows "keeps_sets lt lt' \<and> (\<exists>r. mt_accounts (lt_membership lt') (na_id n) = Some r \<and> ac_is_account_set r = na_is_account_set n)"
proof -
  have "create_accounts_in_op committed lt [n] = Some (Inr (lt', events))"
    using assms(2) by (auto simp: create_account_in_op_def create_accounts_in_op_def insert_accounts_def Let_def
        pbind_Inr_iff rmap_Inr_iff split: prod.splits)
  then show ?thesis using create_accounts_keeps[OF assms(1)] by fastforce
qed

lemma persist_account_keeps: "persist_account_in_op lt v changes = Inr (lt', events) \<Longrightarrow> keeps_sets lt lt'"
  by (auto simp: persist_account_in_op_def update_account_def Let_def keeps_sets_def keeps_flags_def split: if_splits)

lemma set_status_keeps: "set_status_in_op s lt a = Inr (lt', events) \<Longrightarrow> keeps_sets lt lt'"
  by (auto simp: set_status_in_op_def rbind_Inr_iff case_prod_unfold Let_def intro: persist_account_keeps split: if_splits)

lemma insert_set_flagged:
  assumes "insert_account_set lt n = Inr (lt', events)" and "sets_flagged (lt_membership lt)"
    and "mt_accounts (lt_membership lt) (account_of_set (nas_id n)) = Some r" and "ac_is_account_set r"
  shows "sets_flagged (lt_membership lt') \<and> mt_accounts (lt_membership lt') = mt_accounts (lt_membership lt)"
  using assms by (auto simp: insert_account_set_def Let_def sets_flagged_def new_account_set_values_def split: if_splits)

lemma insert_sets_flagged:
  assumes "insert_account_sets lt ns = Inr (lt', events)" and "sets_flagged (lt_membership lt)"
    and "\<And>n. n \<in> set ns \<Longrightarrow> \<exists>r. mt_accounts (lt_membership lt) (account_of_set (nas_id n)) = Some r \<and> ac_is_account_set r"
  shows "sets_flagged (lt_membership lt')"
proof -
  let ?f = "\<lambda>(lt, events) n. rmap (\<lambda>(lt', more). (lt', events @ more)) (insert_account_set lt n)"
  have "rfold ?f (lt, e0) ns = Inr (lt', events) \<Longrightarrow> sets_flagged (lt_membership lt')" for e0
    using assms(2,3)
  proof (induction ns arbitrary: lt e0)
    case (Cons n ns)
    from Cons.prems(1) obtain lt1 e1 where one: "insert_account_set lt n = Inr (lt1, e1)"
      and rest: "rfold ?f (lt1, e0 @ e1) ns = Inr (lt', events)"
      by (auto simp: rbind_Inr_iff rmap_Inr_iff split: prod.splits)
    obtain r where "mt_accounts (lt_membership lt) (account_of_set (nas_id n)) = Some r" "ac_is_account_set r"
      using Cons.prems(3)[of n] by auto
    note first = insert_set_flagged[OF one Cons.prems(2) this]
    show ?case by (rule Cons.IH[OF rest]) (use first Cons.prems(3) in auto)
  qed simp
  then show ?thesis using assms(1) by (simp add: insert_account_sets_def)
qed

lemma persist_set_keeps: "persist_set_in_op lt w changes = Inr (lt', events) \<Longrightarrow> keeps_sets lt lt'"
  by (auto simp: persist_set_in_op_def update_velocity_context_values_in_op_def Let_def keeps_sets_def keeps_flags_def
      split: if_splits)

lemma add_account_members_keeps: "add_account_members snap lt ms = Some (Inr (lt', events)) \<Longrightarrow> keeps_sets lt lt'"
  by (auto simp: add_account_members_def add_in_op_def write_membership_def pbind_Inr_iff rmap_Inr_iff Let_def
      keeps_sets_def keeps_flags_def split: if_splits)

lemma add_set_members_keeps: "add_set_members ord snap lt edges = Some (Inr (lt', events)) \<Longrightarrow> keeps_sets lt lt'"
  by (auto simp: add_set_members_def insert_member_sets_def write_membership_def pbind_Inr_iff rmap_Inr_iff Let_def
      keeps_sets_def keeps_flags_def split: if_splits)

lemma remove_member_keeps: "remove_member_in_op ht lt s member = Inr (lt', events) \<Longrightarrow> keeps_sets lt lt'"
  by (auto simp: remove_member_in_op_def rbind_Inr_iff write_membership_def remove_in_op_def remove_member_set_def
      keeps_sets_def keeps_flags_def split: account_set_member_id.splits)

lemma op_step_flagged:
  assumes "op_step id_string ord committed snap lt lt'" and "tables_ok lt" and flagged: "sets_flagged (lt_membership lt)"
  shows "sets_flagged (lt_membership lt')"
  using assms(1)
proof cases
  case (set_created m events)
  then obtain lt1 e1 where one: "create_account_in_op committed lt (set_account id_string m) = Some (Inr (lt1, e1))"
    and two: "insert_account_set lt1 m = Inr (lt', events)"
    by (auto simp: create_set_in_op_def pbind_Inr_iff map_err_Inr_iff split: prod.splits)
  note new = create_account_keeps[OF assms(2) one]
  then show ?thesis using insert_set_flagged[OF two] keeps_sets_flagged[OF _ flagged] by (auto simp: set_account_def)
next
  case (sets_created ms events)
  then obtain lt1 e1 where one: "create_accounts_in_op committed lt (map (set_account id_string) ms) = Some (Inr (lt1, e1))"
    and two: "insert_account_sets lt1 ms = Inr (lt', events)"
    by (auto simp: create_all_sets_in_op_def pbind_Inr_iff map_err_Inr_iff split: prod.splits)
  note new = create_accounts_keeps[OF assms(2) one]
  show ?thesis by (rule insert_sets_flagged[OF two]) (use new keeps_sets_flagged[OF _ flagged] in \<open>auto simp: set_account_def\<close>)
next
  case (members_added ht new events)
  then have "keeps_sets lt lt'"
    by (auto simp: add_members_in_op_def pbind_Inr_iff intro: add_account_members_keeps split: if_splits)
  then show ?thesis by (rule keeps_sets_flagged[OF _ flagged])
next
  case (member_sets_added ht pairs events)
  then have "keeps_sets lt lt'"
    by (auto simp: add_member_sets_in_op_def pbind_Inr_iff Let_def intro: add_set_members_keeps split: if_splits)
  then show ?thesis by (rule keeps_sets_flagged[OF _ flagged])
next
  case (member_added ht s member events)
  then have "keeps_sets lt lt'"
    by (cases member) (auto simp: add_member_in_op_def pbind_Inr_iff intro: add_account_members_keeps add_set_members_keeps)
  then show ?thesis by (rule keeps_sets_flagged[OF _ flagged])
qed (use assms(2) flagged in \<open>auto intro: keeps_sets_flagged dest: create_account_keeps create_accounts_keeps
      persist_account_keeps set_status_keeps persist_set_keeps remove_member_keeps\<close>)

lemma reachable_flagged:
  assumes "reachable id_string ord w" and "lt \<in> views w"
  shows "sets_flagged (lt_membership lt)"
proof -
  have ord: "\<And>es. mset (ord es) = mset es" and steps: "(world_step id_string ord)\<^sup>*\<^sup>* init_world w"
    using assms(1) by (simp_all add: reachable_def)
  from steps have "world_ok w \<and> (\<forall>lt \<in> views w. sets_flagged (lt_membership lt))"
  proof (induction rule: rtranclp_induct)
    case base
    then show ?case using init_world_ok by (simp add: views_def init_world_def sets_flagged_def)
  next
    case (step w w')
    then have ok: "world_ok w" "\<And>lt. lt \<in> views w \<Longrightarrow> tables_ok lt"
      by (auto simp: world_ok_def views_def)
    have "world_ok w'" using world_step_ok[OF step(2) ok(1) ord] .
    moreover have "\<forall>lt \<in> views w'. sets_flagged (lt_membership lt)"
      using step(2) step.IH ok(2) op_step_flagged by cases (auto simp: views_def)
    ultimately show ?case by blast
  qed
  then show ?thesis using assms(2) by blast
qed

end
