(* ===== verification/Posting_Books.thy ===== *)
theory Posting_Books imports Posting_Correct Set_Flags begin

text \<open>
  The posting flow as one operation on the ledger: what a successful call has done, and the
  properties of the flow. A posted batch appends to every balance the chain of its entries that
  reach the account, and keeps the books balanced; a rejection names the first posting at fault;
  the fence is bounded and taken in one order.
\<close>

section \<open>A successful call\<close>

definition posting_time :: "'d posting_env \<Rightarrow> date_time" where
  "posting_time env = (case pn_manual_now env of Some t \<Rightarrow> t | None \<Rightarrow> pn_transaction_now env)"

definition accounts_of :: "'d prepared_transaction list \<Rightarrow> account_id list" where
  "accounts_of prepared = sort_dedup (concat (map (map ne_account_id \<circ> pt_entries) prepared))"

definition read_for :: "'d ledger_db \<Rightarrow> 'd prepared_transaction list \<Rightarrow> 'd posting_state" where
  "read_for db prepared =
     read_posting_state db (accounts_of prepared) (journals_of prepared) (entry_balance_keys prepared)"

definition postings_of :: "'d posting_env \<Rightarrow> 'd prepared_transaction list \<Rightarrow> 'd posting list" where
  "postings_of env prepared =
     map (\<lambda>p. posting_of (into_new_transaction (pn_lib env) p (posting_time env))) prepared"

lemma lock_now: "lo_now (fst (lock_balances_and_probe_templates db keys codes m t)) = (case m of Some n \<Rightarrow> n | None \<Rightarrow> t)"
  by (simp add: lock_balances_and_probe_templates_def)

lemma lock_locks: "snd (lock_balances_and_probe_templates db keys codes m t) = fence_locks (db_membership db) keys"
  by (simp add: lock_balances_and_probe_templates_def)

lemma fence_Inr:
  assumes "fence env db cache batch codes used p0 = (cache', Some (Inr fn))"
    and "prepare_all env 0 batch used = Some (Inr p0)"
  shows "(\<exists>k ts. prepare_all env k batch ts = Some (Inr (fn_prepared fn))) \<and>
    fn_keys fn = entry_balance_keys (fn_prepared fn) \<and> fn_now fn = posting_time env \<and>
    set (fence_locks (db_membership db) (fn_keys fn)) \<subseteq> set (fn_locks fn)"
  using assms by (auto simp: fence_def Let_def posting_time_def case_prod_unfold lock_now lock_locks pbind_Inr_iff
      split: if_splits sum.splits) blast+

lemma apply_fenced_Inr:
  fixes env :: "'d::linordered_ab_group_add posting_env" and fn :: "'d fenced"
  assumes "apply_fenced env snapshot db batch fn = Some (Inr p)"
    and "fn_keys fn = entry_balance_keys (fn_prepared fn)" and "fn_now fn = posting_time env"
  defines "ps \<equiv> postings_of env (fn_prepared fn)" and "now \<equiv> posting_time env"
  shows "\<exists>mappings read locks vel db1. validate batch (fn_prepared fn) (read_for db (fn_prepared fn)) = Inr () \<and>
    resolve_ancestors env snapshot db (fn_prepared fn) (read_for db (fn_prepared fn)) = Inr (mappings, read, locks) \<and>
    enforce_batch_in_op (pn_velocity env) (db_velocity db) now ps (ps_controls read) mappings = Some (Inr vel) \<and>
    insert_postings_and_balances (db \<lparr> db_velocity := vel \<rparr>) (stage no_rows ps) (fold_balances ps read mappings now) = Inr db1 \<and>
    update_effective_balances env db1 ps read mappings now = Some (Inr (pd_db p)) \<and>
    pd_events p = posting_payloads ps \<and> pd_locks p = fn_locks fn @ locks \<and>
    pd_transactions p = map hydrated_of (map (\<lambda>q. into_new_transaction (pn_lib env) q now) (fn_prepared fn))"
proof -
  have "map (posting_of \<circ> (\<lambda>q. into_new_transaction (pn_lib env) q now)) (fn_prepared fn) = ps"
    by (simp add: ps_def postings_of_def now_def)
  then show ?thesis using assms(1)
    by (auto simp: apply_fenced_def Let_def pbind_Inr_iff push_postings_total assms(2,3) map_err_Inr_iff
        read_for_def[symmetric, unfolded accounts_of_def] now_def[symmetric])
qed

lemma post_all_Inr:
  fixes env :: "'d::linordered_ab_group_add posting_env"
  assumes "post_all_in_op env snapshot cache db batch = (cache', Some (Inr p))" and "batch \<noteq> []"
  obtains prepared k ts fn where "prepare_all env k batch ts = Some (Inr prepared)" and "fn_prepared fn = prepared"
    and "fn_keys fn = entry_balance_keys (fn_prepared fn)" and "fn_now fn = posting_time env"
    and "set (fence_locks (db_membership db) (fn_keys fn)) \<subseteq> set (fn_locks fn)"
    and "apply_fenced env snapshot db batch fn = Some (Inr p)"
proof -
  from assms obtain used c1 p0 c2 fn where p0: "prepare_all env 0 batch used = Some (Inr p0)"
    and fence: "fence env db c1 batch (sort_dedup (map pi_tx_template_code batch)) used p0 = (c2, Some (Inr fn))"
    and run: "apply_fenced env snapshot db batch fn = Some (Inr p)"
    by (auto simp: post_all_in_op_def Let_def case_prod_unfold pbind_Inr_iff prod_eq_iff
        split: sum.splits option.splits)
  from fence_Inr[OF fence p0] obtain k ts where "prepare_all env k batch ts = Some (Inr (fn_prepared fn))"
    "fn_keys fn = entry_balance_keys (fn_prepared fn)" "fn_now fn = posting_time env"
    "set (fence_locks (db_membership db) (fn_keys fn)) \<subseteq> set (fn_locks fn)" by blast
  with run show ?thesis using that by blast
qed

text \<open>The stages of a successful call on a batch that is not empty.\<close>

lemma post_all_run:
  fixes env :: "'d::linordered_ab_group_add posting_env"
  assumes "post_all_in_op env snapshot cache db batch = (cache', Some (Inr p))" and "batch \<noteq> []"
  obtains prepared k ts mappings read locks vel db1 rows where
    "prepare_all env k batch ts = Some (Inr prepared)"
    and "validate batch prepared (read_for db prepared) = Inr ()"
    and "resolve_ancestors env snapshot db prepared (read_for db prepared) = Inr (mappings, read, locks)"
    and "insert_postings_and_balances (db \<lparr> db_velocity := vel \<rparr>) (stage no_rows (postings_of env prepared))
           (fold_balances (postings_of env prepared) read mappings (posting_time env)) = Inr db1"
    and "pd_db p = db1 \<lparr> db_effective := rows \<rparr>"
    and "pd_events p = posting_payloads (postings_of env prepared)"
    and "pd_transactions p = map hydrated_of (map (\<lambda>q. into_new_transaction (pn_lib env) q (posting_time env)) prepared)"
    and "set (fence_locks (db_membership db) (entry_balance_keys prepared)) \<union> set locks \<subseteq> set (pd_locks p)"
proof -
  obtain prepared k ts fn where
    prep: "prepare_all env k batch ts = Some (Inr prepared)" and fn: "fn_prepared fn = prepared"
    "fn_keys fn = entry_balance_keys (fn_prepared fn)" "fn_now fn = posting_time env"
    and locks: "set (fence_locks (db_membership db) (fn_keys fn)) \<subseteq> set (fn_locks fn)"
    and fenced: "apply_fenced env snapshot db batch fn = Some (Inr p)"
    by (rule post_all_Inr[OF assms])
  from apply_fenced_Inr[OF fenced fn(2,3), unfolded fn(1)] obtain mappings read ancestor_locks vel db1 where
    "validate batch prepared (read_for db prepared) = Inr ()" and
    "resolve_ancestors env snapshot db prepared (read_for db prepared) = Inr (mappings, read, ancestor_locks)" and
    "insert_postings_and_balances (db \<lparr> db_velocity := vel \<rparr>) (stage no_rows (postings_of env prepared))
       (fold_balances (postings_of env prepared) read mappings (posting_time env)) = Inr db1" and
    eff: "update_effective_balances env db1 (postings_of env prepared) read mappings (posting_time env) = Some (Inr (pd_db p))" and
    "pd_events p = posting_payloads (postings_of env prepared)" and l: "pd_locks p = fn_locks fn @ ancestor_locks" and
    "pd_transactions p = map hydrated_of (map (\<lambda>q. into_new_transaction (pn_lib env) q (posting_time env)) prepared)" by blast
  moreover from eff obtain rows where "pd_db p = db1 \<lparr> db_effective := rows \<rparr>"
    by (auto simp: update_effective_balances_def pbind_Inr_iff dest: sym)
  moreover have "set (fence_locks (db_membership db) (entry_balance_keys prepared)) \<union> set ancestor_locks \<subseteq> set (pd_locks p)"
    using locks by (auto simp: l fn)
  ultimately show ?thesis using prep that by metis
qed

section \<open>What reaches a balance\<close>

definition inline_account :: "membership_tables \<Rightarrow> account_id \<Rightarrow> bool" where
  "inline_account mt a \<longleftrightarrow> (case mt_accounts mt a of Some r \<Rightarrow> \<not> ac_eventually_consistent r | None \<Rightarrow> False)"

text \<open>An entry reaches the balance of its account and of every set above it in its journal.\<close>

definition reaches :: "membership_tables \<Rightarrow> balance_id \<Rightarrow> 'd entry_values \<Rightarrow> bool" where
  "reaches mt k e \<longleftrightarrow> e_journal_id e = fst k \<and> e_currency e = snd (snd k) \<and>
     (fst (snd k) = e_account_id e \<or> fst (snd k) \<in> account_of_set ` sets_in mt (fst k) (e_account_id e))"

fun posted_entry :: "'d posting_event \<Rightarrow> 'd entry_values option" where
  "posted_entry (TransactionCreated _) = None"
| "posted_entry (EntryCreated e) = Some e"

definition posted_entries :: "'d posting_event list \<Rightarrow> 'd entry_values list" where
  "posted_entries evs = List.map_filter posted_entry evs"

lemma map_filter_append: "List.map_filter f (xs @ ys) = List.map_filter f xs @ List.map_filter f ys"
  by (induction xs) (auto simp: List.map_filter_simps split: option.split)

lemma posted_entries_payloads: "posted_entries (posting_payloads ps) = concat (map snd ps)"
proof -
  have "List.map_filter posted_entry (map EntryCreated es) = es" for es :: "'a entry_values list"
    by (induction es) (simp_all add: List.map_filter_simps)
  then show ?thesis
    by (induction ps) (auto simp: posted_entries_def posting_payloads_def List.map_filter_simps map_filter_append)
qed

lemma posts_on_targets:
  assumes "\<And>e. e \<in> set es \<Longrightarrow> distinct (f e)"
  shows "posts_on (a, c) (concat (map (\<lambda>e. map (\<lambda>a. (a, e)) (f e)) es)) =
    filter (\<lambda>e. e_currency e = c \<and> a \<in> set (f e)) es"
proof -
  have one: "posts_on (a, c) (map (\<lambda>x. (x, e)) xs) = (if e_currency e = c \<and> a \<in> set xs then [e] else [])"
    if "distinct xs" for xs and e :: "'a entry_values"
    using that by (induction xs) auto
  show ?thesis using assms by (induction es) (simp_all add: one)
qed

lemma posts_on_touched:
  assumes "\<And>e. e \<in> set es \<Longrightarrow> distinct (touched m e)"
  shows "posts_on (a, c) (leaf_posts m es) = filter (\<lambda>e. e_currency e = c \<and> a \<in> set (touched m e)) es"
  unfolding leaf_posts_touched by (rule posts_on_targets[OF assms])

lemma journal_entries_map:
  "journal_entries (postings_of env prepared) j = map new_entry_values (entries_in prepared j)"
  by (induction prepared) (auto simp: journal_entries_def postings_of_def entries_in_def posting_of_def
      into_new_transaction_def new_transaction_values_def Let_def case_prod_unfold)

lemma journal_entries_filter:
  assumes "\<And>tx es e. (tx, es) \<in> set ps \<Longrightarrow> e \<in> set es \<Longrightarrow> e_journal_id e = tv_journal_id tx"
  shows "journal_entries ps j = filter (\<lambda>e. e_journal_id e = j) (concat (map snd ps))"
  using assms
proof (induction ps)
  case (Cons p ps)
  have "filter (\<lambda>e. e_journal_id e = j) (snd p) = (if tv_journal_id (fst p) = j then snd p else [])"
    using Cons.prems[of "fst p" "snd p"] by (auto simp: filter_id_conv filter_empty_conv)
  moreover have "journal_entries ps j = filter (\<lambda>e. e_journal_id e = j) (concat (map snd ps))"
    using Cons.prems by (intro Cons.IH) auto
  ultimately show ?case by (auto simp: journal_entries_def case_prod_unfold)
qed (simp add: journal_entries_def)

lemma postings_journals:
  assumes "prepare_all env k batch ts = Some (Inr prepared)" and "(tx, es) \<in> set (postings_of env prepared)"
    and "e \<in> set es"
  shows "e_journal_id e = tv_journal_id tx"
proof -
  from assms(2) obtain p where p: "p \<in> set prepared"
    "tv_journal_id tx = pt_journal_id p" "es = map new_entry_values (pt_entries p)"
    by (auto simp: postings_of_def posting_of_def into_new_transaction_def new_transaction_values_def Let_def case_prod_unfold)
  from p(1) obtain i where "i < length batch" "prepares env k ts i (batch ! i) p"
    using prepare_all_Inr(1,2)[OF assms(1)] by (metis in_set_conv_nth)
  then show ?thesis using prepared_entries(2) p(2,3) assms(3) by (fastforce simp: new_entry_values_def)
qed

section \<open>Validation\<close>

lemma rfold_unit: "rfold (\<lambda>_ x. f x) () xs = Inr () \<longleftrightarrow> (\<forall>x \<in> set xs. f x = Inr ())"
  by (induction xs) (auto simp: rbind_Inr_iff)

lemma validate_Inr:
  assumes "validate batch prepared read = Inr ()" and "p \<in> set prepared"
  shows "(\<exists>journal. ps_journals read (pt_journal_id p) = Some journal \<and> jv_status journal \<noteq> Locked) \<and>
    (\<forall>e \<in> set (pt_entries p). \<exists>meta. ps_accounts read (ne_account_id e) = Some meta \<and>
        \<not> am_is_account_set meta \<and> \<not> am_locked meta)"
proof -
  from assms(2) obtain i where "i < length prepared" "prepared ! i = p" by (auto simp: in_set_conv_nth)
  then have "(i, p) \<in> set (enumerate 0 prepared)" by (simp add: in_set_enumerate_eq)
  with assms(1) have "validate_posting read p = Inr ()"
    by (auto simp: validate_def case_prod_unfold rfold_unit map_err_Inr_iff)
  then show ?thesis
    by (auto simp: validate_posting_def rbind_Inr_iff rfold_unit validate_entry_account_def Let_def
        split: option.splits if_splits)
qed

section \<open>The books\<close>

lemma set_entry_balance_keys:
  "set (entry_balance_keys prepared) =
     {(pt_journal_id p, ne_account_id e, ne_currency e) |p e. p \<in> set prepared \<and> e \<in> set (pt_entries p)}"
proof -
  have one: "foldl (\<lambda>keys e. push_key keys j (ne_account_id e) (ne_currency e)) keys es =
      keys @ map (\<lambda>e. (j, ne_account_id e, ne_currency e)) es" for keys j and es :: "'a new_entry list"
    by (induction es arbitrary: keys) (simp_all add: push_key_def)
  have "foldl push_entry_key keys prepared =
      keys @ concat (map (\<lambda>p. map (\<lambda>e. (pt_journal_id p, ne_account_id e, ne_currency e)) (pt_entries p)) prepared)" for keys
    by (induction prepared arbitrary: keys) (simp_all add: push_entry_key_def one)
  then show ?thesis by (auto simp: entry_balance_keys_def)
qed

lemma entries_covered:
  assumes "e \<in> set (entries_in prepared j)"
  shows "ne_account_id e \<in> set (accounts_of prepared) \<and> (j, ne_account_id e, ne_currency e) \<in> set (entry_balance_keys prepared)"
  using assms by (fastforce simp: entries_in_def accounts_of_def set_entry_balance_keys)

lemma involved_facts:
  "ps_accounts read a = account_facts mt a \<Longrightarrow> involved read a \<longleftrightarrow> inline_account mt a"
  by (auto simp: involved_def inline_account_def account_facts_def account_meta_of_def split: option.splits)

text \<open>The tables a posting starts from, as a snapshot and the database of an operation.\<close>

definition posts_from :: "'d::linordered_ab_group_add posting_env \<Rightarrow> graph_snapshot \<Rightarrow> 'd ledger_db \<Rightarrow> bool" where
  "posts_from env snapshot db \<longleftrightarrow> keys_ok (db_membership db) \<and> sets_flagged (db_membership db) \<and>
     (gs_epoch snapshot = mt_graph_epoch (db_membership db) \<longrightarrow> snapshot_matches snapshot (db_membership db)) \<and>
     (\<forall>ps. mset (pn_pair_order env ps) = mset ps) \<and> store_ok (db_balances db)"

lemma reached_entries:
  fixes env :: "'d::linordered_ab_group_add posting_env"
  assumes from_db: "posts_from env snapshot db" and prep: "prepare_all env k batch ts = Some (Inr prepared)"
    and valid: "validate batch prepared (read_for db prepared) = Inr ()"
    and run: "resolve_ancestors env snapshot db prepared (read_for db prepared) = Inr (mappings, read, locks)"
  defines "ps \<equiv> postings_of env prepared" and "mt \<equiv> db_membership db"
  shows "read_keyed read"
    and "batch_posts mappings ps (j, a, c) = filter (reaches mt (j, a, c)) (concat (map snd ps))"
    and "batch_posts mappings ps (j, a, c) \<noteq> [] \<Longrightarrow> knows db j a c read"
proof -
  have ready: "ready env snapshot db prepared (accounts_of prepared) (entry_balance_keys prepared)"
    using from_db entries_covered store_ok_keyed by (auto simp: posts_from_def ready_def)
  note ok = resolve_ancestors_ok[OF ready run[unfolded read_for_def]]
  let ?m = "journal_mappings mappings j"
  show "read_keyed read" by (rule ok(1))
  have js: "journal_entries ps j = filter (\<lambda>e. e_journal_id e = j) (concat (map snd ps))"
    unfolding ps_def by (rule journal_entries_filter) (rule postings_journals[OF prep])
  have entry: "distinct (touched ?m e') \<and>
      set (touched ?m e') = insert (e_account_id e') (account_of_set ` sets_in mt j (e_account_id e')) \<and>
      (\<forall>b \<in> set (touched ?m e'). knows db j b (e_currency e') read)"
    if e': "e' \<in> set (journal_entries ps j)" for e'
  proof -
    from e' obtain e where e: "e \<in> set (entries_in prepared j)" and new: "e_account_id e' = ne_account_id e" "e_currency e' = ne_currency e"
      by (auto simp: ps_def journal_entries_map new_entry_values_def)
    have sets: "distinct (get_list ?m (ne_account_id e))" "set (get_list ?m (ne_account_id e)) = sets_in mt j (ne_account_id e)"
      using ok(3,4)[OF e] by (simp_all add: mt_def)
    from e obtain p where p: "p \<in> set prepared" "e \<in> set (pt_entries p)" by (auto simp: entries_in_def)
    then obtain meta where "ps_accounts (read_for db prepared) (ne_account_id e) = Some meta" "\<not> am_is_account_set meta"
      using validate_Inr[OF valid p(1)] by blast
    then obtain row where row: "mt_accounts mt (ne_account_id e) = Some row" "\<not> ac_is_account_set row"
      by (auto simp: read_for_def read_posting_state_def Let_def read_accounts_facts account_facts_def account_meta_of_def
          mt_def split: if_splits)
    have "ne_account_id e \<notin> account_of_set ` sets_in mt j (ne_account_id e)"
    proof
      assume "ne_account_id e \<in> account_of_set ` sets_in mt j (ne_account_id e)"
      then obtain s where s: "ne_account_id e = account_of_set s" "mt_account_sets mt s = Some j"
        by (auto simp: sets_in_def)
      then have "\<exists>r. mt_accounts mt (account_of_set s) = Some r \<and> ac_is_account_set r"
        using from_db unfolding posts_from_def sets_flagged_def mt_def by blast
      then show False using row s(1) by simp
    qed
    moreover have "distinct (map account_of_set (get_list ?m (ne_account_id e)))"
      using sets(1) by (simp add: distinct_map inj_on_def)
    ultimately show ?thesis using sets ok(5,6)[OF e] by (auto simp: touched_def new mt_def)
  qed
  have posts: "batch_posts mappings ps (j, a, c) = filter (\<lambda>e. e_currency e = c \<and> a \<in> set (touched ?m e)) (journal_entries ps j)"
    unfolding batch_posts_def prod.case using entry by (intro posts_on_touched) blast
  also have "\<dots> = filter (\<lambda>e. e_currency e = c \<and>
      (a = e_account_id e \<or> a \<in> account_of_set ` sets_in mt j (e_account_id e))) (journal_entries ps j)"
    by (rule filter_cong) (use entry in auto)
  finally show "batch_posts mappings ps (j, a, c) = filter (reaches mt (j, a, c)) (concat (map snd ps))"
    by (auto simp: js reaches_def intro!: filter_cong)
  assume "batch_posts mappings ps (j, a, c) \<noteq> []"
  then show "knows db j a c read" using entry unfolding posts by (auto simp: filter_empty_conv)
qed

lemma posted_balances:
  fixes env :: "'d::linordered_ab_group_add posting_env"
  assumes from_db: "posts_from env snapshot db"
    and run: "post_all_in_op env snapshot cache db batch = (cache', Some (Inr p))"
  shows "store_ok (db_balances (pd_db p)) \<and>
    rows_of (j, a, c) (bt_history (db_balances (pd_db p))) = rows_of (j, a, c) (bt_history (db_balances db)) @
      (if inline_account (db_membership db) a
       then map (\<lambda>s. (as_i32 (bs_version s), s))
         (chain (next_snapshot (posting_time env) a) (stored (db_balances db) (j, a, c))
           (filter (reaches (db_membership db) (j, a, c)) (posted_entries (pd_events p))))
       else [])"
proof (cases "batch = []")
  case True
  then show ?thesis using run from_db by (auto simp: post_all_in_op_def posted_entries_def List.map_filter_simps posts_from_def)
next
  case False
  let ?now = "posting_time env"
  obtain prepared k ts mappings read locks vel db1 rows where
    prep: "prepare_all env k batch ts = Some (Inr prepared)" and
    valid: "validate batch prepared (read_for db prepared) = Inr ()" and
    res: "resolve_ancestors env snapshot db prepared (read_for db prepared) = Inr (mappings, read, locks)" and
    ins: "insert_postings_and_balances (db \<lparr> db_velocity := vel \<rparr>) (stage no_rows (postings_of env prepared))
       (fold_balances (postings_of env prepared) read mappings (posting_time env)) = Inr db1" and
    db': "pd_db p = db1 \<lparr> db_effective := rows \<rparr>" and
    evs: "pd_events p = posting_payloads (postings_of env prepared)"
    by (rule post_all_run[OF run False])
  let ?ps = "postings_of env prepared"
  note reached = reached_entries[OF from_db prep valid res]
  have store: "store_ok (db_balances (db \<lparr> db_velocity := vel \<rparr>))" using from_db by (simp add: posts_from_def)
  have bal: "store_ok (db_balances (pd_db p))"
    "bt_history (db_balances (pd_db p)) = bt_history (db_balances db) @ map snapshot_row (fold_balances ?ps read mappings ?now)"
    using insert_postings_inserts(1,2)[OF ins store] by (simp_all add: db')
  have written: "filter (\<lambda>s. snapshot_id s = (j, a, c)) (fold_balances ?ps read mappings ?now) =
    (if involved read a then chain (next_snapshot ?now a) (ps_balances read (j, a, c)) (batch_posts mappings ?ps (j, a, c)) else [])"
    by (rule fold_balances_by_id[OF reached(1)]) (rule postings_journals[OF prep])
  also have "\<dots> = (if inline_account (db_membership db) a
      then chain (next_snapshot ?now a) (stored (db_balances db) (j, a, c)) (batch_posts mappings ?ps (j, a, c)) else [])"
  proof (cases "batch_posts mappings ?ps (j, a, c) = []")
    case False
    then show ?thesis using reached(3) involved_facts[of read a "db_membership db"] by (simp add: knows_def)
  qed simp
  finally show ?thesis using bal(1)
    by (simp add: bal(2) rows_of_snapshots reached(2) evs posted_entries_payloads)
qed

section \<open>Posted entries\<close>

text \<open>An entry that is posted is on an account that exists, is no set and is not locked.\<close>

lemma validated_accounts:
  assumes "validate batch prepared (read_for db prepared) = Inr ()"
    and "e \<in> set (concat (map snd (postings_of env prepared)))"
  shows "\<exists>r. mt_accounts (db_membership db) (e_account_id e) = Some r \<and> \<not> ac_is_account_set r \<and> ac_status r \<noteq> Locked"
proof -
  from assms(2) obtain p e' where p: "p \<in> set prepared" "e' \<in> set (pt_entries p)" and e: "e_account_id e = ne_account_id e'"
    by (auto simp: postings_of_def posting_of_def into_new_transaction_def new_entry_values_def Let_def case_prod_unfold)
  from validate_Inr[OF assms(1) p(1)] p(2) obtain meta where
    "ps_accounts (read_for db prepared) (ne_account_id e') = Some meta" "\<not> am_is_account_set meta" "\<not> am_locked meta" by blast
  then show ?thesis unfolding e
    by (auto simp: read_for_def read_posting_state_def Let_def read_accounts_facts account_facts_def account_meta_of_def
        split: if_splits)
qed

lemma new_entry_sides:
  "Snapshots.side_total d l (filter (\<lambda>e. e_currency e = c) (map new_entry_values es)) =
     Tx_Template_Theorems.side_total d c l es"
  by (induction es) (auto simp: Tx_Template_Theorems.side_total_def new_entry_values_def)

lemma filter_concat_sides:
  assumes "\<And>p. p \<in> set ps \<Longrightarrow> Snapshots.side_total Debit l (filter P (snd p)) = Snapshots.side_total Credit l (filter P (snd p))"
  shows "Snapshots.side_total Debit l (filter P (concat (map snd ps))) = Snapshots.side_total Credit l (filter P (concat (map snd ps)))"
  using assms by (induction ps) simp_all

lemma posted_sides:
  fixes env :: "'d::linordered_ab_group_add posting_env" and j :: journal_id and c :: currency
  assumes prep: "prepare_all env k batch ts = Some (Inr prepared)"
    and order: "\<And>k i m. set (pe_hash_order (pn_prepare env k i) m) = set m"
  defines "es \<equiv> filter (\<lambda>e. e_journal_id e = j \<and> e_currency e = c) (concat (map snd (postings_of env prepared)))"
  shows "Snapshots.side_total Debit l es = Snapshots.side_total Credit l es"
  unfolding es_def
proof (rule filter_concat_sides)
  fix q assume "q \<in> set (postings_of env prepared)"
  then obtain p where p: "p \<in> set prepared" and q: "snd q = map new_entry_values (pt_entries p)"
    by (auto simp: postings_of_def posting_of_def into_new_transaction_def Let_def case_prod_unfold)
  from p obtain i where prepares: "i < length batch" "prepares env k ts i (batch ! i) p"
    using prepare_all_Inr(1,2)[OF prep] by (metis in_set_conv_nth)
  have "filter (\<lambda>e. e_journal_id e = j \<and> e_currency e = c) (snd q) =
      (if pt_journal_id p = j then filter (\<lambda>e. e_currency e = c) (snd q) else [])"
    using prepared_entries(2)[OF prepares(2)] by (auto simp: q new_entry_values_def filter_empty_conv intro!: filter_cong)
  then show "Snapshots.side_total Debit l (filter (\<lambda>e. e_journal_id e = j \<and> e_currency e = c) (snd q)) =
      Snapshots.side_total Credit l (filter (\<lambda>e. e_journal_id e = j \<and> e_currency e = c) (snd q))"
    using prepared_entries(3)[OF prepares(2) order] by (auto simp: q new_entry_sides)
qed

section \<open>The current balance after a batch\<close>

definition rows_versioned :: "'d balance_tables \<Rightarrow> bool" where
  "rows_versioned bt \<longleftrightarrow> (\<forall>(k, v, s) \<in> set (bt_history bt). v = as_i32 (bs_version s))"

text \<open>With room left below \<open>2 ^ 31\<close>, the last snapshot of a chain has the greatest version.\<close>

lemma latest_chain:
  fixes base :: "'d::linordered_ab_group_add balance_snapshot option"
  assumes "latest old = map_option (\<lambda>s. (as_i32 (bs_version s), s)) base"
    and room: "unat (base_version bs_version base) + length es < 2 ^ 31"
  shows "latest (old @ map (\<lambda>s. (as_i32 (bs_version s), s)) (chain (next_snapshot t a) base es)) =
    map_option (\<lambda>s. (as_i32 (bs_version s), s)) (chain_end (next_snapshot t a) base es)"
  using room
proof (induction es rule: rev_induct)
  case Nil
  then show ?case using assms(1) by simp
next
  case (snoc e es)
  let ?step = "next_snapshot t a" and ?row = "\<lambda>s. (as_i32 (bs_version s), s)"
  let ?z = "?step (chain_end ?step base es) e"
  have as_nat: "as_i32 (base_version bs_version base + of_nat n) = int (unat (base_version bs_version base) + n)"
    if "n \<le> Suc (length es)" for n
  proof -
    have n: "unat (base_version bs_version base) + n < 2 ^ 31" using snoc.prems that by simp
    then have u: "unat (base_version bs_version base + of_nat n) = unat (base_version bs_version base) + n"
      by (intro unat_u32_add_of_nat) simp
    show ?thesis using as_i32_uint[of "base_version bs_version base + of_nat n"] n by (simp only: u uint_nat)
  qed
  have new: "bs_version ?z = base_version bs_version base + of_nat (Suc (length es))"
    using balance_step.chain_end_version[of t a base "es @ [e]"] by (simp add: base_version_def)
  have z: "as_i32 (bs_version ?z) = int (unat (base_version bs_version base) + Suc (length es))"
    unfolding new by (rule as_nat) simp
  have "later (map_option ?row (chain_end ?step base es)) (Some (?row ?z)) = Some (?row ?z)"
  proof (cases "chain_end ?step base es")
    case (Some s)
    then have "bs_version s = base_version bs_version base + of_nat (length es)"
      using balance_step.chain_end_version[of t a base es] by (simp add: base_version_def)
    then have "as_i32 (bs_version s) < as_i32 (bs_version ?z)" using as_nat[of "length es"] z by simp
    then show ?thesis using Some by (simp add: later_def)
  qed simp
  moreover have "latest (old @ map ?row (chain ?step base es)) = map_option ?row (chain_end ?step base es)"
    using snoc by simp
  ultimately show ?case by (simp add: chain_append latest_append flip: later_assoc)
qed

text \<open>Room for a number of versions: no \<open>u32\<close> version reaches the sign bit of its \<open>INTEGER\<close> column.\<close>

definition has_version_room :: "'d balance_tables \<Rightarrow> nat \<Rightarrow> bool" where
  "has_version_room bt n \<longleftrightarrow> n < 2 ^ 31 \<and> (\<forall>(_, _, s) \<in> set (bt_current bt). unat (bs_version s) + n < 2 ^ 31)"

lemma stored_after:
  fixes bt bt' :: "'d::linordered_ab_group_add balance_tables"
  assumes "store_ok bt" and "rows_versioned bt" and "has_version_room bt n" and "store_ok bt'" and "length es \<le> n"
    and "rows_of k (bt_history bt') = rows_of k (bt_history bt) @
      map (\<lambda>s. (as_i32 (bs_version s), s)) (chain (next_snapshot t a) (stored bt k) es)"
  shows "stored bt' k = chain_end (next_snapshot t a) (stored bt k) es"
proof -
  have cur: "latest (rows_of k (bt_history bt)) = map_option (\<lambda>s. (as_i32 (bs_version s), s)) (stored bt k)"
    using assms(2) unfolding stored_latest[OF assms(1)]
    by (cases "latest (rows_of k (bt_history bt))") (auto simp: rows_versioned_def dest!: latest_Some)
  have room: "unat (base_version bs_version (stored bt k)) + length es < 2 ^ 31"
    using assms(3,5) unfolding stored_def has_version_room_def base_version_def
    by (auto split: option.split dest!: map_of_SomeD)
  then show ?thesis
    unfolding stored_latest[OF assms(4)] assms(6) latest_chain[OF cur room, of t a] by (simp add: option.map_comp comp_def option.map_ident)
qed

section \<open>The trial balance\<close>

definition leaf_account :: "membership_tables \<Rightarrow> account_id \<Rightarrow> bool" where
  "leaf_account mt a \<longleftrightarrow> (case mt_accounts mt a of Some r \<Rightarrow> \<not> ac_is_account_set r | None \<Rightarrow> False)"

definition layer_net :: "layer \<Rightarrow> 'd::linordered_ab_group_add balance_snapshot option \<Rightarrow> 'd" where
  "layer_net l b = base_amount Debit l b - base_amount Credit l b"

text \<open>Debits less credits over the balances of all accounts, inline or rolled up later, sets aside.\<close>

definition trial_balance ::
  "membership_tables \<Rightarrow> 'd::linordered_ab_group_add balance_tables \<Rightarrow> journal_id \<Rightarrow> currency \<Rightarrow> layer \<Rightarrow> 'd" where
  "trial_balance mt bt j c l =
     (\<Sum>k \<in> set (filter (\<lambda>(i, a, d). i = j \<and> d = c \<and> leaf_account mt a) (map fst (bt_current bt))). layer_net l (stored bt k))"

lemma trial_balance_over:
  assumes "finite A" and "\<And>a. a \<in> A \<Longrightarrow> leaf_account mt a"
    and "\<And>a. leaf_account mt a \<Longrightarrow> stored bt (j, a, c) \<noteq> None \<Longrightarrow> a \<in> A"
  shows "trial_balance mt bt j c l = (\<Sum>a \<in> A. layer_net l (stored bt (j, a, c)))"
proof -
  let ?K = "set (filter (\<lambda>(i, a, d). i = j \<and> d = c \<and> leaf_account mt a) (map fst (bt_current bt)))"
  let ?key = "\<lambda>a. (j, a, c)"
  have sub: "?K \<subseteq> ?key ` A"
  proof
    fix k assume k: "k \<in> ?K"
    then obtain a where a: "k = (j, a, c)" "leaf_account mt a" "k \<in> fst ` set (bt_current bt)" by auto
    then have "stored bt (j, a, c) \<noteq> None" by (auto simp: stored_def map_of_eq_None_iff)
    then show "k \<in> ?key ` A" using assms(3)[OF a(2)] a(1) by blast
  qed
  have "stored bt k = None" if k: "k \<in> ?key ` A - ?K" for k
  proof -
    obtain a where "k = (j, a, c)" "a \<in> A" using k by blast
    then have "k \<notin> fst ` set (bt_current bt)" using k assms(2) by auto
    then show ?thesis by (simp add: stored_def map_of_eq_None_iff)
  qed
  then have "trial_balance mt bt j c l = (\<Sum>k \<in> ?key ` A. layer_net l (stored bt k))"
    unfolding trial_balance_def using sub assms(1)
    by (intro sum.mono_neutral_left) (auto simp: layer_net_def base_amount_def)
  then show ?thesis by (simp add: sum.reindex inj_on_def)
qed

text \<open>A sum over entries, split by account.\<close>

lemma total_by_account:
  fixes f :: "'d entry_values list \<Rightarrow> 'd::linordered_ab_group_add"
  assumes "\<And>e es. f (e # es) = f [e] + f es" and "f [] = 0"
    and "finite A" and "e_account_id ` set es \<subseteq> A"
  shows "(\<Sum>a \<in> A. f (filter (\<lambda>e. e_account_id e = a) es)) = f es"
  using assms(4)
proof (induction es)
  case (Cons e es)
  have one: "f (filter (\<lambda>e. e_account_id e = a) (e # es)) =
      (if e_account_id e = a then f [e] else 0) + f (filter (\<lambda>e. e_account_id e = a) es)" for a
    using assms(1)[of e "filter (\<lambda>e. e_account_id e = a) es"] by simp
  have "(\<Sum>a \<in> A. f (filter (\<lambda>e. e_account_id e = a) (e # es))) = f [e] + f es"
    unfolding one sum.distrib using assms(3) Cons by (simp add: sum.delta')
  then show ?case using assms(1)[of e es] by simp
qed (simp add: assms(2))

text \<open>Debits less credits of a list of entries.\<close>

definition sides_net :: "layer \<Rightarrow> 'd::linordered_ab_group_add entry_values list \<Rightarrow> 'd" where
  "sides_net l es = Snapshots.side_total Debit l es - Snapshots.side_total Credit l es"

lemma sides_net_append: "sides_net l (es @ fs) = sides_net l es + sides_net l fs"
  by (simp add: sides_net_def)

lemma sides_net_Cons: "sides_net l (e # es) = sides_net l [e] + sides_net l es"
  by (simp add: sides_net_def)

lemma sides_net_split: "sides_net l (filter P es) + sides_net l (filter (\<lambda>e. \<not> P e) es) = sides_net l es"
proof (induction es)
  case (Cons e es)
  show ?case
    unfolding sides_net_Cons[of l e es] Cons[symmetric]
    using sides_net_Cons[of l e "filter P es"] sides_net_Cons[of l e "filter (\<lambda>e. \<not> P e) es"]
    by (cases "P e") (simp_all add: add.assoc add.left_commute)
qed (simp add: sides_net_def)

lemma sides_by_account:
  assumes "finite A" and "e_account_id ` set es \<subseteq> A"
  shows "(\<Sum>a \<in> A. sides_net l (filter (\<lambda>e. e_account_id e = a) es)) = sides_net l es"
  by (rule total_by_account[OF _ _ assms]) (simp_all add: sides_net_def)

lemma layer_net_chain:
  "layer_net l (chain_end (next_snapshot t a) base es) = layer_net l base + sides_net l es"
  by (simp add: layer_net_def sides_net_def chain_end_amount)

text \<open>
  When the balance of every account has moved on by its own entries of a list, the trial balance
  has moved by the net of the list.
\<close>

lemma trial_balance_moves:
  fixes bt bt' :: "'d::linordered_ab_group_add balance_tables"
  assumes after: "\<And>a. leaf_account mt a \<Longrightarrow> stored bt' (j, a, c) =
      chain_end (next_snapshot t a) (stored bt (j, a, c)) (filter (\<lambda>e. e_account_id e = a) es)"
    and plain: "\<And>e. e \<in> set es \<Longrightarrow> leaf_account mt (e_account_id e)"
  shows "trial_balance mt bt' j c l = trial_balance mt bt j c l + sides_net l es"
proof -
  let ?A = "{a. leaf_account mt a \<and> (stored bt (j, a, c) \<noteq> None \<or> stored bt' (j, a, c) \<noteq> None)}"
  have "?A \<subseteq> (fst \<circ> snd \<circ> fst) ` (set (bt_current bt) \<union> set (bt_current bt'))"
    by (force simp: stored_def map_of_eq_None_iff)
  then have fin: "finite ?A" by (rule finite_subset) simp
  have mem: "e_account_id ` set es \<subseteq> ?A"
  proof (rule image_subsetI)
    fix e assume e: "e \<in> set es"
    have "chain_end (next_snapshot t a) b fs \<noteq> None" if "fs \<noteq> []" for a b and fs :: "'d entry_values list"
      using that by (cases fs rule: rev_cases) auto
    moreover have "filter (\<lambda>x. e_account_id x = e_account_id e) es \<noteq> []"
      using e by (auto simp: filter_empty_conv)
    ultimately have "stored bt' (j, e_account_id e, c) \<noteq> None" unfolding after[OF plain[OF e]] by blast
    then show "e_account_id e \<in> ?A" using plain[OF e] by blast
  qed
  have "trial_balance mt bt' j c l = (\<Sum>a \<in> ?A. layer_net l (stored bt' (j, a, c)))"
    by (rule trial_balance_over[OF fin]) auto
  also have "\<dots> = (\<Sum>a \<in> ?A. layer_net l (stored bt (j, a, c)) + sides_net l (filter (\<lambda>e. e_account_id e = a) es))"
    by (rule sum.cong) (use after in \<open>auto simp: layer_net_chain\<close>)
  also have "\<dots> = (\<Sum>a \<in> ?A. layer_net l (stored bt (j, a, c))) + sides_net l es"
    by (simp only: sum.distrib sides_by_account[OF fin mem])
  also have "(\<Sum>a \<in> ?A. layer_net l (stored bt (j, a, c))) = trial_balance mt bt j c l"
    by (rule trial_balance_over[OF fin, symmetric]) auto
  finally show ?thesis .
qed

lemma posted_entry_facts:
  fixes env :: "'d::linordered_ab_group_add posting_env"
  assumes run: "post_all_in_op env snapshot cache db batch = (cache', Some (Inr p))"
    and order: "\<And>k i m. set (pe_hash_order (pn_prepare env k i) m) = set m"
  shows "\<And>e. e \<in> set (posted_entries (pd_events p)) \<Longrightarrow>
      \<exists>r. mt_accounts (db_membership db) (e_account_id e) = Some r \<and> \<not> ac_is_account_set r \<and> ac_status r \<noteq> Locked"
    and "sides_net l (filter (\<lambda>e. e_journal_id e = j \<and> e_currency e = c) (posted_entries (pd_events p))) = 0"
proof -
  have all: "(\<forall>e \<in> set (posted_entries (pd_events p)). \<exists>r. mt_accounts (db_membership db) (e_account_id e) = Some r \<and>
        \<not> ac_is_account_set r \<and> ac_status r \<noteq> Locked) \<and>
      sides_net l (filter (\<lambda>e. e_journal_id e = j \<and> e_currency e = c) (posted_entries (pd_events p))) = 0"
  proof (cases "batch = []")
    case True
    then show ?thesis using run
      by (auto simp: post_all_in_op_def posted_entries_def List.map_filter_simps sides_net_def)
  next
    case False
    obtain prepared k ts where prep: "prepare_all env k batch ts = Some (Inr prepared)"
      and valid: "validate batch prepared (read_for db prepared) = Inr ()"
      and evs: "pd_events p = posting_payloads (postings_of env prepared)"
      by (rule post_all_run[OF run False]) blast
    show ?thesis
      using validated_accounts[OF valid] posted_sides[OF prep order, of l j c]
      unfolding evs posted_entries_payloads sides_net_def by simp
  qed
  then show "\<And>e. e \<in> set (posted_entries (pd_events p)) \<Longrightarrow>
      \<exists>r. mt_accounts (db_membership db) (e_account_id e) = Some r \<and> \<not> ac_is_account_set r \<and> ac_status r \<noteq> Locked"
    "sides_net l (filter (\<lambda>e. e_journal_id e = j \<and> e_currency e = c) (posted_entries (pd_events p))) = 0" by blast+
qed

lemma leaf_no_set: "sets_flagged mt \<Longrightarrow> leaf_account mt a \<Longrightarrow> a \<notin> account_of_set ` sets_in mt j b"
  by (auto simp: sets_flagged_def leaf_account_def sets_in_def split: option.splits)

text \<open>An account is reached by its own entries only.\<close>

lemma leaf_reaches:
  assumes "sets_flagged mt" and "leaf_account mt a"
  shows "filter (reaches mt (j, a, c)) es =
    filter (\<lambda>e. e_account_id e = a) (filter (\<lambda>e. e_journal_id e = j \<and> e_currency e = c) es)"
  using leaf_no_set[OF assms] by (auto simp: reaches_def intro!: filter_cong)

text \<open>What is stored for a balance after a batch.\<close>

lemma stored_posted:
  fixes env :: "'d::linordered_ab_group_add posting_env"
  assumes from_db: "posts_from env snapshot db"
    and run: "post_all_in_op env snapshot cache db batch = (cache', Some (Inr p))"
    and versions: "rows_versioned (db_balances db)"
    and room: "has_version_room (db_balances db) (length (posted_entries (pd_events p)))"
  shows "stored (db_balances (pd_db p)) (j, a, c) =
    (if inline_account (db_membership db) a
     then chain_end (next_snapshot (posting_time env) a) (stored (db_balances db) (j, a, c))
       (filter (reaches (db_membership db) (j, a, c)) (posted_entries (pd_events p)))
     else stored (db_balances db) (j, a, c))"
proof -
  have ok: "store_ok (db_balances db)" using from_db by (simp add: posts_from_def)
  note posted = posted_balances[OF from_db run, of j a c]
  show ?thesis
  proof (cases "inline_account (db_membership db) a")
    case True
    then show ?thesis using posted by (auto intro: stored_after[OF ok versions room])
  next
    case False
    then show ?thesis using posted ok by (simp add: stored_latest)
  qed
qed

text \<open>
  Posting moves the trial balance by the net of the entries on inline accounts, which is the
  opposite of the net of the entries it leaves to the rollup.
\<close>

lemma trial_balance_posted:
  fixes env :: "'d::linordered_ab_group_add posting_env"
  assumes from_db: "posts_from env snapshot db"
    and run: "post_all_in_op env snapshot cache db batch = (cache', Some (Inr p))"
    and order: "\<And>k i m. set (pe_hash_order (pn_prepare env k i) m) = set m"
    and versions: "rows_versioned (db_balances db)"
    and room: "has_version_room (db_balances db) (length (posted_entries (pd_events p)))"
  shows "trial_balance (db_membership db) (db_balances (pd_db p)) j c l +
      sides_net l (filter (\<lambda>e. \<not> inline_account (db_membership db) (e_account_id e))
        (filter (\<lambda>e. e_journal_id e = j \<and> e_currency e = c) (posted_entries (pd_events p)))) =
    trial_balance (db_membership db) (db_balances db) j c l"
proof -
  let ?mt = "db_membership db" and ?es = "filter (\<lambda>e. e_journal_id e = j \<and> e_currency e = c) (posted_entries (pd_events p))"
  let ?inline = "\<lambda>e. inline_account ?mt (e_account_id e)"
  have flagged: "sets_flagged ?mt" using from_db by (simp add: posts_from_def)
  have "trial_balance ?mt (db_balances (pd_db p)) j c l =
      trial_balance ?mt (db_balances db) j c l + sides_net l (filter ?inline ?es)"
  proof (rule trial_balance_moves)
    show "stored (db_balances (pd_db p)) (j, a, c) =
        chain_end (next_snapshot (posting_time env) a) (stored (db_balances db) (j, a, c))
          (filter (\<lambda>e. e_account_id e = a) (filter ?inline ?es))" if leaf: "leaf_account ?mt a" for a
    proof -
      have "filter (\<lambda>e. e_account_id e = a) (filter ?inline ?es) =
          (if inline_account ?mt a then filter (\<lambda>e. e_account_id e = a) ?es else [])"
        by (auto simp: filter_empty_conv intro: filter_cong)
      then show ?thesis
        by (simp add: stored_posted[OF from_db run versions room] leaf_reaches[OF flagged leaf])
    qed
    show "leaf_account ?mt (e_account_id e)" if "e \<in> set (filter ?inline ?es)" for e
      using posted_entry_facts(1)[OF run order, of e] that by (auto simp: leaf_account_def)
  qed
  then show ?thesis
    using sides_net_split[of l ?inline ?es] posted_entry_facts(2)[OF run order, of l j c] by (simp add: add.assoc)
qed

section \<open>Account sets as sums\<close>

text \<open>When a set and its members are inline, posting keeps its balance the sum of theirs.\<close>

lemma set_sum_posted:
  fixes env :: "'d::linordered_ab_group_add posting_env"
  assumes from_db: "posts_from env snapshot db"
    and run: "post_all_in_op env snapshot cache db batch = (cache', Some (Inr p))"
    and order: "\<And>k i m. set (pe_hash_order (pn_prepare env k i) m) = set m"
    and versions: "rows_versioned (db_balances db)"
    and room: "has_version_room (db_balances db) (length (posted_entries (pd_events p)))"
    and set_row: "mt_account_sets (db_membership db) s = Some j" "inline_account (db_membership db) (account_of_set s)"
    and below: "\<And>a. s \<in> sets_in (db_membership db) j a \<Longrightarrow> leaf_account (db_membership db) a \<and> inline_account (db_membership db) a"
    and before: "base_amount d l (stored (db_balances db) (j, account_of_set s, c)) =
      (\<Sum>a | s \<in> sets_in (db_membership db) j a. base_amount d l (stored (db_balances db) (j, a, c)))"
  shows "base_amount d l (stored (db_balances (pd_db p)) (j, account_of_set s, c)) =
    (\<Sum>a | s \<in> sets_in (db_membership db) j a. base_amount d l (stored (db_balances (pd_db p)) (j, a, c)))"
proof -
  let ?mt = "db_membership db" and ?es = "filter (\<lambda>e. e_journal_id e = j \<and> e_currency e = c) (posted_entries (pd_events p))"
  let ?M = "{a. s \<in> sets_in ?mt j a}" and ?total = "Snapshots.side_total d l"
  let ?below = "filter (\<lambda>e. e_account_id e \<in> ?M) ?es"
  have flagged: "sets_flagged ?mt" using from_db by (simp add: posts_from_def)
  have "?M \<subseteq> snd ` set (mt_member_accounts ?mt)" by (force simp: sets_in_def ancestor_sets_def)
  then have fin: "finite ?M" by (rule finite_subset) simp
  have "account_of_set s \<noteq> e_account_id e" if "e \<in> set ?es" for e
    using posted_entry_facts(1)[OF run order, of e] that set_row(1) flagged by (force simp: sets_flagged_def)
  then have reach: "filter (reaches ?mt (j, account_of_set s, c)) (posted_entries (pd_events p)) = ?below"
    unfolding filter_filter by (intro filter_cong) (auto simp: reaches_def)
  have "(\<Sum>a \<in> ?M. base_amount d l (stored (db_balances (pd_db p)) (j, a, c))) =
      (\<Sum>a \<in> ?M. base_amount d l (stored (db_balances db) (j, a, c)) + ?total (filter (\<lambda>e. e_account_id e = a) ?below))"
  proof (rule sum.cong[OF refl])
    fix a assume a: "a \<in> ?M"
    have "filter (\<lambda>e. e_account_id e = a) ?below = filter (\<lambda>e. e_account_id e = a) ?es"
      unfolding filter_filter using a by (intro filter_cong) auto
    then show "base_amount d l (stored (db_balances (pd_db p)) (j, a, c)) =
        base_amount d l (stored (db_balances db) (j, a, c)) + ?total (filter (\<lambda>e. e_account_id e = a) ?below)"
      using below[of a] a
      by (simp add: stored_posted[OF from_db run versions room] leaf_reaches[OF flagged] chain_end_amount)
  qed
  also have "\<dots> = base_amount d l (stored (db_balances db) (j, account_of_set s, c)) + ?total ?below"
    unfolding sum.distrib before using total_by_account[of ?total ?M ?below, OF _ _ fin] by auto
  finally show ?thesis
    by (simp add: stored_posted[OF from_db run versions room] set_row(2) reach chain_end_amount)
qed

end
