(* ===== verification/Posting_Guards.thy ===== *)
theory Posting_Guards imports Posting_Books begin

text \<open>
  The guards of the posting flow: the locks that cover everything it writes, and the first fault
  of a batch, stated over the tables instead of over what the flow has read of them.
\<close>

section \<open>Locks\<close>

lemma fence_covers:
  assumes "(j, a, c) \<in> set keys" and "inline_account mt a"
  shows "AttachFence a \<in> set (fence_locks mt keys) \<and> BalanceLock (j, a, c) \<in> set (fence_locks mt keys)"
  using assms by (fastforce simp: fence_locks_def inline_account_def split: option.splits)

lemma written_is_locked:
  fixes env :: "'d::linordered_ab_group_add posting_env"
  assumes from_db: "posts_from env snapshot db"
    and run: "post_all_in_op env snapshot cache db batch = (cache', Some (Inr p))"
    and written: "rows_of (j, a, c) (bt_history (db_balances (pd_db p))) \<noteq> rows_of (j, a, c) (bt_history (db_balances db))"
  shows "BalanceLock (j, a, c) \<in> set (pd_locks p)"
proof (cases "batch = []")
  case True
  then show ?thesis using run written by (auto simp: post_all_in_op_def)
next
  case False
  let ?mt = "db_membership db"
  obtain prepared k ts mappings read locks where
    prep: "prepare_all env k batch ts = Some (Inr prepared)" and
    res: "resolve_ancestors env snapshot db prepared (read_for db prepared) = Inr (mappings, read, locks)" and
    evs: "pd_events p = posting_payloads (postings_of env prepared)" and
    held: "set (fence_locks ?mt (entry_balance_keys prepared)) \<union> set locks \<subseteq> set (pd_locks p)"
    by (rule post_all_run[OF run False]) blast
  let ?es = "concat (map snd (postings_of env prepared))"
  have "filter (reaches ?mt (j, a, c)) ?es \<noteq> []" and inline: "inline_account ?mt a"
    using posted_balances[OF from_db run, of j a c] written by (auto simp: evs posted_entries_payloads split: if_splits)
  then obtain e' where e': "e' \<in> set ?es" "reaches ?mt (j, a, c) e'" by (auto simp: filter_empty_conv)
  have "journal_entries (postings_of env prepared) j = filter (\<lambda>e. e_journal_id e = j) ?es"
    by (rule journal_entries_filter) (rule postings_journals[OF prep])
  then have "e' \<in> set (map new_entry_values (entries_in prepared j))"
    using e' unfolding journal_entries_map[symmetric, where env = env] by (auto simp: reaches_def)
  then obtain e where e: "e \<in> set (entries_in prepared j)" and new: "e' = new_entry_values e" by auto
  have ready: "ready env snapshot db prepared (accounts_of prepared) (entry_balance_keys prepared)"
    using from_db entries_covered store_ok_keyed by (auto simp: posts_from_def ready_def)
  have c: "ne_currency e = c" using e'(2) by (simp add: reaches_def new new_entry_values_def)
  consider (own) "a = ne_account_id e" | (set) s where "a = account_of_set s" "s \<in> sets_in ?mt j (ne_account_id e)"
    using e'(2) by (auto simp: reaches_def new new_entry_values_def)
  then show ?thesis
  proof cases
    case own
    then show ?thesis using entries_covered[OF e] fence_covers[OF _ inline] held c by blast
  next
    case (set s)
    let ?pairs = "journal_pairs (pn_pair_order env) prepared j"
    let ?ans = "answer env snapshot db (read_for db prepared) prepared j"
    obtain A where "fst ` set ?pairs \<subseteq> A" and r: "resolves ?mt j A ?pairs ?ans"
      using answer_resolves[OF ready e, of "journals_of prepared"] unfolding read_for_def by blast
    moreover have pair: "(ne_account_id e, c) \<in> set ?pairs" using e c unfolding pairs_set[OF ready] by auto
    ultimately have "ne_account_id e \<in> A" by force
    then have "s \<in> set (get_list (map_of (fst ?ans)) (ne_account_id e))" using r set(2) by (simp add: resolves_def sets_in_def)
    then have own: "(ne_account_id e, c) \<in> set ?pairs \<and> s \<in> set (get_list (map_of (fst ?ans)) (ne_account_id e)) \<and>
        inline_set ?mt j s"
      using inline set pair by (auto simp: inline_set_def sets_in_def inline_account_def split: option.splits)
    have "snd ?ans = sort_dedup (concat (map (\<lambda>(a, c). map (\<lambda>s. (s, c))
         (filter (inline_set ?mt j) (get_list (map_of (fst ?ans)) a))) ?pairs))"
      using r unfolding resolves_def by blast
    then have "set (snd ?ans) = set (concat (map (\<lambda>(a, c). map (\<lambda>s. (s, c))
         (filter (inline_set ?mt j) (get_list (map_of (fst ?ans)) a))) ?pairs))"
      by (metis set_sort_dedup)
    then have sc: "(s, c) \<in> set (snd ?ans)" unfolding lock_rows fst_conv snd_conv
      using own lock_rows[of "(s, c)" "inline_set ?mt j" "get_list (map_of (fst ?ans))" ?pairs] by auto
    have locks: "locks = concat (map (\<lambda>j. map (\<lambda>(s, c). BalanceLock (j, account_of_set s, c))
         (snd (answer env snapshot db (read_for db prepared) prepared j))) (journals_of prepared))"
      using resolve_ancestors_ok(7)[OF ready res[unfolded read_for_def]] unfolding read_for_def .
    have "BalanceLock (j, a, c) \<in> (\<lambda>(s, c). BalanceLock (j, account_of_set s, c)) ` set (snd ?ans)"
      by (rule image_eqI[of _ _ "(s, c)"]) (simp_all add: set(1) sc)
    with entry_journal[OF e] have "BalanceLock (j, a, c) \<in> set locks"
      unfolding locks set_concat set_map image_image by (rule UN_I)
    then show ?thesis using held by blast
  qed
qed

section \<open>Faults\<close>

definition entry_fault :: "membership_tables \<Rightarrow> 'd new_entry \<Rightarrow> 'd rejection_reason option" where
  "entry_fault mt e =
     (case mt_accounts mt (ne_account_id e) of
        None \<Rightarrow> Some (AccountNotFound (ne_account_id e))
      | Some r \<Rightarrow> if ac_is_account_set r then Some (EntryTargetsAccountSet (ne_account_id e))
                  else if ac_status r = Locked then Some (RejectedAccountLocked (ne_account_id e))
                  else None)"

definition first_fault :: "('a \<Rightarrow> 'r option) \<Rightarrow> 'a list \<Rightarrow> 'r option" where
  "first_fault f xs = (case List.map_filter f xs of [] \<Rightarrow> None | r # _ \<Rightarrow> Some r)"

lemma first_fault_simps [simp]:
  "first_fault f [] = None"
  "first_fault f (x # xs) = (case f x of Some r \<Rightarrow> Some r | None \<Rightarrow> first_fault f xs)"
  by (auto simp: first_fault_def List.map_filter_simps split: option.split)

text \<open>The journal of a posting first, then its entries in order.\<close>

definition posting_fault :: "'d ledger_db \<Rightarrow> 'd prepared_transaction \<Rightarrow> 'd rejection_reason option" where
  "posting_fault db p =
     (case latest (rows_of (pt_journal_id p) (db_journals db)) of
        None \<Rightarrow> Some (JournalNotFound (pt_journal_id p))
      | Some (_, journal) \<Rightarrow>
          if jv_status journal = Locked then Some (RejectedJournalLocked (pt_journal_id p))
          else first_fault (entry_fault (db_membership db)) (pt_entries p))"

definition faultless :: "'r option \<Rightarrow> 'r + unit" where
  "faultless f = (case f of None \<Rightarrow> Inr () | Some r \<Rightarrow> Inl r)"

lemma faultless_simps [simp]:
  "faultless None = Inr ()" "faultless (Some r) = Inl r"
  "faultless f = Inl r \<longleftrightarrow> f = Some r" "faultless f = Inr u \<longleftrightarrow> f = None"
  by (auto simp: faultless_def split: option.split)

lemma rfold_faults:
  assumes "\<And>x. x \<in> set xs \<Longrightarrow> g x = faultless (f x)"
  shows "rfold (\<lambda>_ x. g x) () xs = faultless (first_fault f xs)"
  using assms by (induction xs) (auto split: option.split)

lemma validate_posting_fault:
  assumes "p \<in> set prepared"
  shows "validate_posting (read_for db prepared) p = faultless (posting_fault db p)"
proof -
  have "validate_entry_account (read_for db prepared) e = faultless (entry_fault (db_membership db) e)"
    if "e \<in> set (pt_entries p)" for e
  proof -
    have "ne_account_id e \<in> set (accounts_of prepared)" using assms that by (auto simp: accounts_of_def)
    then show ?thesis
      by (auto simp: validate_entry_account_def entry_fault_def read_for_def read_posting_state_def Let_def
          read_accounts_facts account_facts_def account_meta_of_def split: option.split)
  qed
  from rfold_faults[OF this] have "rfold (\<lambda>_ entry. validate_entry_account (read_for db prepared) entry) () (pt_entries p) =
      faultless (first_fault (entry_fault (db_membership db)) (pt_entries p))" .
  moreover have "pt_journal_id p \<in> set (journals_of prepared)" using assms by (auto simp: journals_of_def)
  then have "ps_journals (read_for db prepared) (pt_journal_id p) = map_option snd (latest (rows_of (pt_journal_id p) (db_journals db)))"
    by (simp add: read_for_def read_posting_state_def Let_def)
  ultimately show ?thesis
    by (auto simp: validate_posting_def posting_fault_def split: option.split)
qed

lemma rfold_enumerate:
  assumes "rfold (\<lambda>_ (i, p). map_err (F i) (g p)) () (enumerate n ps) = Inl e"
  shows "\<exists>i < length ps. \<exists>r. g (ps ! i) = Inl r \<and> e = F (n + i) r \<and> (\<forall>m < i. g (ps ! m) = Inr ())"
  using assms
proof (induction ps arbitrary: n)
  case (Cons p ps)
  show ?case
  proof (cases "g p")
    case (Inl r)
    then show ?thesis using Cons.prems by (intro exI[of _ 0]) simp
  next
    case (Inr u)
    with Cons.prems have "rfold (\<lambda>_ (i, p). map_err (F i) (g p)) () (enumerate (Suc n) ps) = Inl e" by simp
    from Cons.IH[OF this] obtain i r where "i < length ps" "g (ps ! i) = Inl r" "e = F (Suc n + i) r" "\<forall>m < i. g (ps ! m) = Inr ()"
      by blast
    then show ?thesis using Inr by (intro exI[of _ "Suc i"]) (auto simp: nth_Cons split: nat.split)
  qed
qed simp

lemma validate_Inl:
  assumes "validate batch prepared (read_for db prepared) = Inl e"
  shows "\<exists>i < length prepared. \<exists>r. posting_fault db (prepared ! i) = Some r \<and> e = Rejected i (pi_tx_id (batch ! i)) r \<and>
    (\<forall>m < i. posting_fault db (prepared ! m) = None)"
proof -
  have "rfold (\<lambda>_ (i, p). map_err (Rejected i (pi_tx_id (batch ! i))) (validate_posting (read_for db prepared) p)) ()
      (enumerate 0 prepared) = Inl e" using assms by (simp add: validate_def)
  from rfold_enumerate[OF this] obtain i r where "i < length prepared"
    "validate_posting (read_for db prepared) (prepared ! i) = Inl r" "e = Rejected i (pi_tx_id (batch ! i)) r"
    "\<forall>m < i. validate_posting (read_for db prepared) (prepared ! m) = Inr ()" by auto
  then show ?thesis by (auto simp: validate_posting_fault)
qed

section \<open>Faults of a preparation\<close>

text \<open>What is wrong with a posting, given those prepared before it.\<close>

definition preparation_fault ::
  "'d::linordered_ab_group_add posting_env \<Rightarrow> nat \<Rightarrow> (string \<times> resolved_template) list \<Rightarrow> 'd prepared_transaction list
     \<Rightarrow> nat \<Rightarrow> 'd posting_input \<Rightarrow> 'd rejection_reason option" where
  "preparation_fault env k ts before i input =
     (case map_of ts (pi_tx_template_code input) of
        None \<Rightarrow> None
      | Some t \<Rightarrow>
          (case prepare_transaction (pn_prepare env k i) (pn_clock env k i) (pi_tx_id input) (rt_values t) (pi_params input) of
             Inl e \<Rightarrow> Some (TxTemplate e)
           | Inr p \<Rightarrow>
               if pt_tx_id p \<in> pt_tx_id ` set before then Some (DuplicateTransactionIdInBatch (pt_tx_id p))
               else (case pt_external_id p of
                       None \<Rightarrow> None
                     | Some x \<Rightarrow> if Some x \<in> pt_external_id ` set before then Some (DuplicateExternalIdInBatch x) else None)))"

definition seen :: "'d prepared_transaction list \<Rightarrow> 'd preparation" where
  "seen ps = (ps, pt_tx_id ` set ps, {x. Some x \<in> pt_external_id ` set ps})"

lemma prepare_one_seen:
  "prepare_one (pn_prepare env k) (pn_clock env k) ts (seen ps) (i, input) = Some r \<Longrightarrow>
     (case preparation_fault env k ts ps i input of
        Some reason \<Rightarrow> r = Inl (Rejected i (pi_tx_id input) reason)
      | None \<Rightarrow> \<exists>p. r = Inr (seen (ps @ [p])))"
  by (auto simp: prepare_one_def preparation_fault_def seen_def Let_def image_iff split: option.splits sum.splits if_splits)
    (metis option.inject)

lemma prepare_fold_Inl:
  assumes "pfold (prepare_one (pn_prepare env k) (pn_clock env k) ts) (seen ps) (enumerate n xs) = Some (Inl e)"
  shows "\<exists>i < length xs. \<exists>before r. length before = length ps + i \<and> take (length ps) before = ps \<and>
    pfold (prepare_one (pn_prepare env k) (pn_clock env k) ts) (seen ps) (enumerate n (take i xs)) = Some (Inr (seen before)) \<and>
    preparation_fault env k ts before (n + i) (xs ! i) = Some r \<and> e = Rejected (n + i) (pi_tx_id (xs ! i)) r"
  using assms
proof (induction xs arbitrary: n ps)
  case (Cons x xs)
  let ?f = "prepare_one (pn_prepare env k) (pn_clock env k) ts"
  from Cons.prems obtain r where r: "?f (seen ps) (n, x) = Some r"
    by (cases "?f (seen ps) (n, x)") auto
  show ?case
  proof (cases "preparation_fault env k ts ps n x")
    case (Some reason)
    then have "r = Inl (Rejected n (pi_tx_id x) reason)" using prepare_one_seen[OF r] by simp
    then have "e = Rejected n (pi_tx_id x) reason" using Cons.prems r by simp
    then show ?thesis using Some by (intro exI[of _ 0]) auto
  next
    case None
    then obtain p where p: "r = Inr (seen (ps @ [p]))" using prepare_one_seen[OF r] by auto
    then have "pfold ?f (seen (ps @ [p])) (enumerate (Suc n) xs) = Some (Inl e)" using Cons.prems r by simp
    from Cons.IH[OF this] obtain i before reason where
      i: "i < length xs" "length before = length (ps @ [p]) + i" "take (length (ps @ [p])) before = ps @ [p]"
      "pfold ?f (seen (ps @ [p])) (enumerate (Suc n) (take i xs)) = Some (Inr (seen before))"
      "preparation_fault env k ts before (Suc n + i) (xs ! i) = Some reason" "e = Rejected (Suc n + i) (pi_tx_id (xs ! i)) reason"
      by blast
    have "take (length ps) before = take (length ps) (take (length (ps @ [p])) before)" by simp
    also have "\<dots> = ps" unfolding i(3) by simp
    finally show ?thesis using i r p by (intro exI[of _ "Suc i"]) auto
  qed
qed simp

lemma prepare_all_Inl:
  assumes "prepare_all env k batch ts = Some (Inl e)"
  shows "\<exists>i < length batch. \<exists>before r. prepare_all env k (take i batch) ts = Some (Inr before) \<and> length before = i \<and>
    preparation_fault env k ts before i (batch ! i) = Some r \<and> e = Rejected i (pi_tx_id (batch ! i)) r"
proof -
  have "pfold (prepare_one (pn_prepare env k) (pn_clock env k) ts) (seen []) (enumerate 0 batch) = Some (Inl e)"
    using assms by (auto simp: prepare_all_def seen_def pbind_def split: option.splits sum.splits)
  from prepare_fold_Inl[OF this] obtain i before r where
    i: "i < length batch" "length before = i"
    "pfold (prepare_one (pn_prepare env k) (pn_clock env k) ts) (seen []) (enumerate 0 (take i batch)) = Some (Inr (seen before))"
    "preparation_fault env k ts before i (batch ! i) = Some r" "e = Rejected i (pi_tx_id (batch ! i)) r" by auto
  then show ?thesis by (intro exI[of _ i] conjI exI[of _ before] exI[of _ r]) (auto simp: prepare_all_def seen_def)
qed

section \<open>Where a rejection comes from\<close>

lemma pbind_Inl_iff:
  "pbind r f = Some (Inl e) \<longleftrightarrow> r = Some (Inl e) \<or> (\<exists>a. r = Some (Inr a) \<and> f a = Some (Inl e))"
  by (auto simp: pbind_def split: option.split sum.split)

lemma pfold_Inl: "pfold f s xs = Some (Inl e) \<Longrightarrow> \<exists>s' x. f s' x = Some (Inl e)"
  by (induction xs arbitrary: s) (auto simp: pbind_Inl_iff)

lemma rfold_Inl: "rfold f s xs = Inl e \<Longrightarrow> \<exists>s' x. f s' x = Inl e"
  by (induction xs arbitrary: s) (auto simp: rbind_Inl_iff)

lemma insert_never_rejects: "insert_postings_and_balances db rows ss = Inl e \<Longrightarrow> e = DuplicateKey \<or> e = PostSqlx"
  by (auto simp: insert_postings_and_balances_def insert_snapshots_def Let_def rbind_Inl_iff dest!: rfold_Inl split: if_splits)

lemma update_effective_never_rejects:
  "update_effective_balances env db ps read mappings now = Some (Inl e) \<Longrightarrow> \<exists>b. e = BalanceError b"
  by (auto simp: update_effective_balances_def update_group_def pbind_Inl_iff Let_def map_err_Inl_iff dest!: pfold_Inl
      split: if_splits)

lemma resolve_never_rejects: "resolve_ancestors env snapshot db prepared read = Inl e \<Longrightarrow> \<exists>b. e = BalanceError b"
  by (auto simp: resolve_ancestors_def Let_def split: if_splits option.splits)

lemma apply_fenced_rejects:
  fixes env :: "'d::linordered_ab_group_add posting_env" and fn :: "'d fenced"
  assumes "apply_fenced env snapshot db batch fn = Some (Inl (Rejected i tid r))"
    and "fn_keys fn = entry_balance_keys (fn_prepared fn)"
  shows "validate batch (fn_prepared fn) (read_for db (fn_prepared fn)) = Inl (Rejected i tid r)"
  using assms(1)
  by (auto simp: apply_fenced_def Let_def pbind_Inl_iff push_postings_total assms(2) map_err_Inl_iff
      read_for_def[symmetric, unfolded accounts_of_def]
      dest!: insert_never_rejects update_effective_never_rejects resolve_never_rejects)

lemma post_all_rejects:
  fixes env :: "'d::linordered_ab_group_add posting_env"
  assumes "post_all_in_op env snapshot cache db batch = (cache', Some (Inl (Rejected i tid r)))"
  shows "(\<exists>k ts. prepare_all env k batch ts = Some (Inl (Rejected i tid r))) \<or>
    (\<exists>k ts prepared. prepare_all env k batch ts = Some (Inr prepared) \<and>
       validate batch prepared (read_for db prepared) = Inl (Rejected i tid r))"
proof -
  have "batch \<noteq> []" using assms by (auto simp: post_all_in_op_def)
  with assms consider (early) k ts where "prepare_all env k batch ts = Some (Inl (Rejected i tid r))"
    | (late) used c1 c2 p0 fenced where "prepare_all env 0 batch used = Some (Inr p0)"
        "fence env db c1 batch (sort_dedup (map pi_tx_template_code batch)) used p0 = (c2, fenced)"
        "pbind fenced (apply_fenced env snapshot db batch) = Some (Inl (Rejected i tid r))"
    by (auto simp: post_all_in_op_def Let_def case_prod_unfold prod_eq_iff split: sum.splits option.splits)
  then show ?thesis
  proof cases
    case late
    consider (fenced) "fenced = Some (Inl (Rejected i tid r))"
      | (applied) fn where "fenced = Some (Inr fn)" "apply_fenced env snapshot db batch fn = Some (Inl (Rejected i tid r))"
      using late(3) by (auto simp: pbind_Inl_iff)
    then show ?thesis
    proof cases
      case fenced
      then show ?thesis using late(2)
        by (auto simp: fence_def Let_def case_prod_unfold pbind_Inl_iff split: if_splits sum.splits)
    next
      case applied
      then show ?thesis using fence_Inr[OF late(2)[unfolded applied(1)] late(1)] apply_fenced_rejects[OF applied(2)] by blast
    qed
  qed blast
qed

section \<open>The fence\<close>

text \<open>A batch with too many balances is refused before anything is locked.\<close>

lemma fence_refuses:
  "length (entry_balance_keys prepared) > MAX_DISTINCT_BALANCES_PER_BATCH \<Longrightarrow>
     fence env db cache batch codes used prepared =
       (cache, Some (Inl (BatchTooManyAccounts (length (entry_balance_keys prepared)) MAX_DISTINCT_BALANCES_PER_BATCH)))"
  by (simp add: fence_def Let_def)

end
