(* ===== verification/Posting_Sample.thy ===== *)
theory Posting_Sample imports Posting_Books begin

text \<open>A ledger for the examples: two accounts of one journal, the first a member of a set.\<close>

definition plain_account :: "uuid \<Rightarrow> account_set_id option \<Rightarrow> new_account" where
  "plain_account u s =
     \<lparr> na_id = AccountId u, na_code = (if u = 9 then ''nine'' else ''five''), na_name = ''account'', na_external_id = None,
       na_normal_balance_type = Debit, na_status = Active, na_eventually_consistent = False,
       na_is_account_set = False, na_velocity_context_values = None, na_description = None,
       na_metadata = None, na_initial_account_set = s \<rparr>"

definition inline_row :: "bool \<Rightarrow> account_row" where
  "inline_row s = \<lparr> ac_normal_balance_type = Debit, ac_eventually_consistent = False, ac_is_account_set = s, ac_status = Active \<rparr>"

definition post_membership :: membership_tables where
  "post_membership =
     \<lparr> mt_accounts = [AccountId 2 \<mapsto> inline_row True, AccountId 9 \<mapsto> inline_row False, AccountId 5 \<mapsto> inline_row False],
       mt_account_sets = [AccountSetId 2 \<mapsto> JournalId 7],
       mt_member_accounts = [(AccountSetId 2, AccountId 9)], mt_member_sets = [], mt_graph_epoch = 0 \<rparr>"

definition post_execute :: "int engine" where
  "post_execute source vars fs =
     (if source = ''journal'' then Inr (VUuid 7) else if source = ''nine'' then Inr (VUuid 9)
      else if source = ''five'' then Inr (VUuid 5) else if source = ''date'' then Inr (VTimestamp 432000 0)
      else if source = ''units'' then Inr (VDecimal 5) else Inr (VString source))"

definition post_cel :: "int cel_env" where
  "post_cel = sample_env \<lparr> env_execute := post_execute \<rparr>"

definition post_prep :: "nat \<Rightarrow> int prep_env" where
  "post_prep i =
     \<lparr> pe_cel = post_cel, pe_iso_find = (\<lambda>s. if s = ''USD'' then Some s else None),
       pe_crypto_find = (\<lambda>s. None), pe_debug_currency_error = (\<lambda>e. ''error''),
       pe_new_entry_id = (\<lambda>n. EntryId (of_nat (10 * i + n))), pe_hash_order = (\<lambda>m. m) \<rparr>"

definition post_leg :: "string \<Rightarrow> string \<Rightarrow> tx_template_entry" where
  "post_leg account dir =
     \<lparr> te_entry_type = ''T'', te_account_id = account, te_layer = ''SETTLED'', te_direction = dir, te_units = ''units'',
       te_currency = ''USD'', te_description = None, te_metadata = None \<rparr>"

definition post_template :: tx_template_values where
  "post_template =
     \<lparr> tmpl_id = TxTemplateId 1, tmpl_version = 1, tmpl_code = ''MOVE'', tmpl_params = None,
       tmpl_transaction = \<lparr> tt_effective = ''date'', tt_journal_id = ''journal'',
         tt_correlation_id = None, tt_external_id = None, tt_description = None, tt_metadata = None \<rparr>,
       tmpl_entries = [post_leg ''nine'' ''DEBIT'', post_leg ''five'' ''CREDIT''],
       tmpl_description = None, tmpl_metadata = None \<rparr>"

definition post_env :: "int posting_env" where
  "post_env =
     \<lparr> pn_prepare = (\<lambda>_. post_prep), pn_clock = (\<lambda>_ _. 0), pn_lib = sample_lib,
       pn_velocity = \<lparr> ve_cel = post_cel, ve_clock = 0, ve_show_json = (\<lambda>_. ''j''), ve_hash_order = (\<lambda>m. m) \<rparr>,
       pn_manual_now = None, pn_transaction_now = 11, pn_pair_order = (\<lambda>ps. ps) \<rparr>"

definition post_journal :: "status \<Rightarrow> journal_values" where
  "post_journal s =
     \<lparr> jv_id = JournalId 7, jv_version = 1, jv_name = ''j'', jv_code = None, jv_status = s, jv_description = None,
       jv_config = \<lparr> jc_enable_effective_balances = True \<rparr> \<rparr>"

definition post_db :: "status \<Rightarrow> int ledger_db" where
  "post_db s =
     \<lparr> db_membership = post_membership, db_contexts = Map.empty, db_journals = [(JournalId 7, 1, post_journal s)],
       db_templates = \<lparr> tmt_templates = [(''MOVE'', TxTemplateId 1)], tmt_events = [(TxTemplateId 1, 1, post_template)] \<rparr>,
       db_account_controls = [], db_transactions = [], db_transaction_events = [], db_entries = [], db_entry_events = [],
       db_balances = \<lparr> bt_history = [], bt_current = [] \<rparr>, db_velocity = \<lparr> vt_history = [], vt_current = [] \<rparr>,
       db_effective = [] \<rparr>"

definition post_input :: "uuid \<Rightarrow> int posting_input" where
  "post_input u = \<lparr> pi_tx_id = TransactionId u, pi_tx_template_code = ''MOVE'', pi_params = Map.empty \<rparr>"

definition run_sample :: "status \<Rightarrow> int posting_input list \<Rightarrow> (int posting_error + int posted) option" where
  "run_sample s batch = snd (post_all_in_op post_env cold Map.empty (post_db s) batch)"

lemma run_posts:
  "case run_sample Active [post_input 1, post_input 2] of
     Some (Inr p) \<Rightarrow> map fst (rows_of (JournalId 7, AccountId 2, USD) (bt_history (db_balances (pd_db p)))) = [1, 2] \<and>
         map e_account_id (posted_entries (pd_events p)) = [AccountId 9, AccountId 5, AccountId 9, AccountId 5]
   | _ \<Rightarrow> False"
  by code_simp

lemma run_rejects:
  "case run_sample Locked [post_input 1, post_input 2] of
     Some (Inl e) \<Rightarrow> e = Rejected 0 (TransactionId 1) (RejectedJournalLocked (JournalId 7)) | _ \<Rightarrow> False"
  by code_simp

lemma sample_run:
  "\<exists>c p. post_all_in_op post_env cold Map.empty (post_db Active) [post_input 1, post_input 2] = (c, Some (Inr p)) \<and>
     map fst (rows_of (JournalId 7, AccountId 2, USD) (bt_history (db_balances (pd_db p)))) = [1, 2] \<and>
     map e_account_id (posted_entries (pd_events p)) = [AccountId 9, AccountId 5, AccountId 9, AccountId 5]"
  using run_posts unfolding run_sample_def
  by (cases "post_all_in_op post_env cold Map.empty (post_db Active) [post_input 1, post_input 2]")
    (auto split: option.splits sum.splits)

lemma sample_rejected:
  "\<exists>c. post_all_in_op post_env cold Map.empty (post_db Locked) [post_input 1, post_input 2] =
     (c, Some (Inl (Rejected 0 (TransactionId 1) (RejectedJournalLocked (JournalId 7)))))"
  using run_rejects unfolding run_sample_def
  by (cases "post_all_in_op post_env cold Map.empty (post_db Locked) [post_input 1, post_input 2]")
    (auto split: option.splits sum.splits)

lemma sample_start:
  "store_ok (db_balances (post_db s))"
  "db_balances (post_db s) = \<lparr> bt_history = [], bt_current = [] \<rparr>"
  "db_membership (post_db s) = post_membership"
  "pn_pair_order post_env ps = ps"
  "rows_of k (bt_history (db_balances (post_db s))) = []" "stored (db_balances (post_db s)) k = None"
  "db_entries (post_db s) = []"
  by (simp_all add: post_db_def post_env_def store_ok_empty rows_of_def stored_def)

text \<open>The tables are those of an operation that created the set and then the two accounts.\<close>

lemma sample_tables:
  "\<exists>lt1 e1 lt2 e2 lt3 e3. create_all_sets_in_op sample_id_string (lt_membership no_tables)
       (no_tables \<lparr> lt_journals := [JournalId 7] \<rparr>) [sample_set 2] = Some (Inr (lt1, e1)) \<and>
     create_account_in_op (lt_membership no_tables) lt1 (plain_account 9 (Some (AccountSetId 2))) = Some (Inr (lt2, e2)) \<and>
     create_account_in_op (lt_membership no_tables) lt2 (plain_account 5 None) = Some (Inr (lt3, e3)) \<and>
     lt_membership lt3 = post_membership"
  by (simp add: create_evals plain_account_def post_membership_def inline_row_def)

lemma created_world:
  assumes 1: "create_all_sets_in_op sample_id_string (lt_membership no_tables)
       (no_tables \<lparr> lt_journals := [JournalId 7] \<rparr>) sets = Some (Inr (lt1, e1))"
    and 2: "create_account_in_op (lt_membership no_tables) lt1 a = Some (Inr (lt2, e2))"
    and 3: "create_account_in_op (lt_membership no_tables) lt2 b = Some (Inr (lt3, e3))"
  shows "\<exists>(w :: set_world) lt. reachable sample_id_string (\<lambda>es. es) w \<and> lt \<in> views w \<and>
     lt_membership lt = lt_membership lt3 \<and> sw_snapshot w = cold"
proof -
  let ?step = "world_step sample_id_string (\<lambda>es. es)"
  let ?w = "\<lambda>lt. init_world \<lparr> sw_op := Some lt \<rparr>"
  note run = op_from_init[where id_string = sample_id_string and ord = "\<lambda>es. es"]
  have "?step init_world (?w no_tables)"
    unfolding no_tables_def by (rule op_begins) (simp add: init_world_def)
  then have "?step\<^sup>*\<^sup>* init_world (?w no_tables)" by simp
  from run[OF this op_step.journal_created[of _ _ _ _ _ "JournalId 7"]]
  have "?step\<^sup>*\<^sup>* init_world (?w (no_tables \<lparr> lt_journals := [JournalId 7] \<rparr>))" by (simp add: no_tables_def init_world_def)
  from run[OF run[OF run[OF this op_step.sets_created[OF 1]] op_step.account_created[OF 2]] op_step.account_created[OF 3]]
  have "reachable sample_id_string (\<lambda>es. es) (?w lt3)" by (simp add: reachable_def)
  moreover have "lt3 \<in> views (?w lt3)" "sw_snapshot (?w lt3) = cold" by (simp_all add: views_def init_world_def)
  ultimately show ?thesis by blast
qed

lemma sample_ledger:
  "\<exists>(w :: set_world) lt. reachable sample_id_string (\<lambda>es. es) w \<and> lt \<in> views w \<and> lt_membership lt = post_membership \<and>
     sw_snapshot w = cold"
  using sample_tables created_world by metis

end
