(* ===== verification/Posting_Theorems.thy ===== *)
theory Posting_Theorems imports Posting_Guards Posting_Sample begin

text \<open>
  The properties of the posting flow, in the reachable states of the account sets: what a posted
  batch does to the balances and the tables, that it keeps the books balanced, that everything it
  writes is locked, what a rejection says, and how the fence is bounded and ordered.
\<close>

lemma posts_from_reachable:
  fixes env :: "'d::linordered_ab_group_add posting_env"
  assumes "reachable id_string ord w" and "lt \<in> views w" and "db_membership db = lt_membership lt"
    and "store_ok (db_balances db)" and "\<And>ps. mset (pn_pair_order env ps) = mset ps"
  shows "posts_from env (sw_snapshot w) db"
  using reachable_view(2,5)[OF assms(1,2)] reachable_flagged[OF assms(1,2)] assms(3-5) by (simp add: posts_from_def)

section \<open>What a batch writes\<close>

text \<open>
  C1: Posting refines the ledger. In every reachable state, with the cached hierarchy of that
  state or none, a successful call appends to the history of every inline balance, account and
  set account alike, exactly the chain of the published entries that reach it, in order, from the
  balance that was stored: those of its journal and currency on the account itself or on an
  account anywhere below the set in the journal. The balance of an account that is rolled up
  later is not touched, and the store stays consistent.
\<close>

theorem posting_refines_ledger:
  fixes env :: "'d::linordered_ab_group_add posting_env"
  assumes "reachable id_string ord w" and "lt \<in> views w" and "db_membership db = lt_membership lt"
    and "store_ok (db_balances db)" and "\<And>ps. mset (pn_pair_order env ps) = mset ps"
    and "post_all_in_op env (sw_snapshot w) cache db batch = (cache', Some (Inr p))"
  shows "store_ok (db_balances (pd_db p)) \<and>
    rows_of (j, a, c) (bt_history (db_balances (pd_db p))) = rows_of (j, a, c) (bt_history (db_balances db)) @
      (if inline_account (lt_membership lt) a
       then map (\<lambda>s. (as_i32 (bs_version s), s))
         (chain (next_snapshot (posting_time env) a) (stored (db_balances db) (j, a, c))
           (filter (reaches (lt_membership lt) (j, a, c)) (posted_entries (pd_events p))))
       else [])"
  using posted_balances[OF posts_from_reachable[OF assms(1-5)] assms(6), of j a c] by (simp add: assms(3))

lemma posting_refines_ledger_witness:
  "\<exists>c p. post_all_in_op post_env cold Map.empty (post_db Active) [post_input 1, post_input 2] = (c, Some (Inr p)) \<and>
     map fst (rows_of (JournalId 7, AccountId 2, USD) (bt_history (db_balances (pd_db p)))) = [1, 2] \<and>
     map snd (rows_of (JournalId 7, AccountId 2, USD) (bt_history (db_balances (pd_db p)))) =
       chain (next_snapshot 11 (AccountId 2)) None
         (filter (reaches post_membership (JournalId 7, AccountId 2, USD)) (posted_entries (pd_events p)))"
proof -
  obtain w lt where w: "reachable sample_id_string (\<lambda>es. es) w" "lt \<in> views w" "lt_membership lt = post_membership"
    "sw_snapshot w = cold" using sample_ledger by blast
  obtain c p where run: "post_all_in_op post_env cold Map.empty (post_db Active) [post_input 1, post_input 2] = (c, Some (Inr p))"
    and rows: "map fst (rows_of (JournalId 7, AccountId 2, USD) (bt_history (db_balances (pd_db p)))) = [1, 2]"
    using sample_run by (elim exE conjE)
  have "posting_time post_env = 11" "inline_account post_membership (AccountId 2)"
    by (simp_all add: posting_time_def post_env_def inline_account_def post_membership_def inline_row_def)
  then show ?thesis
    using posting_refines_ledger[OF w(1,2), of "post_db Active" post_env Map.empty "[post_input 1, post_input 2]" c p
        "JournalId 7" "AccountId 2" USD] run rows
    by (simp add: w sample_start(1,3-7) comp_def)
qed

text \<open>
  C10: A batch is written whole and in order. A successful call appends one transaction row per
  input, under its id, and one row per published entry, and returns the transactions in the
  order of the inputs; the ids of the inputs are distinct.
\<close>

theorem posting_writes_the_batch:
  fixes env :: "'d::linordered_ab_group_add posting_env"
  assumes "store_ok (db_balances db)"
    and "post_all_in_op env snapshot cache db batch = (cache', Some (Inr p))"
  shows "map ent_id (pd_transactions p) = map pi_tx_id batch \<and> distinct (map pi_tx_id batch) \<and>
    db_transactions (pd_db p) = db_transactions db @ map (transaction_row_of \<circ> ent_values) (pd_transactions p) \<and>
    db_entries (pd_db p) = db_entries db @ map entry_row_of (posted_entries (pd_events p)) \<and>
    db_membership (pd_db p) = db_membership db"
proof (cases "batch = []")
  case True
  then show ?thesis using assms(2)
    by (auto simp: post_all_in_op_def posted_entries_def List.map_filter_simps)
next
  case False
  obtain prepared k ts mappings read vel db1 rows where
    prep: "prepare_all env k batch ts = Some (Inr prepared)" and
    ins: "insert_postings_and_balances (db \<lparr> db_velocity := vel \<rparr>) (stage no_rows (postings_of env prepared))
       (fold_balances (postings_of env prepared) read mappings (posting_time env)) = Inr db1" and
    db': "pd_db p = db1 \<lparr> db_effective := rows \<rparr>" and
    evs: "pd_events p = posting_payloads (postings_of env prepared)" and
    txs: "pd_transactions p = map hydrated_of (map (\<lambda>q. into_new_transaction (pn_lib env) q (posting_time env)) prepared)"
    by (rule post_all_run[OF assms(2) False]) blast
  have "map pt_tx_id prepared = map pi_tx_id batch"
    using prepare_all_Inr(1,2)[OF prep] prepared_entries(1) by (intro nth_equalityI) fastforce+
  moreover have "map ent_id (pd_transactions p) = map pt_tx_id prepared"
    by (simp add: txs hydrated_of_def into_new_transaction_def Let_def case_prod_unfold)
  moreover have "map (transaction_row_of \<circ> ent_values) (pd_transactions p) = map (transaction_row_of \<circ> fst) (postings_of env prepared)"
    by (simp add: txs hydrated_of_def postings_of_def posting_of_def)
  moreover have "store_ok (db_balances (db \<lparr> db_velocity := vel \<rparr>))" using assms(1) by simp
  ultimately show ?thesis
    using insert_postings_inserts(3,5,7)[OF ins] prepare_all_Inr(3)[OF prep]
    by (simp add: db' evs posted_entries_payloads stage_def no_rows_def)
qed

lemma posting_writes_the_batch_witness:
  "\<exists>c p. post_all_in_op post_env cold Map.empty (post_db Active) [post_input 1, post_input 2] = (c, Some (Inr p)) \<and>
     map ent_id (pd_transactions p) = [TransactionId 1, TransactionId 2] \<and>
     map en_account_id (db_entries (pd_db p)) = [AccountId 9, AccountId 5, AccountId 9, AccountId 5]"
proof -
  obtain c p where run: "post_all_in_op post_env cold Map.empty (post_db Active) [post_input 1, post_input 2] = (c, Some (Inr p))"
    and es: "map e_account_id (posted_entries (pd_events p)) = [AccountId 9, AccountId 5, AccountId 9, AccountId 5]"
    using sample_run by (elim exE conjE)
  have "map en_account_id (map entry_row_of (posted_entries (pd_events p))) = map e_account_id (posted_entries (pd_events p))"
    by (simp add: entry_row_of_def)
  then show ?thesis
    using posting_writes_the_batch[OF sample_start(1) run] run es by (simp add: sample_start post_input_def)
qed

section \<open>Safety\<close>

text \<open>
  C3: The books stay balanced. Whatever accounts a batch posts to, debits less credits, summed over
  the balances of all accounts that are no sets, in any journal, currency and layer, are after it
  what they were before, but for the net of its entries on eventually consistent accounts, which
  it leaves to the rollup; without such entries they are the same. The versions must have room.
\<close>

theorem posting_keeps_trial_balance:
  fixes env :: "'d::linordered_ab_group_add posting_env"
  assumes "reachable id_string ord w" and "lt \<in> views w" and "db_membership db = lt_membership lt"
    and "store_ok (db_balances db)" and "\<And>ps. mset (pn_pair_order env ps) = mset ps"
    and "\<And>k i m. set (pe_hash_order (pn_prepare env k i) m) = set m"
    and "post_all_in_op env (sw_snapshot w) cache db batch = (cache', Some (Inr p))"
    and "rows_versioned (db_balances db)"
    and "has_version_room (db_balances db) (length (posted_entries (pd_events p)))"
  shows "let es = filter (\<lambda>e. e_journal_id e = j \<and> e_currency e = c) (posted_entries (pd_events p));
             left = filter (\<lambda>e. \<not> inline_account (lt_membership lt) (e_account_id e)) es
         in trial_balance (lt_membership lt) (db_balances (pd_db p)) j c l + sides_net l left =
              trial_balance (lt_membership lt) (db_balances db) j c l \<and>
            (left = [] \<longrightarrow> trial_balance (lt_membership lt) (db_balances (pd_db p)) j c l =
              trial_balance (lt_membership lt) (db_balances db) j c l)"
proof -
  note moved = trial_balance_posted[OF posts_from_reachable[OF assms(1-5)] assms(7,6,8,9), of j c l, unfolded assms(3)]
  then show ?thesis using moved by (auto simp: Let_def sides_net_def)
qed

lemma posting_keeps_trial_balance_witness:
  "\<exists>c p. post_all_in_op post_env cold Map.empty (post_db Active) [post_input 1, post_input 2] = (c, Some (Inr p)) \<and>
     length (posted_entries (pd_events p)) = 4 \<and>
     trial_balance post_membership (db_balances (pd_db p)) (JournalId 7) USD Settled = 0"
proof -
  obtain w lt where w: "reachable sample_id_string (\<lambda>es. es) w" "lt \<in> views w" "lt_membership lt = post_membership"
    "sw_snapshot w = cold" using sample_ledger by blast
  obtain c p where run: "post_all_in_op post_env cold Map.empty (post_db Active) [post_input 1, post_input 2] = (c, Some (Inr p))"
    and es: "map e_account_id (posted_entries (pd_events p)) = [AccountId 9, AccountId 5, AccountId 9, AccountId 5]"
    using sample_run by (elim exE conjE)
  have "e_account_id e \<in> {AccountId 9, AccountId 5}" if "e \<in> set (posted_entries (pd_events p))" for e
    using arg_cong[OF es, of set] that by auto
  then have inline: "inline_account post_membership (e_account_id e)" if "e \<in> set (posted_entries (pd_events p))" for e
    using that by (auto simp: inline_account_def post_membership_def inline_row_def)
  have len: "length (posted_entries (pd_events p)) = 4" using arg_cong[OF es, of length] by simp
  have "trial_balance post_membership (db_balances (post_db Active)) (JournalId 7) USD Settled = 0"
    by (simp add: trial_balance_def sample_start)
  moreover have "rows_versioned (db_balances (post_db Active))" "has_version_room (db_balances (post_db Active)) 4"
    by (simp_all add: sample_start rows_versioned_def has_version_room_def)
  moreover have "set (pe_hash_order (pn_prepare post_env k i) m) = set m" for k i m by (simp add: post_env_def post_prep_def)
  ultimately show ?thesis
    using posting_keeps_trial_balance[OF w(1,2), of "post_db Active" post_env Map.empty "[post_input 1, post_input 2]" c p
        "JournalId 7" USD Settled] run inline len sample_start(1)
    by (auto simp: w sample_start(3,4) Let_def filter_empty_conv)
qed



text \<open>
  C6: Nothing is written without its lock. Every balance whose history a successful call has
  changed, on an account or on a set above one, is among the balances the call has locked.
\<close>

theorem written_balances_are_locked:
  fixes env :: "'d::linordered_ab_group_add posting_env"
  assumes "reachable id_string ord w" and "lt \<in> views w" and "db_membership db = lt_membership lt"
    and "store_ok (db_balances db)" and "\<And>ps. mset (pn_pair_order env ps) = mset ps"
    and "post_all_in_op env (sw_snapshot w) cache db batch = (cache', Some (Inr p))"
    and "rows_of k (bt_history (db_balances (pd_db p))) \<noteq> rows_of k (bt_history (db_balances db))"
  shows "BalanceLock k \<in> set (pd_locks p)"
  using written_is_locked[OF posts_from_reachable[OF assms(1-5)] assms(6), of "fst k" "fst (snd k)" "snd (snd k)"] assms(7)
  by simp

lemma written_balances_are_locked_witness:
  "\<exists>c p. post_all_in_op post_env cold Map.empty (post_db Active) [post_input 1, post_input 2] = (c, Some (Inr p)) \<and>
     BalanceLock (JournalId 7, AccountId 2, USD) \<in> set (pd_locks p)"
proof -
  obtain w lt where w: "reachable sample_id_string (\<lambda>es. es) w" "lt \<in> views w" "lt_membership lt = post_membership"
    "sw_snapshot w = cold" using sample_ledger by blast
  obtain c p where run: "post_all_in_op post_env cold Map.empty (post_db Active) [post_input 1, post_input 2] = (c, Some (Inr p))"
    and rows: "map fst (rows_of (JournalId 7, AccountId 2, USD) (bt_history (db_balances (pd_db p)))) = [1, 2]"
    using sample_run by (elim exE conjE)
  have "rows_of (JournalId 7, AccountId 2, USD) (bt_history (db_balances (pd_db p))) \<noteq> []" using rows by auto
  then show ?thesis
    using written_balances_are_locked[OF w(1,2), of "post_db Active" post_env Map.empty "[post_input 1, post_input 2]" c p
        "(JournalId 7, AccountId 2, USD)"] run
    by (simp add: w sample_start(1,3-7))
qed

section \<open>Rejections\<close>

text \<open>
  C7: A rejection names the first posting at fault, with its transaction id. Either all before it
  prepared and its preparation fails for the reason given, an error of the template or an id or
  external id already used in the batch; or all postings prepared, those before it pass
  validation against the stored journals and accounts, and it has the fault given.
\<close>

theorem rejection_names_first_failure:
  fixes env :: "'d::linordered_ab_group_add posting_env"
  assumes "post_all_in_op env snapshot cache db batch = (cache', Some (Inl (Rejected i tid r)))"
  shows "i < length batch \<and> tid = pi_tx_id (batch ! i) \<and>
    ((\<exists>k ts before. prepare_all env k (take i batch) ts = Some (Inr before) \<and>
        preparation_fault env k ts before i (batch ! i) = Some r) \<or>
     (\<exists>k ts prepared. prepare_all env k batch ts = Some (Inr prepared) \<and>
        map (posting_fault db) (take i prepared) = replicate i None \<and> posting_fault db (prepared ! i) = Some r))"
  using post_all_rejects[OF assms]
proof (elim disjE exE conjE)
  fix k ts assume "prepare_all env k batch ts = Some (Inl (Rejected i tid r))"
  from prepare_all_Inl[OF this] show ?thesis by blast
next
  fix k ts prepared
  assume prep: "prepare_all env k batch ts = Some (Inr prepared)"
    and "validate batch prepared (read_for db prepared) = Inl (Rejected i tid r)"
  from validate_Inl[OF this(2)] have i: "i < length prepared" "posting_fault db (prepared ! i) = Some r"
    "tid = pi_tx_id (batch ! i)" "\<forall>m < i. posting_fault db (prepared ! m) = None" by auto
  then have "map (posting_fault db) (take i prepared) = replicate i None" by (intro nth_equalityI) auto
  then show ?thesis using i prep prepare_all_Inr(1)[OF prep] by auto
qed

lemma rejection_names_first_failure_witness:
  "\<exists>c. post_all_in_op post_env cold Map.empty (post_db Locked) [post_input 1, post_input 2] =
      (c, Some (Inl (Rejected 0 (TransactionId 1) (RejectedJournalLocked (JournalId 7))))) \<and>
     (\<exists>k ts prepared. prepare_all post_env k [post_input 1, post_input 2] ts = Some (Inr prepared) \<and>
        posting_fault (post_db Locked) (prepared ! 0) = Some (RejectedJournalLocked (JournalId 7)))"
proof -
  obtain c where run: "post_all_in_op post_env cold Map.empty (post_db Locked) [post_input 1, post_input 2] =
      (c, Some (Inl (Rejected 0 (TransactionId 1) (RejectedJournalLocked (JournalId 7)))))"
    using sample_rejected by blast
  have "preparation_fault post_env k ts before 0 (post_input 1) \<noteq> Some (RejectedJournalLocked (JournalId 7))" for k ts before
    by (simp add: preparation_fault_def split: option.split sum.split)
  then show ?thesis using rejection_names_first_failure[OF run] run by auto
qed

section \<open>The fence\<close>

definition locked_balances :: "advisory_lock list \<Rightarrow> balance_id list" where
  "locked_balances locks = List.map_filter (\<lambda>l. case l of BalanceLock k \<Rightarrow> Some k | AttachFence _ \<Rightarrow> None) locks"

definition lock_rank :: "balance_id \<Rightarrow> account_id \<times> currency \<times> journal_id" where
  "lock_rank = (\<lambda>(j, a, c). (a, c, j))"

lemma inj_lock_rank: "inj lock_rank"
  by (auto simp: inj_def lock_rank_def)

lemma locked_balances_fence:
  "locked_balances (fence_locks mt keys) = filter (\<lambda>k. inline_account mt (fst (snd k))) (sort_key lock_rank keys)"
proof -
  let ?f = "\<lambda>(j, a, c). case mt_accounts mt a of None \<Rightarrow> []
      | Some acc \<Rightarrow> AttachFence a # (if ac_eventually_consistent acc then [] else [BalanceLock (j, a, c)])"
  have "locked_balances (concat (map ?f ks)) = filter (\<lambda>k. inline_account mt (fst (snd k))) ks" for ks
    by (induction ks) (auto simp: locked_balances_def List.map_filter_simps inline_account_def map_filter_append split: option.split)
  then show ?thesis by (simp add: fence_locks_def lock_rank_def)
qed

lemma fence_locks_length: "length (fence_locks mt keys) \<le> 2 * length keys"
proof -
  let ?f = "\<lambda>(j, a, c). case mt_accounts mt a of None \<Rightarrow> []
      | Some acc \<Rightarrow> AttachFence a # (if ac_eventually_consistent acc then [] else [BalanceLock (j, a, c)])"
  have "length (concat (map ?f ks)) \<le> 2 * length ks" for ks
    by (induction ks) (auto split: option.split)
  from this[of "sort_key lock_rank keys"] show ?thesis by (simp add: fence_locks_def lock_rank_def)
qed

definition balances_of :: "'d prepared_transaction list \<Rightarrow> balance_id set" where
  "balances_of prepared =
     {(pt_journal_id p, ne_account_id e, ne_currency e) |p e. p \<in> set prepared \<and> e \<in> set (pt_entries p)}"

lemma distinct_entry_balance_keys: "distinct (entry_balance_keys prepared)"
  by (auto simp: entry_balance_keys_def sorted_deduped_def distinct_map inj_on_def)

lemma balance_keys_of: "set (entry_balance_keys prepared) = balances_of prepared"
  by (simp add: set_entry_balance_keys balances_of_def)

lemma card_balances: "length (entry_balance_keys prepared) = card (balances_of prepared)"
  using distinct_card[OF distinct_entry_balance_keys[of prepared]] by (simp add: balance_keys_of)

text \<open>The locks of one statement: those on balances ascend, at most two locks a key, inline balances all.\<close>

definition fences :: "membership_tables \<Rightarrow> 'd prepared_transaction list \<Rightarrow> advisory_lock list \<Rightarrow> bool" where
  "fences mt prepared locks \<longleftrightarrow>
     sorted_wrt (\<lambda>k k'. lock_rank k < lock_rank k') (locked_balances locks) \<and>
     set (locked_balances locks) = {k \<in> balances_of prepared. inline_account mt (fst (snd k))} \<and>
     length locks \<le> 2 * card (balances_of prepared)"

lemma fence_locks_fences: "fences mt prepared (fence_locks mt (entry_balance_keys prepared))"
proof -
  let ?ks = "sort_key lock_rank (entry_balance_keys prepared)"
  have "distinct (map lock_rank ?ks)"
    using distinct_entry_balance_keys[of prepared] inj_lock_rank by (auto simp: distinct_map intro: inj_on_subset)
  then have "sorted_wrt (<) (map lock_rank ?ks)" by (simp add: strict_sorted_iff)
  then have "sorted_wrt (\<lambda>k k'. lock_rank k < lock_rank k') (locked_balances (fence_locks mt (entry_balance_keys prepared)))"
    unfolding locked_balances_fence by (auto simp: sorted_wrt_map intro: sorted_wrt_filter)
  then show ?thesis
    using fence_locks_length[of mt "entry_balance_keys prepared"]
    by (auto simp: fences_def locked_balances_fence balance_keys_of card_balances)
qed

lemma fence_returns:
  fixes env :: "'d::linordered_ab_group_add posting_env"
  assumes "fence env db cache batch codes used prepared = (cache', Some (Inr f))"
  defines "probed \<equiv> lo_template_versions (fst (lock_balances_and_probe_templates db (entry_balance_keys prepared) codes
      (pn_manual_now env) (pn_transaction_now env)))"
  shows "card (balances_of prepared) \<le> 1000"
    and "assert_up_to_date used probed = Inr () \<Longrightarrow>
      fn_prepared f = prepared \<and> fn_locks f = fence_locks (db_membership db) (entry_balance_keys prepared)"
    and "assert_up_to_date used probed \<noteq> Inr () \<Longrightarrow>
      fn_locks f = fence_locks (db_membership db) (entry_balance_keys prepared) @
        fence_locks (db_membership db) (entry_balance_keys (fn_prepared f))"
  using assms(1) unfolding probed_def
  by (auto simp: fence_def Let_def case_prod_unfold MAX_DISTINCT_BALANCES_PER_BATCH_def card_balances pbind_Inr_iff
      lock_balances_and_probe_templates_def split: if_splits sum.splits)

text \<open>
  C12: What the fence locks. More than 1000 distinct balances in the batch, and nothing else, are
  refused with their number before any lock is taken. When the fence returns, the locks it has
  taken begin with one statement's: at most two per distinct balance of the batch, hence at most
  2000, all its inline balances among them, and the balances ascend strictly by account, currency
  and journal. When no template moved, these are all. When one did, the balances of the batch as
  prepared again are locked on top, in the same order among themselves; the number of these is not
  limited by 1000. Either way every inline balance of the batch that will be applied is locked.
\<close>

theorem fence_is_bounded_and_ordered:
  fixes env :: "'d::linordered_ab_group_add posting_env" and prepared :: "'d prepared_transaction list"
  assumes "probed = lo_template_versions (fst (lock_balances_and_probe_templates db (entry_balance_keys prepared) codes
      (pn_manual_now env) (pn_transaction_now env)))"
  shows "(fence env db cache batch codes used prepared = (cache', Some (Inl (BatchTooManyAccounts n m))) \<longleftrightarrow>
      cache' = cache \<and> 1000 < card (balances_of prepared) \<and> n = card (balances_of prepared) \<and> m = 1000) \<and>
    (fence env db cache batch codes used prepared = (cache', Some (Inr f)) \<longrightarrow>
      (\<exists>first more. fn_locks f = first @ more \<and> fences (db_membership db) prepared first \<and> length first \<le> 2000 \<and>
         (if assert_up_to_date used probed = Inr () then fn_prepared f = prepared \<and> more = []
          else fences (db_membership db) (fn_prepared f) more) \<and>
         {k \<in> balances_of (fn_prepared f). inline_account (db_membership db) (fst (snd k))}
           \<subseteq> set (locked_balances (fn_locks f))))"
proof -
  let ?first = "fence_locks (db_membership db) (entry_balance_keys prepared)"
  have never: "prepare_all env k batch ts \<noteq> Some (Inl (BatchTooManyAccounts n m))" for k ts
    using prepare_all_Inl[of env k batch ts] by blast
  have refused: "fence env db cache batch codes used prepared = (cache', Some (Inl (BatchTooManyAccounts n m))) \<longleftrightarrow>
      cache' = cache \<and> 1000 < card (balances_of prepared) \<and> n = card (balances_of prepared) \<and> m = 1000"
    by (auto simp: never fence_def Let_def case_prod_unfold MAX_DISTINCT_BALANCES_PER_BATCH_def card_balances
        pbind_Inl_iff split: sum.split)
  have append: "locked_balances (xs @ ys) = locked_balances xs @ locked_balances ys" for xs ys
    by (simp add: locked_balances_def map_filter_append)
  have "\<exists>first more. fn_locks f = first @ more \<and> fences (db_membership db) prepared first \<and> length first \<le> 2000 \<and>
       (if assert_up_to_date used probed = Inr () then fn_prepared f = prepared \<and> more = []
        else fences (db_membership db) (fn_prepared f) more) \<and>
       {k \<in> balances_of (fn_prepared f). inline_account (db_membership db) (fst (snd k))}
         \<subseteq> set (locked_balances (fn_locks f))"
    if "fence env db cache batch codes used prepared = (cache', Some (Inr f))"
  proof -
    note returns = fence_returns[OF that, folded assms]
    have "length ?first \<le> 2000"
      using fence_locks_length[of "db_membership db" "entry_balance_keys prepared"] returns(1) by (simp add: card_balances)
    note first = this fence_locks_fences[of "db_membership db" prepared]
    show ?thesis
    proof (cases "assert_up_to_date used probed = Inr ()")
      case True
      with returns(2) first show ?thesis by (intro exI[of _ ?first] exI[of _ "[]"]) (simp add: fences_def)
    next
      case False
      with returns(3) first fence_locks_fences[of "db_membership db" "fn_prepared f"] show ?thesis
        by (intro exI[of _ ?first] exI[of _ "fence_locks (db_membership db) (entry_balance_keys (fn_prepared f))"])
          (simp add: append fences_def)
    qed
  qed
  with refused show ?thesis by blast
qed

text \<open>A template that moves between preparation and fence: its first version posts to one account only.\<close>

definition stale_templates :: "(string \<times> resolved_template) list" where
  "stale_templates =
     [(''MOVE'', \<lparr> rt_id = TxTemplateId 1, rt_version = 0,
        rt_values = post_template \<lparr> tmpl_entries := [post_leg ''nine'' ''DEBIT'', post_leg ''nine'' ''CREDIT''] \<rparr> \<rparr>)]"

lemma stale_fence:
  "case prepare_all post_env 0 [post_input 1] stale_templates of
     Some (Inr prepared) \<Rightarrow>
       (case fence post_env (post_db Active) Map.empty [post_input 1] [''MOVE''] stale_templates prepared of
          (c, Some (Inr f)) \<Rightarrow> map (fst \<circ> snd) (locked_balances (fn_locks f)) = [AccountId 9, AccountId 5, AccountId 9]
        | _ \<Rightarrow> False)
   | _ \<Rightarrow> False"
  by code_simp

lemma fence_is_bounded_and_ordered_witness:
  "\<exists>prepared c f first more.
     fence post_env (post_db Active) Map.empty [post_input 1] [''MOVE''] stale_templates prepared = (c, Some (Inr f)) \<and>
     map (fst \<circ> snd) (locked_balances (fn_locks f)) = [AccountId 9, AccountId 5, AccountId 9] \<and>
     fn_locks f = first @ more \<and> fences (db_membership (post_db Active)) prepared first"
proof -
  let ?fence = "fence post_env (post_db Active) Map.empty [post_input 1] [''MOVE''] stale_templates"
  obtain prepared c r where fence: "?fence prepared = (c, r)"
    and "case (c, r) of (c, Some (Inr f)) \<Rightarrow>
        map (fst \<circ> snd) (locked_balances (fn_locks f)) = [AccountId 9, AccountId 5, AccountId 9] | _ \<Rightarrow> False"
    using stale_fence by (auto split: option.splits sum.splits)
  then obtain f where run: "?fence prepared = (c, Some (Inr f))"
    and locks: "map (fst \<circ> snd) (locked_balances (fn_locks f)) = [AccountId 9, AccountId 5, AccountId 9]"
    by (cases r) (auto split: sum.splits)
  obtain first more where "fn_locks f = first @ more" "fences (db_membership (post_db Active)) prepared first"
    using conjunct2[OF fence_is_bounded_and_ordered[OF refl, of post_env "post_db Active" Map.empty "[post_input 1]"
        "[''MOVE'']" stale_templates prepared c 0 0 f], THEN mp, OF run] by blast
  then show ?thesis
    by (intro exI[of _ prepared] exI[of _ c] exI[of _ f] exI[of _ first] exI[of _ more] conjI run locks)
qed

end
