(* ===== verification/Ec_Rollup.thy ===== *)
theory Ec_Rollup imports Posting begin

text \<open>
  The rollup of eventually consistent balances (\<open>ec_rollup.rs\<close> and the driver it calls in
  \<open>balance/mod.rs\<close>): a landing of outbox events is collected into a batch, the entries that did
  not arrive with their transaction are read back, and the transactions are folded, journal by
  journal, into the balances that the posting flow leaves out.

  How the outbox cuts its stream into landings, and its checkpoint, belong to the outbox: a
  landing is any list of events. \<open>rollup_order\<close> is the iteration order of the hash sets.
\<close>

section \<open>Collecting a landing\<close>

record pending_tx =
  px_id :: transaction_id
  px_journal_id :: journal_id
  px_effective :: naive_date
  px_created_at :: date_time
  px_entry_ids :: "entry_id list"

record 'd ec_rollup_batch =
  rb_txns :: "pending_tx list"
  rb_entries :: "transaction_id \<rightharpoonup> 'd entry_values list"

definition default_batch :: "'d ec_rollup_batch" where
  "default_batch = \<lparr> rb_txns = [], rb_entries = Map.empty \<rparr>"

definition push_tx :: "'d ec_rollup_batch \<Rightarrow> pending_tx \<Rightarrow> 'd ec_rollup_batch" where
  "push_tx batch tx = batch \<lparr> rb_txns := rb_txns batch @ [tx] \<rparr>"

definition batch_push_entry :: "'d ec_rollup_batch \<Rightarrow> 'd entry_values \<Rightarrow> 'd ec_rollup_batch" where
  "batch_push_entry batch entry =
     batch \<lparr> rb_entries := (rb_entries batch)
       (e_transaction_id entry \<mapsto> get_list (rb_entries batch) (e_transaction_id entry) @ [entry]) \<rparr>"

text \<open>An event without a payload, or with another one, is \<open>None\<close>.\<close>

definition handle_persistent :: "'d ec_rollup_batch \<Rightarrow> 'd posting_event option \<Rightarrow> 'd ec_rollup_batch" where
  "handle_persistent batch payload =
     (case payload of
        Some (TransactionCreated transaction) \<Rightarrow>
          push_tx batch \<lparr> px_id = tv_id transaction, px_journal_id = tv_journal_id transaction,
            px_effective = tv_effective transaction, px_created_at = tv_created_at transaction,
            px_entry_ids = tv_entry_ids transaction \<rparr>
      | Some (EntryCreated entry) \<Rightarrow> batch_push_entry batch entry
      | None \<Rightarrow> batch)"

definition missing_entry_ids :: "'d ec_rollup_batch \<Rightarrow> entry_id list" where
  "missing_entry_ids batch =
     concat (map (\<lambda>tx.
        let collected = e_id ` set (get_list (rb_entries batch) (px_id tx))
        in filter (\<lambda>i. i \<notin> collected) (px_entry_ids tx)) (rb_txns batch))"

record 'd ec_rollup_txn =
  rt_journal_id :: journal_id
  rt_effective :: naive_date
  rt_created_at :: date_time
  rt_entries :: "'d entry_values list"

text \<open>\<open>fetched.remove(id)\<close> for every id of the transaction.\<close>

definition top_up ::
  "'d entry_values list \<Rightarrow> (entry_id \<rightharpoonup> (entry_id, 'd entry_values) entity) \<Rightarrow> entry_id list
     \<Rightarrow> 'd entry_values list \<times> (entry_id \<rightharpoonup> (entry_id, 'd entry_values) entity)" where
  "top_up values fetched ids =
     foldl (\<lambda>(values, fetched) i.
        case fetched i of
          None \<Rightarrow> (values, fetched)
        | Some entry \<Rightarrow> (values @ [ent_values entry], fetched(i := None))) (values, fetched) ids"

definition into_rollup_txn ::
  "'d ec_rollup_txn list \<times> (transaction_id \<rightharpoonup> 'd entry_values list) \<times> (entry_id \<rightharpoonup> (entry_id, 'd entry_values) entity)
     \<Rightarrow> pending_tx
     \<Rightarrow> 'd ec_rollup_txn list \<times> (transaction_id \<rightharpoonup> 'd entry_values list) \<times> (entry_id \<rightharpoonup> (entry_id, 'd entry_values) entity)" where
  "into_rollup_txn = (\<lambda>(out, entries, fetched) tx.
     (let entry_values = get_list entries (px_id tx);
          entries = entries(px_id tx := None);
          (entry_values, fetched) =
            (if length entry_values \<noteq> length (px_entry_ids tx)
             then top_up entry_values fetched (px_entry_ids tx) else (entry_values, fetched))
      in (out @ [\<lparr> rt_journal_id = px_journal_id tx, rt_effective = px_effective tx,
                   rt_created_at = px_created_at tx, rt_entries = sort_key e_sequence entry_values \<rparr>],
          entries, fetched)))"

definition into_rollup_txns ::
  "'d ec_rollup_batch \<Rightarrow> (entry_id \<rightharpoonup> (entry_id, 'd entry_values) entity) \<Rightarrow> 'd ec_rollup_txn list" where
  "into_rollup_txns batch fetched = fst (foldl into_rollup_txn ([], rb_entries batch, fetched) (rb_txns batch))"

section \<open>The driver\<close>

record rollup_order =
  ro_accounts :: "account_id list \<Rightarrow> account_id list"
  ro_pairs :: "(account_id \<times> currency) list \<Rightarrow> (account_id \<times> currency) list"

definition ec_involved ::
  "(account_id \<rightharpoonup> account_set_id list) \<Rightarrow> account_id set \<Rightarrow> 'd entry_values list \<Rightarrow> (account_id \<times> currency) list" where
  "ec_involved ec_mappings ec_leaves entries =
     remdups (concat (map (\<lambda>entry.
        map (\<lambda>s. (account_of_set s, e_currency entry)) (get_list ec_mappings (e_account_id entry)) @
        (if e_account_id entry \<in> ec_leaves then [(e_account_id entry, e_currency entry)] else [])) entries))"

text \<open>The folds of the transactions of a group chain in memory.\<close>

definition fold_rollup_txn ::
  "(account_id \<rightharpoonup> account_set_id list) \<Rightarrow> account_id set
     \<Rightarrow> (account_id \<times> currency \<rightharpoonup> 'd::linordered_ab_group_add balance_snapshot option) \<times> 'd balance_snapshot list
     \<Rightarrow> 'd ec_rollup_txn
     \<Rightarrow> (account_id \<times> currency \<rightharpoonup> 'd balance_snapshot option) \<times> 'd balance_snapshot list" where
  "fold_rollup_txn ec_mappings ec_leaves = (\<lambda>(current, all_new) tx.
     (let new_balances = from_ec_entries (rt_created_at tx) current (rt_entries tx) ec_mappings ec_leaves
      in (foldl (\<lambda>current s. current(snapshot_key s \<mapsto> Some s)) current new_balances, all_new @ new_balances)))"

definition rollup_effective_txn ::
  "rollup_order \<Rightarrow> membership_tables \<Rightarrow> journal_id \<Rightarrow> (account_id \<rightharpoonup> account_set_id list) \<Rightarrow> account_id set
     \<Rightarrow> 'd::linordered_ab_group_add effective_row list \<Rightarrow> 'd ec_rollup_txn
     \<Rightarrow> (balance_error + 'd effective_row list) option" where
  "rollup_effective_txn ord mt journal_id ec_mappings ec_leaves rows tx =
     (let tx_involved = ec_involved ec_mappings ec_leaves (rt_entries tx)
      in if tx_involved = [] then Some (Inr rows)
         else effective_apply_ec_rollup_in_op mt rows journal_id (rt_entries tx) (rt_effective tx) (rt_created_at tx)
                ec_mappings (ro_pairs ord tx_involved) ec_leaves)"

definition apply_ec_rollup_group_in_op ::
  "rollup_order \<Rightarrow> 'd::linordered_ab_group_add ledger_db \<Rightarrow> journal_id \<times> 'd ec_rollup_txn list
     \<Rightarrow> (balance_error + 'd ledger_db) option" where
  "apply_ec_rollup_group_in_op ord db = (\<lambda>(journal_id, group).
     (let mt = db_membership db;
          member_account_ids = ro_accounts ord (remdups (concat (map (map e_account_id \<circ> rt_entries) group)));
          ec_sets = fetch_ec_set_mappings mt journal_id member_account_ids;
          ec_leaf_ids = fetch_ec_leaf_accounts mt member_account_ids;
          ec_mappings = map_of ec_sets;
          ec_leaves = set ec_leaf_ids;
          involved = ec_involved ec_mappings ec_leaves (concat (map rt_entries group))
      in if ec_sets = [] \<and> ec_leaf_ids = [] then Some (Inr db)
         else if involved = [] then Some (Inr db)
         else
           pbind (Some (find_ec_balances_for_update mt (db_balances db) journal_id (ro_pairs ord involved))) (\<lambda>current_balances.
             let all_new = snd (foldl (fold_rollup_txn ec_mappings ec_leaves) (current_balances, []) group)
             in pbind (Some (if all_new = [] then Inr (db_balances db) else insert_new_snapshots (db_balances db) all_new)) (\<lambda>bt.
                pbind (Some (ok_or JournalError (latest (rows_of journal_id (db_journals db))))) (\<lambda>(_, journal).
                  if jc_enable_effective_balances (jv_config journal)
                  then pbind (pfold (rollup_effective_txn ord mt journal_id ec_mappings ec_leaves) (db_effective db) group)
                         (\<lambda>rows. Some (Inr (db \<lparr> db_balances := bt, db_effective := rows \<rparr>)))
                  else Some (Inr (db \<lparr> db_balances := bt \<rparr>)))))))"

definition apply_ec_rollup_in_op ::
  "rollup_order \<Rightarrow> 'd::linordered_ab_group_add ledger_db \<Rightarrow> 'd ec_rollup_txn list \<Rightarrow> (balance_error + 'd ledger_db) option" where
  "apply_ec_rollup_in_op ord db txns =
     (let groups = foldl (\<lambda>groups tx. push_to (rt_journal_id tx) tx groups) [] txns
      in pfold (apply_ec_rollup_group_in_op ord) db groups)"

section \<open>Flushing a batch\<close>

text \<open>The events of an entry, in order of their sequence.\<close>

definition stored_entry :: "'d ledger_db \<Rightarrow> entry_id \<Rightarrow> (hydration_error + (entry_id, 'd entry_values) entity) option" where
  "stored_entry db i =
     (if i \<notin> en_id ` set (db_entries db) then None
      else Some (entry_try_from_events (List.map_filter
             (\<lambda>r. case evr_event r of Initialized v \<Rightarrow> Some v | Updated _ _ \<Rightarrow> None)
             (sort_key evr_sequence (filter (\<lambda>r. evr_id r = i) (db_entry_events db))))))"

definition entries_find_all_in_op ::
  "'d ledger_db \<Rightarrow> entry_id list \<Rightarrow> hydration_error + (entry_id \<rightharpoonup> (entry_id, 'd entry_values) entity)" where
  "entries_find_all_in_op db ids =
     rfold (\<lambda>found i. case stored_entry db i of
         None \<Rightarrow> Inr found
       | Some r \<Rightarrow> rmap (\<lambda>entry. found(i \<mapsto> entry)) r) Map.empty ids"

datatype rollup_error = RollupEntryError hydration_error | RollupBalanceError balance_error

definition flush ::
  "rollup_order \<Rightarrow> 'd::linordered_ab_group_add ledger_db \<Rightarrow> 'd ec_rollup_batch \<Rightarrow> (rollup_error + 'd ledger_db) option" where
  "flush ord db batch =
     (let missing_ids = missing_entry_ids batch
      in pbind (Some (map_err RollupEntryError
           (if missing_ids = [] then Inr Map.empty else entries_find_all_in_op db missing_ids))) (\<lambda>fetched.
         map_option (map_err RollupBalanceError) (apply_ec_rollup_in_op ord db (into_rollup_txns batch fetched))))"

text \<open>One landing, from its first event to its flush.\<close>

definition roll_up ::
  "rollup_order \<Rightarrow> 'd::linordered_ab_group_add ledger_db \<Rightarrow> 'd posting_event option list \<Rightarrow> (rollup_error + 'd ledger_db) option" where
  "roll_up ord db events = flush ord db (foldl handle_persistent default_batch events)"

section \<open>The position of the rollup\<close>

record ec_rollup_status =
  es_applied :: "64 word"
  es_frontier :: "64 word"

definition status_new :: "64 word \<Rightarrow> 64 word \<Rightarrow> ec_rollup_status" where
  "status_new checkpoint frontier = \<lparr> es_applied = checkpoint, es_frontier = frontier \<rparr>"

definition status_refresh :: "64 word \<Rightarrow> ec_rollup_status \<Rightarrow> ec_rollup_status" where
  "status_refresh checkpoint s = s \<lparr> es_applied := checkpoint \<rparr>"

definition status_lag :: "ec_rollup_status \<Rightarrow> 64 word" where
  "status_lag s = (if es_applied s \<le> es_frontier s then es_frontier s - es_applied s else 0)"

definition is_caught_up :: "ec_rollup_status \<Rightarrow> bool" where
  "is_caught_up s \<longleftrightarrow> es_applied s \<ge> es_frontier s"

lemma caught_up_no_lag: "is_caught_up s \<longleftrightarrow> status_lag s = 0"
  by (auto simp: is_caught_up_def status_lag_def)

end
