(* ===== verification/Ec_Rollup_Correct.thy ===== *)
theory Ec_Rollup_Correct imports Ec_Rollup Posting_Books begin

text \<open>
  What the rollup writes for one balance: the chain of the entries of the landed transactions that
  reach it, each with the creation time of its transaction; and what the flush hands to the
  driver: every transaction with all of its entries, however its events arrived.
\<close>

section \<open>Chains over dated entries\<close>

definition dated_step ::
  "account_id \<Rightarrow> 'd::linordered_ab_group_add balance_snapshot option \<Rightarrow> date_time \<times> 'd entry_values \<Rightarrow> 'd balance_snapshot" where
  "dated_step a b = (\<lambda>(t, e). next_snapshot t a b e)"

definition dated :: "'d ec_rollup_txn list \<Rightarrow> (date_time \<times> 'd entry_values) list" where
  "dated txns = concat (map (\<lambda>tx. map (Pair (rt_created_at tx)) (rt_entries tx)) txns)"

lemma dated_simps [simp]:
  "dated [] = []" "dated (tx # txns) = map (Pair (rt_created_at tx)) (rt_entries tx) @ dated txns"
  by (simp_all add: dated_def)

lemma chain_dated [simp]:
  "chain (dated_step a) b (map (Pair t) es) = chain (next_snapshot t a) b es"
  "chain_end (dated_step a) b (map (Pair t) es) = chain_end (next_snapshot t a) b es"
  by (induction es arbitrary: b) (simp_all add: dated_step_def)

lemma chain_end_append: "chain_end step b (xs @ ys) = chain_end step (chain_end step b xs) ys"
  by (simp add: chain_end_def)

lemma dated_chain_journal:
  assumes "x \<in> set (chain (dated_step a) base es)"
    and "\<And>b. base = Some b \<Longrightarrow> bs_journal_id b = j" and "\<And>t e. (t, e) \<in> set es \<Longrightarrow> e_journal_id e = j"
  shows "bs_journal_id x = j"
  using assms
proof (induction es arbitrary: base)
  case (Cons p es)
  have "bs_journal_id (dated_step a base p) = j"
    using Cons.prems(2,3) by (cases p) (auto simp: dated_step_def next_snapshot_def split: option.split)
  then show ?case using Cons by auto
qed simp

section \<open>The fold of a group\<close>

definition group_posts ::
  "(account_id \<rightharpoonup> account_set_id list) \<Rightarrow> account_id set \<Rightarrow> 'd ec_rollup_txn list \<Rightarrow> account_id \<times> currency
     \<Rightarrow> (date_time \<times> 'd entry_values) list" where
  "group_posts m leaves txns k =
     concat (map (\<lambda>tx. map (Pair (rt_created_at tx)) (posts_on k (ec_posts m leaves (rt_entries tx)))) txns)"

lemma store_all:
  "foldl (\<lambda>current s. current(snapshot_key s \<mapsto> Some s)) current new k =
     (let mine = filter (\<lambda>s. snapshot_key s = k) new in if mine = [] then current k else Some (Some (last mine)))"
  by (induction new rule: rev_induct) (auto simp: Let_def)

lemma fold_rollup_txns:
  fixes txns :: "'d::linordered_ab_group_add ec_rollup_txn list"
  assumes "keyed current" and "foldl (fold_rollup_txn m leaves) (current, acc) txns = (current', acc')"
  shows "filter (\<lambda>s. snapshot_key s = (a, c)) acc' = filter (\<lambda>s. snapshot_key s = (a, c)) acc @
     (case current (a, c) of None \<Rightarrow> [] | Some b \<Rightarrow> chain (dated_step a) b (group_posts m leaves txns (a, c)))"
  using assms
proof (induction txns arbitrary: current acc)
  case (Cons tx txns)
  let ?new = "from_ec_entries (rt_created_at tx) current (rt_entries tx) m leaves"
  let ?current = "foldl (\<lambda>current s. current(snapshot_key s \<mapsto> Some s)) current ?new"
  let ?es = "\<lambda>k. posts_on k (ec_posts m leaves (rt_entries tx))"
  have mine: "filter (\<lambda>s. snapshot_key s = k) ?new =
      (case current k of None \<Rightarrow> [] | Some b \<Rightarrow> chain (next_snapshot (rt_created_at tx) (fst k)) b (?es k))" for k
    unfolding from_ec_entries_posts into_snapshots_by_key[OF Cons.prems(1)] key_written_def by simp
  have after: "?current k = map_option (\<lambda>b. chain_end (next_snapshot (rt_created_at tx) (fst k)) b (?es k)) (current k)" for k
    unfolding store_all Let_def mine by (cases "?es k = []") (auto simp: chain_last split: option.split)
  have "keyed ?current"
    unfolding keyed_def
  proof (intro allI impI)
    fix k s assume s: "?current k = Some (Some s)"
    show "snapshot_key s = k"
    proof (cases "filter (\<lambda>s. snapshot_key s = k) ?new = []")
      case True
      then show ?thesis using s Cons.prems(1) unfolding store_all Let_def keyed_def by (cases k) simp
    next
      case False
      then show ?thesis using s last_in_set[OF False] unfolding store_all Let_def by auto
    qed
  qed
  moreover have "foldl (fold_rollup_txn m leaves) (?current, acc @ ?new) txns = (current', acc')"
    using Cons.prems(2) by (simp add: fold_rollup_txn_def Let_def)
  ultimately have "filter (\<lambda>s. snapshot_key s = (a, c)) acc' = filter (\<lambda>s. snapshot_key s = (a, c)) (acc @ ?new) @
      (case ?current (a, c) of None \<Rightarrow> [] | Some b \<Rightarrow> chain (dated_step a) b (group_posts m leaves txns (a, c)))"
    by (rule Cons.IH)
  then show ?case unfolding after filter_append mine
    by (simp add: group_posts_def chain_append split: option.split)
qed (simp add: group_posts_def split: option.split)

section \<open>What an entry posts to\<close>

definition deferred_account :: "membership_tables \<Rightarrow> account_id \<Rightarrow> bool" where
  "deferred_account mt a \<longleftrightarrow> (case mt_accounts mt a of Some r \<Rightarrow> ac_eventually_consistent r | None \<Rightarrow> False)"

definition plain_entry :: "membership_tables \<Rightarrow> 'd entry_values \<Rightarrow> bool" where
  "plain_entry mt e \<longleftrightarrow> (case mt_accounts mt (e_account_id e) of Some r \<Rightarrow> \<not> ac_is_account_set r | None \<Rightarrow> False)"

definition ec_targets :: "(account_id \<rightharpoonup> account_set_id list) \<Rightarrow> account_id set \<Rightarrow> 'd entry_values \<Rightarrow> account_id list" where
  "ec_targets m leaves e = map account_of_set (get_list m (e_account_id e)) @
     (if e_account_id e \<in> leaves then [e_account_id e] else [])"

lemma ec_posts_targets: "ec_posts m leaves es = concat (map (\<lambda>e. map (\<lambda>a. (a, e)) (ec_targets m leaves e)) es)"
  unfolding ec_posts_def ec_targets_def by (intro arg_cong[of _ _ concat] map_cong) simp_all

lemma ec_involved_posts: "set (ec_involved m leaves es) = (\<lambda>(a, e). (a, e_currency e)) ` set (ec_posts m leaves es)"
proof -
  have "ec_involved m leaves es = remdups (map (\<lambda>(a, e). (a, e_currency e)) (ec_posts m leaves es))"
    unfolding ec_involved_def by (rule arg_cong[of _ _ remdups], induction es) (simp_all add: ec_posts_def)
  then show ?thesis by simp
qed

text \<open>The targets of an entry are the deferred ones among the accounts it reaches.\<close>

lemma ec_targets_reach:
  fixes j :: journal_id
  assumes "sets_flagged mt" and "plain_entry mt e" and "e_account_id e \<in> set accounts"
  defines "targets \<equiv> ec_targets (map_of (fetch_ec_set_mappings mt j accounts)) (set (fetch_ec_leaf_accounts mt accounts)) e"
  shows "distinct targets" and "a \<in> set targets \<longleftrightarrow> deferred_account mt a \<and>
    (a = e_account_id e \<or> a \<in> account_of_set ` sets_in mt j (e_account_id e))"
proof -
  let ?sets = "get_list (map_of (fetch_ec_set_mappings mt j accounts)) (e_account_id e)"
  obtain r where r: "mt_accounts mt (e_account_id e) = Some r" "\<not> ac_is_account_set r"
    using assms(2) by (auto simp: plain_entry_def split: option.splits)
  have sets: "set ?sets = {s \<in> sets_in mt j (e_account_id e). deferred_account mt (account_of_set s)}"
    using ec_mappings(1)[of mt j accounts "e_account_id e"] assms(3)
    by (auto simp: ec_set_def sets_in_def deferred_account_def split: option.splits)
  have leaf: "e_account_id e \<in> set (fetch_ec_leaf_accounts mt accounts) \<longleftrightarrow> deferred_account mt (e_account_id e)"
    using r assms(3) by (simp add: fetch_ec_leaf_accounts_def deferred_account_def)
  have "e_account_id e \<notin> account_of_set ` sets_in mt j (e_account_id e)"
  proof
    assume "e_account_id e \<in> account_of_set ` sets_in mt j (e_account_id e)"
    then obtain s where s: "e_account_id e = account_of_set s" "mt_account_sets mt s = Some j" by (auto simp: sets_in_def)
    then have "\<exists>r. mt_accounts mt (account_of_set s) = Some r \<and> ac_is_account_set r"
      using assms(1) unfolding sets_flagged_def by blast
    then show False using r s(1) by simp
  qed
  then show "distinct targets"
    using ec_mappings(2)[of mt j accounts "e_account_id e"] sets
    by (auto simp: targets_def ec_targets_def distinct_map inj_on_def)
  show "a \<in> set targets \<longleftrightarrow> deferred_account mt a \<and>
      (a = e_account_id e \<or> a \<in> account_of_set ` sets_in mt j (e_account_id e))"
    using sets leaf by (auto simp: targets_def ec_targets_def)
qed

section \<open>One journal\<close>

lemma find_ec_lookup:
  assumes "find_ec_balances_for_update mt bt j pairs = Inr current"
  shows "current (a, c) = (if (a, c) \<in> set pairs \<and> deferred_account mt a then Some (stored bt (j, a, c)) else None)"
proof -
  let ?step = "\<lambda>ret (a, c). case mt_accounts mt a of None \<Rightarrow> Inr ret
      | Some acc \<Rightarrow> if \<not> ac_eventually_consistent acc then Inr ret
          else if ac_status acc = Locked then Inl (AccountLocked a)
          else Inr (ret((a, c) \<mapsto> map_option snd (map_of (bt_current bt) (j, a, c))))"
  have "cur (a, c) = (if (a, c) \<in> set pairs \<and> deferred_account mt a then Some (stored bt (j, a, c)) else ret (a, c))"
    if "rfold ?step ret pairs = Inr cur" for ret cur
    using that
  proof (induction pairs arbitrary: ret)
    case (Cons p pairs)
    obtain b d where p: "p = (b, d)" by fastforce
    from Cons.prems obtain ret' where ret': "?step ret p = Inr ret'" "rfold ?step ret' pairs = Inr cur"
      by (auto simp: rbind_Inr_iff)
    show ?case using Cons.IH[OF ret'(2)] ret'(1)
      by (auto simp: p deferred_account_def stored_def split: option.splits if_splits)
  qed simp
  from this[of Map.empty current] assms show ?thesis by (simp add: find_ec_balances_for_update_def)
qed

definition dated_reaching :: "membership_tables \<Rightarrow> balance_id \<Rightarrow> 'd ec_rollup_txn list \<Rightarrow> (date_time \<times> 'd entry_values) list" where
  "dated_reaching mt k txns = filter (\<lambda>p. reaches mt k (snd p)) (dated txns)"

text \<open>What the rollup adds to the history of one balance.\<close>

definition rolled_rows ::
  "membership_tables \<Rightarrow> 'd::linordered_ab_group_add balance_tables \<Rightarrow> balance_id \<Rightarrow> 'd ec_rollup_txn list \<Rightarrow> (int \<times> 'd balance_snapshot) list" where
  "rolled_rows mt bt k txns =
     (if deferred_account mt (fst (snd k))
      then map (\<lambda>s. (as_i32 (bs_version s), s)) (chain (dated_step (fst (snd k))) (stored bt k) (dated_reaching mt k txns)) else [])"

definition group_ok :: "membership_tables \<Rightarrow> journal_id \<Rightarrow> 'd ec_rollup_txn list \<Rightarrow> bool" where
  "group_ok mt j txns \<longleftrightarrow> (\<forall>tx \<in> set txns. \<forall>e \<in> set (rt_entries tx). e_journal_id e = j \<and> plain_entry mt e)"

lemma group_posts_reaching:
  fixes txns :: "'d ec_rollup_txn list" and accounts :: "account_id list"
  assumes "sets_flagged mt" and "group_ok mt j txns"
    and "\<And>tx e. tx \<in> set txns \<Longrightarrow> e \<in> set (rt_entries tx) \<Longrightarrow> e_account_id e \<in> set accounts"
  defines "m \<equiv> map_of (fetch_ec_set_mappings mt j accounts)" and "leaves \<equiv> set (fetch_ec_leaf_accounts mt accounts)"
  shows "group_posts m leaves txns (a, c) = (if deferred_account mt a then dated_reaching mt (j, a, c) txns else [])"
proof -
  have one: "posts_on (a, c) (ec_posts m leaves (rt_entries tx)) =
      filter (\<lambda>e. deferred_account mt a \<and> reaches mt (j, a, c) e) (rt_entries tx)" if tx: "tx \<in> set txns" for tx
  proof -
    have e: "distinct (ec_targets m leaves e) \<and> (a \<in> set (ec_targets m leaves e) \<longleftrightarrow> deferred_account mt a \<and>
        (a = e_account_id e \<or> a \<in> account_of_set ` sets_in mt j (e_account_id e))) \<and> e_journal_id e = j"
      if "e \<in> set (rt_entries tx)" for e
      using ec_targets_reach(1)[OF assms(1) _ assms(3)[OF tx that], where j = j]
        ec_targets_reach(2)[OF assms(1) _ assms(3)[OF tx that], where j = j and a = a] assms(2) tx that
      by (auto simp: group_ok_def m_def leaves_def)
    have "posts_on (a, c) (ec_posts m leaves (rt_entries tx)) =
        filter (\<lambda>e. e_currency e = c \<and> a \<in> set (ec_targets m leaves e)) (rt_entries tx)"
      unfolding ec_posts_targets using e by (intro posts_on_targets) blast
    then show ?thesis using e by (auto simp: reaches_def intro!: filter_cong)
  qed
  show ?thesis unfolding group_posts_def dated_reaching_def using one
    by (induction txns) (auto simp: filter_map comp_def)
qed

lemma not_involved_posts:
  assumes "ec_involved m leaves (concat (map rt_entries txns)) = []"
  shows "group_posts m leaves txns k = []"
proof -
  have "ec_posts m leaves (concat (map rt_entries txns)) = []"
    using assms ec_involved_posts[of m leaves "concat (map rt_entries txns)"] by simp
  then have "ec_posts m leaves (rt_entries tx) = []" if "tx \<in> set txns" for tx
    using that by (fastforce simp: ec_posts_def)
  then show ?thesis by (auto simp: group_posts_def)
qed

lemma involved_posts:
  assumes "group_posts m leaves txns (a, c) \<noteq> []"
  shows "(a, c) \<in> set (ec_involved m leaves (concat (map rt_entries txns)))"
proof -
  from assms obtain tx where "tx \<in> set txns" "posts_on (a, c) (ec_posts m leaves (rt_entries tx)) \<noteq> []"
    by (auto simp: group_posts_def)
  moreover from this obtain e where "(a, e) \<in> set (ec_posts m leaves (rt_entries tx))" "e_currency e = c"
    by (auto simp: posts_on_def filter_empty_conv)
  ultimately have "(a, e) \<in> set (ec_posts m leaves (concat (map rt_entries txns)))" "e_currency e = c"
    by (auto simp: ec_posts_def)
  then show ?thesis unfolding ec_involved_posts by (auto intro!: image_eqI[of _ _ "(a, e)"])
qed

text \<open>The accounts of a group, in the order of the hash set.\<close>

definition group_accounts :: "rollup_order \<Rightarrow> 'd ec_rollup_txn list \<Rightarrow> account_id list" where
  "group_accounts ord txns = ro_accounts ord (remdups (concat (map (map e_account_id \<circ> rt_entries) txns)))"

lemma insert_nothing:
  "(if new = [] then Inr bt else insert_new_snapshots bt new) = insert_new_snapshots bt new"
  by (simp add: insert_new_snapshots_def chunks_small)

lemma ec_involved_nothing: "ec_involved (\<lambda>_. None) {} es = []"
  by (simp add: ec_involved_def get_list_empty)

lemma group_run:
  fixes txns :: "'d::linordered_ab_group_add ec_rollup_txn list" and db :: "'d ledger_db"
  assumes run: "apply_ec_rollup_group_in_op ord db (j, txns) = Some (Inr db')"
  defines "m \<equiv> map_of (fetch_ec_set_mappings (db_membership db) j (group_accounts ord txns))"
    and "leaves \<equiv> set (fetch_ec_leaf_accounts (db_membership db) (group_accounts ord txns))"
  shows "(ec_involved m leaves (concat (map rt_entries txns)) = [] \<and> db' = db) \<or>
    (\<exists>current bt rows.
       find_ec_balances_for_update (db_membership db) (db_balances db) j
         (ro_pairs ord (ec_involved m leaves (concat (map rt_entries txns)))) = Inr current \<and>
       insert_new_snapshots (db_balances db) (snd (foldl (fold_rollup_txn m leaves) (current, []) txns)) = Inr bt \<and>
       db' = db \<lparr> db_balances := bt, db_effective := rows \<rparr>)"
proof -
  let ?mt = "db_membership db" and ?accounts = "group_accounts ord txns"
  let ?sets = "fetch_ec_set_mappings ?mt j ?accounts" and ?leaf_ids = "fetch_ec_leaf_accounts ?mt ?accounts"
  let ?involved = "ec_involved m leaves (concat (map rt_entries txns))"
  let ?new = "\<lambda>current. snd (foldl (fold_rollup_txn m leaves) (current, []) txns)"
  have unchanged: "db \<lparr> db_balances := bt \<rparr> = db \<lparr> db_balances := bt, db_effective := db_effective db \<rparr>" for bt by simp
  have unfolded: "apply_ec_rollup_group_in_op ord db (j, txns) =
      (if ?involved = [] then Some (Inr db)
       else pbind (Some (find_ec_balances_for_update ?mt (db_balances db) j (ro_pairs ord ?involved))) (\<lambda>current.
         pbind (Some (insert_new_snapshots (db_balances db) (?new current))) (\<lambda>bt.
           pbind (Some (ok_or JournalError (latest (rows_of j (db_journals db))))) (\<lambda>(_, journal).
             if jc_enable_effective_balances (jv_config journal)
             then pbind (pfold (rollup_effective_txn ord ?mt j m leaves) (db_effective db) txns)
                    (\<lambda>rows. Some (Inr (db \<lparr> db_balances := bt, db_effective := rows \<rparr>)))
             else Some (Inr (db \<lparr> db_balances := bt \<rparr>))))))"
    unfolding apply_ec_rollup_group_in_op_def Let_def prod.case insert_nothing m_def leaves_def group_accounts_def
    by (auto simp: ec_involved_nothing)
  show ?thesis
  proof (cases "?involved = []")
    case True
    then show ?thesis using run by (simp add: unfolded)
  next
    case False
    let ?tail = "\<lambda>bt journal. if jc_enable_effective_balances (jv_config journal)
        then pbind (pfold (rollup_effective_txn ord ?mt j m leaves) (db_effective db) txns)
               (\<lambda>rows. Some (Inr (db \<lparr> db_balances := bt, db_effective := rows \<rparr>)))
        else Some (Inr (db \<lparr> db_balances := bt \<rparr>))"
    have "\<exists>current. find_ec_balances_for_update ?mt (db_balances db) j (ro_pairs ord ?involved) = Inr current \<and>
      (\<exists>bt. insert_new_snapshots (db_balances db) (?new current) = Inr bt \<and>
      (\<exists>vj. ok_or JournalError (latest (rows_of j (db_journals db))) = Inr vj \<and> ?tail bt (snd vj) = Some (Inr db')))"
      using run[unfolded unfolded] False by (simp only: if_False option.inject pbind_Inr_iff case_prod_unfold)
    then obtain current bt and vj :: "int \<times> journal_values" where
      "find_ec_balances_for_update ?mt (db_balances db) j (ro_pairs ord ?involved) = Inr current"
      "insert_new_snapshots (db_balances db) (?new current) = Inr bt" "?tail bt (snd vj) = Some (Inr db')"
      by blast
    moreover from this(3) have "\<exists>rows. db' = db \<lparr> db_balances := bt, db_effective := rows \<rparr>"
    proof (cases "jc_enable_effective_balances (jv_config (snd vj))")
      case False
      then have "db' = db \<lparr> db_balances := bt, db_effective := db_effective db \<rparr>"
        using \<open>?tail bt (snd vj) = Some (Inr db')\<close> unchanged[of bt] by simp
      then show ?thesis by blast
    qed (auto simp: pbind_Inr_iff)
    ultimately show ?thesis by blast
  qed
qed

lemma group_rolls:
  fixes txns :: "'d::linordered_ab_group_add ec_rollup_txn list" and db :: "'d ledger_db"
  assumes run: "apply_ec_rollup_group_in_op ord db (j, txns) = Some (Inr db')"
    and store: "store_ok (db_balances db)" and flagged: "sets_flagged (db_membership db)"
    and ok: "group_ok (db_membership db) j txns"
    and order: "\<And>as. set (ro_accounts ord as) = set as" "\<And>ps. set (ro_pairs ord ps) = set ps"
  shows "store_ok (db_balances db')" and "\<exists>bt rows. db' = db \<lparr> db_balances := bt, db_effective := rows \<rparr>"
    and "rows_of (i, a, c) (bt_history (db_balances db')) = rows_of (i, a, c) (bt_history (db_balances db)) @
      (if i = j then rolled_rows (db_membership db) (db_balances db) (j, a, c) txns else [])"
proof -
  let ?mt = "db_membership db" and ?bt = "db_balances db"
  define m where "m = map_of (fetch_ec_set_mappings ?mt j (group_accounts ord txns))"
  define leaves where "leaves = set (fetch_ec_leaf_accounts ?mt (group_accounts ord txns))"
  let ?involved = "ec_involved m leaves (concat (map rt_entries txns))"
  have posts: "group_posts m leaves txns (b, d) = (if deferred_account ?mt b then dated_reaching ?mt (j, b, d) txns else [])" for b d
    unfolding m_def leaves_def by (rule group_posts_reaching[OF flagged ok]) (auto simp: group_accounts_def order)
  have all: "store_ok (db_balances db') \<and> (\<exists>bt rows. db' = db \<lparr> db_balances := bt, db_effective := rows \<rparr>) \<and>
      rows_of (i, a, c) (bt_history (db_balances db')) = rows_of (i, a, c) (bt_history ?bt) @
        (if i = j then rolled_rows ?mt ?bt (j, a, c) txns else [])"
  proof (cases "?involved = [] \<and> db' = db")
    case True
    then have "db' = db \<lparr> db_balances := ?bt, db_effective := db_effective db \<rparr>" by simp
    then have "\<exists>bt rows. db' = db \<lparr> db_balances := bt, db_effective := rows \<rparr>" by blast
    then show ?thesis using True store not_involved_posts[of m leaves txns "(a, c)"] posts[of a c] by (auto simp: rolled_rows_def)
  next
    case False
    then obtain current bt rows where
      find: "find_ec_balances_for_update ?mt ?bt j (ro_pairs ord ?involved) = Inr current" and
      ins: "insert_new_snapshots ?bt (snd (foldl (fold_rollup_txn m leaves) (current, []) txns)) = Inr bt" and
      db': "db' = db \<lparr> db_balances := bt, db_effective := rows \<rparr>"
      using group_run[OF run] unfolding m_def leaves_def by blast
    let ?new = "snd (foldl (fold_rollup_txn m leaves) (current, []) txns)"
    have loaded: "current (b, d) = (if (b, d) \<in> set ?involved \<and> deferred_account ?mt b then Some (stored ?bt (j, b, d)) else None)" for b d
      by (subst find_ec_lookup[OF find]) (simp add: order)
    have keyed: "keyed current"
      unfolding keyed_def
    proof (intro allI impI)
      fix k s assume "current k = Some (Some s)"
      then have "stored ?bt (j, k) = Some s" using loaded[of "fst k" "snd k"] by (auto split: if_splits)
      then have "snapshot_id s = (j, k)" by (rule stored_keyed[OF store_ok_keyed[OF store]])
      then show "snapshot_key s = k" by (auto simp: snapshot_id_def snapshot_key_def)
    qed
    have mine: "filter (\<lambda>s. snapshot_key s = (b, d)) ?new = (if deferred_account ?mt b
        then chain (dated_step b) (stored ?bt (j, b, d)) (dated_reaching ?mt (j, b, d) txns) else [])" for b d
      using fold_rollup_txns[OF keyed prod.collapse[symmetric], where m = m and leaves = leaves and acc = "[]" and txns = txns and a = b and c = d] involved_posts[of m leaves txns b d]
      by (cases "dated_reaching ?mt (j, b, d) txns = []") (auto simp: loaded posts)
    have journal: "bs_journal_id s = j" if s: "s \<in> set ?new" for s
    proof -
      obtain b d where k: "snapshot_key s = (b, d)" by fastforce
      then have "s \<in> set (filter (\<lambda>s. snapshot_key s = (b, d)) ?new)" using s by simp
      then have "s \<in> set (chain (dated_step b) (stored ?bt (j, b, d)) (dated_reaching ?mt (j, b, d) txns))"
        unfolding mine by (simp split: if_splits)
      then show ?thesis
      proof (rule dated_chain_journal)
        show "\<And>x. stored ?bt (j, b, d) = Some x \<Longrightarrow> bs_journal_id x = j"
          using stored_keyed[OF store_ok_keyed[OF store]] by (fastforce simp: snapshot_id_def)
        show "\<And>t e. (t, e) \<in> set (dated_reaching ?mt (j, b, d) txns) \<Longrightarrow> e_journal_id e = j"
          by (simp add: dated_reaching_def reaches_def)
      qed
    qed
    have "filter (\<lambda>s. snapshot_id s = (i, a, c)) ?new = (if i = j then filter (\<lambda>s. snapshot_key s = (a, c)) ?new else [])"
      using journal by (auto simp: snapshot_id_def snapshot_key_def filter_empty_conv intro!: filter_cong)
    then show ?thesis using insert_ok[OF ins store] insert_history[OF ins]
      by (auto simp: db' rows_of_append rows_of_snapshots mine rolled_rows_def)
  qed
  then show "store_ok (db_balances db')" "\<exists>bt rows. db' = db \<lparr> db_balances := bt, db_effective := rows \<rparr>"
    "rows_of (i, a, c) (bt_history (db_balances db')) = rows_of (i, a, c) (bt_history (db_balances db)) @
      (if i = j then rolled_rows (db_membership db) (db_balances db) (j, a, c) txns else [])" by blast+
qed

section \<open>All journals\<close>

lemma rolled_rows_cong:
  assumes "store_ok bt" and "store_ok bt'" and "rows_of k (bt_history bt') = rows_of k (bt_history bt)"
  shows "rolled_rows mt bt' k txns = rolled_rows mt bt k txns"
  using assms by (simp add: rolled_rows_def stored_latest)

lemma groups_roll:
  fixes db :: "'d::linordered_ab_group_add ledger_db"
  assumes "pfold (apply_ec_rollup_group_in_op ord) db groups = Some (Inr db')"
    and "store_ok (db_balances db)" and "sets_flagged (db_membership db)" and "distinct (map fst groups)"
    and "\<And>j txns. (j, txns) \<in> set groups \<Longrightarrow> group_ok (db_membership db) j txns"
    and order: "\<And>as. set (ro_accounts ord as) = set as" "\<And>ps. set (ro_pairs ord ps) = set ps"
  shows "store_ok (db_balances db') \<and> (\<exists>bt rows. db' = db \<lparr> db_balances := bt, db_effective := rows \<rparr>) \<and>
    (\<forall>i a c. rows_of (i, a, c) (bt_history (db_balances db')) = rows_of (i, a, c) (bt_history (db_balances db)) @
       rolled_rows (db_membership db) (db_balances db) (i, a, c) (get_list (map_of groups) i))"
  using assms(1-5)
proof (induction groups arbitrary: db)
  case Nil
  then have "db' = db" by simp
  moreover have "db = db \<lparr> db_balances := db_balances db, db_effective := db_effective db \<rparr>" by simp
  ultimately show ?case using Nil(2)
    by (intro conjI exI[of _ "db_balances db"] exI[of _ "db_effective db"]) (simp_all add: rolled_rows_def dated_reaching_def)
next
  case (Cons g groups)
  obtain j txns where g: "g = (j, txns)" by fastforce
  from Cons.prems(1) obtain db1 where
    one: "apply_ec_rollup_group_in_op ord db (j, txns) = Some (Inr db1)" and
    rest: "pfold (apply_ec_rollup_group_in_op ord) db1 groups = Some (Inr db')"
    by (auto simp: g pbind_Inr_iff)
  have "group_ok (db_membership db) j txns" using Cons.prems(5) by (simp add: g)
  note rolled = group_rolls[OF one Cons.prems(2,3) this order]
  obtain bt rows where db1: "db1 = db \<lparr> db_balances := bt, db_effective := rows \<rparr>" using rolled(2) by blast
  have "store_ok (db_balances db') \<and> (\<exists>bt rows. db' = db1 \<lparr> db_balances := bt, db_effective := rows \<rparr>) \<and>
    (\<forall>i a c. rows_of (i, a, c) (bt_history (db_balances db')) = rows_of (i, a, c) (bt_history (db_balances db1)) @
       rolled_rows (db_membership db1) (db_balances db1) (i, a, c) (get_list (map_of groups) i))"
    using Cons.prems by (intro Cons.IH[OF rest rolled(1)]) (auto simp: db1 g)
  moreover have "\<exists>bt' rows'. db1 \<lparr> db_balances := bt, db_effective := rows \<rparr> = db \<lparr> db_balances := bt', db_effective := rows' \<rparr>" for bt rows
    by (auto simp: db1)
  moreover have "rows_of (i, a, c) (bt_history (db_balances db1)) @
       rolled_rows (db_membership db1) (db_balances db1) (i, a, c) (get_list (map_of groups) i) =
     rows_of (i, a, c) (bt_history (db_balances db)) @
       rolled_rows (db_membership db) (db_balances db) (i, a, c) (get_list (map_of (g # groups)) i)" for i a c
  proof (cases "i = j")
    case True
    then have "get_list (map_of groups) i = []" using Cons.prems(4) by (force simp: g get_list_def split: option.split dest: map_of_SomeD)
    then show ?thesis using True rolled(3)[of i a c] by (simp add: g get_list_def rolled_rows_def[of _ _ _ "[]"] dated_reaching_def)
  next
    case False
    then have same: "rows_of (i, a, c) (bt_history (db_balances db1)) = rows_of (i, a, c) (bt_history (db_balances db))"
      using rolled(3)[of i a c] by simp
    show ?thesis unfolding same rolled_rows_cong[OF Cons.prems(2) rolled(1) same] using False
      by (simp add: g get_list_def db1)
  qed
  ultimately show ?case by metis
qed

text \<open>Grouping by journal loses nothing: only the transactions of its journal reach a balance.\<close>

lemma dated_reaching_journal:
  assumes "\<And>tx e. tx \<in> set txns \<Longrightarrow> e \<in> set (rt_entries tx) \<Longrightarrow> e_journal_id e = rt_journal_id tx"
  shows "dated_reaching mt (j, a, c) (filter (\<lambda>tx. rt_journal_id tx = j) txns) = dated_reaching mt (j, a, c) txns"
  using assms
proof (induction txns)
  case (Cons tx txns)
  have "filter (\<lambda>p. reaches mt (j, a, c) (snd p)) (map (Pair (rt_created_at tx)) (rt_entries tx)) = []"
    if "rt_journal_id tx \<noteq> j"
    using that Cons.prems[of tx] by (auto simp: filter_empty_conv reaches_def)
  then show ?case using Cons by (auto simp: dated_reaching_def)
qed (simp add: dated_reaching_def)

definition journal_groups :: "'d ec_rollup_txn list \<Rightarrow> (journal_id \<times> 'd ec_rollup_txn list) list" where
  "journal_groups txns = group_pairs (map (\<lambda>tx. (rt_journal_id tx, tx)) txns)"

lemma apply_rollup_groups:
  "apply_ec_rollup_in_op ord db txns = pfold (apply_ec_rollup_group_in_op ord) db (journal_groups txns)"
proof -
  have "foldl (\<lambda>groups tx. push_to (rt_journal_id tx) tx groups) m txns =
      foldl (\<lambda>m (k, v). push_to k v m) m (map (\<lambda>tx. (rt_journal_id tx, tx)) txns)" for m
    by (induction txns arbitrary: m) simp_all
  then show ?thesis by (simp add: apply_ec_rollup_in_op_def journal_groups_def group_pairs_def)
qed

lemma journal_group: "get_list (map_of (journal_groups txns)) i = filter (\<lambda>tx. rt_journal_id tx = i) txns"
  by (simp add: journal_groups_def filter_map comp_def)

definition txns_ok :: "membership_tables \<Rightarrow> 'd ec_rollup_txn list \<Rightarrow> bool" where
  "txns_ok mt txns \<longleftrightarrow> (\<forall>tx \<in> set txns. \<forall>e \<in> set (rt_entries tx). e_journal_id e = rt_journal_id tx \<and> plain_entry mt e)"

lemma journal_group_ok: "txns_ok mt txns \<Longrightarrow> (i, g) \<in> set (journal_groups txns) \<Longrightarrow> group_ok mt i g"
proof -
  assume ok: "txns_ok mt txns" and "(i, g) \<in> set (journal_groups txns)"
  then have "g = filter (\<lambda>tx. rt_journal_id tx = i) txns"
    using journal_group[of txns i] by (simp add: get_list_def map_of_is_SomeI journal_groups_def)
  then show "group_ok mt i g" using ok by (auto simp: group_ok_def txns_ok_def)
qed

lemma apply_rollup_rolls:
  fixes db :: "'d::linordered_ab_group_add ledger_db"
  assumes run: "apply_ec_rollup_in_op ord db txns = Some (Inr db')"
    and db: "store_ok (db_balances db)" "sets_flagged (db_membership db)" and txns: "txns_ok (db_membership db) txns"
    and order: "\<And>as. set (ro_accounts ord as) = set as" "\<And>ps. set (ro_pairs ord ps) = set ps"
  shows "store_ok (db_balances db') \<and> (\<exists>bt rows. db' = db \<lparr> db_balances := bt, db_effective := rows \<rparr>) \<and>
    rows_of (j, a, c) (bt_history (db_balances db')) = rows_of (j, a, c) (bt_history (db_balances db)) @
      rolled_rows (db_membership db) (db_balances db) (j, a, c) txns"
proof -
  have "distinct (map fst (journal_groups txns))" by (simp add: journal_groups_def)
  from groups_roll[OF run[unfolded apply_rollup_groups] db this journal_group_ok[OF txns] order]
  have "store_ok (db_balances db') \<and> (\<exists>bt rows. db' = db \<lparr> db_balances := bt, db_effective := rows \<rparr>) \<and>
    rows_of (j, a, c) (bt_history (db_balances db')) = rows_of (j, a, c) (bt_history (db_balances db)) @
      rolled_rows (db_membership db) (db_balances db) (j, a, c) (filter (\<lambda>tx. rt_journal_id tx = j) txns)"
    unfolding journal_group by blast
  moreover have "rolled_rows (db_membership db) (db_balances db) (j, a, c) (filter (\<lambda>tx. rt_journal_id tx = j) txns) =
      rolled_rows (db_membership db) (db_balances db) (j, a, c) txns"
    unfolding rolled_rows_def using dated_reaching_journal[of txns] txns by (simp add: txns_ok_def)
  ultimately show ?thesis by simp
qed

section \<open>Locked accounts\<close>

lemma find_ec_unlocked:
  assumes "find_ec_balances_for_update mt bt j pairs = Inr current" and "(a, c) \<in> set pairs"
    and "mt_accounts mt a = Some r" and "ac_eventually_consistent r"
  shows "ac_status r \<noteq> Locked"
proof -
  let ?step = "\<lambda>ret (a, c). case mt_accounts mt a of None \<Rightarrow> Inr ret
      | Some acc \<Rightarrow> if \<not> ac_eventually_consistent acc then Inr ret
          else if ac_status acc = Locked then Inl (AccountLocked a)
          else Inr (ret((a, c) \<mapsto> map_option snd (map_of (bt_current bt) (j, a, c))))"
  have "ac_status r \<noteq> Locked" if "rfold ?step ret pairs = Inr cur" "(a, c) \<in> set pairs" for ret cur
    using that
  proof (induction pairs arbitrary: ret)
    case (Cons p pairs)
    then show ?case using assms(3,4) by (cases "p = (a, c)") (auto simp: rbind_Inr_iff split: if_splits)
  qed simp
  then show ?thesis using assms(1,2) unfolding find_ec_balances_for_update_def by blast
qed

text \<open>A group that is rolled up reaches no account that is locked by now.\<close>

lemma group_unlocked:
  fixes txns :: "'d::linordered_ab_group_add ec_rollup_txn list" and db :: "'d ledger_db"
  assumes run: "apply_ec_rollup_group_in_op ord db (j, txns) = Some (Inr db')"
    and flagged: "sets_flagged (db_membership db)" and ok: "group_ok (db_membership db) j txns"
    and order: "\<And>as. set (ro_accounts ord as) = set as" "\<And>ps. set (ro_pairs ord ps) = set ps"
    and reach: "dated_reaching (db_membership db) (j, a, c) txns \<noteq> []"
    and r: "mt_accounts (db_membership db) a = Some r" "ac_eventually_consistent r"
  shows "ac_status r \<noteq> Locked"
proof -
  let ?mt = "db_membership db"
  define m where "m = map_of (fetch_ec_set_mappings ?mt j (group_accounts ord txns))"
  define leaves where "leaves = set (fetch_ec_leaf_accounts ?mt (group_accounts ord txns))"
  have "group_posts m leaves txns (a, c) = (if deferred_account ?mt a then dated_reaching ?mt (j, a, c) txns else [])"
    unfolding m_def leaves_def by (rule group_posts_reaching[OF flagged ok]) (auto simp: group_accounts_def order)
  then have inv: "(a, c) \<in> set (ec_involved m leaves (concat (map rt_entries txns)))"
    using reach r by (intro involved_posts) (simp add: deferred_account_def)
  then obtain current where "find_ec_balances_for_update ?mt (db_balances db) j
      (ro_pairs ord (ec_involved m leaves (concat (map rt_entries txns)))) = Inr current"
    using group_run[OF run] unfolding m_def leaves_def by auto
  then show ?thesis by (rule find_ec_unlocked[OF _ _ r, of _ _ _ _ c]) (simp add: order inv)
qed

lemma groups_run:
  fixes db :: "'d::linordered_ab_group_add ledger_db"
  assumes "pfold (apply_ec_rollup_group_in_op ord) db groups = Some (Inr db')" and "g \<in> set groups"
  shows "\<exists>db1 db2. db_membership db1 = db_membership db \<and> apply_ec_rollup_group_in_op ord db1 g = Some (Inr db2)"
  using assms
proof (induction groups arbitrary: db)
  case (Cons h groups)
  from Cons.prems(1) obtain db1 where one: "apply_ec_rollup_group_in_op ord db h = Some (Inr db1)"
    and rest: "pfold (apply_ec_rollup_group_in_op ord) db1 groups = Some (Inr db')" by (auto simp: pbind_Inr_iff)
  have "db_membership db1 = db_membership db"
    using group_run[of ord db "fst h" "snd h" db1] one by auto
  then show ?case using Cons.IH[OF rest] Cons.prems(2) one by auto
qed simp

lemma apply_rollup_unlocked:
  fixes db :: "'d::linordered_ab_group_add ledger_db"
  assumes run: "apply_ec_rollup_in_op ord db txns = Some (Inr db')"
    and flagged: "sets_flagged (db_membership db)" and txns: "txns_ok (db_membership db) txns"
    and order: "\<And>as. set (ro_accounts ord as) = set as" "\<And>ps. set (ro_pairs ord ps) = set ps"
    and reach: "dated_reaching (db_membership db) (j, a, c) txns \<noteq> []"
    and r: "mt_accounts (db_membership db) a = Some r" "ac_eventually_consistent r"
  shows "ac_status r \<noteq> Locked"
proof -
  let ?g = "filter (\<lambda>tx. rt_journal_id tx = j) txns"
  have mine: "dated_reaching (db_membership db) (j, a, c) ?g \<noteq> []"
    using reach dated_reaching_journal[of txns "db_membership db" j a c] txns by (simp add: txns_ok_def)
  then have "?g \<noteq> []" by (auto simp: dated_reaching_def)
  then have "(j, ?g) \<in> set (journal_groups txns)"
    using journal_group[of txns j] by (auto simp: get_list_def split: option.splits dest: map_of_SomeD)
  from groups_run[OF run[unfolded apply_rollup_groups] this] obtain db1 db2 where
    same: "db_membership db1 = db_membership db" and one: "apply_ec_rollup_group_in_op ord db1 (j, ?g) = Some (Inr db2)"
    by (elim exE conjE)
  show ?thesis
    using group_unlocked[OF one _ _ order, of a c r] flagged journal_group_ok[OF txns] mine r
      \<open>(j, ?g) \<in> set (journal_groups txns)\<close> by (simp add: same)
qed

end
