(* ===== verification/Ec_Rollup_Batch.thy ===== *)
theory Ec_Rollup_Batch imports Ec_Rollup_Correct begin

text \<open>
  What a landing hands to the driver. A landing may hold any part of the entries of its
  transactions; what is missing is read back, so that every transaction comes with all its
  entries in order of their sequence.
\<close>

section \<open>The contents of a landing\<close>

fun landed_tx :: "'d posting_event option \<Rightarrow> transaction_values option" where
  "landed_tx (Some (TransactionCreated tx)) = Some tx"
| "landed_tx _ = None"

fun landed_entry :: "'d posting_event option \<Rightarrow> 'd entry_values option" where
  "landed_entry (Some (EntryCreated e)) = Some e"
| "landed_entry _ = None"

definition landed_txs :: "'d posting_event option list \<Rightarrow> transaction_values list" where
  "landed_txs events = List.map_filter landed_tx events"

definition landed_entries :: "'d posting_event option list \<Rightarrow> 'd entry_values list" where
  "landed_entries events = List.map_filter landed_entry events"

definition pending_of :: "transaction_values \<Rightarrow> pending_tx" where
  "pending_of tx = \<lparr> px_id = tv_id tx, px_journal_id = tv_journal_id tx, px_effective = tv_effective tx,
     px_created_at = tv_created_at tx, px_entry_ids = tv_entry_ids tx \<rparr>"

lemma handle_persistent_simps [simp]:
  "handle_persistent b None = b"
  "handle_persistent b (Some (TransactionCreated tx)) = push_tx b (pending_of tx)"
  "handle_persistent b (Some (EntryCreated e)) = batch_push_entry b e"
  by (simp_all add: handle_persistent_def pending_of_def)

lemma push_simps [simp]:
  "rb_txns (push_tx b tx) = rb_txns b @ [tx]" "rb_entries (push_tx b tx) = rb_entries b"
  "rb_txns (batch_push_entry b e) = rb_txns b"
  "get_list (rb_entries (batch_push_entry b e)) t =
     get_list (rb_entries b) t @ (if e_transaction_id e = t then [e] else [])"
  by (simp_all add: push_tx_def batch_push_entry_def get_list_def)

lemma landed_simps [simp]:
  "landed_txs [] = []" "landed_txs (xs @ [p]) = landed_txs xs @ (case landed_tx p of None \<Rightarrow> [] | Some tx \<Rightarrow> [tx])"
  "landed_entries [] = []" "landed_entries (xs @ [p]) = landed_entries xs @ (case landed_entry p of None \<Rightarrow> [] | Some e \<Rightarrow> [e])"
  by (auto simp: landed_txs_def landed_entries_def map_filter_append List.map_filter_simps split: option.split)

lemma collected_batch:
  "rb_txns (foldl handle_persistent default_batch events) = map pending_of (landed_txs events)"
  "get_list (rb_entries (foldl handle_persistent default_batch events)) t =
     filter (\<lambda>e. e_transaction_id e = t) (landed_entries events)"
proof -
  have "rb_txns (foldl handle_persistent default_batch events) = map pending_of (landed_txs events) \<and>
    (\<forall>t. get_list (rb_entries (foldl handle_persistent default_batch events)) t =
       filter (\<lambda>e. e_transaction_id e = t) (landed_entries events))"
  proof (induction events rule: rev_induct)
    case (snoc p events)
    show ?case
    proof (cases p)
      case (Some payload)
      then show ?thesis using snoc by (cases payload) simp_all
    qed (use snoc in simp)
  qed (simp add: default_batch_def)
  then show "rb_txns (foldl handle_persistent default_batch events) = map pending_of (landed_txs events)"
    "get_list (rb_entries (foldl handle_persistent default_batch events)) t =
       filter (\<lambda>e. e_transaction_id e = t) (landed_entries events)" by blast+
qed

section \<open>Stored entries\<close>

definition entry_of :: "'d ledger_db \<Rightarrow> entry_id \<Rightarrow> 'd entry_values option" where
  "entry_of db i = (case stored_entry db i of Some (Inr entry) \<Rightarrow> Some (ent_values entry) | _ \<Rightarrow> None)"

text \<open>A transaction whose entries are stored, on accounts that are no sets.\<close>

definition settled_tx :: "'d ledger_db \<Rightarrow> transaction_values \<Rightarrow> bool" where
  "settled_tx db tx \<longleftrightarrow>
     distinct (tv_entry_ids tx) \<and> distinct (map (\<lambda>i. e_sequence (the (entry_of db i))) (tv_entry_ids tx)) \<and>
     (\<forall>i \<in> set (tv_entry_ids tx). \<exists>e. entry_of db i = Some e \<and> e_id e = i \<and> e_transaction_id e = tv_id tx \<and>
        e_journal_id e = tv_journal_id tx \<and> plain_entry (db_membership db) e)"

text \<open>
  A landing out of the stream of a ledger: its transactions are stored with their entries, its
  entry events are those of stored entries, and no event comes twice.
\<close>

definition landing_ok :: "'d ledger_db \<Rightarrow> 'd posting_event option list \<Rightarrow> bool" where
  "landing_ok db events \<longleftrightarrow>
     distinct (map tv_id (landed_txs events)) \<and> distinct (map e_id (landed_entries events)) \<and>
     (\<forall>tx \<in> set (landed_txs events). settled_tx db tx) \<and>
     (\<forall>e \<in> set (landed_entries events). entry_of db (e_id e) = Some e \<and>
        (\<forall>tx \<in> set (landed_txs events). e_transaction_id e = tv_id tx \<longrightarrow> e_id e \<in> set (tv_entry_ids tx)))"

definition book_entries :: "'d ledger_db \<Rightarrow> transaction_values \<Rightarrow> 'd entry_values list" where
  "book_entries db tx = sort_key e_sequence (map (\<lambda>i. the (entry_of db i)) (tv_entry_ids tx))"

definition rolled_txn :: "'d ledger_db \<Rightarrow> transaction_values \<Rightarrow> 'd ec_rollup_txn" where
  "rolled_txn db tx = \<lparr> rt_journal_id = tv_journal_id tx, rt_effective = tv_effective tx,
     rt_created_at = tv_created_at tx, rt_entries = book_entries db tx \<rparr>"

lemma found_entries:
  assumes "entries_find_all_in_op db ids = Inr found"
  shows "map_option ent_values (found i) = (if i \<in> set ids then entry_of db i else None)"
proof -
  let ?step = "\<lambda>found i. case stored_entry db i of None \<Rightarrow> Inr found | Some r \<Rightarrow> rmap (\<lambda>entry. found(i \<mapsto> entry)) r"
  have "map_option ent_values (f i) = (if i \<in> set ids then
      (case entry_of db i of None \<Rightarrow> map_option ent_values (g i) | Some e \<Rightarrow> Some e) else map_option ent_values (g i))"
    if "rfold ?step g ids = Inr f" for f g
    using that
  proof (induction ids arbitrary: g)
    case (Cons k ids)
    from Cons.prems obtain g' where g': "?step g k = Inr g'" "rfold ?step g' ids = Inr f" by (auto simp: rbind_Inr_iff)
    from g'(1) have "map_option ent_values (g' i) =
        (if i = k then (case entry_of db k of None \<Rightarrow> map_option ent_values (g i) | Some e \<Rightarrow> Some e)
         else map_option ent_values (g i))"
      by (auto simp: entry_of_def rmap_Inr_iff split: option.splits sum.splits)
    with Cons.IH[OF g'(2)] show ?case by (auto split: option.splits)
  qed simp
  from this[of Map.empty found] assms show ?thesis
    by (auto simp: entries_find_all_in_op_def split: option.splits)
qed

section \<open>Topping up\<close>

lemma map_filter_cong: "(\<And>x. x \<in> set xs \<Longrightarrow> f x = g x) \<Longrightarrow> List.map_filter f xs = List.map_filter g xs"
  by (induction xs) (auto simp: List.map_filter_simps split: option.split)

lemma top_up_simps [simp]:
  "top_up vs fetched [] = (vs, fetched)"
  "top_up vs fetched (i # ids) = (case fetched i of None \<Rightarrow> top_up vs fetched ids
     | Some entry \<Rightarrow> top_up (vs @ [ent_values entry]) (fetched(i := None)) ids)"
  by (simp_all add: top_up_def split: option.split)

lemma top_up_filter:
  assumes "distinct ids"
  shows "top_up vs fetched ids =
    (vs @ List.map_filter (\<lambda>i. map_option ent_values (fetched i)) ids, \<lambda>i. if i \<in> set ids then None else fetched i)"
  using assms
proof (induction ids arbitrary: vs fetched)
  case (Cons k ids)
  then have k: "k \<notin> set ids" and dist: "distinct ids" by simp_all
  show ?case
  proof (cases "fetched k")
    case None
    then show ?thesis using Cons.IH[OF dist, of vs fetched] by (auto simp: List.map_filter_simps fun_eq_iff)
  next
    case (Some entry)
    have same: "List.map_filter (\<lambda>i. map_option ent_values ((fetched(k := None)) i)) ids =
        List.map_filter (\<lambda>i. map_option ent_values (fetched i)) ids"
      using k by (intro map_filter_cong) auto
    show ?thesis
      by (simp only: top_up_simps Some option.case Cons.IH[OF dist] same) (auto simp: List.map_filter_simps Some fun_eq_iff)
  qed
qed (simp add: List.map_filter_simps)

lemma settled_txD:
  assumes "settled_tx db tx"
  shows "distinct (tv_entry_ids tx)" and "distinct (map (\<lambda>i. e_sequence (the (entry_of db i))) (tv_entry_ids tx))"
    and "i \<in> set (tv_entry_ids tx) \<Longrightarrow> \<exists>e. entry_of db i = Some e \<and> e_id e = i \<and> e_transaction_id e = tv_id tx \<and>
      e_journal_id e = tv_journal_id tx \<and> plain_entry (db_membership db) e"
  using assms unfolding settled_tx_def by blast+

text \<open>What arrived and what was read back are together all the entries of the transaction.\<close>

lemma topped_up_is_complete:
  fixes db :: "'d ledger_db" and fetched :: "entry_id \<rightharpoonup> (entry_id, 'd entry_values) entity"
  assumes ok: "landing_ok db events" and tx: "tx \<in> set (landed_txs events)"
    and vs: "vs = filter (\<lambda>e. e_transaction_id e = tv_id tx) (landed_entries events)"
    and found: "\<And>i. i \<in> set (tv_entry_ids tx) \<Longrightarrow>
      map_option ent_values (fetched i) = (if i \<in> e_id ` set vs then None else entry_of db i)"
  shows "sort_key e_sequence (if length vs \<noteq> length (tv_entry_ids tx) then fst (top_up vs fetched (tv_entry_ids tx)) else vs) =
    book_entries db tx"
proof -
  let ?ids = "tv_entry_ids tx" and ?at = "\<lambda>i. the (entry_of db i)"
  let ?rest = "filter (\<lambda>i. i \<notin> e_id ` set vs) ?ids"
  have settled: "settled_tx db tx" using ok tx by (simp add: landing_ok_def)
  have here: "entry_of db (e_id e) = Some e \<and> e_id e \<in> set ?ids" if "e \<in> set vs" for e
    using that ok tx by (auto simp: vs landing_ok_def)
  then have vs_ids: "vs = map ?at (map e_id vs)" by (simp add: map_idI)
  have dist: "distinct (map e_id vs)" using ok by (simp add: vs landing_ok_def distinct_map_filter)
  have sub: "e_id ` set vs \<subseteq> set ?ids" using here by blast
  have "List.map_filter (\<lambda>i. map_option ent_values (fetched i)) ?ids = map ?at ?rest"
  proof -
    have "List.map_filter (\<lambda>i. map_option ent_values (fetched i)) ?ids =
        List.map_filter (\<lambda>i. if i \<in> e_id ` set vs then None else entry_of db i) ?ids"
      by (rule map_filter_cong) (rule found)
    moreover have "List.map_filter (\<lambda>i. if i \<in> e_id ` set vs then None else entry_of db i) is =
        map ?at (filter (\<lambda>i. i \<notin> e_id ` set vs) is)" if "\<forall>i \<in> set is. entry_of db i \<noteq> None" for "is"
      using that by (induction "is") (auto simp: List.map_filter_simps split: option.split)
    ultimately show ?thesis using settled_txD(3)[OF settled] by fastforce
  qed
  then have topped: "fst (top_up vs fetched ?ids) = map ?at (map e_id vs @ ?rest)"
    using vs_ids by (simp add: top_up_filter[OF settled_txD(1)[OF settled]])
  have all: "mset (map e_id vs @ ?rest) = mset ?ids"
    by (rule iffD1[OF set_eq_iff_mset_eq_distinct]) (use dist settled_txD(1)[OF settled] sub in auto)
  have "mset (if length vs \<noteq> length ?ids then fst (top_up vs fetched ?ids) else vs) = mset (map ?at ?ids)"
  proof (cases "length vs = length ?ids")
    case True
    then have "mset ?rest = {#}" using arg_cong[OF all, of size] by (simp flip: size_mset)
    then have "mset (map e_id vs) = mset ?ids" using all by simp
    then have "mset (map ?at (map e_id vs)) = mset (map ?at ?ids)" by (simp only: mset_map)
    then show ?thesis using True by (simp only: vs_ids[symmetric] if_False simp_thms)
  next
    case False
    have "mset (map ?at (map e_id vs @ ?rest)) = mset (map ?at ?ids)" using all by (simp only: mset_map)
    then show ?thesis using False topped by simp
  qed
  then show ?thesis unfolding book_entries_def
    by (rule sorted_by_distinct_key) (use settled_txD(2)[OF settled] in \<open>simp add: comp_def\<close>)
qed

lemma rollup_txns_fold:
  fixes db :: "'d ledger_db"
  assumes ok: "landing_ok db events"
    and "distinct (map tv_id txs)" and "set txs \<subseteq> set (landed_txs events)"
    and "\<And>tx. tx \<in> set txs \<Longrightarrow> get_list ents (tv_id tx) = filter (\<lambda>e. e_transaction_id e = tv_id tx) (landed_entries events)"
    and "\<And>tx i. tx \<in> set txs \<Longrightarrow> i \<in> set (tv_entry_ids tx) \<Longrightarrow> map_option ent_values (fetched i) =
      (if i \<in> e_id ` set (filter (\<lambda>e. e_transaction_id e = tv_id tx) (landed_entries events)) then None else entry_of db i)"
  shows "fst (foldl into_rollup_txn (out, ents, fetched) (map pending_of txs)) = out @ map (rolled_txn db) txs"
  using assms(2-5)
proof (induction txs arbitrary: out ents fetched)
  case (Cons tx txs)
  let ?vs = "filter (\<lambda>e. e_transaction_id e = tv_id tx) (landed_entries events)"
  let ?topped = "if length ?vs \<noteq> length (tv_entry_ids tx) then top_up ?vs fetched (tv_entry_ids tx) else (?vs, fetched)"
  have tx: "tx \<in> set (landed_txs events)" using Cons.prems(2) by simp
  have settled: "settled_tx db t" if "t \<in> set (tx # txs)" for t using ok that Cons.prems(2) by (auto simp: landing_ok_def)
  have "sort_key e_sequence (if length ?vs \<noteq> length (tv_entry_ids tx) then fst (top_up ?vs fetched (tv_entry_ids tx)) else ?vs) =
      book_entries db tx"
    by (rule topped_up_is_complete[OF ok tx refl]) (rule Cons.prems(4), simp_all)
  then have "sort_key e_sequence (fst ?topped) = book_entries db tx" by (simp only: if_distrib[of fst] fst_conv)
  then have step: "into_rollup_txn (out, ents, fetched) (pending_of tx) =
      (out @ [rolled_txn db tx], ents(tv_id tx := None), snd ?topped)"
    using Cons.prems(3)[of tx]
    by (cases "length ?vs = length (tv_entry_ids tx)")
      (simp_all add: into_rollup_txn_def pending_of_def rolled_txn_def Let_def case_prod_unfold)
  have apart: "i \<notin> set (tv_entry_ids tx)" if "t \<in> set txs" "i \<in> set (tv_entry_ids t)" for t i
  proof
    assume "i \<in> set (tv_entry_ids tx)"
    with settled_txD(3)[OF settled, of t i] settled_txD(3)[OF settled, of tx i] that have "tv_id t = tv_id tx" by auto
    then show False using Cons.prems(1) imageI[OF that(1), of tv_id] by simp
  qed
  have kept: "snd ?topped i = fetched i" if "i \<notin> set (tv_entry_ids tx)" for i
    using that by (simp add: top_up_filter[OF settled_txD(1)[OF settled]])
  have "fst (foldl into_rollup_txn (out @ [rolled_txn db tx], ents(tv_id tx := None), snd ?topped) (map pending_of txs)) =
      (out @ [rolled_txn db tx]) @ map (rolled_txn db) txs"
  proof (rule Cons.IH)
    fix t assume t: "t \<in> set txs"
    then have "tv_id t \<noteq> tv_id tx" using Cons.prems(1) imageI[OF t, of tv_id] by (metis distinct.simps(2) list.simps(9) set_map)
    then show "get_list (ents(tv_id tx := None)) (tv_id t) = filter (\<lambda>e. e_transaction_id e = tv_id t) (landed_entries events)"
      using Cons.prems(3)[of t] t by (simp add: get_list_def)
    fix i assume i: "i \<in> set (tv_entry_ids t)"
    show "map_option ent_values (snd ?topped i) =
      (if i \<in> e_id ` set (filter (\<lambda>e. e_transaction_id e = tv_id t) (landed_entries events)) then None else entry_of db i)"
      unfolding kept[OF apart[OF t i]] using Cons.prems(4)[OF _ i] t by simp
  qed (use Cons.prems in auto)
  then show ?case by (simp add: step)
qed simp

lemma entry_of_stored: "entry_of db i = Some e \<Longrightarrow> \<exists>entry. stored_entry db i = Some (Inr entry)"
  by (auto simp: entry_of_def split: option.splits sum.splits)

lemma find_all_total:
  assumes "\<And>i. i \<in> set ids \<Longrightarrow> entry_of db i \<noteq> None"
  shows "\<exists>found. entries_find_all_in_op db ids = Inr found"
proof -
  let ?step = "\<lambda>found i. case stored_entry db i of None \<Rightarrow> Inr found | Some r \<Rightarrow> rmap (\<lambda>entry. found(i \<mapsto> entry)) r"
  have "\<exists>found. rfold ?step g ids = Inr found" for g
    using assms
  proof (induction ids arbitrary: g)
    case (Cons i ids)
    then have "entry_of db i \<noteq> None" by simp
    then obtain entry where "stored_entry db i = Some (Inr entry)" using entry_of_stored by blast
    then show ?case using Cons by simp
  qed simp
  then show ?thesis by (simp add: entries_find_all_in_op_def)
qed

text \<open>However the stream was cut, the driver gets every transaction with all its entries.\<close>

lemma flush_is_complete:
  fixes db :: "'d::linordered_ab_group_add ledger_db"
  assumes ok: "landing_ok db events"
  shows "roll_up ord db events =
    map_option (map_err RollupBalanceError) (apply_ec_rollup_in_op ord db (map (rolled_txn db) (landed_txs events)))"
proof -
  let ?batch = "foldl handle_persistent default_batch events"
  have missing: "set (missing_entry_ids ?batch) = {i. \<exists>tx \<in> set (landed_txs events). i \<in> set (tv_entry_ids tx) \<and>
      i \<notin> e_id ` set (filter (\<lambda>e. e_transaction_id e = tv_id tx) (landed_entries events))}"
    unfolding missing_entry_ids_def collected_batch Let_def by (auto simp: pending_of_def)
  have settled: "settled_tx db tx" if "tx \<in> set (landed_txs events)" for tx using ok that by (simp add: landing_ok_def)
  have "entry_of db i \<noteq> None" if "i \<in> set (missing_entry_ids ?batch)" for i
    using that settled_txD(3)[OF settled] unfolding missing by fastforce
  then obtain fetched where
    fetched: "(if missing_entry_ids ?batch = [] then Inr Map.empty else entries_find_all_in_op db (missing_entry_ids ?batch)) = Inr fetched"
    using find_all_total by fastforce
  have found: "map_option ent_values (fetched i) = (if i \<in> set (missing_entry_ids ?batch) then entry_of db i else None)" for i
    using fetched found_entries[of db "missing_entry_ids ?batch" fetched i] by (auto split: if_splits)
  have same: "t = tx" if "t \<in> set (landed_txs events)" "tx \<in> set (landed_txs events)"
    "i \<in> set (tv_entry_ids t)" "i \<in> set (tv_entry_ids tx)" for t tx i
  proof -
    from settled_txD(3)[OF settled[OF that(1)] that(3)] settled_txD(3)[OF settled[OF that(2)] that(4)]
    have "tv_id t = tv_id tx" by auto
    then show "t = tx" using ok that(1,2) by (auto simp: landing_ok_def distinct_map inj_on_def)
  qed
  have "into_rollup_txns ?batch fetched = [] @ map (rolled_txn db) (landed_txs events)"
    unfolding into_rollup_txns_def collected_batch(1)
  proof (rule rollup_txns_fold[OF ok])
    show "distinct (map tv_id (landed_txs events))" using ok by (simp add: landing_ok_def)
    fix tx i assume tx: "tx \<in> set (landed_txs events)" and i: "i \<in> set (tv_entry_ids tx)"
    have "i \<in> set (missing_entry_ids ?batch) \<longleftrightarrow>
        i \<notin> e_id ` set (filter (\<lambda>e. e_transaction_id e = tv_id tx) (landed_entries events))"
      unfolding missing using tx i same[OF _ tx _ i] by blast
    then show "map_option ent_values (fetched i) =
      (if i \<in> e_id ` set (filter (\<lambda>e. e_transaction_id e = tv_id tx) (landed_entries events)) then None else entry_of db i)"
      unfolding found by simp
  qed (auto simp: collected_batch(2))
  then show ?thesis by (simp add: roll_up_def flush_def Let_def fetched)
qed

end
