(* ===== verification/Ec_Rollup_Theorems.thy ===== *)
theory Ec_Rollup_Theorems imports Ec_Rollup_Batch Posting_Theorems begin

text \<open>
  The properties of the rollup: a landing refines insertion into the books, whatever part of the
  entries it carries, and a posted batch together with its landing is in every balance it reaches.
\<close>

section \<open>A landing\<close>

definition landed_books :: "'d ledger_db \<Rightarrow> 'd posting_event option list \<Rightarrow> (date_time \<times> 'd entry_values) list" where
  "landed_books db events =
     concat (map (\<lambda>tx. map (Pair (tv_created_at tx)) (book_entries db tx)) (landed_txs events))"

lemma dated_landed: "dated (map (rolled_txn db) (landed_txs events)) = landed_books db events"
  by (simp add: dated_def landed_books_def rolled_txn_def comp_def)

lemma landed_txns_ok: "landing_ok db events \<Longrightarrow> txns_ok (db_membership db) (map (rolled_txn db) (landed_txs events))"
  unfolding txns_ok_def
proof (intro ballI)
  fix tx e assume ok: "landing_ok db events" and tx: "tx \<in> set (map (rolled_txn db) (landed_txs events))" and e: "e \<in> set (rt_entries tx)"
  from tx obtain v where v: "v \<in> set (landed_txs events)" "tx = rolled_txn db v" by auto
  from e obtain i where i: "i \<in> set (tv_entry_ids v)" "e = the (entry_of db i)"
    by (auto simp: v(2) rolled_txn_def book_entries_def)
  have "settled_tx db v" using ok v(1) by (simp add: landing_ok_def)
  from settled_txD(3)[OF this i(1)] show "e_journal_id e = rt_journal_id tx \<and> plain_entry (db_membership db) e"
    using i(2) by (auto simp: v(2) rolled_txn_def)
qed

lemma landing_applied:
  "landing_ok db events \<Longrightarrow> roll_up ord db events = Some (Inr db') \<Longrightarrow>
     apply_ec_rollup_in_op ord db (map (rolled_txn db) (landed_txs events)) = Some (Inr db')"
  by (auto simp: flush_is_complete map_err_Inr_iff)

lemma landing_reaching:
  "dated_reaching mt k (map (rolled_txn db) (landed_txs events)) = filter (\<lambda>(t, e). reaches mt k e) (landed_books db events)"
  by (simp add: dated_reaching_def dated_landed case_prod_unfold)

lemma landing_rolls:
  fixes db :: "'d::linordered_ab_group_add ledger_db"
  assumes ok: "landing_ok db events" and db: "store_ok (db_balances db)" "sets_flagged (db_membership db)"
    and order: "\<And>as. set (ro_accounts ord as) = set as" "\<And>ps. set (ro_pairs ord ps) = set ps"
    and run: "roll_up ord db events = Some (Inr db')"
  shows "store_ok (db_balances db') \<and> (\<exists>bt rows. db' = db \<lparr> db_balances := bt, db_effective := rows \<rparr>) \<and>
    rows_of (j, a, c) (bt_history (db_balances db')) = rows_of (j, a, c) (bt_history (db_balances db)) @
      (if deferred_account (db_membership db) a
       then map (\<lambda>s. (as_i32 (bs_version s), s))
         (chain (dated_step a) (stored (db_balances db) (j, a, c))
           (filter (\<lambda>(t, e). reaches (db_membership db) (j, a, c) e) (landed_books db events)))
       else [])"
  using apply_rollup_rolls[OF landing_applied[OF ok run] db landed_txns_ok[OF ok] order, of j a c]
  by (simp add: rolled_rows_def landing_reaching)

section \<open>A posted batch\<close>

fun posted_tx :: "'d posting_event \<Rightarrow> transaction_values option" where
  "posted_tx (TransactionCreated tx) = Some tx"
| "posted_tx (EntryCreated e) = None"

definition posted_txs :: "'d posting_event list \<Rightarrow> transaction_values list" where
  "posted_txs evs = List.map_filter posted_tx evs"

lemma posted_txs_payloads: "posted_txs (posting_payloads ps) = map fst ps"
proof -
  have "List.map_filter posted_tx (map EntryCreated es) = []" for es :: "'a entry_values list"
    by (induction es) (simp_all add: List.map_filter_simps)
  then show ?thesis
    by (induction ps) (auto simp: posted_txs_def posting_payloads_def List.map_filter_simps map_filter_append)
qed

lemma prepared_shape:
  assumes "prepares env k ts i input p"
  shows "map ne_sequence (pt_entries p) = map (\<lambda>i. of_nat i + 1) [0..<length (pt_entries p)] \<and>
    (\<forall>e \<in> set (pt_entries p). ne_transaction_id e = pt_tx_id p)"
proof -
  from assms obtain tmpl pe ctx where
    ctx: "prep_entries pe tmpl (pi_tx_id input) (pt_journal_id p) ctx = Inr (pt_entries p)" and p: "pt_tx_id p = pi_tx_id input"
    by (auto simp: prepares_def prepare_transaction_def Let_def rbind_Inr_iff)
  note shape = prep_entries_shape[OF ctx]
  have "length (pt_entries p) = length (tmpl_entries tmpl)" using arg_cong[OF conjunct1[OF shape], of length] by simp
  then show ?thesis using shape p by auto
qed

text \<open>Entries are numbered from one, and a numbering below \<open>2 ^ 32\<close> is strictly increasing.\<close>

lemma numbered_sorted:
  assumes "map e_sequence es = map (\<lambda>i. of_nat i + 1) [0..<length es]" and "length es < 2 ^ 32"
  shows "distinct (map e_sequence es)" and "sort_key e_sequence es = es"
proof -
  have "unat (of_nat i + 1 :: u32) = Suc i" if "i < length es" for i
    using that assms(2) unat_u32_add_of_nat[of 1 i] by (simp add: add.commute)
  then have less: "(of_nat i + 1 :: u32) < of_nat k + 1" if "i < k" "k < length es" for i k
    using that by (simp add: word_less_nat_alt)
  have "sorted_wrt (<) (map e_sequence es)" unfolding assms(1)
    by (auto simp: sorted_wrt_iff_nth_less intro: less)
  then show "distinct (map e_sequence es)" "sort_key e_sequence es = es"
    by (auto simp: strict_sorted_iff intro: sort_key_id_if_sorted)
qed

text \<open>What one posting of a batch looks like.\<close>

lemma posting_shape:
  assumes prep: "prepare_all env k batch ts = Some (Inr prepared)" and q: "(tx, es) \<in> set (postings_of env prepared)"
  shows "tv_entry_ids tx = map e_id es" and "tv_created_at tx = posting_time env"
    and "map e_sequence es = map (\<lambda>i. of_nat i + 1) [0..<length es]"
    and "e \<in> set es \<Longrightarrow> e_transaction_id e = tv_id tx \<and> e_journal_id e = tv_journal_id tx"
proof -
  from q obtain p where p: "p \<in> set prepared" "es = map new_entry_values (pt_entries p)" "tv_id tx = pt_tx_id p"
    "tv_entry_ids tx = map ne_id (pt_entries p)" "tv_created_at tx = posting_time env"
    by (auto simp: postings_of_def posting_of_def into_new_transaction_def new_transaction_values_def Let_def case_prod_unfold)
  from p(1) obtain i where "prepares env k ts i (batch ! i) p"
    using prepare_all_Inr(1,2)[OF prep] by (metis in_set_conv_nth)
  note shape = prepared_shape[OF this]
  show "tv_entry_ids tx = map e_id es" "tv_created_at tx = posting_time env" using p by simp_all
  show "map e_sequence es = map (\<lambda>i. of_nat i + 1) [0..<length es]" using shape p(2) by (simp add: new_entry_values_def comp_def)
  show "e_transaction_id e = tv_id tx \<and> e_journal_id e = tv_journal_id tx" if "e \<in> set es"
    using shape p(2,3) that postings_journals[OF prep q that] by (auto simp: new_entry_values_def)
qed

text \<open>After a write, the entries it appended are read back as they were.\<close>

lemma appended_entries:
  fixes db db' :: "'d ledger_db" and es :: "'d entry_values list"
  assumes "db_entries db' = db_entries db @ map entry_row_of es"
    and "db_entry_events db' = db_entry_events db @ map (\<lambda>e. initial_row (e_id e) e) es"
    and "distinct (map en_id (db_entries db'))" and "evr_id ` set (db_entry_events db) \<subseteq> en_id ` set (db_entries db)"
    and e: "e \<in> set es"
  shows "entry_of db' (e_id e) = Some e"
proof -
  have ids: "map en_id (map entry_row_of es) = map e_id es" by (simp add: entry_row_of_def)
  have dist: "distinct (map e_id es)" and fresh: "e_id e \<notin> en_id ` set (db_entries db)"
    using assms(3) e unfolding assms(1) map_append ids distinct_append by auto
  have "filter (\<lambda>r. evr_id r = e_id e) (db_entry_events db) = []"
    using fresh assms(4) unfolding filter_empty_conv image_subset_iff by metis
  moreover have "filter (\<lambda>r. evr_id r = e_id e) (map (\<lambda>e. initial_row (e_id e) e) es) = [initial_row (e_id e) e]"
    using e dist
  proof (induction es)
    case (Cons x es)
    show ?case
    proof (cases "x = e")
      case True
      then show ?thesis using Cons.prems by (auto simp: filter_empty_conv initial_row_def image_iff)
    next
      case False
      then have "e_id x \<noteq> e_id e" using Cons.prems by (auto simp: image_iff)
      then show ?thesis using Cons False by (simp add: initial_row_def)
    qed
  qed simp
  ultimately have events: "filter (\<lambda>r. evr_id r = e_id e) (db_entry_events db') = [initial_row (e_id e) e]"
    by (simp add: assms(2))
  have "e_id e \<in> en_id ` set (db_entries db')" using e by (force simp: assms(1) entry_row_of_def)
  then show ?thesis
    by (simp add: entry_of_def stored_entry_def events initial_row_def List.map_filter_simps entry_try_from_events_def hydrate_def)
qed

lemma insert_postings_unique:
  "insert_postings_and_balances db rows snapshots = Inr db' \<Longrightarrow> unique_rows db'"
  by (auto simp: insert_postings_and_balances_def Let_def rbind_Inr_iff unique_rows_def split: if_splits)

lemma in_concat_snd: "e \<in> set (concat (map snd ps)) \<longleftrightarrow> (\<exists>tx es. (tx, es) \<in> set ps \<and> e \<in> set es)"
  by force

text \<open>A landing that carries the transactions of a posted batch, and any of its entries.\<close>

definition lands :: "'d posting_event list \<Rightarrow> 'd posting_event option list \<Rightarrow> bool" where
  "lands posted events \<longleftrightarrow> landed_txs events = posted_txs posted \<and>
     set (landed_entries events) \<subseteq> set (posted_entries posted) \<and> distinct (map e_id (landed_entries events))"

lemma batch_lands:
  fixes env :: "'d::linordered_ab_group_add posting_env"
  assumes run: "post_all_in_op env snapshot cache db batch = (cache', Some (Inr p))" and store: "store_ok (db_balances db)"
    and refs: "evr_id ` set (db_entry_events db) \<subseteq> en_id ` set (db_entries db)"
    and few: "length (posted_entries (pd_events p)) < 2 ^ 32" and lands: "lands (pd_events p) events"
  shows "landing_ok (pd_db p) events" and "landed_books (pd_db p) events = map (Pair (posting_time env)) (posted_entries (pd_events p))"
    and "db_membership (pd_db p) = db_membership db"
proof -
  have "landing_ok (pd_db p) events \<and> landed_books (pd_db p) events = map (Pair (posting_time env)) (posted_entries (pd_events p)) \<and>
    db_membership (pd_db p) = db_membership db"
  proof (cases "batch = []")
    case True
    then have "pd_events p = []" "pd_db p = db" using run by (auto simp: post_all_in_op_def)
    then show ?thesis using lands
      by (auto simp: lands_def landing_ok_def landed_books_def posted_txs_def posted_entries_def List.map_filter_simps)
  next
    case False
    obtain prepared k ts mappings read vel db1 rows where
      prep: "prepare_all env k batch ts = Some (Inr prepared)" and
      valid: "validate batch prepared (read_for db prepared) = Inr ()" and
      ins: "insert_postings_and_balances (db \<lparr> db_velocity := vel \<rparr>) (stage no_rows (postings_of env prepared))
         (fold_balances (postings_of env prepared) read mappings (posting_time env)) = Inr db1" and
      db': "pd_db p = db1 \<lparr> db_effective := rows \<rparr>" and
      evs: "pd_events p = posting_payloads (postings_of env prepared)"
      by (rule post_all_run[OF run False]) blast
    let ?ps = "postings_of env prepared"
    let ?es = "concat (map snd ?ps)"
    note written = insert_postings_inserts[OF ins]
    have member: "db_membership (pd_db p) = db_membership db" using written(7) store by (simp add: db')
    have at: "entry_of (pd_db p) (e_id e) = Some e" if "e \<in> set ?es" for e
    proof (rule appended_entries[OF _ _ _ refs that])
      show "db_entries (pd_db p) = db_entries db @ map entry_row_of ?es"
        "db_entry_events (pd_db p) = db_entry_events db @ map (\<lambda>e. initial_row (e_id e) e) ?es"
        using written(5,6) store by (simp_all add: db' stage_def no_rows_def)
      show "distinct (map en_id (db_entries (pd_db p)))"
        using insert_postings_unique[OF ins] by (simp add: db' unique_rows_def)
    qed
    have txs: "landed_txs events = map fst ?ps" and es: "posted_entries (pd_events p) = ?es"
      using lands by (simp_all add: lands_def evs posted_txs_payloads posted_entries_payloads)
    have posting: "book_entries (pd_db p) tx = es \<and> settled_tx (pd_db p) tx" if q: "(tx, es) \<in> set ?ps" for tx es
    proof -
      note shape = posting_shape[OF prep q]
      have in_es: "e \<in> set ?es" if "e \<in> set es" for e using q that by force
      have "sum_list (map length (map snd ?ps)) < 2 ^ 32" using few by (simp add: es length_concat)
      moreover have "length es \<le> sum_list (map length (map snd ?ps))"
        using q by (intro member_le_sum_list) (force, simp)
      ultimately have "length es < 2 ^ 32" by simp
      note sorted = numbered_sorted[OF shape(3) this]
      have read_back: "map (\<lambda>i. the (entry_of (pd_db p) i)) (tv_entry_ids tx) = es"
        using at in_es by (simp add: shape(1) map_idI)
      have "plain_entry (db_membership (pd_db p)) e" if "e \<in> set es" for e
        using validated_accounts[OF valid in_es[OF that]] by (auto simp: plain_entry_def member)
      moreover have "distinct (map e_id es)"
        using sorted(1) read_back at in_es by (auto simp: shape(1) distinct_map inj_on_def) (metis option.inject)
      moreover have seqs: "map (\<lambda>i. e_sequence (the (entry_of (pd_db p) i))) (tv_entry_ids tx) = map e_sequence es"
        using at in_es by (simp add: shape(1))
      ultimately show ?thesis
        unfolding book_entries_def settled_tx_def seqs read_back using sorted at in_es shape(4) by (auto simp: shape(1))
    qed
    have "landed_books (pd_db p) events = map (Pair (posting_time env)) ?es"
    proof -
      have "concat (map (\<lambda>tx. map (Pair (tv_created_at tx)) (book_entries (pd_db p) tx)) (map fst qs)) =
          map (Pair (posting_time env)) (concat (map snd qs))" if "set qs \<subseteq> set ?ps" for qs
        using that by (induction qs) (use posting posting_shape(2)[OF prep] in auto)
      then show ?thesis unfolding landed_books_def txs by simp
    qed
    moreover have "landing_ok (pd_db p) events"
      unfolding landing_ok_def
    proof (intro conjI ballI impI)
      have "map tv_id (map fst ?ps) = map pt_tx_id prepared"
        by (simp add: postings_of_def posting_of_def into_new_transaction_def Let_def case_prod_unfold)
      then show "distinct (map tv_id (landed_txs events))" using prepare_all_Inr(3)[OF prep] by (simp add: txs)
      show "distinct (map e_id (landed_entries events))" using lands by (simp add: lands_def)
      show "settled_tx (pd_db p) tx" if "tx \<in> set (landed_txs events)" for tx using that posting by (auto simp: txs)
      fix e assume "e \<in> set (landed_entries events)"
      then have e: "e \<in> set ?es" using lands es by (auto simp: lands_def)
      show "entry_of (pd_db p) (e_id e) = Some e" by (rule at[OF e])
      fix tx assume tx: "tx \<in> set (landed_txs events)" "e_transaction_id e = tv_id tx"
      from e obtain tx' es' where q: "(tx', es') \<in> set ?ps" "e \<in> set es'" by (auto simp: in_concat_snd)
      then have "tv_id tx = tv_id tx'" using posting_shape(4)[OF prep] tx(2) by metis
      moreover have "distinct (map tv_id (map fst ?ps))"
        using prepare_all_Inr(3)[OF prep] \<open>map tv_id (map fst ?ps) = map pt_tx_id prepared\<close> by simp
      ultimately have "tx = tx'" using tx(1) q(1) unfolding txs distinct_map inj_on_def by force
      then show "e_id e \<in> set (tv_entry_ids tx)" using posting_shape(1)[OF prep q(1)] q(2) by simp
    qed
    ultimately show ?thesis using member es by simp
  qed
  then show "landing_ok (pd_db p) events" "landed_books (pd_db p) events = map (Pair (posting_time env)) (posted_entries (pd_events p))"
    "db_membership (pd_db p) = db_membership db" by blast+
qed

section \<open>A sample\<close>

text \<open>The accounts of the posting sample, with the set and the second account rolled up later.\<close>

definition deferred_row :: "bool \<Rightarrow> account_row" where
  "deferred_row s = (inline_row s) \<lparr> ac_eventually_consistent := True \<rparr>"

definition deferred_membership :: membership_tables where
  "deferred_membership = post_membership \<lparr> mt_accounts :=
     [AccountId 2 \<mapsto> deferred_row True, AccountId 9 \<mapsto> inline_row False, AccountId 5 \<mapsto> deferred_row False] \<rparr>"

definition deferred_db :: "int ledger_db" where
  "deferred_db = (post_db Active) \<lparr> db_membership := deferred_membership,
     db_journals := [(JournalId 7, 1, (post_journal Active) \<lparr> jv_config := \<lparr> jc_enable_effective_balances = False \<rparr> \<rparr>)] \<rparr>"

definition deferred_post :: "(int posting_error + int posted) option" where
  "deferred_post = snd (post_all_in_op post_env cold Map.empty deferred_db [post_input 1])"

text \<open>A landing that missed the first entry of the transaction.\<close>

definition cut_landing :: "int posting_event list \<Rightarrow> int posting_event option list" where
  "cut_landing evs = [None, Some (evs ! 0), Some (evs ! 2)]"

definition sample_order :: rollup_order where
  "sample_order = \<lparr> ro_accounts = (\<lambda>as. as), ro_pairs = (\<lambda>ps. ps) \<rparr>"

definition versions_of :: "int ledger_db \<Rightarrow> uuid \<Rightarrow> int list" where
  "versions_of db u = map fst (rows_of (JournalId 7, AccountId u, USD) (bt_history (db_balances db)))"

lemma run_rolls:
  "case deferred_post of
     Some (Inr p) \<Rightarrow>
       (case roll_up sample_order (pd_db p) (cut_landing (pd_events p)) of
          Some (Inr db') \<Rightarrow> map (versions_of db') [2, 9, 5] = [[1], [1], [1]] | _ \<Rightarrow> False) \<and>
       map (versions_of (pd_db p)) [2, 9, 5] = [[], [1], []] \<and>
       lands (pd_events p) (cut_landing (pd_events p)) \<and> length (posted_entries (pd_events p)) = 2
   | _ \<Rightarrow> False"
  by code_simp

lemma sample_rolled:
  "\<exists>c p db'. post_all_in_op post_env cold Map.empty deferred_db [post_input 1] = (c, Some (Inr p)) \<and>
     roll_up sample_order (pd_db p) (cut_landing (pd_events p)) = Some (Inr db') \<and>
     map (versions_of (pd_db p)) [2, 9, 5] = [[], [1], []] \<and> map (versions_of db') [2, 9, 5] = [[1], [1], [1]] \<and>
     lands (pd_events p) (cut_landing (pd_events p)) \<and> length (posted_entries (pd_events p)) = 2"
proof -
  obtain r where r: "deferred_post = Some r" using run_rolls by (cases deferred_post) simp_all
  then obtain p where p: "deferred_post = Some (Inr p)"
    using run_rolls[unfolded r option.case] by (cases r) simp_all
  note run = run_rolls[unfolded p option.case sum.case]
  obtain db' where "roll_up sample_order (pd_db p) (cut_landing (pd_events p)) = Some (Inr db')"
    using conjunct1[OF run] by (auto split: option.splits sum.splits)
  moreover obtain c where "post_all_in_op post_env cold Map.empty deferred_db [post_input 1] = (c, Some (Inr p))"
    using p unfolding deferred_post_def by (metis prod.collapse)
  ultimately show ?thesis using run by (intro exI[of _ c] exI[of _ p] exI[of _ db']) simp
qed

text \<open>The tables of the sample are those of an operation that created a deferred set and the two accounts.\<close>

definition deferred_set :: new_account_set where
  "deferred_set = (sample_set 2) \<lparr> nas_balance_rollup := EventuallyConsistent \<rparr>"

definition deferred_account_input :: new_account where
  "deferred_account_input = (plain_account 5 None) \<lparr> na_eventually_consistent := True \<rparr>"

lemma deferred_ledger:
  "\<exists>(w :: set_world) lt. reachable sample_id_string (\<lambda>es. es) w \<and> lt \<in> views w \<and>
     lt_membership lt = deferred_membership \<and> sw_snapshot w = cold"
proof -
  have "\<exists>lt1 e1 lt2 e2 lt3 e3. create_all_sets_in_op sample_id_string (lt_membership no_tables)
       (no_tables \<lparr> lt_journals := [JournalId 7] \<rparr>) [deferred_set] = Some (Inr (lt1, e1)) \<and>
     create_account_in_op (lt_membership no_tables) lt1 (plain_account 9 (Some (AccountSetId 2))) = Some (Inr (lt2, e2)) \<and>
     create_account_in_op (lt_membership no_tables) lt2 deferred_account_input = Some (Inr (lt3, e3)) \<and>
     lt_membership lt3 = deferred_membership"
    by (simp add: create_evals plain_account_def deferred_set_def deferred_account_input_def deferred_membership_def
        deferred_row_def post_membership_def inline_row_def)
  then show ?thesis using created_world by metis
qed

lemma deferred_start:
  "store_ok (db_balances deferred_db)" "db_membership deferred_db = deferred_membership"
  "rows_of k (bt_history (db_balances deferred_db)) = []" "stored (db_balances deferred_db) k = None"
  "db_entry_events deferred_db = []" "posting_time post_env = 11"
  by (simp_all add: deferred_db_def post_db_def posting_time_def post_env_def store_ok_empty rows_of_def stored_def)

lemma sample_order_ok: "set (ro_accounts sample_order as) = set as" "set (ro_pairs sample_order ps) = set ps"
  by (simp_all add: sample_order_def)

lemma sample_landing:
  "\<exists>db events (db' :: int ledger_db). landing_ok db events \<and> store_ok (db_balances db) \<and> db_membership db = deferred_membership \<and>
     sets_flagged deferred_membership \<and> roll_up sample_order db events = Some (Inr db') \<and>
     map (versions_of db) [2, 9, 5] = [[], [1], []] \<and> map (versions_of db') [2, 9, 5] = [[1], [1], [1]]"
proof -
  obtain w lt where w: "reachable sample_id_string (\<lambda>es. es) w" "lt \<in> views w" "lt_membership lt = deferred_membership"
    "sw_snapshot w = cold" using deferred_ledger by blast
  obtain c p db' where run: "post_all_in_op post_env cold Map.empty deferred_db [post_input 1] = (c, Some (Inr p))"
    and roll: "roll_up sample_order (pd_db p) (cut_landing (pd_events p)) = Some (Inr db')"
    and versions: "map (versions_of (pd_db p)) [2, 9, 5] = [[], [1], []]" "map (versions_of db') [2, 9, 5] = [[1], [1], [1]]"
    and lands: "lands (pd_events p) (cut_landing (pd_events p))" and len: "length (posted_entries (pd_events p)) = 2"
    using sample_rolled by (elim exE conjE)
  have from_db: "posts_from post_env cold deferred_db"
    using posts_from_reachable[OF w(1,2), of deferred_db post_env] by (simp add: w deferred_start sample_start)
  have few: "length (posted_entries (pd_events p)) < 2 ^ 32" "evr_id ` set (db_entry_events deferred_db) \<subseteq> en_id ` set (db_entries deferred_db)"
    by (simp_all add: len deferred_start)
  have "landing_ok (pd_db p) (cut_landing (pd_events p))" "db_membership (pd_db p) = deferred_membership"
    using batch_lands[OF run deferred_start(1) few(2,1) lands] by (simp_all add: deferred_start)
  moreover have "store_ok (db_balances (pd_db p))" using posted_balances[OF from_db run] by blast
  moreover have "sets_flagged deferred_membership" using reachable_flagged[OF w(1,2)] by (simp add: w)
  ultimately show ?thesis using roll versions by (intro exI conjI)
qed

text \<open>The sample with its set locked after the posting.\<close>

definition locked_membership :: membership_tables where
  "locked_membership = deferred_membership \<lparr> mt_accounts :=
     (mt_accounts deferred_membership)(AccountId 2 \<mapsto> (deferred_row True) \<lparr> ac_status := Locked \<rparr>) \<rparr>"

lemma locked_sets:
  "sets_flagged deferred_membership \<Longrightarrow> sets_flagged locked_membership"
  "plain_entry locked_membership e = plain_entry deferred_membership e"
  "reaches locked_membership k e = reaches deferred_membership k e"
  by (auto simp: sets_flagged_def locked_membership_def deferred_membership_def deferred_row_def inline_row_def plain_entry_def
      reaches_def sets_in_def ancestor_sets_def post_membership_def account_of_set_def)

lemma landing_ok_membership:
  fixes db :: "'d ledger_db"
  assumes "\<And>e :: 'd entry_values. plain_entry mt e = plain_entry (db_membership db) e"
  shows "landing_ok (db \<lparr> db_membership := mt \<rparr>) events = landing_ok db events"
    and "landed_books (db \<lparr> db_membership := mt \<rparr>) events = landed_books db events"
proof -
  have entries: "entry_of (db \<lparr> db_membership := mt \<rparr>) i = entry_of db i" for i by (simp add: entry_of_def stored_entry_def)
  then have "settled_tx (db \<lparr> db_membership := mt \<rparr>) tx = settled_tx db tx" for tx by (simp add: settled_tx_def assms)
  then show "landing_ok (db \<lparr> db_membership := mt \<rparr>) events = landing_ok db events"
    "landed_books (db \<lparr> db_membership := mt \<rparr>) events = landed_books db events"
    by (simp_all add: landing_ok_def landed_books_def book_entries_def entries)
qed

lemma rollup_appends:
  fixes env :: "'d::linordered_ab_group_add posting_env"
  assumes "reachable id_string ord w" and "lt \<in> views w" and "db_membership db = lt_membership lt"
    and "store_ok (db_balances db)" and "\<And>ps. mset (pn_pair_order env ps) = mset ps"
    and "evr_id ` set (db_entry_events db) \<subseteq> en_id ` set (db_entries db)"
    and "post_all_in_op env (sw_snapshot w) cache db batch = (cache', Some (Inr p))"
    and "length (posted_entries (pd_events p)) < 2 ^ 32" and "lands (pd_events p) events"
    and "\<And>as. set (ro_accounts order as) = set as" and "\<And>ps. set (ro_pairs order ps) = set ps"
    and "roll_up order (pd_db p) events = Some (Inr db')" and "mt_accounts (lt_membership lt) a \<noteq> None"
  shows "store_ok (db_balances db') \<and>
    rows_of (j, a, c) (bt_history (db_balances db')) = rows_of (j, a, c) (bt_history (db_balances db)) @
      map (\<lambda>s. (as_i32 (bs_version s), s))
        (chain (next_snapshot (posting_time env) a) (stored (db_balances db) (j, a, c))
          (filter (reaches (lt_membership lt) (j, a, c)) (posted_entries (pd_events p))))"
proof -
  let ?mt = "lt_membership lt" and ?es = "posted_entries (pd_events p)"
  note from_db = posts_from_reachable[OF assms(1-5)]
  note posted = posted_balances[OF from_db assms(7), of j a c]
  note landed = batch_lands[OF assms(7,4,6,8,9)]
  have flagged: "sets_flagged (db_membership (pd_db p))"
    using from_db by (simp add: landed(3) posts_from_def)
  note rolled = landing_rolls[OF landed(1) conjunct1[OF posted] flagged assms(10-12), of j a c]
  have reach: "filter (\<lambda>(t, e). reaches ?mt (j, a, c) e) (landed_books (pd_db p) events) =
      map (Pair (posting_time env)) (filter (reaches ?mt (j, a, c)) ?es)"
    by (simp add: landed(2) filter_map comp_def)
  obtain r where r: "mt_accounts ?mt a = Some r" using assms(13) by blast
  show ?thesis
  proof (cases "ac_eventually_consistent r")
    case True
    then have same: "rows_of (j, a, c) (bt_history (db_balances (pd_db p))) = rows_of (j, a, c) (bt_history (db_balances db))"
      using posted r by (simp add: inline_account_def assms(3))
    then have "stored (db_balances (pd_db p)) (j, a, c) = stored (db_balances db) (j, a, c)"
      using posted assms(4) by (simp add: stored_latest)
    then show ?thesis using rolled r True same by (simp add: landed(3) assms(3) deferred_account_def reach)
  next
    case False
    then show ?thesis using rolled posted r by (simp add: landed(3) assms(3) deferred_account_def inline_account_def)
  qed
qed

section \<open>Properties\<close>

text \<open>
  C2: Posting and rollup together keep the whole ledger. When a batch has been posted, in any
  reachable state, and a landing that carries its transactions has been flushed, the history of
  every balance, inline or eventually consistent, of an account or of a set, has grown by exactly
  the chain of the published entries that reach it, in posting order and with the posting time,
  from the balance that was stored. The landing may carry any part of the entries.
\<close>

theorem rollup_completes_posting:
  fixes env :: "'d::linordered_ab_group_add posting_env"
  assumes "reachable id_string ord w" and "lt \<in> views w" and "db_membership db = lt_membership lt"
    and "store_ok (db_balances db)" and "\<And>ps. mset (pn_pair_order env ps) = mset ps"
    and "evr_id ` set (db_entry_events db) \<subseteq> en_id ` set (db_entries db)"
    and "post_all_in_op env (sw_snapshot w) cache db batch = (cache', Some (Inr p))"
    and "length (posted_entries (pd_events p)) < 2 ^ 32" and "lands (pd_events p) events"
    and "\<And>as. set (ro_accounts order as) = set as" and "\<And>ps. set (ro_pairs order ps) = set ps"
    and "roll_up order (pd_db p) events = Some (Inr db')" and "mt_accounts (lt_membership lt) a \<noteq> None"
  shows "store_ok (db_balances db') \<and>
    rows_of (j, a, c) (bt_history (db_balances db')) = rows_of (j, a, c) (bt_history (db_balances db)) @
      map (\<lambda>s. (as_i32 (bs_version s), s))
        (chain (next_snapshot (posting_time env) a) (stored (db_balances db) (j, a, c))
          (filter (reaches (lt_membership lt) (j, a, c)) (posted_entries (pd_events p))))"
  by (rule rollup_appends[OF assms])

lemma rollup_completes_posting_witness:
  "\<exists>c p db'. post_all_in_op post_env cold Map.empty deferred_db [post_input 1] = (c, Some (Inr p)) \<and>
     roll_up sample_order (pd_db p) (cut_landing (pd_events p)) = Some (Inr db') \<and>
     versions_of db' 2 = [1] \<and> versions_of (pd_db p) 2 = [] \<and>
     map snd (rows_of (JournalId 7, AccountId 2, USD) (bt_history (db_balances db'))) =
       chain (next_snapshot 11 (AccountId 2)) None
         (filter (reaches deferred_membership (JournalId 7, AccountId 2, USD)) (posted_entries (pd_events p)))"
proof -
  obtain w lt where w: "reachable sample_id_string (\<lambda>es. es) w" "lt \<in> views w" "lt_membership lt = deferred_membership"
    "sw_snapshot w = cold" using deferred_ledger by blast
  obtain c p db' where run: "post_all_in_op post_env cold Map.empty deferred_db [post_input 1] = (c, Some (Inr p))"
    and roll: "roll_up sample_order (pd_db p) (cut_landing (pd_events p)) = Some (Inr db')"
    and versions: "map (versions_of (pd_db p)) [2, 9, 5] = [[], [1], []]" "map (versions_of db') [2, 9, 5] = [[1], [1], [1]]"
    and lands: "lands (pd_events p) (cut_landing (pd_events p))" and len: "length (posted_entries (pd_events p)) = 2"
    using sample_rolled by (elim exE conjE)
  have "mt_accounts deferred_membership (AccountId 2) \<noteq> None" by (simp add: deferred_membership_def)
  then show ?thesis
    using rollup_completes_posting[OF w(1,2), where db = deferred_db and env = post_env and cache = Map.empty
        and batch = "[post_input 1]" and cache' = c and p = p and order = sample_order and db' = db' and
        events = "cut_landing (pd_events p)" and a = "AccountId 2" and j = "JournalId 7" and c = USD]
      run roll versions lands len
    by (simp add: w deferred_start sample_start sample_order_ok comp_def)
qed

text \<open>
  C5: With the rollup the books of all accounts balance. When a batch has been posted and a landing
  that carries its transactions has been flushed, debits less credits, summed over the balances
  of all accounts that are no sets, inline and eventually consistent, are what they were before
  the batch, in every journal, currency and layer, whatever accounts it posted to.
\<close>

theorem rollup_restores_trial_balance:
  fixes env :: "'d::linordered_ab_group_add posting_env"
  assumes "reachable id_string ord w" and "lt \<in> views w" and "db_membership db = lt_membership lt"
    and "store_ok (db_balances db)" and "\<And>ps. mset (pn_pair_order env ps) = mset ps"
    and "\<And>k i m. set (pe_hash_order (pn_prepare env k i) m) = set m"
    and "evr_id ` set (db_entry_events db) \<subseteq> en_id ` set (db_entries db)"
    and "post_all_in_op env (sw_snapshot w) cache db batch = (cache', Some (Inr p))"
    and "rows_versioned (db_balances db)"
    and "has_version_room (db_balances db) (length (posted_entries (pd_events p)))"
    and "lands (pd_events p) events"
    and "\<And>as. set (ro_accounts order as) = set as" and "\<And>ps. set (ro_pairs order ps) = set ps"
    and "roll_up order (pd_db p) events = Some (Inr db')"
  shows "trial_balance (lt_membership lt) (db_balances db') j c l = trial_balance (lt_membership lt) (db_balances db) j c l"
proof -
  let ?mt = "lt_membership lt" and ?es = "filter (\<lambda>e. e_journal_id e = j \<and> e_currency e = c) (posted_entries (pd_events p))"
  have flagged: "sets_flagged ?mt"
    using posts_from_reachable[OF assms(1-5)] by (simp add: posts_from_def assms(3))
  have "length (posted_entries (pd_events p)) < 2 ^ 32" using assms(10) by (simp add: has_version_room_def)
  note grown = rollup_appends[OF assms(1-5,7,8) this assms(11-14)]
  have "trial_balance ?mt (db_balances db') j c l = trial_balance ?mt (db_balances db) j c l + sides_net l ?es"
  proof (rule trial_balance_moves)
    show "stored (db_balances db') (j, a, c) = chain_end (next_snapshot (posting_time env) a)
        (stored (db_balances db) (j, a, c)) (filter (\<lambda>e. e_account_id e = a) ?es)" if leaf: "leaf_account ?mt a" for a
    proof -
      have "mt_accounts ?mt a \<noteq> None" using leaf by (auto simp: leaf_account_def split: option.splits)
      from grown[OF this, of j c] show ?thesis
        by (intro stored_after[OF assms(4,9,10)]) (auto simp: leaf_reaches[OF flagged leaf] intro: order_trans[OF length_filter_le])
    qed
    show "leaf_account ?mt (e_account_id e)" if "e \<in> set ?es" for e
      using posted_entry_facts(1)[OF assms(8,6), of e] that by (auto simp: leaf_account_def assms(3))
  qed
  then show ?thesis using posted_entry_facts(2)[OF assms(8,6), of l j c] by simp
qed

lemma rollup_restores_trial_balance_witness:
  "\<exists>c p db'. post_all_in_op post_env cold Map.empty deferred_db [post_input 1] = (c, Some (Inr p)) \<and>
     roll_up sample_order (pd_db p) (cut_landing (pd_events p)) = Some (Inr db') \<and>
     versions_of (pd_db p) 5 = [] \<and> versions_of db' 5 = [1] \<and>
     trial_balance deferred_membership (db_balances db') (JournalId 7) USD Settled = 0"
proof -
  obtain w lt where w: "reachable sample_id_string (\<lambda>es. es) w" "lt \<in> views w" "lt_membership lt = deferred_membership"
    "sw_snapshot w = cold" using deferred_ledger by blast
  obtain c p db' where run: "post_all_in_op post_env cold Map.empty deferred_db [post_input 1] = (c, Some (Inr p))"
    and roll: "roll_up sample_order (pd_db p) (cut_landing (pd_events p)) = Some (Inr db')"
    and versions: "map (versions_of (pd_db p)) [2, 9, 5] = [[], [1], []]" "map (versions_of db') [2, 9, 5] = [[1], [1], [1]]"
    and lands: "lands (pd_events p) (cut_landing (pd_events p))" and len: "length (posted_entries (pd_events p)) = 2"
    using sample_rolled by (elim exE conjE)
  have start: "bt_history (db_balances deferred_db) = []" "bt_current (db_balances deferred_db) = []"
    by (simp_all add: deferred_db_def post_db_def)
  have "trial_balance deferred_membership (db_balances deferred_db) (JournalId 7) USD Settled = 0"
    by (simp add: trial_balance_def start)
  moreover have "rows_versioned (db_balances deferred_db)" "has_version_room (db_balances deferred_db) 2"
    by (simp_all add: start rows_versioned_def has_version_room_def)
  moreover have "set (pe_hash_order (pn_prepare post_env k i) m) = set m" for k i m by (simp add: post_env_def post_prep_def)
  ultimately show ?thesis
    using rollup_restores_trial_balance[OF w(1,2), where db = deferred_db and env = post_env and cache = Map.empty
        and batch = "[post_input 1]" and cache' = c and p = p and order = sample_order and db' = db' and
        events = "cut_landing (pd_events p)" and j = "JournalId 7" and c = USD and l = Settled]
      run roll versions lands len
    by (simp add: w deferred_start sample_start sample_order_ok comp_def)
qed

text \<open>
  C11: A landing refines insertion into the books. When flushing a landing succeeds, the history of every eventually consistent balance has grown by the
  chain of the entries of the landed transactions that reach it, over all journals, each with the
  creation time of its transaction; other balances and all other tables are as they were.
\<close>

theorem landing_refines_books:
  fixes db :: "'d::linordered_ab_group_add ledger_db"
  assumes "landing_ok db events" and "store_ok (db_balances db)" and "sets_flagged (db_membership db)"
    and "\<And>as. set (ro_accounts ord as) = set as" and "\<And>ps. set (ro_pairs ord ps) = set ps"
    and "roll_up ord db events = Some (Inr db')"
  shows "store_ok (db_balances db') \<and> (\<exists>bt rows. db' = db \<lparr> db_balances := bt, db_effective := rows \<rparr>) \<and>
    rows_of (j, a, c) (bt_history (db_balances db')) = rows_of (j, a, c) (bt_history (db_balances db)) @
      (if deferred_account (db_membership db) a
       then map (\<lambda>s. (as_i32 (bs_version s), s))
         (chain (dated_step a) (stored (db_balances db) (j, a, c))
           (filter (\<lambda>(t, e). reaches (db_membership db) (j, a, c) e) (landed_books db events)))
       else [])"
  by (rule landing_rolls[OF assms])

lemma landing_refines_books_witness:
  "\<exists>db events db'. roll_up sample_order db events = Some (Inr db') \<and>
     versions_of db 5 = [] \<and> versions_of db' 5 = [1] \<and>
     rows_of (JournalId 7, AccountId 5, USD) (bt_history (db_balances db')) =
       rows_of (JournalId 7, AccountId 5, USD) (bt_history (db_balances db)) @
       map (\<lambda>s. (as_i32 (bs_version s), s))
         (chain (dated_step (AccountId 5)) (stored (db_balances db) (JournalId 7, AccountId 5, USD))
           (filter (\<lambda>(t, e). reaches deferred_membership (JournalId 7, AccountId 5, USD) e) (landed_books db events)))"
proof -
  obtain db :: "int ledger_db" and events db' where ok: "landing_ok db events" "store_ok (db_balances db)"
    "db_membership db = deferred_membership" "sets_flagged deferred_membership"
    "roll_up sample_order db events = Some (Inr db')"
    "map (versions_of db) [2, 9, 5] = [[], [1], []]" "map (versions_of db') [2, 9, 5] = [[1], [1], [1]]"
    using sample_landing by (elim exE conjE)
  have "deferred_account deferred_membership (AccountId 5)"
    by (simp add: deferred_account_def deferred_membership_def deferred_row_def)
  then show ?thesis
    using landing_refines_books[OF ok(1,2) _ sample_order_ok ok(5), of "JournalId 7" "AccountId 5" USD] ok
    by (intro exI[of _ db] exI[of _ events] exI[of _ db']) simp
qed

text \<open>
  C13: However the stream is cut, the driver gets the same input. A landing is rolled up as if every
  transaction in it had come with all its entries, in order of their sequence, although entries
  may be missing from it, may come out of order, or may belong to transactions flushed before.
\<close>

theorem landings_are_completed:
  fixes db :: "'d::linordered_ab_group_add ledger_db"
  assumes "landing_ok db events"
  shows "roll_up ord db events =
    map_option (map_err RollupBalanceError) (apply_ec_rollup_in_op ord db (map (rolled_txn db) (landed_txs events)))"
  by (rule flush_is_complete[OF assms])

lemma landings_are_completed_witness:
  "\<exists>(db :: int ledger_db) events. roll_up sample_order db events =
     map_option (map_err RollupBalanceError) (apply_ec_rollup_in_op sample_order db (map (rolled_txn db) (landed_txs events))) \<and>
     (\<exists>db'. roll_up sample_order db events = Some (Inr db') \<and> versions_of db' 2 = [1])"
proof -
  obtain db :: "int ledger_db" and events db' where ok: "landing_ok db events"
    "roll_up sample_order db events = Some (Inr db')" "map (versions_of db') [2, 9, 5] = [[1], [1], [1]]"
    using sample_landing by (elim exE conjE)
  from landings_are_completed[OF ok(1), of sample_order] ok(2,3) show ?thesis
    by (intro exI[of _ db] exI[of _ events] conjI exI[of _ db']) simp_all
qed


text \<open>
  C14: An account that is locked after a posting stops the rollup. Posting checks locks when it
  accepts an entry; the rollup checks them again when it applies it. A landing with an entry that
  reaches an eventually consistent account that is locked by then is not rolled up, neither that
  entry nor any other of the landing.
\<close>

theorem locked_account_stops_rollup:
  fixes db :: "'d::linordered_ab_group_add ledger_db"
  assumes "landing_ok db events" and "sets_flagged (db_membership db)"
    and "\<And>as. set (ro_accounts ord as) = set as" and "\<And>ps. set (ro_pairs ord ps) = set ps"
    and "mt_accounts (db_membership db) a = Some r" and "ac_eventually_consistent r" and "ac_status r = Locked"
    and "(t, e) \<in> set (landed_books db events)" and "reaches (db_membership db) (j, a, c) e"
  shows "roll_up ord db events \<noteq> Some (Inr db')"
proof
  assume "roll_up ord db events = Some (Inr db')"
  note applied = landing_applied[OF assms(1) this]
  have "dated_reaching (db_membership db) (j, a, c) (map (rolled_txn db) (landed_txs events)) \<noteq> []"
    using assms(8,9) unfolding landing_reaching by (auto simp: filter_empty_conv)
  from apply_rollup_unlocked[OF applied assms(2) landed_txns_ok[OF assms(1)] assms(3,4) this assms(5,6)]
  show False using assms(7) by simp
qed

lemma locked_account_stops_rollup_witness:
  "\<exists>db events. landed_books db events \<noteq> [] \<and> db_membership db = locked_membership \<and>
     (\<exists>db' :: int ledger_db. roll_up sample_order (db \<lparr> db_membership := deferred_membership \<rparr>) events = Some (Inr db')) \<and>
     (\<forall>db'. roll_up sample_order db events \<noteq> Some (Inr db'))"
proof -
  obtain db :: "int ledger_db" and events db' where ok: "landing_ok db events" "store_ok (db_balances db)"
    "db_membership db = deferred_membership" "sets_flagged deferred_membership"
    "roll_up sample_order db events = Some (Inr db')"
    "map (versions_of db) [2, 9, 5] = [[], [1], []]" "map (versions_of db') [2, 9, 5] = [[1], [1], [1]]"
    using sample_landing by (elim exE conjE)
  let ?locked = "db \<lparr> db_membership := locked_membership \<rparr>" and ?k = "(JournalId 7, AccountId 2, USD)"
  have "filter (\<lambda>(t, e). reaches (db_membership db) ?k e) (landed_books db events) \<noteq> []"
  proof
    assume none: "filter (\<lambda>(t, e). reaches (db_membership db) ?k e) (landed_books db events) = []"
    have "sets_flagged (db_membership db)" using ok(3,4) by simp
    from landing_rolls[OF ok(1,2) this sample_order_ok ok(5), of "JournalId 7" "AccountId 2" USD]
    have "versions_of db' 2 = versions_of db 2" unfolding none by (simp add: versions_of_def)
    then show False using ok(6,7) by simp
  qed
  then obtain t e where te: "(t, e) \<in> set (landed_books db events)" "reaches deferred_membership ?k e"
    by (auto simp: filter_empty_conv ok(3))
  have row: "mt_accounts locked_membership (AccountId 2) = Some ((deferred_row True) \<lparr> ac_status := Locked \<rparr>)"
    by (simp add: locked_membership_def)
  have plain: "plain_entry locked_membership e = plain_entry (db_membership db) e" for e :: "int entry_values"
    by (simp add: locked_sets(2) ok(3))
  have landing: "landing_ok ?locked events" "landed_books ?locked events = landed_books db events"
    using landing_ok_membership[OF plain, of events] ok(1) by simp_all
  have "roll_up sample_order ?locked events \<noteq> Some (Inr db'')" for db''
    by (rule locked_account_stops_rollup[OF landing(1) _ sample_order_ok,
          of "AccountId 2" "(deferred_row True) \<lparr> ac_status := Locked \<rparr>" t e "JournalId 7" USD])
      (use te landing(2) locked_sets(1) ok(4) row in \<open>simp_all add: locked_sets(3) deferred_row_def\<close>)
  moreover have "roll_up sample_order (?locked \<lparr> db_membership := deferred_membership \<rparr>) events = Some (Inr db')"
    using ok(5) by (simp flip: ok(3))
  moreover have "landed_books ?locked events \<noteq> []" using te(1) landing(2) by auto
  ultimately show ?thesis by (intro exI[of _ ?locked] exI[of _ events]) auto
qed

end
