(* ===== verification/Listings.thy ===== *)
theory Listings imports Account_Sets Posting_Repo Pagination begin

text \<open>
  The hand-written listings: the account sets of a member (\<open>account_set/repo.rs\<close>), the entries of
  a journal and of an account set (\<open>entry/repo.rs\<close>), and the members of an account set
  (\<open>account_set_member/repo.rs\<close>).

  A column the other theories do not need is a function of the row's key: \<open>created\<close> is the
  \<open>created_at\<close> column. \<open>collate\<close> is the order of the database's collation as a sort key.
\<close>

section \<open>Descending order\<close>

datatype 'c down = Down (raised: 'c)

instantiation down :: (linorder) linorder
begin

definition less_eq_down :: "'a down \<Rightarrow> 'a down \<Rightarrow> bool" where
  "less_eq_down a b \<longleftrightarrow> raised b \<le> raised a"

definition less_down :: "'a down \<Rightarrow> 'a down \<Rightarrow> bool" where
  "less_down a b \<longleftrightarrow> raised b < raised a"

instance
  by standard (auto simp: less_eq_down_def less_down_def intro: down.expand)

end

lemma down_order [simp]:
  "Down a \<le> Down b \<longleftrightarrow> b \<le> a"
  "Down a < Down b \<longleftrightarrow> b < a"
  by (simp_all add: less_eq_down_def less_down_def)

section \<open>A sorted page\<close>

text \<open>
  \<open>WHERE .. AND cursor < row ORDER BY key LIMIT first + 1\<close>, then \<open>fetch_n(first)\<close>: \<open>cursor\<close> is the
  cursor of a row, \<open>rank\<close> the place of a cursor in the order.
\<close>

definition order_page ::
  "('c \<Rightarrow> 'k::linorder) \<Rightarrow> ('a \<Rightarrow> 'c) \<Rightarrow> 'a list \<Rightarrow> nat \<Rightarrow> 'c option \<Rightarrow> ('a, 'c) page" where
  "order_page rank cursor rows first after =
     page_of first cursor
       (sort_key (rank \<circ> cursor) (past (rank \<circ> cursor) (map_option rank after) rows))"

lemma past_sort_key: "sort_key key (past key after rows) = past key after (sort_key key rows)"
  unfolding past_def by (rule filter_sort[symmetric])

lemma sorted_by_key:
  assumes "distinct (map key rows)"
  shows "sorted_wrt (\<lambda>x y. key x < key y) (sort_key key rows)"
proof -
  have "distinct (map key (sort_key key rows))"
    using assms by (metis mset_map mset_sort mset_eq_imp_distinct_iff)
  then have "sorted_wrt (<) (map key (sort_key key rows))" by (simp add: strict_sorted_iff)
  then show ?thesis by (simp add: sorted_wrt_map)
qed

interpretation ordered: keyset_listing "\<lambda>rows. distinct (map (rank \<circ> cursor) rows)"
    "\<lambda>rows n after. page_of n (rank \<circ> cursor) (sort_key (rank \<circ> cursor) (past (rank \<circ> cursor) after rows))"
    "sort_key (rank \<circ> cursor)" "rank \<circ> cursor" for rank cursor
  by unfold_locales (rule sorted_by_key, assumption, simp add: past_sort_key)

text \<open>Two requests that agree up to a change of cursor enumerate the same rows.\<close>

lemma follow_map_cursor:
  assumes "\<And>c. pg_entities (req' (map_option rank c)) = pg_entities (req c) \<and>
      pg_has_next_page (req' (map_option rank c)) = pg_has_next_page (req c) \<and>
      pg_end_cursor (req' (map_option rank c)) = map_option rank (pg_end_cursor (req c))"
  shows "follow req' m (map_option rank c) = follow req m c"
proof (induction m arbitrary: c)
  case (Suc m)
  then show ?case using assms[of c] by (simp add: Let_def)
qed simp

lemma order_page_complete:
  assumes "distinct (map (rank \<circ> cursor) rows)" and "0 < n" and "length rows \<le> m" and "0 < m"
  shows "follow (order_page rank cursor rows n) m None = sort_key (rank \<circ> cursor) rows"
proof -
  let ?req = "\<lambda>after. page_of n (rank \<circ> cursor) (sort_key (rank \<circ> cursor) (past (rank \<circ> cursor) after rows))"
  have "follow ?req m (map_option rank None) = follow (order_page rank cursor rows n) m None"
    by (rule follow_map_cursor) (simp add: order_page_def page_of_def Let_def comp_def)
  then show ?thesis using ordered.follow_all[of rank cursor rows n m] assms by simp
qed

section \<open>The account sets of a member\<close>

record set_name_cursor =
  snc_id :: account_set_id
  snc_name :: string

definition set_name_cursor_of :: "account_set_values \<Rightarrow> set_name_cursor" where
  "set_name_cursor_of v = \<lparr> snc_id = asv_id v, snc_name = asv_name v \<rparr>"

definition by_name :: "(string \<Rightarrow> string) \<Rightarrow> set_name_cursor \<Rightarrow> string \<times> account_set_id" where
  "by_name collate c = (collate (snc_name c), snc_id c)"

text \<open>\<open>cala_account_sets a JOIN .. ON asm.account_set_id = a.id\<close>, by the identifiers the link table gives.\<close>

definition joined_sets :: "ledger_tables \<Rightarrow> account_set_id list \<Rightarrow> account_set_values list" where
  "joined_sets lt containers =
     concat (map (\<lambda>(i, v). map (\<lambda>_. v) (filter ((=) i) containers)) (lt_sets lt))"

definition find_where_account_is_member_in_op ::
  "(string \<Rightarrow> string) \<Rightarrow> ledger_tables \<Rightarrow> account_id \<Rightarrow> nat \<Rightarrow> set_name_cursor option
     \<Rightarrow> (account_set_values, set_name_cursor) page" where
  "find_where_account_is_member_in_op collate lt account_id =
     order_page (by_name collate) set_name_cursor_of
       (joined_sets lt (map fst (filter (\<lambda>(_, a). a = account_id) (mt_member_accounts (lt_membership lt)))))"

definition find_where_account_set_is_member_in_op ::
  "(string \<Rightarrow> string) \<Rightarrow> ledger_tables \<Rightarrow> account_set_id \<Rightarrow> nat \<Rightarrow> set_name_cursor option
     \<Rightarrow> (account_set_values, set_name_cursor) page" where
  "find_where_account_set_is_member_in_op collate lt account_set_id =
     order_page (by_name collate) set_name_cursor_of
       (joined_sets lt (map fst (filter (\<lambda>(_, m). m = account_set_id) (mt_member_sets (lt_membership lt)))))"

lemma joined_sets_unique:
  assumes "distinct (map fst sets)" and "distinct containers"
  shows "distinct (concat (map (\<lambda>(i, v). map (\<lambda>_. i) (filter ((=) i) containers)) sets))"
  using assms(1)
proof (induction sets)
  case (Cons s sets)
  obtain i v where s: "s = (i, v)" by force
  have "distinct (map (\<lambda>_. i) (filter ((=) i) containers))"
    using assms(2) by (induction containers) (auto simp: filter_empty_conv)
  moreover have "i \<notin> set (concat (map (\<lambda>(i, v). map (\<lambda>_. i) (filter ((=) i) containers)) sets))"
    using Cons.prems s by force
  ultimately show ?case using Cons s by auto
qed simp

lemma joined_sets_ids:
  assumes "\<forall>(i, v) \<in> set (lt_sets lt). asv_id v = i"
  shows "map asv_id (joined_sets lt containers) =
    concat (map (\<lambda>(i, v). map (\<lambda>_. i) (filter ((=) i) containers)) (lt_sets lt))"
proof -
  have "map (map asv_id \<circ> (\<lambda>(i, v). map (\<lambda>_. v) (filter ((=) i) containers))) (lt_sets lt) =
      map (\<lambda>(i, v). map (\<lambda>_. i) (filter ((=) i) containers)) (lt_sets lt)"
  proof (rule map_cong[OF refl])
    fix s assume "s \<in> set (lt_sets lt)"
    with assms have "asv_id (snd s) = fst s" by (cases s) auto
    then show "(map asv_id \<circ> (\<lambda>(i, v). map (\<lambda>_. v) (filter ((=) i) containers))) s =
        (\<lambda>(i, v). map (\<lambda>_. i) (filter ((=) i) containers)) s"
      by (cases s) (simp add: comp_def)
  qed
  then show ?thesis by (simp only: joined_sets_def map_concat list.map_comp)
qed

lemma distinct_map_by: "distinct (map f xs) \<Longrightarrow> (\<And>x y. g x = g y \<Longrightarrow> f x = f y) \<Longrightarrow> distinct (map g xs)"
  unfolding distinct_map by (blast dest: inj_onD intro: inj_onI)

lemma joined_sets_complete:
  assumes "distinct (map fst (lt_sets lt))" and "\<forall>(i, v) \<in> set (lt_sets lt). asv_id v = i"
    and "distinct containers" and "0 < n" and "length (joined_sets lt containers) \<le> m" and "0 < m"
  shows "follow (order_page (by_name collate) set_name_cursor_of (joined_sets lt containers) n) m None =
    sort_key (\<lambda>v. (collate (asv_name v), asv_id v)) (joined_sets lt containers)"
proof -
  have "distinct (map asv_id (joined_sets lt containers))"
    using joined_sets_unique[OF assms(1,3)] by (simp add: joined_sets_ids[OF assms(2)])
  then have "distinct (map (by_name collate \<circ> set_name_cursor_of) (joined_sets lt containers))"
    by (rule distinct_map_by) (simp add: by_name_def set_name_cursor_of_def)
  from order_page_complete[OF this assms(4-6)] show ?thesis
    by (simp add: by_name_def set_name_cursor_of_def comp_def)
qed

text \<open>Following the cursors lists the sets a member is directly in, each once, by name.\<close>

lemma find_where_account_is_member_complete:
  assumes "distinct (map fst (lt_sets lt))" and "\<forall>(i, v) \<in> set (lt_sets lt). asv_id v = i"
    and "distinct (mt_member_accounts (lt_membership lt))" and "0 < n" and "0 < m"
    and "containers = map fst (filter (\<lambda>(_, a). a = account_id) (mt_member_accounts (lt_membership lt)))"
    and "length (joined_sets lt containers) \<le> m"
  shows "follow (find_where_account_is_member_in_op collate lt account_id n) m None =
    sort_key (\<lambda>v. (collate (asv_name v), asv_id v)) (joined_sets lt containers)"
  unfolding find_where_account_is_member_in_op_def assms(6)[symmetric]
  by (rule joined_sets_complete) (use assms in \<open>auto simp: distinct_map inj_on_def\<close>)

lemma find_where_account_set_is_member_complete:
  assumes "distinct (map fst (lt_sets lt))" and "\<forall>(i, v) \<in> set (lt_sets lt). asv_id v = i"
    and "distinct (mt_member_sets (lt_membership lt))" and "0 < n" and "0 < m"
    and "containers = map fst (filter (\<lambda>(_, m). m = account_set_id) (mt_member_sets (lt_membership lt)))"
    and "length (joined_sets lt containers) \<le> m"
  shows "follow (find_where_account_set_is_member_in_op collate lt account_set_id n) m None =
    sort_key (\<lambda>v. (collate (asv_name v), asv_id v)) (joined_sets lt containers)"
  unfolding find_where_account_set_is_member_in_op_def assms(6)[symmetric]
  by (rule joined_sets_complete) (use assms in \<open>auto simp: distinct_map inj_on_def\<close>)

section \<open>Entries\<close>

datatype list_direction = Ascending | Descending

record entry_cursor =
  cur_id :: entry_id
  cur_created_at :: date_time

record entries_filter =
  created_at_from :: "date_time option"
  created_at_to :: "date_time option"
  effective_from :: "naive_date option"
  effective_to :: "naive_date option"

definition entry_cursor_of :: "(entry_id \<Rightarrow> date_time) \<Rightarrow> entry_row \<Rightarrow> entry_cursor" where
  "entry_cursor_of created r = \<lparr> cur_id = en_id r, cur_created_at = created (en_id r) \<rparr>"

definition by_created_at :: "entry_cursor \<Rightarrow> date_time \<times> entry_id" where
  "by_created_at c = (cur_created_at c, cur_id c)"

text \<open>The two arms of \<open>match direction\<close>: the comparison with the cursor and the order turn round.\<close>

definition entries_page ::
  "(entry_id \<Rightarrow> date_time) \<Rightarrow> list_direction \<Rightarrow> entry_row list \<Rightarrow> nat \<Rightarrow> entry_cursor option
     \<Rightarrow> (entry_row, entry_cursor) page" where
  "entries_page created direction =
     (case direction of
        Ascending \<Rightarrow> order_page by_created_at (entry_cursor_of created)
      | Descending \<Rightarrow> order_page (Down \<circ> by_created_at) (entry_cursor_of created))"

definition within :: "'a::linorder option \<Rightarrow> 'a option \<Rightarrow> 'a \<Rightarrow> bool" where
  "within from_bound to_bound x \<longleftrightarrow>
     (case from_bound of None \<Rightarrow> True | Some b \<Rightarrow> b \<le> x) \<and>
     (case to_bound of None \<Rightarrow> True | Some b \<Rightarrow> x \<le> b)"

definition listed_journal_entries ::
  "(entry_id \<Rightarrow> date_time) \<Rightarrow> 'd ledger_db \<Rightarrow> journal_id \<Rightarrow> entries_filter \<Rightarrow> entry_row list" where
  "listed_journal_entries created db journal_id f =
     filter (\<lambda>r. en_journal_id r = journal_id \<and>
         within (created_at_from f) (created_at_to f) (created (en_id r)) \<and>
         (effective_from f = None \<and> effective_to f = None \<or>
          en_transaction_id r \<in> set (map tr_id
            (filter (\<lambda>t. within (effective_from f) (effective_to f) (tr_effective t)) (db_transactions db)))))
       (db_entries db)"

definition list_for_journal_id_filtered ::
  "(entry_id \<Rightarrow> date_time) \<Rightarrow> 'd ledger_db \<Rightarrow> journal_id \<Rightarrow> entries_filter \<Rightarrow> list_direction
     \<Rightarrow> nat \<Rightarrow> entry_cursor option \<Rightarrow> (entry_row, entry_cursor) page" where
  "list_for_journal_id_filtered created db journal_id f direction =
     entries_page created direction (listed_journal_entries created db journal_id f)"

text \<open>\<open>cala_entries JOIN cala_balance_history ON id = latest_entry_id\<close>: one row per history row that matches.\<close>

definition set_entries :: "'d ledger_db \<Rightarrow> account_set_id \<Rightarrow> entry_row list" where
  "set_entries db account_set_id =
     concat (map (\<lambda>r. map (\<lambda>_. r) (filter (\<lambda>((_, a, _), _, s). a = account_of_set account_set_id \<and> bs_entry_id s = en_id r)
         (bt_history (db_balances db)))) (db_entries db))"

definition list_for_account_set_id ::
  "(entry_id \<Rightarrow> date_time) \<Rightarrow> 'd ledger_db \<Rightarrow> account_set_id \<Rightarrow> list_direction
     \<Rightarrow> nat \<Rightarrow> entry_cursor option \<Rightarrow> (entry_row, entry_cursor) page" where
  "list_for_account_set_id created db account_set_id direction =
     entries_page created direction (set_entries db account_set_id)"

text \<open>The order a direction asks for.\<close>

fun listed_before :: "(entry_id \<Rightarrow> date_time) \<Rightarrow> list_direction \<Rightarrow> entry_row \<Rightarrow> entry_row \<Rightarrow> bool" where
  "listed_before created Ascending x y \<longleftrightarrow> (created (en_id x), en_id x) < (created (en_id y), en_id y)"
| "listed_before created Descending x y \<longleftrightarrow> (created (en_id y), en_id y) < (created (en_id x), en_id x)"

lemma listed_before_relation:
  "listed_before created Ascending =
     (\<lambda>x y. (created (en_id x), en_id x) < (created (en_id y), en_id y))"
  "listed_before created Descending =
     (\<lambda>x y. (created (en_id y), en_id y) < (created (en_id x), en_id x))"
  by (simp_all add: fun_eq_iff)

lemma entries_page_complete:
  assumes "distinct (map en_id rows)" and "0 < n" and "length rows \<le> m" and "0 < m"
  shows "mset (follow (entries_page created direction rows n) m None) = mset rows"
    and "sorted_wrt (listed_before created direction) (follow (entries_page created direction rows n) m None)"
proof -
  have keys: "distinct (map (by_created_at \<circ> entry_cursor_of created) rows)"
    "distinct (map (Down \<circ> by_created_at \<circ> entry_cursor_of created) rows)"
    using assms(1) by (auto intro!: distinct_map_by[of en_id rows] simp: by_created_at_def entry_cursor_of_def)
  have all: "follow (entries_page created direction rows n) m None =
      (case direction of Ascending \<Rightarrow> sort_key (by_created_at \<circ> entry_cursor_of created) rows
       | Descending \<Rightarrow> sort_key (Down \<circ> by_created_at \<circ> entry_cursor_of created) rows)"
    by (cases direction) (simp_all add: entries_page_def order_page_complete keys assms)
  show "mset (follow (entries_page created direction rows n) m None) = mset rows"
    by (simp add: all split: list_direction.split)
  show "sorted_wrt (listed_before created direction) (follow (entries_page created direction rows n) m None)"
    using sorted_by_key[OF keys(1)] sorted_by_key[OF keys(2)] unfolding all
    by (cases direction) (simp_all add: listed_before_relation comp_def by_created_at_def entry_cursor_of_def)
qed

lemma mem_map_filter: "x \<in> set (map f (filter P xs)) \<longleftrightarrow> (\<exists>y \<in> set xs. f y = x \<and> P y)"
  by auto

end
