(* ===== verification/Member_Listings.thy ===== *)
theory Member_Listings imports Listings begin

text \<open>
  The members of an account set (\<open>account_set_member/repo.rs\<close>), newest first or by external id: a
  union of the member accounts and the member sets, each cut to the page size before the union.

  Both listings take their cursor from the last row fetched, which is the row after the page. A
  column of a member is a function of its identifier: \<open>since\<close> is the \<open>created_at\<close> of the link
  row of the set, \<open>account_ext\<close> and \<open>set_ext\<close> are the external ids the \<open>LEFT JOIN\<close> finds.
\<close>

section \<open>Rows\<close>

record 'x member_row =
  mr_member_id :: uuid
  mr_member_account_id :: "account_id option"
  mr_member_account_set_id :: "account_set_id option"
  mr_column :: 'x

definition account_member_rows ::
  "membership_tables \<Rightarrow> (account_id \<Rightarrow> 'x) \<Rightarrow> account_set_id \<Rightarrow> 'x member_row list" where
  "account_member_rows mt column account_set_id =
     map (\<lambda>(_, a). \<lparr> mr_member_id = account_uuid a, mr_member_account_id = Some a,
                     mr_member_account_set_id = None, mr_column = column a \<rparr>)
       (filter (\<lambda>(s, _). s = account_set_id) (mt_member_accounts mt))"

definition set_member_rows ::
  "membership_tables \<Rightarrow> (account_set_id \<Rightarrow> 'x) \<Rightarrow> account_set_id \<Rightarrow> 'x member_row list" where
  "set_member_rows mt column account_set_id =
     map (\<lambda>(_, m). \<lparr> mr_member_id = account_set_uuid m, mr_member_account_id = None,
                     mr_member_account_set_id = Some m, mr_column = column m \<rparr>)
       (filter (\<lambda>(s, _). s = account_set_id) (mt_member_sets mt))"

text \<open>The two sorted and cut subqueries, \<open>UNION ALL\<close>, sorted and cut again.\<close>

definition cut_union :: "('r \<Rightarrow> 'k::linorder) \<Rightarrow> nat \<Rightarrow> 'r list \<Rightarrow> 'r list \<Rightarrow> 'r list" where
  "cut_union key limit accounts sets =
     take limit (sort_key key (take limit (sort_key key accounts) @ take limit (sort_key key sets)))"

text \<open>\<open>.map(Account).or_else(.. map(AccountSet))\<close>; the arms of the second \<open>match\<close> agree with it.\<close>

definition row_member :: "'x member_row \<Rightarrow> account_set_member_id option" where
  "row_member r =
     (case mr_member_account_id r of
        Some a \<Rightarrow> Some (MemberAccount a)
      | None \<Rightarrow> map_option MemberSet (mr_member_account_set_id r))"

fun member_uuid :: "account_set_member_id \<Rightarrow> uuid" where
  "member_uuid (MemberAccount a) = account_uuid a"
| "member_uuid (MemberSet s) = account_set_uuid s"

record 'x set_member =
  sm_id :: account_set_member_id
  sm_column :: 'x

text \<open>
  The answer from the rows: the cursor of the last row, the first \<open>first\<close> rows as entities. A row
  that is neither an account nor a set is a panic (\<open>expect\<close>, \<open>unreachable!\<close>). A cursor has the
  fields of a member, \<open>AccountSetMember\<close> and \<open>AccountSetMemberByExternalId\<close>.
\<close>

definition member_of_row :: "'x member_row \<Rightarrow> 'x set_member option" where
  "member_of_row r = map_option (\<lambda>i. \<lparr> sm_id = i, sm_column = mr_column r \<rparr>) (row_member r)"

definition members_page :: "nat \<Rightarrow> 'x member_row list \<Rightarrow> ('x set_member, 'x set_member) page option" where
  "members_page first rows =
     Option.bind (if rows = [] then Some None else map_option Some (member_of_row (last rows))) (\<lambda>end_cursor.
     map_option (\<lambda>entities. \<lparr> pg_entities = entities, pg_has_next_page = first < length rows,
                              pg_end_cursor = end_cursor \<rparr>)
       (those (map member_of_row (take first rows))))"

section \<open>The two listings\<close>

definition newest_first :: "date_time member_row \<Rightarrow> (date_time \<times> uuid) down" where
  "newest_first r = Down (mr_column r, mr_member_id r)"

text \<open>\<open>COALESCE((created_at, member_id) < ($3, $2), $2 IS NULL)\<close>\<close>

definition older_than :: "date_time set_member option \<Rightarrow> date_time member_row \<Rightarrow> bool" where
  "older_than after r =
     (case after of
        None \<Rightarrow> True
      | Some c \<Rightarrow> (mr_column r, mr_member_id r) < (sm_column c, member_uuid (sm_id c)))"

definition list_by_created_at_in_op ::
  "membership_tables \<Rightarrow> (account_set_member_id \<Rightarrow> date_time) \<Rightarrow> account_set_id \<Rightarrow> nat
     \<Rightarrow> date_time set_member option \<Rightarrow> (date_time set_member, date_time set_member) page option" where
  "list_by_created_at_in_op mt since account_set_id first after =
     members_page first (cut_union newest_first (first + 1)
       (filter (older_than after) (account_member_rows mt (since \<circ> MemberAccount) account_set_id))
       (filter (older_than after) (set_member_rows mt (since \<circ> MemberSet) account_set_id)))"

text \<open>\<open>ORDER BY external_id ASC NULLS LAST, member_id ASC\<close>\<close>

definition by_external_id :: "(string \<Rightarrow> string) \<Rightarrow> string option member_row \<Rightarrow> bool \<times> string \<times> uuid" where
  "by_external_id collate r =
     (mr_column r = None, collate (case mr_column r of None \<Rightarrow> '''' | Some e \<Rightarrow> e), mr_member_id r)"

definition past_external_id ::
  "(string \<Rightarrow> string) \<Rightarrow> string option set_member option \<Rightarrow> string option member_row \<Rightarrow> bool" where
  "past_external_id collate after r =
     (case Option.bind after sm_column of
        None \<Rightarrow> True
      | Some x \<Rightarrow>
          (case mr_column r of
             None \<Rightarrow> True
           | Some e \<Rightarrow> collate x < collate e \<or>
               e = x \<and> (case after of None \<Rightarrow> False | Some c \<Rightarrow> member_uuid (sm_id c) < mr_member_id r)))"

definition list_by_external_id_in_op ::
  "(string \<Rightarrow> string) \<Rightarrow> membership_tables \<Rightarrow> (account_id \<Rightarrow> string option) \<Rightarrow> (account_set_id \<Rightarrow> string option)
     \<Rightarrow> account_set_id \<Rightarrow> nat \<Rightarrow> string option set_member option
     \<Rightarrow> (string option set_member, string option set_member) page option" where
  "list_by_external_id_in_op collate mt account_ext set_ext account_set_id first after =
     members_page first (cut_union (by_external_id collate) (first + 1)
       (filter (past_external_id collate after) (account_member_rows mt account_ext account_set_id))
       (filter (past_external_id collate after) (set_member_rows mt set_ext account_set_id)))"

section \<open>Cutting the subqueries first\<close>

lemma take_insort_key:
  "sorted (map key xs) \<Longrightarrow> take n (insort_key key x xs) = take n (insort_key key x (take n xs))"
proof (induction xs arbitrary: n)
  case (Cons y xs)
  then show ?case by (cases n) (auto simp: take_Cons' min_def)
qed (simp add: take_Cons')

lemma take_foldr_insort_key:
  assumes "sorted (map key ys)"
  shows "take n (foldr (insort_key key) xs ys) = take n (foldr (insort_key key) xs (take n ys))"
proof (induction xs)
  case (Cons x xs)
  have sorted: "sorted (map key (foldr (insort_key key) xs ys))" if "sorted (map key ys)" for xs ys
    using that by (induction xs) (auto simp: sorted_insort_key)
  have "take n (insort_key key x (foldr (insort_key key) xs ys)) =
      take n (insort_key key x (take n (foldr (insort_key key) xs ys)))"
    by (rule take_insort_key) (rule sorted, rule assms)
  also have "\<dots> = take n (insort_key key x (take n (foldr (insort_key key) xs (take n ys))))"
    by (simp only: Cons)
  also have "\<dots> = take n (insort_key key x (foldr (insort_key key) xs (take n ys)))"
    by (rule take_insort_key[symmetric], rule sorted) (metis assms sorted_wrt_take take_map)
  finally show ?case by simp
qed simp

lemma sort_key_append: "sort_key key (xs @ ys) = foldr (insort_key key) xs (sort_key key ys)"
  by (simp add: sort_key_def)

lemma take_sort_key_append:
  "take n (sort_key key (xs @ ys)) = take n (sort_key key (xs @ take n (sort_key key ys)))"
proof -
  have "sort_key key (take n (sort_key key ys)) = take n (sort_key key ys)"
    by (rule sort_key_id_if_sorted) (metis sorted_sort_key sorted_wrt_take take_map)
  then show ?thesis
    by (simp only: sort_key_append take_foldr_insort_key[OF sorted_sort_key, of n] take_take min.idem)
qed

lemma distinct_keys_perm:
  "mset xs = mset ys \<Longrightarrow> distinct (map key xs) = distinct (map key ys)"
  by (metis mset_eq_imp_distinct_iff mset_map)

lemma distinct_keys_cut: "distinct (map key (xs @ ys)) \<Longrightarrow> distinct (map key (take n xs @ ys))"
proof -
  assume keys: "distinct (map key (xs @ ys))"
  then have "distinct (take n (map key xs))" by simp
  moreover have "key ` set (take n xs) \<subseteq> key ` set xs" by (rule image_mono) (rule set_take_subset)
  ultimately show ?thesis using keys unfolding map_append distinct_append take_map set_map by blast
qed

lemma sort_key_swap:
  assumes "distinct (map key (us @ vs))"
  shows "sort_key key (us @ vs) = sort_key key (vs @ us)"
proof (rule sorted_by_distinct_key)
  show "distinct (map key (vs @ us))" using assms by (subst distinct_keys_perm[of _ "us @ vs"]) simp_all
qed simp

lemma cut_union:
  assumes "distinct (map key (xs @ ys))"
  shows "cut_union key n xs ys = take n (sort_key key (xs @ ys))"
proof -
  let ?cut = "\<lambda>zs. take n (sort_key key zs)"
  have "distinct (map key (sort_key key ys @ xs))"
    using assms by (subst distinct_keys_perm[of _ "xs @ ys"]) simp_all
  then have ys: "distinct (map key (?cut ys @ xs))" by (rule distinct_keys_cut)
  then have "distinct (map key (sort_key key xs @ ?cut ys))"
    by (subst distinct_keys_perm[of _ "?cut ys @ xs"]) simp_all
  then have both: "distinct (map key (?cut xs @ ?cut ys))" by (rule distinct_keys_cut)
  have "take n (sort_key key (xs @ ys)) = take n (sort_key key (xs @ ?cut ys))"
    by (rule take_sort_key_append)
  also have "\<dots> = take n (sort_key key (?cut ys @ xs))" by (simp only: sort_key_swap[OF ys])
  also have "\<dots> = take n (sort_key key (?cut ys @ ?cut xs))" by (rule take_sort_key_append)
  finally show ?thesis unfolding cut_union_def by (simp only: sort_key_swap[OF both])
qed

section \<open>Following the cursors\<close>

text \<open>
  The page of the rows \<open>rest\<close> past a cursor, when the cursor handed out is the row after the page:
  the next page starts one row too late.
\<close>

definition skipping_page :: "nat \<Rightarrow> 'a list \<Rightarrow> ('a, 'a) page" where
  "skipping_page n rest =
     \<lparr> pg_entities = take n rest, pg_has_next_page = n < length rest,
       pg_end_cursor = (if rest = [] then None else Some (last (take (n + 1) rest))) \<rparr>"

lemma skipping_page_cursor: "n < length rest \<Longrightarrow> pg_end_cursor (skipping_page n rest) = Some (rest ! n)"
  by (auto simp: skipping_page_def take_Suc_conv_app_nth)

lemma past_nth:
  assumes "sorted_wrt (\<lambda>x y. rank x < rank y) listing" and "i < length listing"
  shows "past rank (Some (rank (listing ! i))) listing = drop (Suc i) listing"
  using past_sorted_split[of rank "take i listing" "listing ! i" "drop (Suc i) listing"] assms id_take_nth_drop[OF assms(2)]
  by simp

text \<open>What is left of a listing without the row after each full page.\<close>

lemma nths_skip_short: "length rest \<le> n \<Longrightarrow> nths rest {j. j mod Suc n \<noteq> n} = rest"
  by (rule nths_all) simp

lemma nths_skip_append:
  "length xs = q * Suc n \<Longrightarrow>
     nths (xs @ ys) {j. j mod Suc n \<noteq> n} = nths xs {j. j mod Suc n \<noteq> n} @ nths ys {j. j mod Suc n \<noteq> n}"
  by (simp add: nths_append del: mult_Suc_right)

lemma nths_skip_step:
  assumes "n < length rest"
  shows "nths rest {j. j mod Suc n \<noteq> n} = take n rest @ nths (drop (Suc n) rest) {j. j mod Suc n \<noteq> n}"
proof -
  have "nths (take n rest @ [rest ! n]) {j. j mod Suc n \<noteq> n} = take n rest"
    using assms nths_skip_short[of "take n rest" n] by (simp add: nths_append min_def)
  then show ?thesis
    using nths_skip_append[of "take n rest @ [rest ! n]" 1 n "drop (Suc n) rest"] assms
    by (simp add: min_def id_take_nth_drop[symmetric])
qed

text \<open>
  Requests from a cursor that stands for a position of the listing (\<open>at\<close>), as long as each row after
  a full page makes a good cursor (\<open>ok\<close>).
\<close>

lemma skipping_run:
  assumes page: "\<And>after i. at after i \<Longrightarrow> req after = skipping_page n (drop i listing)"
    and onward: "\<And>i. i + n < length listing \<Longrightarrow> ok (listing ! (i + n)) \<Longrightarrow> at (Some (listing ! (i + n))) (i + Suc n)"
    and "at after i" and "\<And>k. k < t \<Longrightarrow> i + k * Suc n + n < length listing \<and> ok (listing ! (i + k * Suc n + n))"
  shows "\<exists>after'. at after' (i + t * Suc n) \<and> (\<forall>m. follow req (t + m) after =
    nths (take (t * Suc n) (drop i listing)) {j. j mod Suc n \<noteq> n} @ follow req m after')"
  using assms(3,4)
proof (induction t arbitrary: after i)
  case (Suc t)
  have first: "i + n < length listing" "ok (listing ! (i + n))" using Suc.prems(2)[of 0] by simp_all
  have "i + Suc n + k * Suc n + n < length listing \<and> ok (listing ! (i + Suc n + k * Suc n + n))" if "k < t" for k
    using Suc.prems(2)[of "Suc k"] that by (simp add: algebra_simps)
  from Suc.IH[OF onward[OF first] this] obtain after' where after': "at after' (i + Suc n + t * Suc n)"
    "follow req (t + m) (Some (listing ! (i + n))) =
      nths (take (t * Suc n) (drop (i + Suc n) listing)) {j. j mod Suc n \<noteq> n} @ follow req m after'" for m
    by blast
  let ?rest = "drop i listing"
  have more: "n < length ?rest" using first(1) by simp
  have "follow req (Suc t + m) after = take n ?rest @ follow req (t + m) (Some (listing ! (i + n)))" for m
    using skipping_page_cursor[OF more] more first(1) by (simp add: Let_def page[OF Suc.prems(1)] skipping_page_def)
  moreover have "nths (take (Suc t * Suc n) ?rest) {j. j mod Suc n \<noteq> n} =
      take n ?rest @ nths (take (t * Suc n) (drop (i + Suc n) listing)) {j. j mod Suc n \<noteq> n}"
    using more by (subst nths_skip_step) (simp_all add: drop_take min_def add.commute)
  ultimately show ?case using after' by (intro exI[of _ after']) (simp add: add.assoc add.left_commute)
qed auto

text \<open>When every row after a full page is a good cursor, the listing ends, without these rows.\<close>

lemma skipping_ends:
  assumes page: "\<And>after i. at after i \<Longrightarrow> req after = skipping_page n (drop i listing)"
    and onward: "\<And>i. i + n < length listing \<Longrightarrow> ok (listing ! (i + n)) \<Longrightarrow> at (Some (listing ! (i + n))) (i + Suc n)"
    and start: "at after 0" and good: "\<And>k. k * Suc n + n < length listing \<Longrightarrow> ok (listing ! (k * Suc n + n))"
    and enough: "length listing \<le> m * Suc n"
  shows "follow req m after = nths listing {j. j mod Suc n \<noteq> n}"
proof -
  define t where "t = length listing div Suc n"
  let ?full = "take (t * Suc n) listing" and ?rest = "drop (t * Suc n) listing"
  have whole: "t * Suc n \<le> length listing" unfolding t_def by (rule div_times_less_eq_dividend)
  have inside: "k * Suc n + n < length listing" if "k < t" for k
    using mult_le_mono1[of "Suc k" t "Suc n"] that whole by simp
  have "\<exists>after'. at after' (0 + t * Suc n) \<and> (\<forall>r. follow req (t + r) after =
      nths (take (t * Suc n) (drop 0 listing)) {j. j mod Suc n \<noteq> n} @ follow req r after')"
    by (rule skipping_run[where at = at and ok = ok]) (fact page, fact onward, fact start, use inside good in simp)
  then obtain after' where after': "at after' (t * Suc n)"
    "follow req (t + r) after = nths ?full {j. j mod Suc n \<noteq> n} @ follow req r after'" for r by auto
  have short: "length ?rest \<le> n"
    using mod_less_divisor[of "Suc n" "length listing"] by (simp add: t_def minus_div_mult_eq_mod del: mult_Suc_right)
  have "t \<le> m" using enough whole mult_le_cancel2[of t "Suc n" m] by linarith
  then obtain r where r: "m = t + r" by (metis le_add_diff_inverse)
  have "follow req r after' = ?rest"
  proof (cases r)
    case 0
    then show ?thesis using enough r by simp
  next
    case (Suc r')
    then show ?thesis using short page[OF after'(1)] by (simp add: Let_def skipping_page_def)
  qed
  moreover have "nths listing {j. j mod Suc n \<noteq> n} = nths ?full {j. j mod Suc n \<noteq> n} @ ?rest"
    using nths_skip_append[of ?full t n ?rest] nths_skip_short[OF short] whole by (simp add: min_def)
  ultimately show ?thesis by (simp add: r after'(2))
qed

text \<open>When one of them is as good as no cursor, what came before it comes back without end.\<close>

lemma skipping_restarts:
  assumes page: "\<And>after i. at after i \<Longrightarrow> req after = skipping_page n (drop i listing)"
    and onward: "\<And>i. i + n < length listing \<Longrightarrow> ok (listing ! (i + n)) \<Longrightarrow> at (Some (listing ! (i + n))) (i + Suc n)"
    and start: "at after 0" and good: "\<And>k. k < q \<Longrightarrow> ok (listing ! (k * Suc n + n))"
    and hit: "q * Suc n + n < length listing" "at (Some (listing ! (q * Suc n + n))) 0"
  shows "follow req (m * Suc q) after =
    concat (replicate m (nths (take (q * Suc n + n) listing) {j. j mod Suc n \<noteq> n}))"
  using start
proof (induction m arbitrary: after)
  case (Suc m)
  let ?full = "take (q * Suc n) listing" and ?rest = "drop (q * Suc n) listing"
  have inside: "k * Suc n + n < length listing" if "k < q" for k
    using mult_le_mono1[of k q "Suc n"] that hit(1) by linarith
  have "\<exists>after'. at after' (0 + q * Suc n) \<and> (\<forall>r. follow req (q + r) after =
      nths (take (q * Suc n) (drop 0 listing)) {j. j mod Suc n \<noteq> n} @ follow req r after')"
    by (rule skipping_run[where at = at and ok = ok])
      (fact page, fact onward, fact Suc.prems, use inside good in simp)
  then obtain after' where after': "at after' (q * Suc n)"
    "follow req (q + r) after = nths ?full {j. j mod Suc n \<noteq> n} @ follow req r after'" for r by auto
  have more: "n < length ?rest" using hit(1) by simp
  have "follow req (Suc (m * Suc q)) after' = take n ?rest @ follow req (m * Suc q) (Some (listing ! (q * Suc n + n)))"
    using skipping_page_cursor[OF more] more hit(1)
    by (simp add: Let_def page[OF after'(1)] skipping_page_def del: mult_Suc_right mult_Suc)
  moreover have "nths (take (q * Suc n + n) listing) {j. j mod Suc n \<noteq> n} =
      nths ?full {j. j mod Suc n \<noteq> n} @ take n ?rest"
    unfolding take_add using nths_skip_append[of ?full q n "take n ?rest"] nths_skip_short[of "take n ?rest" n] hit(1)
    by (simp del: mult_Suc_right)
  moreover have "Suc m * Suc q = q + Suc (m * Suc q)" by simp
  ultimately show ?case by (simp only: after'(2) Suc.IH[OF hit(2)] replicate_Suc concat.simps append_assoc)
qed simp

section \<open>The members in order\<close>

definition members_of :: "membership_tables \<Rightarrow> (account_set_member_id \<Rightarrow> 'x) \<Rightarrow> account_set_id \<Rightarrow> 'x set_member list" where
  "members_of mt column account_set_id =
     map (\<lambda>i. \<lparr> sm_id = i, sm_column = column i \<rparr>)
       (map (MemberAccount \<circ> snd) (filter (\<lambda>(s, _). s = account_set_id) (mt_member_accounts mt)) @
        map (MemberSet \<circ> snd) (filter (\<lambda>(s, _). s = account_set_id) (mt_member_sets mt)))"

definition member_rows :: "membership_tables \<Rightarrow> (account_set_member_id \<Rightarrow> 'x) \<Rightarrow> account_set_id \<Rightarrow> 'x member_row list" where
  "member_rows mt column account_set_id =
     account_member_rows mt (column \<circ> MemberAccount) account_set_id @ set_member_rows mt (column \<circ> MemberSet) account_set_id"

abbreviation row_value :: "'x member_row \<Rightarrow> 'x set_member" where
  "row_value r \<equiv> the (member_of_row r)"

lemma member_rows_some:
  "r \<in> set (member_rows mt column s) \<Longrightarrow>
     member_of_row r = Some (row_value r) \<and> mr_column r = sm_column (row_value r) \<and>
     mr_member_id r = member_uuid (sm_id (row_value r))"
  by (auto simp: member_rows_def account_member_rows_def set_member_rows_def member_of_row_def row_member_def)

lemma member_rows_values: "map row_value (member_rows mt column s) = members_of mt column s"
  by (auto simp: member_rows_def members_of_def account_member_rows_def set_member_rows_def member_of_row_def row_member_def)

lemma those_map_Some: "(\<And>x. x \<in> set xs \<Longrightarrow> f x = Some (g x)) \<Longrightarrow> those (map f xs) = Some (map g xs)"
  by (induction xs) auto

lemma members_page_rows:
  assumes "\<And>r. r \<in> set rows \<Longrightarrow> member_of_row r = Some (row_value r)"
  shows "members_page n rows =
    Some \<lparr> pg_entities = map row_value (take n rows), pg_has_next_page = n < length rows,
           pg_end_cursor = (if rows = [] then None else Some (row_value (last rows))) \<rparr>"
proof -
  have "those (map member_of_row (take n rows)) = Some (map row_value (take n rows))"
    by (rule those_map_Some, rule assms, erule in_set_takeD)
  moreover have "rows \<noteq> [] \<Longrightarrow> member_of_row (last rows) = Some (row_value (last rows))"
    using assms by simp
  ultimately show ?thesis by (cases "member_of_row (last rows)") (auto simp: members_page_def)
qed

text \<open>What the listings share: the answer to a request for the rows whose rank is past a bound.\<close>

lemma members_page_past:
  fixes rank :: "'x set_member \<Rightarrow> 'k::linorder" and key :: "'x member_row \<Rightarrow> 'k"
  assumes key: "\<And>r. r \<in> set (member_rows mt column s) \<Longrightarrow> key r = rank (row_value r)"
    and distinct: "distinct (map rank (members_of mt column s))"
  shows "members_page n (cut_union key (n + 1)
      (past key bound (account_member_rows mt (column \<circ> MemberAccount) s))
      (past key bound (set_member_rows mt (column \<circ> MemberSet) s))) =
    Some (skipping_page n (past rank bound (sort_key rank (members_of mt column s))))"
proof -
  let ?rows = "member_rows mt column s" and ?listing = "sort_key key (member_rows mt column s)"
  have keys: "distinct (map key ?rows)"
  proof -
    have "map key ?rows = map rank (map row_value ?rows)" using key by simp
    then show ?thesis using distinct by (simp only: member_rows_values)
  qed
  have in_order: "map row_value ?listing = sort_key rank (members_of mt column s)"
  proof (rule sort_key_inj_key_eq[symmetric])
    show "mset (members_of mt column s) = mset (map row_value ?listing)" by (simp flip: member_rows_values)
    show "inj_on rank (set (members_of mt column s))" using distinct by (simp add: distinct_map)
    have "map rank (map row_value ?listing) = map key ?listing" using key by simp
    then show "sorted (map rank (map row_value ?listing))" by (simp only: sorted_sort_key)
  qed
  have cut: "cut_union key (n + 1) (past key bound (account_member_rows mt (column \<circ> MemberAccount) s))
      (past key bound (set_member_rows mt (column \<circ> MemberSet) s)) = take (n + 1) (past key bound ?listing)"
  proof -
    have past: "past key bound (account_member_rows mt (column \<circ> MemberAccount) s) @
        past key bound (set_member_rows mt (column \<circ> MemberSet) s) = past key bound ?rows"
      by (simp add: past_def member_rows_def)
    moreover have "distinct (map key (past key bound ?rows))" using keys by (simp add: past_def distinct_map_filter)
    ultimately show ?thesis by (simp only: cut_union past_sort_key)
  qed
  have known: "member_of_row r = Some (row_value r)" if "r \<in> set (take (n + 1) (past key bound ?listing))" for r
    using in_set_takeD[OF that] member_rows_some by (auto simp: past_def)
  have "map row_value (past key bound ?listing) = past rank bound (map row_value ?listing)"
    unfolding past_def filter_map
    by (rule arg_cong[where f = "map row_value"], rule filter_cong) (use key in \<open>auto split: option.split\<close>)
  then have rest: "past rank bound (sort_key rank (members_of mt column s)) = map row_value (past key bound ?listing)"
    by (simp only: in_order)
  let ?past = "past key bound ?listing"
  have page: "members_page n (take (n + 1) ?past) =
    Some \<lparr> pg_entities = map row_value (take n (take (n + 1) ?past)), pg_has_next_page = n < length (take (n + 1) ?past),
           pg_end_cursor = (if take (n + 1) ?past = [] then None else Some (row_value (last (take (n + 1) ?past)))) \<rparr>"
    by (rule members_page_rows) (rule known)
  show ?thesis unfolding cut rest page skipping_page_def
    by (cases "?past = []") (simp_all add: min_def last_map take_map)
qed

section \<open>The listings as pages past a rank\<close>

definition newest :: "date_time set_member \<Rightarrow> (date_time \<times> uuid) down" where
  "newest c = Down (sm_column c, member_uuid (sm_id c))"

lemma list_by_created_at_page:
  assumes "distinct (map newest (members_of mt since s))"
  shows "list_by_created_at_in_op mt since s n after =
    Some (skipping_page n (past newest (map_option newest after) (sort_key newest (members_of mt since s))))"
proof -
  have "filter (older_than after) rows = past newest_first (map_option newest after) rows" for rows
    unfolding past_def by (rule filter_cong) (auto simp: older_than_def newest_def newest_first_def split: option.split)
  then show ?thesis unfolding list_by_created_at_in_op_def
    by (simp only:) (rule members_page_past[OF _ assms], drule member_rows_some, simp add: newest_first_def newest_def)
qed

definition external_rank :: "(string \<Rightarrow> string) \<Rightarrow> string option set_member \<Rightarrow> bool \<times> string \<times> uuid" where
  "external_rank collate c =
     (sm_column c = None, collate (case sm_column c of None \<Rightarrow> '''' | Some e \<Rightarrow> e), member_uuid (sm_id c))"

text \<open>A cursor without an external id is no cursor.\<close>

lemma list_by_external_id_page:
  assumes "inj collate" and "distinct (map (external_rank collate) (members_of mt ext s))"
  shows "list_by_external_id_in_op collate mt (ext \<circ> MemberAccount) (ext \<circ> MemberSet) s n after =
    Some (skipping_page n (past (external_rank collate)
      (case after of Some c \<Rightarrow> if sm_column c = None then None else Some (external_rank collate c) | None \<Rightarrow> None)
      (sort_key (external_rank collate) (members_of mt ext s))))"
proof -
  let ?bound = "case after of Some c \<Rightarrow> if sm_column c = None then None else Some (external_rank collate c) | None \<Rightarrow> None"
  have "filter (past_external_id collate after) rows = past (by_external_id collate) ?bound rows" for rows
    unfolding past_def by (rule filter_cong)
      (auto simp: past_external_id_def external_rank_def by_external_id_def inj_eq[OF assms(1)] split: option.split)
  then show ?thesis unfolding list_by_external_id_in_op_def
    by (simp only:) (rule members_page_past[OF _ assms(2)], drule member_rows_some,
      simp add: by_external_id_def external_rank_def)
qed

end
