(* ===== verification/Listing_Theorems.thy ===== *)
theory Listing_Theorems imports Member_Listings Posting_Sample begin

text \<open>
  What following the cursors of the hand-written listings gives: the filtered entries of a journal
  come complete and in order, the members of an account set do not.
\<close>

text \<open>
  C34: Following the cursors of a journal's filtered listing lists exactly the entries of the
  journal that were created and became effective inside the bounds, each once, in the order asked for.
\<close>

theorem entries_listing_complete:
  assumes "distinct (map en_id (db_entries db))" and "0 < n" and "length (db_entries db) \<le> m" and "0 < m"
    and "all = follow (list_for_journal_id_filtered created db journal_id f direction n) m None"
  shows "distinct all \<and> sorted_wrt (listed_before created direction) all \<and>
    (\<forall>r. r \<in> set all \<longleftrightarrow> r \<in> set (db_entries db) \<and> en_journal_id r = journal_id \<and>
       within (created_at_from f) (created_at_to f) (created (en_id r)) \<and>
       (effective_from f = None \<and> effective_to f = None \<or>
        (\<exists>t \<in> set (db_transactions db). tr_id t = en_transaction_id r \<and>
           within (effective_from f) (effective_to f) (tr_effective t))))"
proof -
  let ?rows = "listed_journal_entries created db journal_id f"
  have rows: "distinct (map en_id ?rows)" "length ?rows \<le> m" unfolding listed_journal_entries_def
    by (rule distinct_map_filter[OF assms(1)], rule le_trans[OF length_filter_le assms(3)])
  have all: "all = follow (entries_page created direction ?rows n) m None"
    by (simp only: assms(5) list_for_journal_id_filtered_def)
  note complete = entries_page_complete[OF rows(1) assms(2) rows(2) assms(4),
      of created direction, folded all]
  have "distinct all" 
    using mset_eq_imp_distinct_iff[OF complete(1)] rows(1) unfolding distinct_map by blast
  moreover have "set all = set ?rows" using complete(1) by (rule mset_eq_setD)
  ultimately show ?thesis using complete(2)
    by (simp only: listed_journal_entries_def set_filter mem_Collect_eq mem_map_filter simp_thms)
qed
definition sample_entry_row :: "uuid \<Rightarrow> uuid \<Rightarrow> entry_row" where
  "sample_entry_row e tx =
     \<lparr> en_id = EntryId e, en_journal_id = JournalId 7, en_account_id = AccountId 9, en_transaction_id = TransactionId tx \<rparr>"

definition sample_transaction_row :: "uuid \<Rightarrow> naive_date \<Rightarrow> transaction_row" where
  "sample_transaction_row tx d =
     \<lparr> tr_id = TransactionId tx, tr_journal_id = JournalId 7, tr_tx_template_id = TxTemplateId 1,
       tr_external_id = None, tr_correlation_id = '''', tr_effective = d \<rparr>"

definition listing_db :: "int ledger_db" where
  "listing_db = (post_db Active)
     \<lparr> db_transactions := [sample_transaction_row 1 10, sample_transaction_row 2 20],
       db_entries := [sample_entry_row 1 1, sample_entry_row 2 2, sample_entry_row 3 1, sample_entry_row 4 1] \<rparr>"

definition sample_filter :: entries_filter where
  "sample_filter = \<lparr> created_at_from = None, created_at_to = Some 7, effective_from = None, effective_to = Some 15 \<rparr>"

definition sample_created :: "entry_id \<Rightarrow> date_time" where
  "sample_created i = (if i = EntryId 4 then 8 else if i = EntryId 1 then 7 else 5)"

lemma entries_listing_complete_witness:
  "let found = follow (list_for_journal_id_filtered sample_created listing_db (JournalId 7) sample_filter Descending 1) 4 None
   in map en_id found = [EntryId 1, EntryId 3] \<and> distinct found \<and>
      sorted_wrt (listed_before sample_created Descending) found"
proof -
  let ?found = "follow (list_for_journal_id_filtered sample_created listing_db (JournalId 7) sample_filter Descending 1) 4 None"
  have "distinct (map en_id (db_entries listing_db)) \<and> length (db_entries listing_db) \<le> 4" by code_simp
  then have "distinct ?found \<and> sorted_wrt (listed_before sample_created Descending) ?found"
    using entries_listing_complete[of listing_db 1 4 ?found sample_created "JournalId 7" sample_filter Descending]
    by (simp only:)
  moreover have "map en_id ?found = [EntryId 1, EntryId 3]" by code_simp
  ultimately show ?thesis by simp
qed

section \<open>Members of an account set\<close>

text \<open>
  C28: A request for the members of an account set by age never panics. Following its cursors with
  pages of \<open>n\<close> members leaves out every member that stands after a full page: the cursor is that of
  the row fetched to see whether more follow, and the next page starts after it.
\<close>

theorem member_pages_skip:
  assumes "distinct (map (\<lambda>c. (sm_column c, member_uuid (sm_id c))) (members_of mt since s))"
    and "length (members_of mt since s) \<le> m * Suc n"
  shows "list_by_created_at_in_op mt since s n after \<noteq> None \<and>
    follow (\<lambda>c. the (list_by_created_at_in_op mt since s n c)) m None =
      nths (sort_key newest (members_of mt since s)) {j. j mod Suc n \<noteq> n}"
proof -
  let ?listing = "sort_key newest (members_of mt since s)"
  have keys: "distinct (map newest (members_of mt since s))"
    by (rule distinct_map_by[OF assms(1)]) (simp add: newest_def)
  have "follow (\<lambda>c. the (list_by_created_at_in_op mt since s n c)) m None = nths ?listing {j. j mod Suc n \<noteq> n}"
    by (rule skipping_ends[where ok = "\<lambda>_. True"
          and at = "\<lambda>after i. past newest (map_option newest after) ?listing = drop i ?listing"])
      (use assms(2) in \<open>simp_all add: list_by_created_at_page[OF keys] past_nth[OF sorted_by_key[OF keys]]\<close>)
  then show ?thesis by (simp add: list_by_created_at_page[OF keys])
qed

text \<open>A set with three member accounts and a member set, attached one after the other.\<close>

definition member_tables :: membership_tables where
  "member_tables = sample_membership
     \<lparr> mt_member_accounts := map (\<lambda>a. (AccountSetId 9, AccountId a)) [1, 2, 3],
       mt_member_sets := [(AccountSetId 9, AccountSetId 4)] \<rparr>"

lemma member_pages_skip_witness:
  "map sm_id (follow (\<lambda>c. the (list_by_created_at_in_op member_tables (uint \<circ> member_uuid) (AccountSetId 9) 1 c)) 2 None) =
     [MemberSet (AccountSetId 4), MemberAccount (AccountId 2)] \<and>
   length (members_of member_tables (uint \<circ> member_uuid) (AccountSetId 9)) = 4"
proof -
  let ?since = "uint \<circ> member_uuid" and ?set = "AccountSetId 9"
  have ok: "distinct (map (\<lambda>c. (sm_column c, member_uuid (sm_id c))) (members_of member_tables ?since ?set))"
    "length (members_of member_tables ?since ?set) = 4" by code_simp+
  have "map sm_id (sort_key newest (members_of member_tables ?since ?set)) =
      [MemberSet (AccountSetId 4), MemberAccount (AccountId 3), MemberAccount (AccountId 2), MemberAccount (AccountId 1)]"
    by code_simp
  then have "map sm_id (nths (sort_key newest (members_of member_tables ?since ?set)) {j. j mod Suc 1 \<noteq> 1}) =
      [MemberSet (AccountSetId 4), MemberAccount (AccountId 2)]"
    by (simp add: nths_Cons mod_Suc flip: nths_map)
  then show ?thesis using member_pages_skip[OF ok(1), of 2 1] ok(2) by simp
qed

text \<open>
  C35: Following the cursors of the listing by external id, with pages of \<open>n\<close> members, depends on the
  members that stand after a full page, whose cursors are handed out. When all of them have an
  external id, the listing ends and leaves them out. As soon as one of them has none, what was
  listed before it comes back over and over, for as many requests as the caller makes: a cursor
  without an external id counts as none.
\<close>

theorem external_listing_restarts:
  assumes "inj collate" and "distinct (map (external_rank collate) (members_of mt ext s))"
    and "listing = sort_key (external_rank collate) (members_of mt ext s)"
    and "req = (\<lambda>c. the (list_by_external_id_in_op collate mt (ext \<circ> MemberAccount) (ext \<circ> MemberSet) s n c))"
  shows "((\<forall>k. k * Suc n + n < length listing \<longrightarrow> sm_column (listing ! (k * Suc n + n)) \<noteq> None) \<and>
        length listing \<le> m * Suc n \<longrightarrow>
      follow req m None = nths listing {j. j mod Suc n \<noteq> n}) \<and>
    (q * Suc n + n < length listing \<and> sm_column (listing ! (q * Suc n + n)) = None \<and>
        (\<forall>k < q. sm_column (listing ! (k * Suc n + n)) \<noteq> None) \<longrightarrow>
      follow req (m * Suc q) None =
        concat (replicate m (nths (take (q * Suc n + n) listing) {j. j mod Suc n \<noteq> n})))"
proof -
  let ?rank = "external_rank collate"
  let ?bound = "\<lambda>after. case after of Some c \<Rightarrow> if sm_column c = None then None else Some (?rank c) | None \<Rightarrow> None"
  let ?at = "\<lambda>after i. past ?rank (?bound after) listing = drop i listing" and ?ok = "\<lambda>c. sm_column c \<noteq> None"
  have page: "?at after i \<Longrightarrow> req after = skipping_page n (drop i listing)" for after i
    using list_by_external_id_page[OF assms(1,2), of n after] by (simp add: assms(3,4))
  have onward: "?at (Some (listing ! (i + n))) (i + Suc n)" if "i + n < length listing" "?ok (listing ! (i + n))" for i
    using past_nth[OF sorted_by_key[OF assms(2)], folded assms(3), OF that(1)] that(2) by auto
  have start: "?at None 0" by simp
  have again: "?at (Some c) 0" if "sm_column c = None" for c using that by simp
  have "follow req m None = nths listing {j. j mod Suc n \<noteq> n}"
    if "\<And>k. k * Suc n + n < length listing \<Longrightarrow> ?ok (listing ! (k * Suc n + n))" "length listing \<le> m * Suc n"
    by (rule skipping_ends[where at = ?at and ok = ?ok]) (fact page, fact onward, fact start, fact that, fact that)
  moreover have "follow req (m * Suc q) None =
      concat (replicate m (nths (take (q * Suc n + n) listing) {j. j mod Suc n \<noteq> n}))"
    if "q * Suc n + n < length listing" "sm_column (listing ! (q * Suc n + n)) = None"
      "\<And>k. k < q \<Longrightarrow> ?ok (listing ! (k * Suc n + n))"
    by (rule skipping_restarts[where at = ?at and ok = ?ok])
      (fact page, fact onward, fact start, fact that, fact that, rule again, fact that)
  ultimately show ?thesis by blast
qed

definition sample_external :: "account_set_member_id \<Rightarrow> string option" where
  "sample_external i = (case i of MemberAccount _ \<Rightarrow> Some ''a'' | MemberSet _ \<Rightarrow> None)"

lemma external_listing_restarts_witness:
  "map sm_id (follow (\<lambda>c. the (list_by_external_id_in_op (\<lambda>s. s) member_tables (\<lambda>_. None) (\<lambda>_. None) (AccountSetId 9) 1 c)) 5 None) =
     replicate 5 (MemberAccount (AccountId 1)) \<and>
   map sm_id (follow (\<lambda>c. the (list_by_external_id_in_op (\<lambda>s. s) member_tables (\<lambda>_. Some ''a'') (\<lambda>_. None) (AccountSetId 9) 2 c)) 2 None) =
     [MemberAccount (AccountId 1), MemberAccount (AccountId 2), MemberSet (AccountSetId 4)]"
proof -
  let ?none = "\<lambda>_::account_set_member_id. None :: string option" and ?set = "AccountSetId 9"
    and ?some = sample_external
  let ?listing = "\<lambda>ext. sort_key (external_rank (\<lambda>s. s)) (members_of member_tables ext ?set)"
  have ok: "distinct (map (external_rank (\<lambda>s. s)) (members_of member_tables ?none ?set))"
    "0 * Suc 1 + 1 < length (?listing ?none)" "sm_column (?listing ?none ! (0 * Suc 1 + 1)) = None"
    "map sm_id (take 1 (?listing ?none)) = [MemberAccount (AccountId 1)]" by code_simp+
  have ends: "distinct (map (external_rank (\<lambda>s. s)) (members_of member_tables ?some ?set))"
    "length (?listing ?some) = 4" "sm_column (?listing ?some ! (0 * Suc 2 + 2)) \<noteq> None"
    "map sm_id (?listing ?some) = [MemberAccount (AccountId 1), MemberAccount (AccountId 2),
       MemberAccount (AccountId 3), MemberSet (AccountSetId 4)]" by code_simp+
  have cursors: "\<forall>k. k * Suc 2 + 2 < length (?listing ?some) \<longrightarrow> sm_column (?listing ?some ! (k * Suc 2 + 2)) \<noteq> None"
  proof (intro allI impI)
    fix k assume "k * Suc 2 + 2 < length (?listing ?some)"
    then have "k = 0" using ends(2) by simp
    then show "sm_column (?listing ?some ! (k * Suc 2 + 2)) \<noteq> None" using ends(3) by (simp only: simp_thms)
  qed
  have "map sm_id (nths (?listing ?some) {j. j mod Suc 2 \<noteq> 2}) =
      [MemberAccount (AccountId 1), MemberAccount (AccountId 2), MemberSet (AccountSetId 4)]"
    unfolding nths_map[symmetric] ends(4) by (simp add: nths_Cons mod_Suc)
  then have "map sm_id (follow (\<lambda>c. the (list_by_external_id_in_op (\<lambda>s. s) member_tables (\<lambda>_. Some ''a'') (\<lambda>_. None) ?set 2 c)) 2 None) =
      [MemberAccount (AccountId 1), MemberAccount (AccountId 2), MemberSet (AccountSetId 4)]"
    using conjunct1[OF external_listing_restarts[OF _ ends(1) refl refl, of 2 2 0]] cursors ends(2)
    by (simp add: comp_def sample_external_def)
  moreover have "map sm_id (follow (\<lambda>c. the (list_by_external_id_in_op (\<lambda>s. s) member_tables (\<lambda>_. None) (\<lambda>_. None) ?set 1 c)) 5 None) =
      replicate 5 (MemberAccount (AccountId 1))"
    using conjunct2[OF external_listing_restarts[OF _ ok(1) refl refl, of 1 5 0]] ok(2-4) nths_skip_short[of "take 1 (?listing ?none)" 1]
    by (simp add: comp_def map_concat)
  ultimately show ?thesis by blast
qed

end
