(* ===== verification/Spec2Isabelle.thy ===== *)
theory Spec2Isabelle imports Account_Balance Balance_Store Graph_Theorems Effective_Theorems
  Tx_Template_Theorems Entity_Theorems Velocity_Theorems Velocity_Controls Posting_Theorems
  Ec_Rollup_Theorems Listing_Theorems begin

text \<open>
  A verification library for the Cala ledger (the Rust crates \<open>cala-ledger\<close>,
  \<open>cala-ledger-core-types\<close> and \<open>cala-cel-interpreter\<close>). Paths below are relative to
  \<open>src/cala-ledger/src/\<close> unless they name another crate.

  \<^bold>\<open>The program.\<close> Cala is a double-entry ledger over PostgreSQL. A caller posts a batch of
  transactions, each an instance of a template whose fields are CEL expressions. The posting flow
  evaluates the templates, takes the locks of every balance it will write, reads journals,
  accounts, balances and velocity controls, validates each posting, finds the account sets above
  each account, folds the entries into versioned balance snapshots, enforces the velocity limits,
  and writes everything in one statement; the events it publishes drive the rollup of eventually
  consistent balances. Account sets form a hierarchy whose shape is checked whenever a member is
  added and which every process caches, validated by an epoch. Effective balances keep, for every
  balance and date, the cumulative amounts as of that date, and are rewritten when a posting is
  back-dated.

  \<^bold>\<open>Conventions.\<close> A Rust struct is a record, an enum a datatype; a newtype over \<open>Uuid\<close> is a
  datatype over \<open>128 word\<close>, \<open>u32\<close> is \<open>32 word\<close>, an \<open>int4\<close> column is \<open>int\<close> and the cast between them
  is \<open>as_i32\<close>. \<open>Decimal\<close> is the type variable \<open>'d\<close>, a linearly ordered abelian group (addition,
  negation and order are all the ledger uses of it); examples take it to be \<open>int\<close>. Dates and
  times are integers. A fallible function returns \<open>error + value\<close>; one that can also panic returns
  an option of that, and \<open>None\<close> is the panic (\<open>pbind\<close>, \<open>pfold\<close>). A table is a list of rows, with its
  constraints checked where the statement writes it; a \<open>HashMap\<close> whose order is visible is a list
  with a permutation as a parameter. CEL parsing and evaluation, the parsers and printers of other
  crates, \<open>rusty_money\<close>'s tables, clocks and fresh identifiers are parameters, collected in
  environment records (\<open>cel_env\<close>, \<open>cel_lib\<close>, \<open>prep_env\<close>, \<open>velocity_env\<close>, \<open>posting_env\<close>).

  \<^bold>\<open>The theories.\<close>

  \<^item> \<open>Prelude\<close>: results and panics, association lists as hash maps (\<open>upsert\<close>, \<open>push_to\<close>),
    sorted vectors without duplicates, 32-bit versions. \<open>Versioned_Store\<close>: the locale
    \<open>versioned_store\<close> of an append-only history with one current row per key, interpreted on the
    balance tables (twice: for \<open>balance/repo.rs\<close> and \<open>posting/repo.rs\<close>) and on the velocity tables.
    \<open>Pagination\<close>: the locale \<open>keyset_listing\<close> of a listing by cursor, interpreted on four
    balance listings and, in \<open>Listings\<close>, on every listing sorted by a key.

  \<^item> \<open>Primitives\<close>: identifiers, enums, currencies, entries, balances (\<open>cala-ledger-core-types\<close>).
    \<open>Snapshots\<close>: \<open>balance/snapshot.rs\<close>, one entry folded into a snapshot and a batch into chains of
    snapshots; the locale \<open>versioned_step\<close> gives the versions of a chain. \<open>Account_Balance\<close>:
    \<open>balance/account_balance.rs\<close>. \<open>Balance_Store\<close>: \<open>balance/repo.rs\<close>.

  \<^item> \<open>Effective\<close>, \<open>Effective_Store\<close>: \<open>balance/effective/\<close>, the recomputation of the rows of a key and
    the statements over \<open>cala_cumulative_effective_balances\<close>. \<open>Effective_Correct\<close>,
    \<open>Effective_Table\<close>, \<open>Effective_Theorems\<close>: the table as a picture (\<open>represents\<close>) of a ledger that
    orders the entries of a key by effective date.

  \<^item> \<open>Cel\<close>, \<open>Params\<close>, \<open>Tx_Template\<close>, \<open>Tx_Template_Theorems\<close>: \<open>cala-cel-interpreter\<close>, \<open>param/\<close>,
    \<open>tx_template/\<close>: values, coercions, contexts, builders, and the preparation of a transaction.

  \<^item> \<open>Entities\<close>, \<open>Entity_Theorems\<close>: \<open>entity.rs\<close> of accounts, account sets, journals, transactions
    and entries: creation, hydration from events, updates. The locale \<open>event_sourced\<close> is the
    contract of an update, interpreted on the three entities that have one.

  \<^item> \<open>Membership\<close>: the tables of the membership graph. \<open>Graph_Validation\<close>: \<open>account_set/
    graph_validation.rs\<close>, Kahn's order, depths, the fold of ancestors and the search for the
    offending edge. \<open>Graph_Correct\<close>, \<open>Graph_Theorems\<close>: the validator decides exactly the
    combined graphs with unique walks, unique containment and bounded depth. \<open>Graph_Repo\<close>:
    \<open>account_set/repo.rs\<close>. \<open>Graph_Cache\<close>, \<open>Graph_Cache_Correct\<close>, \<open>Graph_Cache_Theorems\<close>:
    \<open>account_set/graph_cache.rs\<close>. \<open>Hierarchy\<close>, \<open>Local_Validation\<close>: when the hierarchy as a whole is
    sound, and why validating the part a new edge touches decides it.

  \<^item> \<open>Accounts\<close>, \<open>Account_Sets\<close>: \<open>account/\<close>, \<open>account_set/mod.rs\<close>, \<open>account_set_member/repo.rs\<close>.
    \<open>Set_World\<close>, \<open>Set_World_Theorems\<close>, \<open>Set_Flags\<close>: these operations as a transition system
    (\<open>op_step\<close>, \<open>world_step\<close>, \<open>reachable\<close>) over the committed tables, the one open operation that
    may change them, the shared snapshot and a refresh in progress, with its invariant.

  \<^item> \<open>Velocity\<close>, \<open>Velocity_Store\<close>, \<open>Velocity_Controls\<close>, \<open>Velocity_Correct\<close>, \<open>Velocity_Theorems\<close>:
    \<open>velocity/\<close>: controls and limits, their attachment, conditions and windows, the collection and
    enforcement of a batch, and the velocity tables.

  \<^item> \<open>Template_Cache\<close>, \<open>Posting_Repo\<close>, \<open>Posting\<close>: \<open>posting/template_cache.rs\<close>, \<open>posting/repo.rs\<close> and
    \<open>posting/mod.rs\<close>: the whole of \<open>post_all_in_op\<close> over \<open>ledger_db\<close>, the part of the database it
    touches. \<open>Posting_Fold\<close>, \<open>Posting_Correct\<close>, \<open>Posting_Books\<close>, \<open>Posting_Guards\<close>: each stage as a
    statement about the batch; \<open>Posting_Sample\<close> a ledger for the examples; \<open>Posting_Theorems\<close> the
    properties.

  \<^item> \<open>Ec_Rollup\<close>: \<open>ec_rollup.rs\<close> and the driver \<open>apply_ec_rollup_in_op\<close> of \<open>balance/mod.rs\<close>: a landing
    of outbox events is collected, completed from the stored entries, and folded journal by
    journal. \<open>Ec_Rollup_Correct\<close>: what the driver writes for one balance; \<open>Ec_Rollup_Batch\<close>: that the
    driver's input does not depend on how the stream was cut; \<open>Ec_Rollup_Theorems\<close>: the properties,
    and the composition with the posting flow.

  \<^item> \<open>Listings\<close>, \<open>Member_Listings\<close>, \<open>Listing_Theorems\<close>: the paginated statements written by hand, of
    \<open>entry/repo.rs\<close>, \<open>account_set/repo.rs\<close> and \<open>account_set_member/repo.rs\<close>.

  \<^bold>\<open>What is shown.\<close> For posting: a successful call appends to every balance exactly the chain of the
  entries that reach it (refinement of the ledger), in every state the services can reach and
  whatever the cache holds; it moves debits less credits over the accounts only by the entries it
  leaves to the rollup, and keeps a set the sum of its members; everything it
  writes is locked; a rejection names the first posting at fault, with its fault; a batch of more
  than 1000 balances is refused before anything is locked, and the locks of a statement are taken
  in one order (a template that moves in between adds a second statement, which is not limited).
  For the rollup: a posted batch and a landing of its transactions together
  extend every balance, inline or eventually consistent, by the entries that reach it, however the
  stream is cut, and leave debits less credits over all accounts as they were; an account locked
  in between stops it. For templates: preparation accepts exactly the balanced transactions. For the hierarchy: it
  stays sound in every reachable state, the cached answers are those of the recursive statements
  they replace, and a refresh restores them. For effective balances: a posting for any date
  refines insertion into the ledger, and the queries are sums over it. For velocity: a batch is
  accepted exactly when every snapshot it writes respects its limits. For tables and listings:
  current rows are the latest of their history, and following the cursors lists everything once,
  but for the members of an account set, whose cursors skip one member after every full page and,
  by external id, start over when that member has none; the change feed lists every tuple written
  since the watermark with its newest row among those.
  For values: round trips of JSON and of entity histories, and coercions that keep their type.

  \<^bold>\<open>Termination and bounds.\<close> The recursive statements of SQL (\<open>WITH RECURSIVE .. UNION\<close>) are
  \<open>union_walk\<close>, which adds at least one of finitely many rows in each round and so ends on every
  table, cyclic ones included. The counting walk of paths (\<open>UNION ALL\<close>) does not end on a
  cyclic graph: it is a \<open>partial_function\<close> whose value \<open>None\<close> says so, and it is proved to return in
  every reachable state. The breadth-first expansion of the cache, Kahn's loop and the search for
  the offending edge run on measures; no definition carries fuel. \<open>MAX_DISTINCT_BALANCES_PER_BATCH\<close> (1000),
  \<open>INSERT_SNAPSHOT_BATCH_SIZE\<close> (5000) and the depth bound 16 are the code's own. Versions are \<open>u32\<close>
  stored as \<open>int4\<close>; where a statement needs that they do not reach the sign bit it says so
  (\<open>has_version_room\<close>).

  \<^bold>\<open>Not modelled.\<close> Connections, transactions and advisory locks as such: a statement runs on the
  tables of its operation, operations that change the membership graph are serialised as the
  exclusive lock does, and the locks of a posting are the list of what it takes, in order. The
  repositories that \<open>es_entity\<close> generates (\<open>find_by_id\<close>, \<open>find_all\<close> and their listings) are lookups in
  the tables. The thin services over them (\<open>journal/mod.rs\<close>, \<open>transaction/mod.rs\<close>, \<open>entry/mod.rs\<close>),
  the facade and its configuration (\<open>ledger/\<close>), the outbox publisher, tracing, serialisation of
  rows, migrations, examples, benches and the performance crate hold no logic
  of the ledger's own beyond the calls modelled here.
\<close>

end
